(* ===== verification/EbbPrelude.thy ===== *)
theory EbbPrelude
  imports Main "HOL-Library.Word" "HOL-Library.Code_Target_Nat"
begin

text \<open>
  Shared vocabulary of the development.

  \<^item> \<open>fault\<close> and \<open>result\<close>: every way the C++ code stops instead of returning.  A failed
    \<open>kassert\<close>, a \<open>kbugon\<close> or \<open>kabort\<close>, a thrown exception, and an operation whose C++
    precondition is violated are values of \<open>fault\<close>; \<open>bindr\<close> sequences calls.
  \<^item> machine integers: \<open>u64\<close>, the modulus of \<open>uint64_t\<close> and \<open>uintptr_t\<close> where a model keeps
    a \<^typ>\<open>nat\<close> with the wrap-around written out; \<open>8 word\<close>, \<open>16 word\<close>, \<open>32 word\<close> elsewhere.
  \<^item> generic lemmas on lists, options and words used by several components, and the
    collections \<open>fault_simps\<close> (sequencing) and \<open>ebb_defs\<close>.
\<close>

unbundle bit_operations_syntax

named_theorems fault_simps \<open>sequencing of fallible operations\<close>

section \<open>Faults and sequencing\<close>

datatype fault =
    KAssert string    \<comment> \<open>a \<open>kassert\<close> whose condition is false\<close>
  | KAbort string     \<comment> \<open>\<open>kabort\<close>, or \<open>kbugon\<close> with a true condition\<close>
  | Throw string      \<comment> \<open>a C++ exception\<close>
  | Undefined string  \<comment> \<open>a violated precondition of the language or of a container\<close>

type_synonym 'a result = "fault + 'a"

definition bindr :: "'a result \<Rightarrow> ('a \<Rightarrow> 'b result) \<Rightarrow> 'b result" where
  "bindr m f = (case m of Inl e \<Rightarrow> Inl e | Inr x \<Rightarrow> f x)"

lemma bindr_Inr [simp, fault_simps]: "bindr (Inr x) f = f x"
  by (simp add: bindr_def)

lemma bindr_Inl [simp, fault_simps]: "bindr (Inl e) f = Inl e"
  by (simp add: bindr_def)

lemma bindr_eq_Inr_iff [fault_simps]:
  "bindr m f = Inr y \<longleftrightarrow> (\<exists>x. m = Inr x \<and> f x = Inr y)"
  by (cases m) simp_all

lemma bindr_assoc: "bindr (bindr m f) g = bindr m (\<lambda>x. bindr (f x) g)"
  by (cases m) simp_all

lemma bindr_cong [fundef_cong]:
  "m = m' \<Longrightarrow> (\<And>x. m' = Inr x \<Longrightarrow> f x = f' x) \<Longrightarrow> bindr m f = bindr m' f'"
  by (cases m') simp_all

section \<open>Machine integers\<close>

abbreviation u64 :: nat where "u64 \<equiv> 2 ^ 64"

abbreviation u32 :: nat where "u32 \<equiv> 2 ^ 32"

abbreviation u16 :: nat where "u16 \<equiv> 2 ^ 16"

type_synonym byte = "8 word"

lemma or_nat_less: "a < 2 ^ n \<Longrightarrow> b < 2 ^ n \<Longrightarrow> a OR b < (2 :: nat) ^ n"
  by (simp add: take_bit_or flip: take_bit_nat_eq_self_iff)

end
