(* ===== verification/PhysMem.thy ===== *)
theory PhysMem
  imports EbbPrelude
begin

text \<open>
  Page geometry: \<open>src/src/native/PMem.h\<close>, \<open>src/src/native/Pfn.h\<close> and
  \<open>src/src/Align.h\<close>.  A \<open>Pfn\<close> is its \<open>uintptr_t\<close>, kept as a natural number below \<open>2 ^ 64\<close>
  with the wrap-around of the shifts and sums written out.
\<close>

type_synonym pfn = nat

definition kPageShift :: nat where "kPageShift = 12"

definition kPageSize :: nat where "kPageSize = 2 ^ kPageShift"

definition kLargePageShift :: nat where "kLargePageShift = 21"

definition kLargePageSize :: nat where "kLargePageSize = 2 ^ kLargePageShift"

definition Pfn_None :: pfn where "Pfn_None = u64 - 1"

definition Pfn_Up :: "nat \<Rightarrow> pfn" where
  "Pfn_Up addr = drop_bit kPageShift ((addr + kPageSize - 1) mod u64)"

definition Pfn_Down :: "nat \<Rightarrow> pfn" where
  "Pfn_Down addr = drop_bit kPageShift addr"

definition Pfn_LDown :: "nat \<Rightarrow> pfn" where
  "Pfn_LDown addr = drop_bit kLargePageShift addr"

definition ToAddr :: "pfn \<Rightarrow> nat" where
  "ToAddr p = push_bit kPageShift p mod u64"

definition ToLAddr :: "pfn \<Rightarrow> nat" where
  "ToLAddr p = push_bit kLargePageShift p mod u64"

text \<open>\<open>align::Down\<close> and \<open>align::Up\<close>, at the width of the value type.\<close>

definition align_Down :: "'a::len word \<Rightarrow> 'a word \<Rightarrow> 'a word" where
  "align_Down val alignment = val AND NOT (alignment - 1)"

definition align_Up :: "'a::len word \<Rightarrow> 'a word \<Rightarrow> 'a word" where
  "align_Up val alignment = align_Down (val + alignment - 1) alignment"

section \<open>Alignment and frame arithmetic\<close>

lemma power_minus_1_mask: "(2 :: 'a::len word) ^ m - 1 = mask m"
  by (simp add: mask_eq_exp_minus_1)

lemma and_not_mask_eq: "x AND NOT (mask m) = push_bit m (drop_bit m (x :: 'a::len word))"
  by (rule bit_eqI) (auto simp: bit_simps)

lemma unat_and_not_mask:
  "unat (x AND NOT (mask m) :: 'a::len word) = unat x div 2 ^ m * 2 ^ m"
proof -
  have "unat (push_bit m (drop_bit m x)) = take_bit LENGTH('a) (push_bit m (drop_bit m (unat x)))"
    by (simp add: unsigned_push_bit_eq unsigned_drop_bit_eq take_bit_nat_eq_self)
  also have "\<dots> = push_bit m (drop_bit m (unat x))"
  proof -
    have "push_bit m (drop_bit m (unat x)) \<le> unat x"
      by (simp add: push_bit_eq_mult drop_bit_eq_div)
    then show ?thesis by (intro take_bit_nat_eq_self) (use unsigned_less [of x] in \<open>auto elim: order_le_less_trans\<close>)
  qed
  finally show ?thesis by (simp add: and_not_mask_eq push_bit_eq_mult drop_bit_eq_div)
qed

lemma unat_align_Down:
  "unat (align_Down val (2 ^ m)) = unat val div 2 ^ m * 2 ^ m"
  by (simp add: align_Down_def power_minus_1_mask unat_and_not_mask)

lemma unat_align_Up:
  fixes val :: "'a::len word"
  assumes "unat val + 2 ^ m \<le> 2 ^ LENGTH('a)" "m < LENGTH('a)"
  shows "unat (align_Up val (2 ^ m)) = (unat val + 2 ^ m - 1) div 2 ^ m * 2 ^ m"
proof -
  have "unat (val + 2 ^ m - 1) = unat val + 2 ^ m - 1"
  proof -
    have "val + 2 ^ m - 1 = of_nat (unat val + 2 ^ m - 1)"
      by (subst of_nat_diff) (simp_all add: Suc_le_eq)
    moreover have "0 < (2 :: nat) ^ m" by simp
    then have "unat val + 2 ^ m - 1 < 2 ^ LENGTH('a)" using assms(1) by linarith
    ultimately show ?thesis by (simp add: unsigned_of_nat take_bit_nat_eq_self)
  qed
  then show ?thesis by (simp add: align_Up_def unat_align_Down)
qed

lemma round_up_least:
  fixes x k :: nat assumes "0 < k"
  defines "u \<equiv> (x + k - 1) div k * k"
  shows "k dvd u" "x \<le> u" "u < x + k"
proof -
  show "k dvd u" by (simp add: u_def)
  have "u + (x + k - 1) mod k = x + k - 1" unfolding u_def by simp
  moreover have "(x + k - 1) mod k < k" using assms by simp
  ultimately show "x \<le> u" "u < x + k" using assms by linarith+
qed

lemma ToAddr_val: "p < 2 ^ 52 \<Longrightarrow> ToAddr p = p * 4096"
  by (simp add: ToAddr_def kPageShift_def push_bit_eq_mult)

lemma Pfn_Down_ToAddr: "p < 2 ^ 52 \<Longrightarrow> Pfn_Down (ToAddr p) = p"
  by (simp add: ToAddr_val Pfn_Down_def kPageShift_def drop_bit_eq_div)

lemma Pfn_Up_ToAddr: "p < 2 ^ 52 \<Longrightarrow> Pfn_Up (ToAddr p) = p"
  by (simp add: ToAddr_val Pfn_Up_def kPageShift_def kPageSize_def drop_bit_eq_div)

lemma Pfn_Up_Down_bracket:
  assumes "addr + 4096 \<le> u64"
  shows "ToAddr (Pfn_Down addr) \<le> addr \<and> addr < ToAddr (Pfn_Down addr) + 4096 \<and>
    addr \<le> ToAddr (Pfn_Up addr) \<and> ToAddr (Pfn_Up addr) < addr + 4096"
proof -
  have "Pfn_Down addr < 2 ^ 52" "Pfn_Up addr < 2 ^ 52"
    using assms by (auto simp: Pfn_Down_def Pfn_Up_def kPageShift_def kPageSize_def drop_bit_eq_div)
  moreover have "Pfn_Down addr = addr div 4096" "Pfn_Up addr = (addr + 4096 - 1) div 4096"
    using assms by (auto simp: Pfn_Down_def Pfn_Up_def kPageShift_def kPageSize_def drop_bit_eq_div)
  moreover have "addr div 4096 * 4096 \<le> addr" "addr < addr div 4096 * 4096 + 4096"
    using div_mult_mod_eq [of addr 4096] mod_less_divisor [of 4096 addr] by linarith+
  ultimately show ?thesis using round_up_least [of 4096 addr] by (simp add: ToAddr_val)
qed

end
