(* ===== verification/BuddyArith.thy ===== *)
theory BuddyArith
  imports PhysMem
begin

text \<open>
  Arithmetic of naturally aligned power-of-two blocks, the geometry under the buddy page
  allocator: the block of a base and an order, the buddy \<open>p XOR 2 ^ k\<close> of
  \<open>PageAllocator::PfnToBuddy\<close>, nesting of aligned blocks, and the merge of two buddies.
\<close>

named_theorems blk_simps \<open>membership and geometry of aligned blocks\<close>

definition blk :: "pfn \<Rightarrow> nat \<Rightarrow> pfn set" where
  "blk p k = {p..<p + 2 ^ k}"

definition PfnToBuddy :: "pfn \<Rightarrow> nat \<Rightarrow> pfn" where
  "PfnToBuddy p order = p XOR (2 ^ order)"

lemma mem_blk [blk_simps]: "x \<in> blk p k \<longleftrightarrow> p \<le> x \<and> x < p + 2 ^ k"
  by (simp add: blk_def)

lemma base_in_blk [simp, intro]: "p \<in> blk p k"
  by (simp add: blk_def)

lemma finite_blk [simp]: "finite (blk p k)"
  by (simp add: blk_def)

lemma card_blk [simp]: "card (blk p k) = 2 ^ k"
  by (simp add: blk_def)

lemma PfnToBuddy_flip: "PfnToBuddy p k = flip_bit k p"
  by (simp add: PfnToBuddy_def flip_bit_eq_xor)

lemma PfnToBuddy_if:
  "PfnToBuddy p k = (if bit p k then p - 2 ^ k else p + 2 ^ k)"
proof (cases "bit p k")
  case True
  have "p = set_bit k (unset_bit k p)" using True
    by (intro bit_eqI) (auto simp: bit_simps)
  also have "\<dots> = unset_bit k p + 2 ^ k" by (simp add: set_bit_eq bit_simps)
  finally show ?thesis using True by (simp add: PfnToBuddy_flip flip_bit_eq_if)
qed (simp add: PfnToBuddy_flip flip_bit_eq_if set_bit_eq)

lemma PfnToBuddy_involution [simp]: "PfnToBuddy (PfnToBuddy p k) k = p"
  by (simp add: PfnToBuddy_def xor.assoc)

lemma aligned_cases:
  assumes "2 ^ k dvd (p :: nat)"
  obtains (even) m where "p = 2 ^ k * (2 * m)" "PfnToBuddy p k = p + 2 ^ k"
  | (odd) m where "p = 2 ^ k * (2 * m + 1)" "PfnToBuddy p k = 2 ^ k * (2 * m)"
proof -
  from assms obtain n where n: "p = 2 ^ k * n" by (auto elim: dvdE)
  have b: "bit p k \<longleftrightarrow> odd n"
    by (simp add: n bit_iff_odd)
  show thesis
  proof (cases "even n")
    case True
    then show thesis using that(1) [of "n div 2"] n b by (auto simp: PfnToBuddy_if)
  next
    case False
    then show thesis using that(2) [of "n div 2"] n b
      by (auto simp: PfnToBuddy_if algebra_simps elim!: oddE)
  qed
qed

lemma PfnToBuddy_aligned [blk_simps]:
  "2 ^ k dvd p \<Longrightarrow> 2 ^ k dvd PfnToBuddy p k"
  by (erule aligned_cases) auto

lemma PfnToBuddy_neq [simp]: "PfnToBuddy p k \<noteq> p"
proof
  assume "PfnToBuddy p k = p"
  then have "p XOR 2 ^ k = p XOR 0" by (simp add: PfnToBuddy_def)
  then have "(2 :: nat) ^ k = 0" by (metis xor.assoc xor_self_eq xor.left_neutral)
  then show False by simp
qed

lemma PfnToBuddy_upper [simp]: "2 ^ Suc k dvd p \<Longrightarrow> PfnToBuddy p k = p + 2 ^ k"
proof -
  assume a: "2 ^ Suc k dvd p"
  then have "2 ^ k dvd p" by (meson dvd_trans le_imp_power_dvd le_SucI order_refl)
  moreover have "even (p div 2 ^ k)" using a by (auto elim!: dvdE)
  ultimately show ?thesis by (simp add: PfnToBuddy_if bit_iff_odd)
qed

lemma aligned_min_buddy:
  assumes "2 ^ k dvd p"
  shows "2 ^ Suc k dvd min p (PfnToBuddy p k)"
  using assms by (rule aligned_cases) (auto simp: min_def)

lemma blk_merge:
  assumes "2 ^ k dvd p"
  shows "blk (min p (PfnToBuddy p k)) (Suc k) = blk p k \<union> blk (PfnToBuddy p k) k"
  using assms by (rule aligned_cases) (auto simp: min_def blk_def)

lemma blk_buddy_disjoint:
  assumes "2 ^ k dvd p"
  shows "blk p k \<inter> blk (PfnToBuddy p k) k = {}"
  using assms by (rule aligned_cases) (auto simp: blk_def)

lemma blk_split:
  "blk p (Suc k) = blk p k \<union> blk (p + 2 ^ k) k"
  by (auto simp: blk_def)

lemma mem_blk_div:
  assumes "2 ^ k dvd p"
  shows "x \<in> blk p k \<longleftrightarrow> x div 2 ^ k = p div 2 ^ k"
proof -
  from assms obtain n where n: "p = 2 ^ k * n" by (auto elim: dvdE)
  have "x div 2 ^ k = n \<longleftrightarrow> 2 ^ k * n \<le> x \<and> x < 2 ^ k * n + 2 ^ k"
    by (metis add.commute div_less_iff_less_mult div_nat_eqI less_eq_div_iff_mult_less_eq
        mult.commute mult_Suc_right order_refl zero_less_numeral zero_less_power less_Suc_eq_le)
  then show ?thesis by (auto simp: n mem_blk)
qed

lemma div_power_mono:
  assumes "x div 2 ^ k = y div (2 ^ k :: nat)" "k \<le> j"
  shows "x div 2 ^ j = y div 2 ^ j"
proof -
  have "(2 :: nat) ^ j = 2 ^ k * 2 ^ (j - k)" using assms(2) by (simp flip: power_add)
  then show ?thesis using assms(1) by (simp add: div_mult2_eq)
qed

lemma blk_nest:
  assumes "2 ^ k dvd p" "2 ^ j dvd c" "k \<le> j" "blk c j \<inter> blk p k \<noteq> {}"
  shows "blk p k \<subseteq> blk c j"
proof
  fix y assume y: "y \<in> blk p k"
  from assms(4) obtain x where x: "x \<in> blk c j" "x \<in> blk p k" by auto
  have "x div 2 ^ k = y div 2 ^ k" using x(2) y assms(1) by (simp add: mem_blk_div)
  then have "x div 2 ^ j = y div 2 ^ j" using assms(3) by (rule div_power_mono)
  then show "y \<in> blk c j" using x(1) assms(2) by (simp add: mem_blk_div)
qed

text \<open>A block that holds the base of \<open>p\<close>'s buddy strictly inside also holds \<open>p\<close>.\<close>

lemma blk_holds_buddy:
  assumes "2 ^ k dvd p" "2 ^ j dvd c" "PfnToBuddy p k \<in> blk c j" "PfnToBuddy p k \<noteq> c"
  shows "p \<in> blk c j"
proof (cases "j \<le> k")
  case True
  let ?b = "PfnToBuddy p k"
  have "2 ^ k dvd ?b" using assms(1) by (rule PfnToBuddy_aligned)
  then have "2 ^ j dvd ?b" using True by (meson dvd_trans le_imp_power_dvd)
  moreover have "?b div 2 ^ j = c div 2 ^ j" using assms(2,3) by (simp add: mem_blk_div)
  ultimately have "?b = c" using assms(2) by (metis dvd_div_mult_self)
  then show ?thesis using assms(4) by simp
next
  case False
  let ?m = "min p (PfnToBuddy p k)"
  have "blk ?m (Suc k) \<subseteq> blk c j"
  proof (rule blk_nest)
    show "2 ^ Suc k dvd ?m" using assms(1) by (rule aligned_min_buddy)
    show "blk c j \<inter> blk ?m (Suc k) \<noteq> {}" using assms(1,3) by (auto simp: blk_merge)
  qed (use False assms(2) in auto)
  then show ?thesis using assms(1) by (auto simp: blk_merge)
qed

lemma blk_chunk:
  assumes "2 ^ k dvd p" "k \<le> n" "x \<in> blk p k"
  shows "x div 2 ^ n = p div 2 ^ n"
  using assms by (auto simp: mem_blk_div intro: div_power_mono)

lemma buddy_chunk:
  assumes "2 ^ k dvd p" "k < n"
  shows "PfnToBuddy p k div 2 ^ n = p div 2 ^ n"
proof -
  let ?m = "min p (PfnToBuddy p k)"
  have "\<And>x. x \<in> {p, PfnToBuddy p k} \<Longrightarrow> x div 2 ^ n = ?m div 2 ^ n"
    using aligned_min_buddy [OF assms(1)] assms
    by (intro blk_chunk [where k = "Suc k"]) (auto simp: blk_merge)
  then show ?thesis by simp
qed

end
