(* ===== verification/MemMap.thy ===== *)
theory MemMap
  imports PhysMem
begin

text \<open>
  The page descriptors of \<open>src/src/native/MemMap.h\<close>.  The allocators see the memory map as
  a partial function from frame numbers to \<open>Page\<close> descriptors: \<open>None\<close> is the null pointer
  that \<open>PfnToPage\<close> returns for a frame with no section.
\<close>

datatype usage = kReserved | kPageAllocator | kSlabAllocator | kInUse

record page =
  usage :: usage
  nid :: nat
  order :: nat

type_synonym mem_map = "pfn \<Rightarrow> page option"

definition Page_init :: "nat \<Rightarrow> page" where
  "Page_init n = \<lparr>usage = kReserved, nid = n mod 256, order = 0\<rparr>"

end
