(* ===== verification/ResourceSpec.thy ===== *)
theory ResourceSpec
  imports EbbPrelude
begin

text \<open>
  The contract of an allocator.  Page frames, port numbers, Ebb identifiers and ring
  descriptors are all handed out and taken back under the same promise: what is handed out
  does not clash with anything a client still holds, and giving back what was handed out
  never fails.  The contract is stated once, and its consequence for every history of
  requests is proved once; each component discharges the laws for its own operations.
\<close>

datatype ('q, 'r) request = Acquire 'q | Return 'r

text \<open>
  A history against an allocator with the live set kept beside it.  A client returns only
  what it holds: a \<open>Return\<close> of anything else is not a request the contract speaks about, and
  is skipped.
\<close>

fun serve :: "('q \<Rightarrow> 's \<Rightarrow> ('r option \<times> 's) result) \<Rightarrow> ('r \<Rightarrow> 's \<Rightarrow> 's result) \<Rightarrow>
    ('q, 'r) request list \<Rightarrow> 's \<Rightarrow> 'r set \<Rightarrow> ('s \<times> 'r set) result" where
  "serve acq ret [] s L = Inr (s, L)"
| "serve acq ret (Acquire q # rs) s L =
     bindr (acq q s) (\<lambda>(r, s'). serve acq ret rs s' (case r of None \<Rightarrow> L | Some x \<Rightarrow> insert x L))"
| "serve acq ret (Return x # rs) s L =
     (if x \<in> L then bindr (ret x s) (\<lambda>s'. serve acq ret rs s' (L - {x}))
      else serve acq ret rs s L)"

locale allocator =
  fixes acq :: "'q \<Rightarrow> 's \<Rightarrow> ('r option \<times> 's) result"
    and ret :: "'r \<Rightarrow> 's \<Rightarrow> 's result"
    and inv :: "'s \<Rightarrow> 'r set \<Rightarrow> bool"
    and clash :: "'r \<Rightarrow> 'r \<Rightarrow> bool"
  assumes acq_ok: "inv s L \<Longrightarrow> \<exists>r s'. acq q s = Inr (r, s') \<and>
      (case r of None \<Rightarrow> inv s' L | Some x \<Rightarrow> x \<notin> L \<and> inv s' (insert x L))"
    and ret_ok: "inv s L \<Longrightarrow> x \<in> L \<Longrightarrow> \<exists>s'. ret x s = Inr s' \<and> inv s' (L - {x})"
    and live_apart: "inv s L \<Longrightarrow> x \<in> L \<Longrightarrow> y \<in> L \<Longrightarrow> x \<noteq> y \<Longrightarrow> \<not> clash x y"
begin

lemma serve_ok:
  assumes "inv s L"
  shows "\<exists>s' L'. serve acq ret rs s L = Inr (s', L') \<and> inv s' L'"
  using assms
proof (induction rs arbitrary: s L)
  case (Cons req rs)
  show ?case
  proof (cases req)
    case (Acquire q)
    from acq_ok [OF Cons.prems, of q] obtain r s' where
      1: "acq q s = Inr (r, s')" "case r of None \<Rightarrow> inv s' L | Some x \<Rightarrow> x \<notin> L \<and> inv s' (insert x L)"
      by blast
    then have "inv s' (case r of None \<Rightarrow> L | Some x \<Rightarrow> insert x L)" by (cases r) auto
    then show ?thesis using Cons.IH 1(1) by (simp add: Acquire)
  next
    case (Return x)
    show ?thesis
    proof (cases "x \<in> L")
      case True
      with ret_ok [OF Cons.prems] Cons.IH show ?thesis by (fastforce simp: Return)
    qed (use Cons in \<open>simp add: Return\<close>)
  qed
qed simp

lemma serve_live_apart:
  assumes "inv s L" "serve acq ret rs s L = Inr (s', L')" "x \<in> L'" "y \<in> L'" "x \<noteq> y"
  shows "\<not> clash x y"
  using serve_ok [OF assms(1), of rs] assms live_apart by auto

lemma acq_fresh:
  assumes "inv s L" "acq q s = Inr (Some x, s')"
  shows "x \<notin> L" "inv s' (insert x L)" "\<forall>y \<in> L. \<not> clash x y \<and> \<not> clash y x"
proof -
  from acq_ok [OF assms(1), of q] assms(2) show 1: "x \<notin> L" "inv s' (insert x L)" by auto
  show "\<forall>y \<in> L. \<not> clash x y \<and> \<not> clash y x"
    using live_apart [OF 1(2)] 1(1) by (metis insertCI)
qed

end

end
