(* ===== verification/PageAllocator.thy ===== *)
theory PageAllocator
  imports BuddyArith MemMap ResourceSpec
begin

text \<open>
  The buddy page allocator of one NUMA node: \<open>src/src/native/PageAllocator.h\<close> and
  \<open>PageAllocator.cc\<close>.  The state holds the array of free lists, one per order, and the
  shared page descriptors.  The spin lock serialises the operations, so each is one step.
  The intrusive lists are lists of frame numbers (a \<open>FreePage\<close> is the page it lies in).
\<close>

section \<open>State and operations\<close>

definition kMaxOrder :: nat where "kMaxOrder = 11"

record pa_state =
  free_page_lists :: "pfn list list"
  pages :: mem_map

text \<open>\<open>page->usage = kPageAllocator; page->data.order = order\<close>, after \<open>kassert(page != nullptr)\<close>.\<close>

definition FreePageNoCoalesce :: "pfn \<Rightarrow> nat \<Rightarrow> pa_state \<Rightarrow> pa_state result" where
  "FreePageNoCoalesce p k st =
    (if length (free_page_lists st) \<le> k then Inl (Undefined ''free_page_lists[order]'')
     else case pages st p of
       None \<Rightarrow> Inl (KAssert ''page != nullptr'')
     | Some pg \<Rightarrow> Inr (st
         \<lparr>free_page_lists := (free_page_lists st)[k := p # free_page_lists st ! k],
          pages := (pages st)(p \<mapsto> pg\<lparr>usage := kPageAllocator, order := k\<rparr>)\<rparr>))"

text \<open>The search loop of \<open>AllocLocal\<close>: the first order with a page below \<open>max_addr\<close>.\<close>

function AllocFind :: "nat \<Rightarrow> nat \<Rightarrow> pfn list list \<Rightarrow> (nat \<times> pfn) option" where
  "AllocFind this_order max_addr ls =
    (if kMaxOrder < this_order then None
     else case find (\<lambda>p. ToAddr p < max_addr) (ls ! this_order) of
       Some p \<Rightarrow> Some (this_order, p)
     | None \<Rightarrow> AllocFind (Suc this_order) max_addr ls)"
  by auto
termination
  by (relation "measure (\<lambda>(i, _, _). Suc kMaxOrder - i)") auto

declare AllocFind.simps [simp del]

text \<open>The splitting loop of \<open>AllocLocal\<close>: give back the upper half at each lower order.\<close>

primrec AllocSplit :: "nat \<Rightarrow> nat \<Rightarrow> pfn \<Rightarrow> pa_state \<Rightarrow> pa_state result" where
  "AllocSplit 0 ord fp st =
    (if 0 = ord then Inr st else Inl (Undefined ''--this_order below zero''))"
| "AllocSplit (Suc k) ord fp st =
    (if Suc k = ord then Inr st
     else bindr (FreePageNoCoalesce (PfnToBuddy fp k) k st) (AllocSplit k ord fp))"

definition AllocLocal :: "nat \<Rightarrow> nat \<Rightarrow> pa_state \<Rightarrow> (pfn \<times> pa_state) result" where
  "AllocLocal ord max_addr st =
    (case AllocFind ord max_addr (free_page_lists st) of
       None \<Rightarrow> Inr (Pfn_None, st)
     | Some (this_order, fp) \<Rightarrow>
         (let ls = free_page_lists st;
              st1 = st\<lparr>free_page_lists := ls[this_order := remove1 fp (ls ! this_order)]\<rparr>
          in bindr (AllocSplit this_order ord fp st1) (\<lambda>st2.
             case pages st2 fp of
               None \<Rightarrow> Inl (KAssert ''page != nullptr'')
             | Some pg \<Rightarrow>
                 Inr (fp, st2\<lparr>pages := (pages st2)(fp \<mapsto> pg\<lparr>usage := kInUse\<rparr>)\<rparr>))))"

text \<open>The coalescing loop of \<open>Free\<close>; it stops at \<open>kMaxOrder\<close> or at a buddy that is not free.\<close>

function FreeCoalesce :: "pfn \<Rightarrow> nat \<Rightarrow> pa_state \<Rightarrow> (pfn \<times> nat \<times> pa_state) result" where
  "FreeCoalesce p k st =
    (if kMaxOrder \<le> k then Inr (p, k, st)
     else let buddy = PfnToBuddy p k in
       case pages st buddy of
         None \<Rightarrow> Inr (p, k, st)
       | Some pg \<Rightarrow>
           if usage pg \<noteq> kPageAllocator \<or> order pg \<noteq> k then Inr (p, k, st)
           else let ls = free_page_lists st in
             if buddy \<notin> set (ls ! k) then Inl (Undefined ''iterator_to: not in this list'')
             else FreeCoalesce (min p buddy) (Suc k)
               (st\<lparr>free_page_lists := ls[k := remove1 buddy (ls ! k)]\<rparr>))"
  by auto
termination
  by (relation "measure (\<lambda>(_, k, _). kMaxOrder - k)") auto

declare FreeCoalesce.simps [simp del]

definition Free :: "pfn \<Rightarrow> nat \<Rightarrow> pa_state \<Rightarrow> pa_state result" where
  "Free p k st =
    (if kMaxOrder < k then Inl (KAssert ''order <= kMaxOrder'')
     else bindr (FreeCoalesce p k st) (\<lambda>(p', k', st'). FreePageNoCoalesce p' k' st'))"

text \<open>\<open>Alloc\<close> dispatches on the node; every node's allocator shares the page descriptors.\<close>

record pa_system =
  allocators :: "pfn list list list"
  all_pages :: mem_map

definition Alloc :: "nat \<Rightarrow> nat \<Rightarrow> nat \<Rightarrow> pa_system \<Rightarrow> (pfn \<times> pa_system) result" where
  "Alloc ord n max_addr sys =
    (if length (allocators sys) \<le> n then Inl (Undefined ''allocators[nid]'')
     else bindr (AllocLocal ord max_addr
                  \<lparr>free_page_lists = allocators sys ! n, pages = all_pages sys\<rparr>)
       (\<lambda>(p, st). Inr (p, \<lparr>allocators = (allocators sys)[n := free_page_lists st],
                           all_pages = pages st\<rparr>)))"

section \<open>The self-check of the PAGE_CHECKER build\<close>

definition Validate :: "pa_state \<Rightarrow> bool" where
  "Validate st = (\<forall>i \<in> set [0..<Suc kMaxOrder]. \<forall>p \<in> set (free_page_lists st ! i).
     (case pages st p of None \<Rightarrow> False
      | Some pg \<Rightarrow> usage pg = kPageAllocator \<and> order pg = i) \<and>
     (\<forall>j \<in> set [0..<Suc kMaxOrder]. \<forall>q \<in> set (free_page_lists st ! j).
        \<not> (\<not> (p = q \<and> i = j) \<and>
           (p \<le> q \<and> q < p + 2 ^ i \<or> q \<le> p \<and> p < q + 2 ^ j))))"

text \<open>
  \<open>AllocateAndCheck\<close> keeps \<open>allocations_\<close> sorted by \<open>operator<\<close>; \<open>std::lower_bound\<close> skips the
  elements that are less than the new one.
\<close>

definition Allocation_less :: "pfn \<times> nat \<Rightarrow> pfn \<times> nat \<Rightarrow> bool" where
  "Allocation_less a b \<longleftrightarrow> fst a + snd a \<le> fst b"

definition AllocateAndCheck :: "pfn \<Rightarrow> nat \<Rightarrow> (pfn \<times> nat) list \<Rightarrow> (pfn \<times> nat) list option" where
  "AllocateAndCheck p k as =
    (let a = (p, 2 ^ k); before = takeWhile (\<lambda>x. Allocation_less x a) as;
         rest = dropWhile (\<lambda>x. Allocation_less x a) as
     in if rest \<noteq> [] \<and> \<not> Allocation_less a (hd rest) then None
        else Some (before @ a # rest))"

definition Release :: "pfn \<Rightarrow> nat \<Rightarrow> (pfn \<times> nat) list \<Rightarrow> (pfn \<times> nat) list option" where
  "Release p k as = (if (p, 2 ^ k) \<in> set as then Some (remove1 (p, 2 ^ k) as) else None)"

section \<open>Start-up: the ranges of the early allocator\<close>

definition EarlyFreePage :: "pfn \<Rightarrow> nat \<Rightarrow> pa_state \<Rightarrow> pa_state result" where
  "EarlyFreePage start k st =
    (if kMaxOrder < k then Inl (KAssert ''order <= kMaxOrder'')
     else FreePageNoCoalesce start k st)"

text \<open>\<open>__builtin_clz\<close> and \<open>__builtin_ctz\<close> on \<open>unsigned int\<close>; both are undefined at zero.\<close>

fun bit_width :: "nat \<Rightarrow> nat" where
  "bit_width n = (if n = 0 then 0 else Suc (bit_width (n div 2)))"

declare bit_width.simps [simp del]

definition builtin_clz :: "nat \<Rightarrow> nat" where
  "builtin_clz n = 32 - bit_width (n mod u32)"

fun builtin_ctz :: "nat \<Rightarrow> nat" where
  "builtin_ctz n = (if n = 0 \<or> odd n then 0 else Suc (builtin_ctz (n div 2)))"

declare builtin_ctz.simps [simp del]

text \<open>The two loops of the lambda that \<open>Init\<close> passes to \<open>ReleaseFreePages\<close>.\<close>

function InitUp :: "pfn \<Rightarrow> pfn \<Rightarrow> pa_state \<Rightarrow> pa_state result" where
  "InitUp p dv st =
    (if p = dv then Inr st
     else if \<not> p < dv then Inl (KAssert ''pfn.val() < divide'')
     else if p mod u32 = 0 then Inl (Undefined ''__builtin_ctz(0)'')
     else let k = min kMaxOrder (builtin_ctz (p mod u32)) in
       bindr (EarlyFreePage p k st) (InitUp (p + 2 ^ k) dv))"
  by auto
termination
  by (relation "measure (\<lambda>(p, d, _). d - p)") (auto intro!: diff_less_mono2)

declare InitUp.simps [simp del]

function InitDown :: "pfn \<Rightarrow> pfn \<Rightarrow> pa_state \<Rightarrow> pa_state result" where
  "InitDown p fin st =
    (if p = fin then Inr st
     else if \<not> p < fin then Inl (KAssert ''pfn < end'')
     else if (fin - p) mod u32 = 0 then Inl (Undefined ''__builtin_clz(0)'')
     else let k = min kMaxOrder (32 - builtin_clz (fin - p) - 1) in
       bindr (EarlyFreePage p k st) (InitDown (p + 2 ^ k) fin))"
  by auto
termination
  by (relation "measure (\<lambda>(p, e, _). e - p)") (auto intro!: diff_less_mono2)

declare InitDown.simps [simp del]

definition InitRange :: "pfn \<Rightarrow> pfn \<Rightarrow> pa_state \<Rightarrow> pa_state result" where
  "InitRange start fin st =
    (let n = (fin + u64 - start) mod u64 in
     if n = 0 then Inl (KAssert ''end - start != 0'')
     else if n mod u32 = 0 then Inl (Undefined ''__builtin_clz(0)'')
     else if 2 ^ 31 \<le> n mod u32 then Inl (Undefined ''1 << 31'')
     else let largest_pow2 = 2 ^ (32 - builtin_clz n - 1);
              dv = unat (align_Up (of_nat start :: 64 word) (of_nat largest_pow2))
       in bindr (InitUp start dv st) (InitDown dv fin))"

section \<open>Blocks and the allocator invariant\<close>

text \<open>
  \<open>free_blocks\<close> abstracts the free lists to a set of (base, order) blocks.  The invariant
  \<open>pa_inv T st A H\<close> speaks of the territory \<open>T\<close> of the node (the frames of the aligned
  maximal blocks it manages), the blocks \<open>A\<close> held by clients, and the blocks \<open>H\<close> in the
  hand of a running operation: no two blocks overlap, a free block is marked with its
  order, an allocated one is not marked free, and a mark never lies outside the blocks.
\<close>

definition free_blocks :: "pa_state \<Rightarrow> (pfn \<times> nat) set" where
  "free_blocks st = {(p, k). k \<le> kMaxOrder \<and> p \<in> set (free_page_lists st ! k)}"

definition cover :: "(pfn \<times> nat) set \<Rightarrow> pfn set" where
  "cover B = (\<Union>(p, k) \<in> B. blk p k)"

definition territory :: "pfn set \<Rightarrow> bool" where
  "territory T = (T \<subseteq> {..<2 ^ 52} \<and> (\<forall>p \<in> T. \<forall>q. q div 2 ^ kMaxOrder = p div 2 ^ kMaxOrder \<longrightarrow> q \<in> T))"

definition is_block :: "pfn set \<Rightarrow> mem_map \<Rightarrow> pfn \<times> nat \<Rightarrow> bool" where
  "is_block T m = (\<lambda>(p, k). k \<le> kMaxOrder \<and> 2 ^ k dvd p \<and> blk p k \<subseteq> T \<and>
     (\<forall>q \<in> blk p k. m q \<noteq> None))"

definition disjoint_blocks :: "(pfn \<times> nat) set \<Rightarrow> bool" where
  "disjoint_blocks B = (\<forall>(p, k) \<in> B. \<forall>(q, j) \<in> B.
     (p, k) \<noteq> (q, j) \<longrightarrow> blk p k \<inter> blk q j = {})"

definition marked :: "mem_map \<Rightarrow> pfn \<Rightarrow> bool" where
  "marked m p = (\<exists>pg. m p = Some pg \<and> usage pg = kPageAllocator)"

definition marked_at :: "mem_map \<Rightarrow> pfn \<Rightarrow> nat \<Rightarrow> bool" where
  "marked_at m p k = (\<exists>pg. m p = Some pg \<and> usage pg = kPageAllocator \<and> order pg = k)"

definition lists_ok :: "pa_state \<Rightarrow> bool" where
  "lists_ok st = (length (free_page_lists st) = Suc kMaxOrder \<and>
     (\<forall>l \<in> set (free_page_lists st). distinct l))"

definition pa_inv ::
  "pfn set \<Rightarrow> pa_state \<Rightarrow> (pfn \<times> nat) set \<Rightarrow> (pfn \<times> nat) set \<Rightarrow> bool" where
  "pa_inv T st A H \<longleftrightarrow>
     territory T \<and> lists_ok st \<and>
     (\<forall>b \<in> free_blocks st \<union> A \<union> H. is_block T (pages st) b) \<and>
     disjoint_blocks (free_blocks st \<union> A \<union> H) \<and>
     free_blocks st \<inter> (A \<union> H) = {} \<and> A \<inter> H = {} \<and>
     (\<forall>(p, k) \<in> free_blocks st. marked_at (pages st) p k) \<and>
     (\<forall>(p, k) \<in> A. \<not> marked (pages st) p) \<and>
     (\<forall>p \<in> T. marked (pages st) p \<longrightarrow> p \<in> cover (free_blocks st \<union> A \<union> H))"

definition coalesced :: "pa_state \<Rightarrow> bool" where
  "coalesced st = (\<forall>(p, k) \<in> free_blocks st.
     k < kMaxOrder \<longrightarrow> (PfnToBuddy p k, k) \<notin> free_blocks st)"

lemma find_Some_mem: "find P xs = Some x \<Longrightarrow> x \<in> set xs \<and> P x"
  by (auto simp: find_Some_iff)

section \<open>Set-level effect of the list updates\<close>

lemma free_blocks_push:
  assumes "lists_ok st" "k \<le> kMaxOrder"
  shows "free_blocks (st\<lparr>free_page_lists := (free_page_lists st)[k := p # free_page_lists st ! k]\<rparr>) = insert (p, k) (free_blocks st)"
  using assms by (auto simp: free_blocks_def lists_ok_def nth_list_update split: if_splits)

lemma free_blocks_erase:
  assumes "lists_ok st" "k \<le> kMaxOrder"
  shows "free_blocks (st\<lparr>free_page_lists := (free_page_lists st)[k := remove1 p (free_page_lists st ! k)]\<rparr>)
         = free_blocks st - {(p, k)}"
  using assms by (auto simp: free_blocks_def lists_ok_def nth_list_update split: if_splits)

lemma free_blocks_pages [simp]: "free_blocks (st\<lparr>pages := m\<rparr>) = free_blocks st"
  by (simp add: free_blocks_def)

lemma lists_ok_push:
  assumes "lists_ok st" "k \<le> kMaxOrder" "(p, k) \<notin> free_blocks st"
  shows "lists_ok (st\<lparr>free_page_lists := (free_page_lists st)[k := p # free_page_lists st ! k],
                        pages := m\<rparr>)"
  using assms by (auto simp: lists_ok_def free_blocks_def dest!: subsetD [OF set_update_subset_insert])

lemma lists_ok_erase:
  assumes "lists_ok st" "k \<le> kMaxOrder"
  shows "lists_ok (st\<lparr>free_page_lists := (free_page_lists st)[k := remove1 p (free_page_lists st ! k)]\<rparr>)"
  using assms by (auto simp: lists_ok_def dest!: subsetD [OF set_update_subset_insert])

lemma lists_ok_pages [simp]: "lists_ok (st\<lparr>pages := m\<rparr>) = lists_ok st"
  by (simp add: lists_ok_def)

lemma FreePageNoCoalesce_ok:
  assumes "lists_ok st" "k \<le> kMaxOrder" "pages st p = Some pg"
  shows "FreePageNoCoalesce p k st = Inr (st
         \<lparr>free_page_lists := (free_page_lists st)[k := p # free_page_lists st ! k],
          pages := (pages st)(p \<mapsto> pg\<lparr>usage := kPageAllocator, order := k\<rparr>)\<rparr>)"
  using assms by (simp add: FreePageNoCoalesce_def lists_ok_def)

section \<open>Covers and disjointness\<close>

lemma cover_Un [simp]: "cover (B \<union> C) = cover B \<union> cover C"
  by (auto simp: cover_def)

lemma cover_insert [simp]: "cover (insert (p, k) B) = blk p k \<union> cover B"
  by (auto simp: cover_def)

lemma cover_empty [simp]: "cover {} = {}"
  by (simp add: cover_def)

lemma base_in_cover [intro]: "(p, k) \<in> B \<Longrightarrow> p \<in> cover B"
  by (auto simp: cover_def)

lemma disjoint_blocks_insert:
  "disjoint_blocks (insert (p, k) B) \<longleftrightarrow>
     disjoint_blocks B \<and> (\<forall>(q, j) \<in> B. (q, j) \<noteq> (p, k) \<longrightarrow> blk p k \<inter> blk q j = {})"
proof -
  have "\<And>q j. (blk p k \<inter> blk q j = {}) = (blk q j \<inter> blk p k = {})" by blast
  then show ?thesis unfolding disjoint_blocks_def by fast
qed

lemma disjoint_blocks_subset: "disjoint_blocks B \<Longrightarrow> C \<subseteq> B \<Longrightarrow> disjoint_blocks C"
  unfolding disjoint_blocks_def by blast

lemma disjoint_blocksD:
  "disjoint_blocks B \<Longrightarrow> (p, k) \<in> B \<Longrightarrow> (q, j) \<in> B \<Longrightarrow> x \<in> blk p k \<Longrightarrow> x \<in> blk q j \<Longrightarrow> (p, k) = (q, j)"
  unfolding disjoint_blocks_def by blast

text \<open>Replacing a block by pieces that tile it keeps a disjoint family disjoint.\<close>

lemma disjoint_blocks_cover:
  assumes "disjoint_blocks (insert (p, k) B)" "(p, k) \<notin> B"
  shows "blk p k \<inter> cover B = {}"
proof -
  have "(p, k) = (q, j)" if "(q, j) \<in> B" "x \<in> blk p k" "x \<in> blk q j" for q j x
    using disjoint_blocksD [OF assms(1) insertI1] that by blast
  then show ?thesis using assms(2) by (auto simp: cover_def)
qed

lemma disjoint_blocks_insertI:
  assumes "disjoint_blocks B" "blk p k \<inter> cover B = {}"
  shows "disjoint_blocks (insert (p, k) B)"
  using assms unfolding disjoint_blocks_insert cover_def by blast

lemma cover_notin: "blk p k \<inter> cover B = {} \<Longrightarrow> (p, k) \<notin> B"
  by (auto simp: cover_def)

lemma coalescedD:
  "coalesced st \<Longrightarrow> (p, k) \<in> free_blocks st \<Longrightarrow> k < kMaxOrder \<Longrightarrow> (PfnToBuddy p k, k) \<notin> free_blocks st"
  by (auto simp: coalesced_def)

section \<open>The operations keep the invariant\<close>

lemma pa_inv_blocks:
  "pa_inv T st A H \<Longrightarrow> b \<in> free_blocks st \<union> A \<union> H \<Longrightarrow> is_block T (pages st) b"
  by (simp add: pa_inv_def)

lemma pa_inv_lists [intro]: "pa_inv T st A H \<Longrightarrow> lists_ok st"
  by (simp add: pa_inv_def)

lemma pa_inv_marked_at: "pa_inv T st A H \<Longrightarrow> (p, k) \<in> free_blocks st \<Longrightarrow> marked_at (pages st) p k"
  by (auto simp: pa_inv_def)

lemma pa_inv_same_block:
  assumes "pa_inv T st A H" "(p, k) \<in> free_blocks st \<union> A \<union> H" "(q, j) \<in> free_blocks st \<union> A \<union> H"
    "x \<in> blk p k" "x \<in> blk q j"
  shows "(p, k) = (q, j)"
  using assms(1) disjoint_blocksD [OF _ assms(2-5)] by (simp add: pa_inv_def)

lemma pa_inv_hand_cover:
  assumes "pa_inv T st A {(p, k)}"
  shows "blk p k \<inter> cover (free_blocks st \<union> A) = {}"
  using assms by (intro disjoint_blocks_cover) (auto simp: pa_inv_def)

text \<open>Taking a free block into the hand.\<close>

lemma pa_inv_take:
  assumes inv: "pa_inv T st A {}" and fb: "(p, k) \<in> free_blocks st"
  shows "pa_inv T (st\<lparr>free_page_lists := (free_page_lists st)[k := remove1 p (free_page_lists st ! k)]\<rparr>)
           A {(p, k)}" (is "pa_inv T ?st A _")
proof -
  have k: "k \<le> kMaxOrder" and l: "lists_ok st" using fb inv by (auto simp: free_blocks_def pa_inv_def)
  have F: "free_blocks ?st = free_blocks st - {(p, k)}" using l k by (rule free_blocks_erase)
  have U: "free_blocks ?st \<union> A \<union> {(p, k)} = free_blocks st \<union> A \<union> {}"
    using fb F by auto
  show ?thesis
    using inv fb unfolding pa_inv_def U
    by (auto simp: F lists_ok_erase [OF l k])
qed

text \<open>Giving back the upper half of the block in hand.\<close>

lemma is_block_mark:
  "is_block T m b \<Longrightarrow> is_block T (m(p \<mapsto> pg)) b"
  by (auto simp: is_block_def split: prod.splits)

lemma marked_upd:
  "marked (m(p \<mapsto> pg)) q \<longleftrightarrow> (if q = p then usage pg = kPageAllocator else marked m q)"
  by (simp add: marked_def)

lemma marked_at_upd:
  "marked_at (m(p \<mapsto> pg)) q j \<longleftrightarrow>
     (if q = p then usage pg = kPageAllocator \<and> order pg = j else marked_at m q j)"
  by (simp add: marked_at_def)

lemma marked_atD: "marked_at m p k \<Longrightarrow> marked m p"
  by (auto simp: marked_at_def marked_def)

text \<open>
  Putting back a block that lies in the hand, with \<open>H'\<close> what stays in hand: splitting puts
  back the upper half, freeing puts back the whole.
\<close>

lemma pa_inv_put:
  assumes inv: "pa_inv T st A H" and b: "is_block T (pages st) (p, k)"
    and dis: "blk p k \<inter> cover (free_blocks st \<union> A \<union> H') = {}"
    and H': "\<forall>b \<in> H'. is_block T (pages st) b" "disjoint_blocks (free_blocks st \<union> A \<union> H')"
      "free_blocks st \<inter> (A \<union> H') = {}" "A \<inter> H' = {}"
    and cov: "cover H \<subseteq> blk p k \<union> cover H'"
  shows "\<exists>st'. FreePageNoCoalesce p k st = Inr st' \<and> pa_inv T st' A H' \<and>
     free_blocks st' = insert (p, k) (free_blocks st)"
proof -
  obtain pg where pg: "pages st p = Some pg" using b by (auto simp: is_block_def)
  have k: "k \<le> kMaxOrder" using b by (simp add: is_block_def)
  have l: "lists_ok st" using inv by auto
  let ?st = "st\<lparr>free_page_lists := (free_page_lists st)[k := p # free_page_lists st ! k],
     pages := (pages st)(p \<mapsto> pg\<lparr>usage := kPageAllocator, order := k\<rparr>)\<rparr>"
  have F: "free_blocks ?st = insert (p, k) (free_blocks st)" using l k by (simp add: free_blocks_push)
  have nin: "(p, k) \<notin> free_blocks st \<union> A \<union> H'" using dis by (rule cover_notin)
  have base: "p \<noteq> q" if "(q, j) \<in> free_blocks st \<union> A \<union> H'" for q j
    using dis base_in_cover [OF that] base_in_blk [of p k] by blast
  have "lists_ok ?st" using l k nin by (intro lists_ok_push) auto
  moreover have "\<forall>b \<in> free_blocks ?st \<union> A \<union> H'. is_block T (pages ?st) b"
    using inv b H'(1) unfolding F pa_inv_def by (auto intro!: is_block_mark)
  moreover have "disjoint_blocks (free_blocks ?st \<union> A \<union> H')"
    unfolding F Un_insert_left using H'(2) dis by (rule disjoint_blocks_insertI)
  moreover have "free_blocks ?st \<inter> (A \<union> H') = {}" using F H'(3) nin by auto
  moreover have "\<forall>(q, j) \<in> free_blocks ?st. marked_at (pages ?st) q j"
    using inv base unfolding F pa_inv_def by (auto simp: marked_at_upd)
  moreover have "\<forall>(q, j) \<in> A. \<not> marked (pages ?st) q"
    using inv base unfolding pa_inv_def by (fastforce simp: marked_upd)
  moreover have "\<forall>q \<in> T. marked (pages ?st) q \<longrightarrow> q \<in> cover (free_blocks ?st \<union> A \<union> H')"
    using inv cov unfolding F pa_inv_def by (auto simp: marked_upd)
  moreover have "territory T" using inv by (simp add: pa_inv_def)
  ultimately have "pa_inv T ?st A H'" using H'(4) by (simp add: pa_inv_def)
  then show ?thesis using F l k pg by (auto simp: FreePageNoCoalesce_ok)
qed

lemma is_block_halves:
  assumes "is_block T m (p, Suc k)"
  shows "is_block T m (p, k)" "is_block T m (p + 2 ^ k, k)" "PfnToBuddy p k = p + 2 ^ k"
    "blk p (Suc k) = blk p k \<union> blk (p + 2 ^ k) k" "blk p k \<inter> blk (p + 2 ^ k) k = {}"
proof -
  have d: "2 ^ Suc k dvd p" using assms by (simp add: is_block_def)
  then have "2 ^ k dvd p" by (rule dvd_trans [rotated]) simp
  then show "is_block T m (p, k)" "is_block T m (p + 2 ^ k, k)"
    using assms by (auto simp: is_block_def blk_split)
  show "PfnToBuddy p k = p + 2 ^ k" using d by (rule PfnToBuddy_upper)
  show "blk p (Suc k) = blk p k \<union> blk (p + 2 ^ k) k" by (rule blk_split)
  show "blk p k \<inter> blk (p + 2 ^ k) k = {}" by (auto simp: blk_def)
qed

lemma pa_inv_split:
  assumes inv: "pa_inv T st A {(p, Suc k)}"
  shows "\<exists>st'. FreePageNoCoalesce (PfnToBuddy p k) k st = Inr st' \<and> pa_inv T st' A {(p, k)} \<and>
     free_blocks st' = insert (p + 2 ^ k, k) (free_blocks st)"
proof -
  have b: "is_block T (pages st) (p, Suc k)" using inv by (rule pa_inv_blocks) simp
  note h = is_block_halves [OF b]
  have c: "blk p (Suc k) \<inter> cover (free_blocks st \<union> A) = {}" using inv by (rule pa_inv_hand_cover)
  have c1: "blk p k \<inter> cover (free_blocks st \<union> A) = {}" using c h(4) by blast
  have "disjoint_blocks (insert (p, k) (free_blocks st \<union> A))"
    using inv c1 by (intro disjoint_blocks_insertI) (auto simp: pa_inv_def elim: disjoint_blocks_subset)
  moreover have "(p, k) \<notin> free_blocks st \<union> A" using c1 by (rule cover_notin)
  ultimately show ?thesis unfolding h(3) using inv h c
    by (intro pa_inv_put [where H = "{(p, Suc k)}"]) (auto simp: pa_inv_def)
qed

lemma pa_inv_commit:
  assumes inv: "pa_inv T st A {(p, k)}"
  shows "\<exists>pg. pages st p = Some pg \<and>
     pa_inv T (st\<lparr>pages := (pages st)(p \<mapsto> pg\<lparr>usage := kInUse\<rparr>)\<rparr>) (insert (p, k) A) {}"
proof -
  have "is_block T (pages st) (p, k)" using inv by (rule pa_inv_blocks) simp
  then obtain pg where pg: "pages st p = Some pg" by (auto simp: is_block_def)
  have c: "blk p k \<inter> cover (free_blocks st \<union> A) = {}" using inv by (rule pa_inv_hand_cover)
  have base: "p \<noteq> q" if "(q, j) \<in> free_blocks st \<union> A" for q j
    using c base_in_cover [OF that] base_in_blk [of p k] by blast
  let ?m = "(pages st)(p \<mapsto> pg\<lparr>usage := kInUse\<rparr>)"
  have "\<forall>(q, j) \<in> free_blocks st. marked_at ?m q j"
    using inv base unfolding pa_inv_def by (auto simp: marked_at_upd)
  moreover have "\<forall>(q, j) \<in> insert (p, k) A. \<not> marked ?m q"
    using inv base unfolding pa_inv_def by (fastforce simp: marked_upd)
  moreover have "\<forall>q \<in> T. marked ?m q \<longrightarrow> q \<in> cover (free_blocks st \<union> insert (p, k) A)"
    using inv unfolding pa_inv_def by (auto simp: marked_upd)
  ultimately have "pa_inv T (st\<lparr>pages := ?m\<rparr>) (insert (p, k) A) {}"
    using inv unfolding pa_inv_def by (auto intro: is_block_mark)
  then show ?thesis using pg by blast
qed

lemma pa_inv_release:
  assumes "pa_inv T st A {}" "(p, k) \<in> A"
  shows "pa_inv T st (A - {(p, k)}) {(p, k)}"
proof -
  have "A - {(p, k)} \<union> {(p, k)} = A" using assms(2) by auto
  then have "free_blocks st \<union> (A - {(p, k)}) \<union> {(p, k)} = free_blocks st \<union> A \<union> {}" by auto
  then show ?thesis using assms unfolding pa_inv_def by auto
qed

text \<open>
  The heart of \<open>Free\<close>: a buddy whose descriptor says "free at this order" really is on the
  list of this order, although descriptors inside larger blocks keep stale marks.
\<close>

lemma marked_buddy_free:
  assumes inv: "pa_inv T st A {(p, k)}" and k: "k < kMaxOrder"
    and m: "marked_at (pages st) (PfnToBuddy p k) k"
  shows "(PfnToBuddy p k, k) \<in> free_blocks st"
proof -
  let ?b = "PfnToBuddy p k"
  have b: "is_block T (pages st) (p, k)" using inv by (rule pa_inv_blocks) simp
  then have d: "2 ^ k dvd p" and pT: "p \<in> T" by (auto simp: is_block_def)
  have "?b \<in> T" using inv pT buddy_chunk [OF d k] by (auto simp: pa_inv_def territory_def)
  then have "?b \<in> cover (free_blocks st \<union> A \<union> {(p, k)})"
    using inv marked_atD [OF m] by (simp add: pa_inv_def)
  moreover have "?b \<notin> blk p k" using blk_buddy_disjoint [OF d] by auto
  ultimately obtain c j where c: "(c, j) \<in> free_blocks st \<union> A" "?b \<in> blk c j"
    by (auto simp: cover_def)
  have "?b = c"
  proof (rule ccontr)
    assume "?b \<noteq> c"
    moreover have "2 ^ j dvd c" using pa_inv_blocks [OF inv, of "(c, j)"] c(1) by (auto simp: is_block_def)
    ultimately have "p \<in> blk c j" using d c(2) by (metis blk_holds_buddy)
    then have "p \<in> cover (free_blocks st \<union> A)" using c(1) by (auto simp: cover_def)
    then show False using pa_inv_hand_cover [OF inv] by auto
  qed
  then have "(?b, j) \<in> free_blocks st"
    using c(1) inv marked_atD [OF m] by (auto simp: pa_inv_def)
  moreover from this have "marked_at (pages st) ?b j" using inv by (intro pa_inv_marked_at)
  ultimately show ?thesis using m by (auto simp: marked_at_def)
qed

lemma pa_inv_merge:
  assumes inv: "pa_inv T st A {(p, k)}" and k: "k < kMaxOrder"
    and fb: "(PfnToBuddy p k, k) \<in> free_blocks st"
  defines "b \<equiv> PfnToBuddy p k"
  shows "pa_inv T (st\<lparr>free_page_lists := (free_page_lists st)[k := remove1 b (free_page_lists st ! k)]\<rparr>)
           A {(min p b, Suc k)}" (is "pa_inv T ?st A _")
proof -
  have l: "lists_ok st" using inv by auto
  have k': "k \<le> kMaxOrder" using k by simp
  have F: "free_blocks ?st = free_blocks st - {(b, k)}" using l k' by (rule free_blocks_erase)
  have bp: "is_block T (pages st) (p, k)" using inv by (rule pa_inv_blocks) simp
  have bb: "is_block T (pages st) (b, k)" using inv fb unfolding b_def by (intro pa_inv_blocks) auto
  have d: "2 ^ k dvd p" using bp by (simp add: is_block_def)
  have M: "blk (min p b) (Suc k) = blk p k \<union> blk b k" unfolding b_def using d by (rule blk_merge)
  have D: "disjoint_blocks (free_blocks st \<union> A \<union> {(p, k)})" using inv by (simp add: pa_inv_def)
  have "blk b k \<inter> cover (free_blocks ?st \<union> A) = {}"
  proof (rule disjoint_blocks_cover)
    show "disjoint_blocks (insert (b, k) (free_blocks ?st \<union> A))"
      unfolding F using D fb [folded b_def] by (elim disjoint_blocks_subset) auto
    show "(b, k) \<notin> free_blocks ?st \<union> A" using inv fb F by (auto simp: pa_inv_def b_def)
  qed
  moreover have "blk p k \<inter> cover (free_blocks ?st \<union> A) = {}"
    using pa_inv_hand_cover [OF inv] by (auto simp: F cover_def)
  ultimately have C: "blk (min p b) (Suc k) \<inter> cover (free_blocks ?st \<union> A) = {}"
    unfolding M by auto
  have "disjoint_blocks (free_blocks ?st \<union> A)" using D F by (elim disjoint_blocks_subset) auto
  then have "disjoint_blocks (free_blocks ?st \<union> A \<union> {(min p b, Suc k)})"
    using C by (simp add: disjoint_blocks_insertI)
  moreover have "is_block T (pages st) (min p b, Suc k)"
    using bp bb aligned_min_buddy [OF d] k unfolding is_block_def prod.case M
    by (auto simp: b_def)
  moreover have "cover (free_blocks st \<union> A \<union> {(p, k)}) \<subseteq> cover (free_blocks ?st \<union> A \<union> {(min p b, Suc k)})"
    using M unfolding F by (auto simp: cover_def split: prod.splits)
  moreover have "(min p b, Suc k) \<notin> free_blocks ?st \<union> A" using C by (rule cover_notin)
  ultimately show ?thesis using inv l k' unfolding pa_inv_def
    by (auto simp: F lists_ok_erase)
qed

section \<open>AllocLocal\<close>

definition split_blocks :: "pfn \<Rightarrow> nat \<Rightarrow> nat \<Rightarrow> (pfn \<times> nat) set" where
  "split_blocks p lo hi = {(p + 2 ^ i, i) | i. lo \<le> i \<and> i < hi}"

lemma split_blocks_same [simp]: "split_blocks p k k = {}"
  by (simp add: split_blocks_def)

lemma split_blocks_Suc:
  "lo \<le> k \<Longrightarrow> split_blocks p lo (Suc k) = insert (p + 2 ^ k, k) (split_blocks p lo k)"
  by (auto simp: split_blocks_def less_Suc_eq)

lemma split_blocks_low:
  "k < hi \<Longrightarrow> split_blocks p k hi = insert (p + 2 ^ k, k) (split_blocks p (Suc k) hi)"
  by (auto simp: split_blocks_def le_less_Suc_eq le_Suc_eq Suc_le_eq order_le_less)

lemma AllocSplit_ok:
  assumes "pa_inv T st A {(p, k)}" "lo \<le> k"
  shows "\<exists>st'. AllocSplit k lo p st = Inr st' \<and> pa_inv T st' A {(p, lo)} \<and>
     free_blocks st' = free_blocks st \<union> split_blocks p lo k"
  using assms
proof (induction k arbitrary: st)
  case (Suc k)
  show ?case
  proof (cases "lo = Suc k")
    case False
    then have lo: "lo \<le> k" using Suc.prems(2) by simp
    from pa_inv_split [OF Suc.prems(1)] obtain st1 where
      1: "FreePageNoCoalesce (PfnToBuddy p k) k st = Inr st1" "pa_inv T st1 A {(p, k)}"
        "free_blocks st1 = insert (p + 2 ^ k, k) (free_blocks st)" by blast
    from Suc.IH [OF 1(2) lo] 1 False lo show ?thesis by (auto simp: split_blocks_Suc)
  qed (use Suc.prems in auto)
qed auto

lemma AllocFind_Some:
  assumes "AllocFind k mx ls = Some (j, p)"
  shows "k \<le> j \<and> j \<le> kMaxOrder \<and> p \<in> set (ls ! j) \<and> ToAddr p < mx \<and>
     (\<forall>i. k \<le> i \<and> i < j \<longrightarrow> (\<forall>q \<in> set (ls ! i). \<not> ToAddr q < mx))"
  using assms
proof (induction k mx ls rule: AllocFind.induct)
  case (1 k mx ls)
  show ?case
  proof (cases "find (\<lambda>p. ToAddr p < mx) (ls ! k)")
    case None
    then have n: "\<forall>q \<in> set (ls ! k). \<not> ToAddr q < mx" by (auto simp: find_None_iff)
    have k: "\<not> kMaxOrder < k" using "1.prems" by (auto simp: AllocFind.simps [of k])
    moreover have "AllocFind (Suc k) mx ls = Some (j, p)"
      using "1.prems" None k by (simp add: AllocFind.simps [of k])
    ultimately have "Suc k \<le> j \<and> j \<le> kMaxOrder \<and> p \<in> set (ls ! j) \<and> ToAddr p < mx \<and>
        (\<forall>i. Suc k \<le> i \<and> i < j \<longrightarrow> (\<forall>q \<in> set (ls ! i). \<not> ToAddr q < mx))"
      using "1.IH" None by blast
    then show ?thesis using n by (metis Suc_leD Suc_leI order_le_less)
  next
    case (Some q)
    then show ?thesis using "1.prems" find_Some_mem [OF Some]
      by (auto simp: AllocFind.simps [of k] split: if_splits)
  qed
qed

lemma AllocFind_None:
  "AllocFind k mx ls = None \<longleftrightarrow>
     (\<forall>i. k \<le> i \<and> i \<le> kMaxOrder \<longrightarrow> (\<forall>q \<in> set (ls ! i). \<not> ToAddr q < mx))"
proof (induction k mx ls rule: AllocFind.induct)
  case (1 k mx ls)
  show ?case
  proof (cases "kMaxOrder < k")
    case False
    have "(\<forall>i. k \<le> i \<and> i \<le> kMaxOrder \<longrightarrow> (\<forall>q \<in> set (ls ! i). \<not> ToAddr q < mx)) \<longleftrightarrow>
      (\<forall>q \<in> set (ls ! k). \<not> ToAddr q < mx) \<and>
      (\<forall>i. Suc k \<le> i \<and> i \<le> kMaxOrder \<longrightarrow> (\<forall>q \<in> set (ls ! i). \<not> ToAddr q < mx))"
      using False by (metis Suc_leD not_less_eq_eq order_le_less linorder_not_le)
    then show ?thesis using 1 False
      by (auto simp: AllocFind.simps [of k] find_None_iff split: option.splits dest!: find_Some_mem)
  qed (auto simp: AllocFind.simps [of k])
qed

text \<open>The abstract effect of an allocation, on the set of free blocks.\<close>

lemma AllocLocal_ok:
  assumes inv: "pa_inv T st A {}"
  shows "(AllocFind k mx (free_page_lists st) = None \<and> AllocLocal k mx st = Inr (Pfn_None, st)) \<or>
    (\<exists>p j st'. AllocFind k mx (free_page_lists st) = Some (j, p) \<and>
       AllocLocal k mx st = Inr (p, st') \<and> pa_inv T st' (insert (p, k) A) {} \<and>
       (p, j) \<in> free_blocks st \<and> k \<le> j \<and> ToAddr p < mx \<and>
       free_blocks st' = free_blocks st - {(p, j)} \<union> split_blocks p k j)"
proof (cases "AllocFind k mx (free_page_lists st)")
  case None
  then show ?thesis by (simp add: AllocLocal_def)
next
  case (Some r)
  then obtain j p where r: "AllocFind k mx (free_page_lists st) = Some (j, p)" by (cases r) auto
  note f = AllocFind_Some [OF r]
  let ?st = "st\<lparr>free_page_lists := (free_page_lists st)[j := remove1 p (free_page_lists st ! j)]\<rparr>"
  have fb: "(p, j) \<in> free_blocks st" using f by (auto simp: free_blocks_def)
  have F: "free_blocks ?st = free_blocks st - {(p, j)}"
    using inv f by (intro free_blocks_erase) auto
  from AllocSplit_ok [OF pa_inv_take [OF inv fb], of k] f obtain st2 where
    2: "AllocSplit j k p ?st = Inr st2" "pa_inv T st2 A {(p, k)}"
      "free_blocks st2 = free_blocks ?st \<union> split_blocks p k j" by auto
  from pa_inv_commit [OF 2(2)] obtain pg where
    3: "pages st2 p = Some pg"
      "pa_inv T (st2\<lparr>pages := (pages st2)(p \<mapsto> pg\<lparr>usage := kInUse\<rparr>)\<rparr>) (insert (p, k) A) {}" by blast
  have "AllocLocal k mx st = Inr (p, st2\<lparr>pages := (pages st2)(p \<mapsto> pg\<lparr>usage := kInUse\<rparr>)\<rparr>)"
    using r 2(1) 3(1) by (simp add: AllocLocal_def)
  then show ?thesis using r f fb 2(3) 3(2) F by auto
qed

section \<open>Free\<close>

lemma FreeCoalesce_ok:
  assumes "pa_inv T st A {(p, k)}" "k \<le> kMaxOrder"
  shows "\<exists>p' k' st'. FreeCoalesce p k st = Inr (p', k', st') \<and> pa_inv T st' A {(p', k')} \<and>
     k \<le> k' \<and> k' \<le> kMaxOrder \<and> free_blocks st' \<subseteq> free_blocks st \<and>
     (k' < kMaxOrder \<longrightarrow> (PfnToBuddy p' k', k') \<notin> free_blocks st') \<and>
     cover (insert (p', k') (free_blocks st')) = cover (insert (p, k) (free_blocks st))"
  using assms
proof (induction p k st rule: FreeCoalesce.induct)
  case (1 p k st)
  let ?b = "PfnToBuddy p k"
  show ?case
  proof (cases "k < kMaxOrder \<and> marked_at (pages st) ?b k")
    case True
    then have k: "k < kMaxOrder" and m: "marked_at (pages st) ?b k" by auto
    have fb: "(?b, k) \<in> free_blocks st" using "1.prems"(1) k m by (rule marked_buddy_free)
    then have mem: "?b \<in> set (free_page_lists st ! k)" by (simp add: free_blocks_def)
    let ?st = "st\<lparr>free_page_lists := (free_page_lists st)[k := remove1 ?b (free_page_lists st ! k)]\<rparr>"
    obtain pg where pg: "pages st ?b = Some pg" "usage pg = kPageAllocator" "order pg = k"
      using m by (auto simp: marked_at_def)
    have F: "free_blocks ?st = free_blocks st - {(?b, k)}"
      using "1.prems" by (intro free_blocks_erase) auto
    have d: "2 ^ k dvd p" using pa_inv_blocks [OF "1.prems"(1), of "(p, k)"] by (simp add: is_block_def)
    have st: "FreeCoalesce p k st = FreeCoalesce (min p ?b) (Suc k) ?st"
      using k pg mem by (simp add: FreeCoalesce.simps [of p k st] Let_def)
    have c: "cover (insert (min p ?b, Suc k) (free_blocks ?st)) = cover (insert (p, k) (free_blocks st))"
      using fb blk_merge [OF d] unfolding F by (auto simp: cover_def)
    have inv: "pa_inv T ?st A {(min p ?b, Suc k)}" using "1.prems"(1) k fb by (rule pa_inv_merge)
    from k pg mem have "\<exists>p' k' st'. FreeCoalesce (min p ?b) (Suc k) ?st = Inr (p', k', st') \<and>
      pa_inv T st' A {(p', k')} \<and> Suc k \<le> k' \<and> k' \<le> kMaxOrder \<and> free_blocks st' \<subseteq> free_blocks ?st \<and>
     (k' < kMaxOrder \<longrightarrow> (PfnToBuddy p' k', k') \<notin> free_blocks st') \<and>
     cover (insert (p', k') (free_blocks st')) = cover (insert (min p ?b, Suc k) (free_blocks ?st))"
      by (intro "1.IH") (auto simp: inv Suc_le_eq)
    then show ?thesis unfolding st c by (auto simp: F)
  next
    case False
    have "FreeCoalesce p k st = Inr (p, k, st)"
      using False by (auto simp: FreeCoalesce.simps [of p k st] marked_at_def Let_def split: option.splits)
    moreover have "(?b, k) \<notin> free_blocks st" if "k < kMaxOrder"
      using False that pa_inv_marked_at [OF "1.prems"(1)] by blast
    ultimately show ?thesis using "1.prems" by auto
  qed
qed

lemma Free_ok:
  assumes inv: "pa_inv T st A {}" and a: "(p, k) \<in> A"
  shows "\<exists>st'. Free p k st = Inr st' \<and> pa_inv T st' (A - {(p, k)}) {} \<and>
     cover (free_blocks st') = blk p k \<union> cover (free_blocks st) \<and> (coalesced st \<longrightarrow> coalesced st')"
proof -
  have k: "k \<le> kMaxOrder" using pa_inv_blocks [OF inv, of "(p, k)"] a by (simp add: is_block_def)
  from FreeCoalesce_ok [OF pa_inv_release [OF inv a] k] obtain p' k' st1 where
    1: "FreeCoalesce p k st = Inr (p', k', st1)" "pa_inv T st1 (A - {(p, k)}) {(p', k')}"
      "k' \<le> kMaxOrder" "free_blocks st1 \<subseteq> free_blocks st"
      "k' < kMaxOrder \<Longrightarrow> (PfnToBuddy p' k', k') \<notin> free_blocks st1"
      "cover (insert (p', k') (free_blocks st1)) = cover (insert (p, k) (free_blocks st))" by blast
  have "\<exists>st'. FreePageNoCoalesce p' k' st1 = Inr st' \<and> pa_inv T st' (A - {(p, k)}) {} \<and>
     free_blocks st' = insert (p', k') (free_blocks st1)"
    using 1(2) pa_inv_hand_cover [OF 1(2)] pa_inv_blocks [OF 1(2), of "(p', k')"]
    by (intro pa_inv_put [where H = "{(p', k')}"])
       (auto simp: pa_inv_def elim: disjoint_blocks_subset)
  then obtain st' where 2: "FreePageNoCoalesce p' k' st1 = Inr st'" "pa_inv T st' (A - {(p, k)}) {}"
     "free_blocks st' = insert (p', k') (free_blocks st1)" by blast
  have "coalesced st'" if "coalesced st"
    using that 1(4,5) PfnToBuddy_involution unfolding coalesced_def 2(3)
    by (auto split: prod.splits)
  then show ?thesis using 1 2 k by (auto simp: Free_def)
qed

lemma coalesced_split:
  assumes inv: "pa_inv T st A {}" and co: "coalesced st" and fb: "(p, j) \<in> free_blocks st"
    and F: "free_blocks st' = free_blocks st - {(p, j)} \<union> split_blocks p k j"
  shows "coalesced st'"
proof -
  have b: "is_block T (pages st) (p, j)" using inv fb by (intro pa_inv_blocks) auto
  have al: "2 ^ Suc i dvd p" if "i < j" for i
  proof -
    have "2 ^ j dvd p" using b by (simp add: is_block_def)
    then show ?thesis using that by (meson Suc_leI dvd_trans le_imp_power_dvd)
  qed
  have up: "PfnToBuddy (p + 2 ^ i) i = p" if "i < j" for i
    using PfnToBuddy_upper [OF al [OF that]] PfnToBuddy_involution by metis
  have inb: "p + 2 ^ i \<in> blk p j" "p \<in> blk p j" if "i < j" for i
    using that by (auto simp: mem_blk)
  have own: "(q, i) = (p, j)" if "(q, i) \<in> free_blocks st" "q \<in> blk p j" for q i
    using pa_inv_same_block [OF inv, of q i p j q] fb that by auto
  show ?thesis
    unfolding coalesced_def F
  proof (clarify)
    fix q i assume q: "(q, i) \<in> free_blocks st - {(p, j)} \<union> split_blocks p k j" and i: "i < kMaxOrder"
      and bad: "(PfnToBuddy q i, i) \<in> free_blocks st - {(p, j)} \<union> split_blocks p k j"
    show False
    proof (cases "(q, i) \<in> split_blocks p k j")
      case True
      then have "q = p + 2 ^ i" "i < j" by (auto simp: split_blocks_def)
      then have "(p, i) \<in> free_blocks st - {(p, j)} \<union> split_blocks p k j" using bad up by simp
      then show False using own inb [OF \<open>i < j\<close>] by (auto simp: split_blocks_def)
    next
      case False
      then have q': "(q, i) \<in> free_blocks st" "(q, i) \<noteq> (p, j)" using q by auto
      then have "(PfnToBuddy q i, i) \<in> split_blocks p k j"
        using bad co i by (auto dest: coalescedD)
      then have "PfnToBuddy q i = p + 2 ^ i" "i < j" by (auto simp: split_blocks_def)
      then have "q = p" using up PfnToBuddy_involution by metis
      then show False using own q' by auto
    qed
  qed
qed

text \<open>Freeing the block that was just allocated merges the split halves back.\<close>

lemma FreeCoalesce_undo:
  assumes "pa_inv T st A {(p, k)}" "k \<le> j" "j \<le> kMaxOrder" "2 ^ j dvd p"
    "free_blocks st = F \<union> split_blocks p k j" "F \<inter> split_blocks p k j = {}"
    "j < kMaxOrder \<Longrightarrow> (PfnToBuddy p j, j) \<notin> F"
  shows "\<exists>st'. FreeCoalesce p k st = Inr (p, j, st') \<and> free_blocks st' = F"
  using assms
proof (induction "j - k" arbitrary: k st)
  case 0
  then have [simp]: "k = j" by simp
  have "\<not> marked_at (pages st) (PfnToBuddy p j) j" if "j < kMaxOrder"
    using marked_buddy_free [of T st A p j] 0 that by auto
  then have "FreeCoalesce p k st = Inr (p, j, st)"
    by (auto simp: FreeCoalesce.simps [of p j st] marked_at_def Let_def split: option.splits)
  then show ?case using 0 by simp
next
  case (Suc n)
  then have kj: "k < j" by simp
  then have km: "k < kMaxOrder" using Suc.prems(3) by simp
  let ?b = "p + 2 ^ k"
  have al: "2 ^ Suc k dvd p" using Suc.prems(4) kj by (meson Suc_leI dvd_trans le_imp_power_dvd)
  have b: "PfnToBuddy p k = ?b" using al by (rule PfnToBuddy_upper)
  have fb: "(?b, k) \<in> free_blocks st" using Suc.prems(5) kj by (auto simp: split_blocks_def)
  obtain pg where pg: "pages st ?b = Some pg" "usage pg = kPageAllocator" "order pg = k"
    using pa_inv_marked_at [OF Suc.prems(1) fb] by (auto simp: marked_at_def)
  let ?st = "st\<lparr>free_page_lists := (free_page_lists st)[k := remove1 ?b (free_page_lists st ! k)]\<rparr>"
  have "FreeCoalesce p k st = FreeCoalesce p (Suc k) ?st"
    using km pg fb b by (simp add: FreeCoalesce.simps [of p k st] Let_def free_blocks_def)
  moreover have "\<exists>st'. FreeCoalesce p (Suc k) ?st = Inr (p, j, st') \<and> free_blocks st' = F"
  proof (rule Suc.hyps(1))
    show "n = j - Suc k" using Suc.hyps(2) by simp
    show "pa_inv T ?st A {(p, Suc k)}"
      using pa_inv_merge [OF Suc.prems(1) km] fb b by simp
    have "free_blocks ?st = free_blocks st - {(?b, k)}"
      using Suc.prems(1) km by (intro free_blocks_erase) auto
    also have "\<dots> = F \<union> split_blocks p (Suc k) j"
      using Suc.prems(5,6) kj by (auto simp: split_blocks_low) (auto simp: split_blocks_def)
    finally show "free_blocks ?st = F \<union> split_blocks p (Suc k) j" .
    show "F \<inter> split_blocks p (Suc k) j = {}" using Suc.prems(6) kj by (simp add: split_blocks_low)
  qed (use kj Suc.prems in auto)
  ultimately show ?case by simp
qed

lemma split_blocks_fresh:
  assumes inv: "pa_inv T st A {}" and fb: "(p, j) \<in> free_blocks st"
  shows "(free_blocks st - {(p, j)}) \<inter> split_blocks p k j = {}"
proof -
  have "(q, i) = (p, j)" if "(q, i) \<in> free_blocks st" "q \<in> blk p j" for q i
    using pa_inv_same_block [OF inv, of q i p j q] fb that by auto
  moreover have "p + 2 ^ i \<in> blk p j" if "i < j" for i using that by (simp add: mem_blk)
  ultimately show ?thesis by (fastforce simp: split_blocks_def)
qed

lemma Free_AllocLocal_blocks:
  assumes inv: "pa_inv T st A {}" and co: "coalesced st"
    and al: "AllocLocal k mx st = Inr (p, st1)" "p \<noteq> Pfn_None"
  shows "\<exists>st2. Free p k st1 = Inr st2 \<and> free_blocks st2 = free_blocks st"
proof -
  from AllocLocal_ok [OF inv, of k mx] al obtain j where
    1: "pa_inv T st1 (insert (p, k) A) {}" "(p, j) \<in> free_blocks st" "k \<le> j"
      "free_blocks st1 = (free_blocks st - {(p, j)}) \<union> split_blocks p k j" by auto
  have b: "is_block T (pages st) (p, j)" using inv 1(2) by (intro pa_inv_blocks) auto
  have "pa_inv T st1 (insert (p, k) A - {(p, k)}) {(p, k)}" using 1(1) by (rule pa_inv_release) simp
  moreover have "(PfnToBuddy p j, j) \<notin> free_blocks st - {(p, j)}" if "j < kMaxOrder"
    using coalescedD [OF co 1(2) that] by simp
  ultimately obtain st' where st': "FreeCoalesce p k st1 = Inr (p, j, st')"
      "free_blocks st' = free_blocks st - {(p, j)}"
    using FreeCoalesce_undo [of T st1 "insert (p, k) A - {(p, k)}" p k j "free_blocks st - {(p, j)}"]
      1 b split_blocks_fresh [OF inv 1(2)] by (auto simp: is_block_def)
  from Free_ok [OF 1(1), of p k] obtain st2 where st2: "Free p k st1 = Inr st2" by auto
  then have "FreePageNoCoalesce p j st' = Inr st2"
    using st'(1) by (auto simp: Free_def split: if_splits)
  moreover have "k \<le> kMaxOrder" using st2 by (auto simp: Free_def split: if_splits)
  moreover have "lists_ok st'" "j \<le> kMaxOrder"
    using FreeCoalesce_ok [OF \<open>pa_inv T st1 (insert (p, k) A - {(p, k)}) {(p, k)}\<close>] st'(1) \<open>k \<le> kMaxOrder\<close>
    by (auto intro: pa_inv_lists)
  ultimately have "free_blocks st2 = insert (p, j) (free_blocks st')"
    by (auto simp: FreePageNoCoalesce_def free_blocks_push split: if_splits option.splits)
  then show ?thesis using st2 st'(2) 1(2) by auto
qed

lemma Validate_ok:
  assumes inv: "pa_inv T st A H"
  shows "Validate st"
proof -
  have m: "\<exists>pg. pages st p = Some pg \<and> usage pg = kPageAllocator \<and> order pg = i"
    if "i \<le> kMaxOrder" "p \<in> set (free_page_lists st ! i)" for i p
    using pa_inv_marked_at [OF inv, of p i] that by (auto simp: free_blocks_def marked_at_def)
  have d: "(p, i) = (q, j)"
    if "i \<le> kMaxOrder" "p \<in> set (free_page_lists st ! i)" "j \<le> kMaxOrder"
      "q \<in> set (free_page_lists st ! j)" "x \<in> blk p i" "x \<in> blk q j" for i p j q x
    using pa_inv_same_block [OF inv, of p i q j x] that by (auto simp: free_blocks_def)
  show ?thesis
    unfolding Validate_def
  proof (intro ballI conjI)
    fix i p j q
    assume a: "i \<in> set [0..<Suc kMaxOrder]" "p \<in> set (free_page_lists st ! i)"
      "j \<in> set [0..<Suc kMaxOrder]" "q \<in> set (free_page_lists st ! j)"
    then show "\<not> (\<not> (p = q \<and> i = j) \<and> (p \<le> q \<and> q < p + 2 ^ i \<or> q \<le> p \<and> p < q + 2 ^ j))"
      using d [of i p j q q] d [of i p j q p] by (auto simp: mem_blk)
  qed (use m in \<open>fastforce split: option.splits\<close>)
qed

section \<open>Start-up\<close>

lemma bit_width_bounds: "0 < n \<Longrightarrow> 2 ^ (bit_width n - 1) \<le> n \<and> n < 2 ^ bit_width n \<and> 0 < bit_width n"
proof (induction n rule: bit_width.induct)
  case (1 n)
  show ?case
  proof (cases "n div 2 = 0")
    case True
    then have "n = 1" using "1.prems" by auto
    then show ?thesis by (simp add: bit_width.simps)
  next
    case False
    then have ih: "2 ^ (bit_width (n div 2) - 1) \<le> n div 2" "n div 2 < 2 ^ bit_width (n div 2)"
      "0 < bit_width (n div 2)" using 1 by auto
    have "bit_width n = Suc (bit_width (n div 2))" using "1.prems" by (simp add: bit_width.simps [of n])
    moreover have "(2 :: nat) ^ bit_width (n div 2) = 2 * 2 ^ (bit_width (n div 2) - 1)"
      using ih(3) by (simp flip: power_Suc)
    moreover have "2 * x \<le> n" if "x \<le> n div 2" for x using that by arith
    moreover have "n \<le> Suc (2 * (n div 2))" by auto
    ultimately show ?thesis using ih by auto
  qed
qed

lemma bit_width_mono: "m \<le> n \<Longrightarrow> bit_width m \<le> bit_width n"
proof (cases "m = 0")
  case False
  assume "m \<le> n"
  then have "2 ^ (bit_width m - 1) < (2 :: nat) ^ bit_width n"
    using bit_width_bounds [of m] bit_width_bounds [of n] False by linarith
  then show ?thesis by (simp add: power_strict_increasing_iff)
qed (simp add: bit_width.simps)

lemma bit_width_le: "n < 2 ^ k \<Longrightarrow> bit_width n \<le> k"
proof (cases "n = 0")
  case False
  assume "n < 2 ^ k"
  then have "2 ^ (bit_width n - 1) < (2 :: nat) ^ k"
    using bit_width_bounds [of n] False by linarith
  then show ?thesis by (simp add: power_strict_increasing_iff)
qed (simp add: bit_width.simps)

lemma builtin_clz_width:
  assumes "0 < n" "n < 2 ^ 32"
  shows "32 - builtin_clz n - 1 = bit_width n - 1"
  using bit_width_le [of n 32] assms by (simp add: builtin_clz_def)

lemma builtin_ctz_dvd: "2 ^ builtin_ctz n dvd n"
proof (induction n rule: builtin_ctz.induct)
  case (1 n)
  show ?case
  proof (cases "n = 0 \<or> odd n")
    case False
    then have "2 ^ builtin_ctz (n div 2) dvd n div 2" using 1 by blast
    then have "2 * 2 ^ builtin_ctz (n div 2) dvd 2 * (n div 2)" by (rule mult_dvd_mono [OF dvd_refl])
    moreover have "2 * (n div 2) = n" "builtin_ctz n = Suc (builtin_ctz (n div 2))"
      using False by (auto simp: builtin_ctz.simps [of n])
    ultimately show ?thesis by (metis power_Suc)
  qed (auto simp: builtin_ctz.simps [of n])
qed

lemma aligned_step_le:
  assumes "k dvd (p :: nat)" "k dvd d" "p < d"
  shows "p + k \<le> d"
proof -
  obtain a b where ab: "p = k * a" "d = k * b" using assms(1,2) by (elim dvdE)
  then have "Suc a \<le> b" using assms(3) by (simp add: Suc_le_eq)
  then have "k * Suc a \<le> k * b" by (rule mult_le_mono2)
  then show ?thesis using ab by simp
qed

text \<open>What \<open>InitRange\<close> needs of the frames it is given.\<close>

definition frames_ok :: "pfn set \<Rightarrow> pa_state \<Rightarrow> pfn \<Rightarrow> pfn \<Rightarrow> bool" where
  "frames_ok T st a b = ({a..<b} \<subseteq> T \<and> (\<forall>q \<in> {a..<b}. pages st q \<noteq> None) \<and>
     {a..<b} \<inter> cover (free_blocks st) = {})"

lemma EarlyFreePage_ok:
  assumes inv: "pa_inv T st {} {}" and fr: "frames_ok T st p e" and k: "k \<le> kMaxOrder" "2 ^ k dvd p"
    and le: "p + 2 ^ k \<le> e"
  shows "\<exists>st'. EarlyFreePage p k st = Inr st' \<and> pa_inv T st' {} {} \<and>
     cover (free_blocks st') = blk p k \<union> cover (free_blocks st) \<and> frames_ok T st' (p + 2 ^ k) e"
proof -
  have b: "is_block T (pages st) (p, k)" using fr k le by (auto simp: is_block_def frames_ok_def blk_def)
  have d: "blk p k \<inter> cover (free_blocks st) = {}" using fr le by (fastforce simp: frames_ok_def blk_def disjoint_iff)
  from pa_inv_put [OF inv b, of "{}"] d inv obtain st' where
    1: "FreePageNoCoalesce p k st = Inr st'" "pa_inv T st' {} {}"
      "free_blocks st' = insert (p, k) (free_blocks st)" by (auto simp: pa_inv_def)
  have "pages st' q \<noteq> None" if "pages st q \<noteq> None" for q
    using 1(1) that by (auto simp: FreePageNoCoalesce_def split: if_splits option.splits)
  then have "frames_ok T st' (p + 2 ^ k) e"
    using fr unfolding frames_ok_def 1(3) by (fastforce simp: blk_def disjoint_iff)
  then show ?thesis using 1 k by (simp add: EarlyFreePage_def)
qed

lemma InitUp_ok:
  assumes "pa_inv T st {} {}" "p \<le> d" "frames_ok T st p e" "d \<le> e" "2 ^ m dvd d" "d < p + 2 ^ m" "m < 32"
  shows "\<exists>st'. InitUp p d st = Inr st' \<and> pa_inv T st' {} {} \<and>
     cover (free_blocks st') = {p..<d} \<union> cover (free_blocks st) \<and> frames_ok T st' d e"
  using assms
proof (induction p d st rule: InitUp.induct)
  case (1 p d st)
  show ?case
  proof (cases "p = d")
    case False
    then have pd: "p < d" using "1.prems" by simp
    have nd: "\<not> 2 ^ m dvd p" using aligned_step_le [of "2 ^ m" p d] pd "1.prems" by linarith
    have dv: "2 ^ j dvd p" if "2 ^ j dvd p mod u32" "j \<le> 32" for j
      using that by (metis dvd_mod_iff le_imp_power_dvd)
    have nz: "p mod u32 \<noteq> 0" using nd dv [of m] "1.prems"(7) by (metis dvd_0_right order_less_imp_le)
    let ?k = "min kMaxOrder (builtin_ctz (p mod u32))"
    have kd: "2 ^ ?k dvd p"
      by (rule dv) (auto intro: dvd_trans [OF le_imp_power_dvd builtin_ctz_dvd] simp: kMaxOrder_def)
    have "?k < m" using nd kd by (meson dvd_trans le_imp_power_dvd linorder_not_le)
    then have "2 ^ ?k dvd d" using "1.prems"(5) by (meson dvd_trans le_imp_power_dvd order_less_imp_le)
    then have le: "p + 2 ^ ?k \<le> d" using kd pd by (intro aligned_step_le)
    from EarlyFreePage_ok [OF "1.prems"(1,3), of ?k] kd le "1.prems"(4) obtain st1 where
      2: "EarlyFreePage p ?k st = Inr st1" "pa_inv T st1 {} {}"
        "cover (free_blocks st1) = blk p ?k \<union> cover (free_blocks st)" "frames_ok T st1 (p + 2 ^ ?k) e"
      by auto
    have "InitUp p d st = InitUp (p + 2 ^ ?k) d st1"
      using False pd nz 2(1) by (subst InitUp.simps) (simp add: Let_def)
    moreover have "\<exists>st'. InitUp (p + 2 ^ ?k) d st1 = Inr st' \<and> pa_inv T st' {} {} \<and>
      cover (free_blocks st') = {p + 2 ^ ?k..<d} \<union> cover (free_blocks st1) \<and> frames_ok T st' d e"
      using False pd nz 2 le "1.prems" by (intro "1.IH") auto
    moreover have "{p + 2 ^ ?k..<d} \<union> blk p ?k = {p..<d}" using le by (auto simp: blk_def)
    ultimately show ?thesis using 2(3) by auto
  qed (use "1.prems" in \<open>simp add: InitUp.simps\<close>)
qed

lemma InitDown_ok:
  assumes "pa_inv T st {} {}" "p \<le> e" "frames_ok T st p e" "e < p + 2 ^ 32"
    "2 ^ min kMaxOrder (bit_width (e - p) - 1) dvd p"
  shows "\<exists>st'. InitDown p e st = Inr st' \<and> pa_inv T st' {} {} \<and>
     cover (free_blocks st') = {p..<e} \<union> cover (free_blocks st)"
  using assms
proof (induction p e st rule: InitDown.induct)
  case (1 p e st)
  show ?case
  proof (cases "p = e")
    case False
    then have pe: "p < e" using "1.prems" by simp
    let ?n = "e - p"
    have n: "0 < ?n" "?n < 2 ^ 32" using pe "1.prems"(4) by auto
    define k where "k = min kMaxOrder (32 - builtin_clz ?n - 1)"
    have k: "k = min kMaxOrder (bit_width ?n - 1)" unfolding k_def using builtin_clz_width [OF n] by simp
    have "(2 :: nat) ^ k \<le> 2 ^ (bit_width ?n - 1)" unfolding k by (rule power_increasing) auto
    then have le: "p + 2 ^ k \<le> e" using bit_width_bounds [OF n(1)] pe by linarith
    have kd: "2 ^ k dvd p" unfolding k using "1.prems"(5) .
    from EarlyFreePage_ok [OF "1.prems"(1,3) _ kd le] obtain st1 where
      2: "EarlyFreePage p k st = Inr st1" "pa_inv T st1 {} {}"
        "cover (free_blocks st1) = blk p k \<union> cover (free_blocks st)" "frames_ok T st1 (p + 2 ^ k) e"
      unfolding k by auto
    have nz: "?n mod u32 \<noteq> 0" using n by simp
    have "InitDown p e st = InitDown (p + 2 ^ k) e st1"
      using False pe nz 2(1) by (subst InitDown.simps) (simp add: Let_def k_def)
    moreover have "\<exists>st'. InitDown (p + 2 ^ k) e st1 = Inr st' \<and> pa_inv T st' {} {} \<and>
      cover (free_blocks st') = {p + 2 ^ k..<e} \<union> cover (free_blocks st1)"
    proof (rule "1.IH" [OF _ _ _ k_def])
      have "bit_width (e - (p + 2 ^ k)) \<le> bit_width ?n" by (rule bit_width_mono) simp
      then have "min kMaxOrder (bit_width (e - (p + 2 ^ k)) - 1) \<le> k"
        unfolding k by (intro min.mono diff_le_mono order_refl)
      then have "(2 :: nat) ^ min kMaxOrder (bit_width (e - (p + 2 ^ k)) - 1) dvd 2 ^ k"
        by (rule le_imp_power_dvd)
      then show "2 ^ min kMaxOrder (bit_width (e - (p + 2 ^ k)) - 1) dvd p + 2 ^ k"
        using kd by (meson dvd_add dvd_trans)
    qed (use False pe nz 2 le "1.prems" in auto)
    moreover have "{p + 2 ^ k..<e} \<union> blk p k = {p..<e}" using le by (auto simp: blk_def)
    ultimately show ?thesis using 2(3) by auto
  qed (use "1.prems" in \<open>simp add: InitDown.simps\<close>)
qed

lemma InitRange_ok:
  assumes inv: "pa_inv T st {} {}" and fr: "frames_ok T st a b" and ab: "a < b" "b - a < 2 ^ 31"
  shows "\<exists>st'. InitRange a b st = Inr st' \<and> pa_inv T st' {} {} \<and>
     cover (free_blocks st') = {a..<b} \<union> cover (free_blocks st)"
proof -
  let ?n = "b - a" and ?w = "bit_width (b - a) - 1"
  have n: "0 < ?n" "?n < 2 ^ 32" using ab by auto
  have bT: "b \<le> 2 ^ 52" "a < 2 ^ 52"
  proof -
    have "{a..<b} \<subseteq> {..<2 ^ 52}" using inv fr by (auto simp: pa_inv_def territory_def frames_ok_def)
    moreover have "b - 1 \<in> {a..<b}" "a \<in> {a..<b}" using ab by auto
    ultimately have "b - 1 < 2 ^ 52" "a < 2 ^ 52" by blast+
    then show "b \<le> 2 ^ 52" "a < 2 ^ 52" by auto
  qed
  note bw = bit_width_bounds [OF n(1)]
  have w: "?w < 31"
  proof -
    have "(2 :: nat) ^ ?w < 2 ^ 31" using bw ab by linarith
    then show ?thesis by (rule power_less_imp_less_exp [rotated]) simp
  qed
  define d where "d = unat (align_Up (of_nat a :: 64 word) (of_nat (2 ^ ?w)))"
  have w31: "(2 :: nat) ^ ?w \<le> 2 ^ 31" using w by (intro power_increasing) auto
  have au: "unat (of_nat a :: 64 word) = a" using bT by (simp add: unsigned_of_nat take_bit_nat_eq_self)
  have d: "d = (a + 2 ^ ?w - 1) div 2 ^ ?w * 2 ^ ?w"
    unfolding d_def of_nat_power of_nat_numeral
    by (subst unat_align_Up) (use au bT w w31 in auto)
  note du = round_up_least [of "2 ^ ?w" a, folded d]
  have dn: "2 ^ ?w dvd d" "a \<le> d" "d < a + 2 ^ ?w" using du by auto
  have db: "d \<le> b" using dn(3) bw ab by linarith
  from InitUp_ok [OF inv dn(2) fr db dn(1,3)] w obtain st1 where
    1: "InitUp a d st = Inr st1" "pa_inv T st1 {} {}"
      "cover (free_blocks st1) = {a..<d} \<union> cover (free_blocks st)" "frames_ok T st1 d b" by auto
  have "bit_width (b - d) \<le> bit_width ?n" using dn(2) by (intro bit_width_mono) simp
  then have "2 ^ min kMaxOrder (bit_width (b - d) - 1) dvd (2 :: nat) ^ ?w"
    by (intro le_imp_power_dvd min.coboundedI2 diff_le_mono)
  then have "2 ^ min kMaxOrder (bit_width (b - d) - 1) dvd d" using dn(1) by (rule dvd_trans)
  moreover have "b < d + 2 ^ 32" using dn(2) n by linarith
  ultimately obtain st2 where
    2: "InitDown d b st1 = Inr st2" "pa_inv T st2 {} {}"
      "cover (free_blocks st2) = {d..<b} \<union> cover (free_blocks st1)"
    using InitDown_ok [OF 1(2) db 1(4)] by blast
  have e: "b + u64 - a = ?n + u64" using ab(1) by linarith
  have "?n mod u64 = ?n" using n(2) by (intro mod_less) simp
  then have "(b + u64 - a) mod u64 = ?n" unfolding e mod_add_self2 .
  then have "InitRange a b st = Inr st2"
    using n ab 1(1) 2(1) builtin_clz_width [OF n] bT unfolding d_def InitRange_def Let_def by simp
  moreover have "{d..<b} \<union> {a..<d} = {a..<b}" using dn(2) db by auto
  ultimately show ?thesis using 1 2 by auto
qed

section \<open>The contract of \<open>ResourceSpec\<close>\<close>

definition PageAcquire :: "nat \<times> nat \<Rightarrow> pa_state \<Rightarrow> ((pfn \<times> nat) option \<times> pa_state) result" where
  "PageAcquire = (\<lambda>(k, mx) st. bindr (AllocLocal k mx st)
     (\<lambda>(p, st'). Inr (if p = Pfn_None then None else Some (p, k), st')))"

definition PageReturn :: "pfn \<times> nat \<Rightarrow> pa_state \<Rightarrow> pa_state result" where
  "PageReturn = (\<lambda>(p, k). Free p k)"

definition block_clash :: "pfn \<times> nat \<Rightarrow> pfn \<times> nat \<Rightarrow> bool" where
  "block_clash = (\<lambda>(p, k) (q, j). blk p k \<inter> blk q j \<noteq> {})"

lemma pa_inv_not_None:
  assumes "pa_inv T st A H" "(p, k) \<in> free_blocks st \<union> A \<union> H"
  shows "p < 2 ^ 52" "p \<noteq> Pfn_None"
proof -
  have "p \<in> T" using pa_inv_blocks [OF assms] by (auto simp: is_block_def)
  then show "p < 2 ^ 52" using assms(1) by (auto simp: pa_inv_def territory_def)
  then show "p \<noteq> Pfn_None" by (auto simp: Pfn_None_def)
qed

interpretation pages: allocator PageAcquire PageReturn "\<lambda>st A. pa_inv T st A {}" block_clash for T
proof
  fix st A and q :: "nat \<times> nat" assume inv: "pa_inv T st A {}"
  obtain k mx where q: "q = (k, mx)" by (cases q)
  from AllocLocal_ok [OF inv, of k mx]
  show "\<exists>r st'. PageAcquire q st = Inr (r, st') \<and>
      (case r of None \<Rightarrow> pa_inv T st' A {} | Some x \<Rightarrow> x \<notin> A \<and> pa_inv T st' (insert x A) {})"
  proof (elim disjE exE conjE)
    fix p j st' assume 1: "AllocLocal k mx st = Inr (p, st')" "pa_inv T st' (insert (p, k) A) {}"
      "(p, j) \<in> free_blocks st"
    have "(p, k) \<notin> A"
      using pa_inv_same_block [OF inv, of p j p k p] 1(3) inv by (auto simp: pa_inv_def)
    then show ?thesis using 1 pa_inv_not_None [OF inv, of p j] by (simp add: PageAcquire_def q)
  qed (use inv in \<open>simp add: PageAcquire_def q\<close>)
next
  fix st A x assume "pa_inv T st A {}" "x \<in> A"
  then show "\<exists>st'. PageReturn x st = Inr st' \<and> pa_inv T st' (A - {x}) {}"
    using Free_ok [of T st A] by (cases x) (fastforce simp: PageReturn_def)
next
  fix st A x y assume "pa_inv T st A {}" "x \<in> A" "y \<in> A" "x \<noteq> y"
  then show "\<not> block_clash x y"
    using pa_inv_same_block [of T st A "{}" "fst x" "snd x" "fst y" "snd y"]
    by (cases x; cases y) (fastforce simp: block_clash_def)
qed

lemma cover_split_blocks:
  assumes "k \<le> j"
  shows "cover (split_blocks p k j) = blk p j - blk p k"
  using assms
proof (induction j rule: dec_induct)
  case (step j)
  have "blk p k \<subseteq> blk p j" using step(1) by (auto simp: blk_def intro!: add_left_mono power_increasing)
  moreover have "blk p j \<inter> blk (p + 2 ^ j) j = {}" by (auto simp: blk_def)
  ultimately show ?case using step by (auto simp: split_blocks_Suc blk_split)
qed simp

lemma pa_inv_empty:
  assumes "territory T" "\<And>p. p \<in> T \<Longrightarrow> \<not> marked m p"
  shows "pa_inv T \<lparr>free_page_lists = replicate (Suc kMaxOrder) [], pages = m\<rparr> {} {}"
  using assms by (auto simp: pa_inv_def lists_ok_def free_blocks_def disjoint_blocks_def
    simp del: replicate_Suc)

text \<open>A small machine with one maximal block of 2048 frames, and an allocator that was given
  the frames 2 to 7: blocks at 2 (order 1) and 4 (order 2).\<close>

definition demo_boot :: pa_state where
  "demo_boot = \<lparr>free_page_lists = replicate (Suc kMaxOrder) [],
     pages = (\<lambda>p. if p < 2048 then Some (Page_init 0) else None)\<rparr>"

definition demo_alloc :: pa_state where
  "demo_alloc = projr (InitRange 2 8 demo_boot)"

lemma demo_boot_inv: "pa_inv {..<2048} demo_boot {} {}" "frames_ok {..<2048} demo_boot 2 8"
proof -
  have "territory {..<2048}"
    by (auto simp: territory_def kMaxOrder_def intro: div_less_iff_less_mult [THEN iffD1])
  then show "pa_inv {..<2048} demo_boot {} {}"
    unfolding demo_boot_def by (rule pa_inv_empty) (simp add: marked_def Page_init_def)
  then show "frames_ok {..<2048} demo_boot 2 8"
    by (auto simp: frames_ok_def demo_boot_def cover_def free_blocks_def simp del: replicate_Suc)
qed

lemma demo_alloc_inv: "pa_inv {..<2048} demo_alloc {} {}" "InitRange 2 8 demo_boot = Inr demo_alloc"
  using InitRange_ok [OF demo_boot_inv] by (auto simp: demo_alloc_def)

lemma demo_alloc_lists: "free_page_lists demo_alloc = [[], [2], [4], [], [], [], [], [], [], [], [], []]"
  by code_simp


definition blocks_of :: "pfn list list \<Rightarrow> (pfn \<times> nat) set" where
  "blocks_of ls = (\<Union>(k, l) \<in> set (enumerate 0 ls). (\<lambda>p. (p, k)) ` set l)"

lemma free_blocks_enum:
  assumes "length (free_page_lists st) = Suc kMaxOrder"
  shows "free_blocks st = blocks_of (free_page_lists st)"
proof -
  have "(p, k) \<in> blocks_of (free_page_lists st) \<longleftrightarrow> (p, k) \<in> free_blocks st" for p k
    using assms by (auto simp: free_blocks_def blocks_of_def in_set_enumerate_eq less_Suc_eq_le image_iff
      intro!: bexI [where x = "(k, free_page_lists st ! k)"])
  then show ?thesis by auto
qed

lemma demo_alloc_blocks: "free_blocks demo_alloc = {(2, 1), (4, 2)}"
  by (subst free_blocks_enum) (auto simp: demo_alloc_lists kMaxOrder_def blocks_of_def)

lemma demo_alloc_coalesced: "coalesced demo_alloc"
  by (auto simp: coalesced_def demo_alloc_blocks PfnToBuddy_def)

definition demo_held :: pa_state where
  "demo_held = snd (projr (AllocLocal 0 u64 demo_alloc))"

lemma demo_held_step: "AllocLocal 0 u64 demo_alloc = Inr (2, demo_held)"
proof -
  have "fst (projr (AllocLocal 0 u64 demo_alloc)) = 2" by code_simp
  then show ?thesis using AllocLocal_ok [OF demo_alloc_inv(1), of 0 u64] by (auto simp: demo_held_def)
qed

lemma demo_held_inv: "pa_inv {..<2048} demo_held {(2, 0)} {}"
  using AllocLocal_ok [OF demo_alloc_inv(1), of 0 u64] demo_held_step by (auto simp: Pfn_None_def)

section \<open>Properties\<close>

text \<open>C1: Safety of every history.  From any state satisfying the invariant, any sequence of
  allocations (of any order, below any address) and frees of held blocks runs to completion
  without a failed assertion, abort or list corruption; at the end the invariant holds, the
  blocks held by clients are pairwise disjoint sets of frames, and the allocator's own
  \<open>Validate\<close> self-check succeeds.\<close>

theorem page_histories_safe:
  assumes "pa_inv T st A {}"
  shows "\<exists>st' A'. serve PageAcquire PageReturn rs st A = Inr (st', A') \<and> pa_inv T st' A' {} \<and>
    Validate st' \<and> (\<forall>(p, k) \<in> A'. \<forall>(q, j) \<in> A'. (p, k) \<noteq> (q, j) \<longrightarrow> blk p k \<inter> blk q j = {})"
proof -
  from pages.serve_ok [OF assms] obtain st' A' where
    1: "serve PageAcquire PageReturn rs st A = Inr (st', A')" "pa_inv T st' A' {}" by blast
  have "blk p k \<inter> blk q j = {}" if "(p, k) \<in> A'" "(q, j) \<in> A'" "(p, k) \<noteq> (q, j)" for p k q j
    using pages.live_apart [OF 1(2) that] by (simp add: block_clash_def)
  then show ?thesis using 1 Validate_ok [OF 1(2)] by blast
qed

theorem page_histories_safe_witness:
  "\<exists>st' A'. serve PageAcquire PageReturn [Acquire (1, u64), Acquire (0, u64), Return (2, 1)] demo_alloc {}
      = Inr (st', A') \<and> Validate st' \<and> pa_inv {..<2048} st' A' {}"
  using page_histories_safe [OF demo_alloc_inv(1)] by blast

text \<open>C25: Functional behaviour of \<open>AllocLocal\<close>.  It never faults.  It returns \<open>Pfn::None()\<close>,
  leaving the state alone, exactly when no free block of the requested or a larger order
  starts below \<open>max_addr\<close>.  Otherwise it returns a naturally aligned block that starts below
  \<open>max_addr\<close>, was free, overlaps no live block, and the free frames afterwards are exactly
  the previous ones without that block.\<close>

theorem AllocLocal_spec:
  assumes inv: "pa_inv T st A {}"
  shows "\<exists>p st'. AllocLocal k mx st = Inr (p, st') \<and>
    (if p = Pfn_None
     then st' = st \<and> (\<forall>(q, j) \<in> free_blocks st. k \<le> j \<longrightarrow> mx \<le> ToAddr q)
     else 2 ^ k dvd p \<and> ToAddr p < mx \<and> blk p k \<subseteq> cover (free_blocks st) \<and>
       blk p k \<inter> cover A = {} \<and> cover (free_blocks st') = cover (free_blocks st) - blk p k \<and>
       pa_inv T st' (insert (p, k) A) {})"
  using AllocLocal_ok [OF inv, of k mx]
proof (elim disjE exE conjE)
  assume a: "AllocFind k mx (free_page_lists st) = None" "AllocLocal k mx st = Inr (Pfn_None, st)"
  then show ?thesis by (auto simp: AllocFind_None free_blocks_def not_less)
next
  fix p j st'
  assume 1: "AllocLocal k mx st = Inr (p, st')" "pa_inv T st' (insert (p, k) A) {}"
    "(p, j) \<in> free_blocks st" "k \<le> j" "ToAddr p < mx"
    "free_blocks st' = free_blocks st - {(p, j)} \<union> split_blocks p k j"
  have sub: "blk p k \<subseteq> blk p j" using 1(4) by (auto simp: blk_def intro!: add_left_mono power_increasing)
  have in_j: "blk p j \<subseteq> cover (free_blocks st)" using 1(3) by (auto simp: cover_def)
  have dj: "blk p j \<inter> cover (free_blocks st - {(p, j)} \<union> A) = {}"
    using inv 1(3) by (intro disjoint_blocks_cover) (auto simp: pa_inv_def insert_absorb elim: disjoint_blocks_subset)
  have "cover (free_blocks st) = blk p j \<union> cover (free_blocks st - {(p, j)})"
    using 1(3) by (metis cover_insert insert_Diff)
  then have "cover (free_blocks st') = cover (free_blocks st) - blk p k"
    unfolding 1(6) cover_Un cover_split_blocks [OF 1(4)] using dj sub by auto
  moreover have "2 ^ k dvd p" using pa_inv_blocks [OF 1(2), of "(p, k)"] by (simp add: is_block_def)
  moreover have "p \<noteq> Pfn_None" using inv 1(3) by (auto dest: pa_inv_not_None)
  moreover have "blk p k \<inter> cover A = {}" using dj sub by auto
  ultimately show ?thesis using 1 sub in_j by auto
qed

theorem AllocLocal_spec_witness:
  "AllocLocal 0 u64 demo_alloc = Inr (2, demo_held) \<and>
    cover (free_blocks demo_held) = cover (free_blocks demo_alloc) - blk 2 0"
  using AllocLocal_spec [OF demo_alloc_inv(1), of 0 u64] demo_held_step by (auto simp: Pfn_None_def)

text \<open>C7: Freeing a block just allocated restores the free blocks.  When no two free buddies
  are left unmerged, \<open>AllocLocal\<close> followed by \<open>Free\<close> of the returned block gives back
  exactly the same set of free blocks, at the same orders: every block split on the way is
  merged again and nothing else is.\<close>

theorem Free_undoes_AllocLocal:
  assumes "pa_inv T st A {}" "coalesced st" "AllocLocal k mx st = Inr (p, st1)" "p \<noteq> Pfn_None"
  shows "\<exists>st2. Free p k st1 = Inr st2 \<and> free_blocks st2 = free_blocks st"
  using assms by (rule Free_AllocLocal_blocks)

theorem Free_undoes_AllocLocal_witness:
  "\<exists>st2. Free 2 0 demo_held = Inr st2 \<and> free_blocks st2 = {(2, 1), (4, 2)}"
  using Free_undoes_AllocLocal [OF demo_alloc_inv(1) demo_alloc_coalesced demo_held_step]
  by (simp add: Pfn_None_def demo_alloc_blocks)

text \<open>C15: \<open>Free\<close> of a held block never faults, returns exactly the frames of the block to the
  free memory, removes the block from the held ones, and keeps maximal coalescing: if no two
  free buddies of the same order were left unmerged before, none are afterwards.\<close>

theorem Free_coalesces:
  assumes "pa_inv T st A {}" "(p, k) \<in> A"
  shows "\<exists>st'. Free p k st = Inr st' \<and> pa_inv T st' (A - {(p, k)}) {} \<and>
    cover (free_blocks st') = blk p k \<union> cover (free_blocks st) \<and> (coalesced st \<longrightarrow> coalesced st')"
  using assms by (rule Free_ok)

theorem Free_coalesces_witness:
  "\<exists>st'. Free 2 0 demo_held = Inr st' \<and> pa_inv {..<2048} st' {} {} \<and>
    cover (free_blocks st') = blk 2 0 \<union> cover (free_blocks demo_held)"
  using Free_coalesces [OF demo_held_inv, of 2 0] by auto

text \<open>C16: Start-up.  Given any range of fewer than \<open>2 ^ 31\<close> frames that lie in the node's
  territory, have descriptors and are not already managed, the lambda of \<open>Init\<close> terminates
  without a failed assertion or an undefined bit scan, establishes the invariant, and the
  free blocks it adds tile exactly that range.\<close>

theorem InitRange_tiles:
  assumes "pa_inv T st {} {}" "frames_ok T st a b" "a < b" "b - a < 2 ^ 31"
  shows "\<exists>st'. InitRange a b st = Inr st' \<and> pa_inv T st' {} {} \<and>
    cover (free_blocks st') = {a..<b} \<union> cover (free_blocks st)"
  using assms by (rule InitRange_ok)

theorem InitRange_tiles_witness:
  "\<exists>st'. InitRange 2 8 demo_boot = Inr st' \<and> pa_inv {..<2048} st' {} {} \<and>
    cover (free_blocks st') = {2..<8} \<union> cover (free_blocks demo_boot)"
  using InitRange_tiles [OF demo_boot_inv] by simp

end
