(* ===== verification/IdPool.thy ===== *)
theory IdPool
  imports ResourceSpec
begin

text \<open>
  Identifier pools: the port pools of \<open>src/src/native/SharedPoolAllocator.h\<close> and the Ebb
  identifiers of \<open>src/src/EbbAllocator.cc\<close>.  Both keep their free values in a
  \<open>boost::icl::interval_set\<close>, which is not part of this repository: its operations are the
  record \<open>icl\<close>, an argument of every definition, and \<open>icl_laws\<close> names what the code relies on.
  The default \<open>interval<T>::type(a, b)\<close> of an integral type is right-open.
\<close>

section \<open>The interval set\<close>

record 'b icl =
  icl_empty :: 'b
  icl_add_range :: "nat \<Rightarrow> nat \<Rightarrow> 'b \<Rightarrow> 'b"
  icl_add :: "nat \<Rightarrow> 'b \<Rightarrow> 'b"
  icl_sub :: "nat \<Rightarrow> 'b \<Rightarrow> 'b"
  icl_is_empty :: "'b \<Rightarrow> bool"
  icl_lower :: "'b \<Rightarrow> nat"
  icl_first :: "'b \<Rightarrow> nat"
  icl_contains :: "'b \<Rightarrow> nat \<Rightarrow> bool"

text \<open>The laws, over the set \<open>elems s\<close> of values an interval set holds.\<close>

definition icl_laws :: "'b icl \<Rightarrow> ('b \<Rightarrow> nat set) \<Rightarrow> bool" where
  "icl_laws b elems \<longleftrightarrow>
     elems (icl_empty b) = {} \<and>
     (\<forall>x y s. elems (icl_add_range b x y s) = elems s \<union> {x..<y}) \<and>
     (\<forall>v s. elems (icl_add b v s) = insert v (elems s)) \<and>
     (\<forall>v s. elems (icl_sub b v s) = elems s - {v}) \<and>
     (\<forall>s. icl_is_empty b s \<longleftrightarrow> elems s = {}) \<and>
     (\<forall>s. elems s \<noteq> {} \<longrightarrow> icl_lower b s \<in> elems s \<and> (\<forall>v \<in> elems s. icl_lower b s \<le> v)) \<and>
     (\<forall>s. elems s \<noteq> {} \<longrightarrow> icl_first b s \<in> elems s \<and> (\<forall>v \<in> elems s. icl_first b s \<le> v)) \<and>
     (\<forall>s v. icl_contains b s v \<longleftrightarrow> v \<in> elems s)"

section \<open>SharedPoolAllocator\<close>

definition Pool_new :: "'b icl \<Rightarrow> nat \<Rightarrow> nat \<Rightarrow> 'b" where
  "Pool_new b lo hi = icl_add_range b lo hi (icl_empty b)"

definition Pool_Allocate :: "'b icl \<Rightarrow> 'b \<Rightarrow> nat option \<times> 'b" where
  "Pool_Allocate b pool =
    (if icl_is_empty b pool then (None, pool)
     else let v = icl_lower b pool in (Some v, icl_sub b v pool))"

definition Pool_Reserve :: "'b icl \<Rightarrow> nat \<Rightarrow> 'b \<Rightarrow> bool \<times> 'b" where
  "Pool_Reserve b val pool =
    (if icl_contains b pool val then (True, icl_sub b val pool) else (False, pool))"

definition Pool_Free :: "'b icl \<Rightarrow> nat \<Rightarrow> 'b \<Rightarrow> 'b" where
  "Pool_Free b val pool = icl_add b val pool"

section \<open>EbbAllocator\<close>

definition kFirstLocalId :: nat where "kFirstLocalId = 1"

definition kFirstFreeId :: nat where "kFirstFreeId = kFirstLocalId + 9"

definition kFirstStaticUserId :: nat where "kFirstStaticUserId = 0x8000"

record 'b ebb_allocator =
  free_ids :: 'b
  free_global_ids :: 'b

definition EbbAllocator_new :: "'b icl \<Rightarrow> 'b ebb_allocator" where
  "EbbAllocator_new b =
    \<lparr>free_ids = icl_add_range b kFirstFreeId (kFirstStaticUserId - 1) (icl_empty b),
     free_global_ids = icl_empty b\<rparr>"

definition EbbAllocator_new_hosted :: "'b icl \<Rightarrow> 'b ebb_allocator" where
  "EbbAllocator_new_hosted b =
    (EbbAllocator_new b)
      \<lparr>free_global_ids := icl_add_range b (2 ^ 16) (2 * 2 ^ 16 - 1) (icl_empty b)\<rparr>"

definition AllocateLocal :: "'b icl \<Rightarrow> 'b ebb_allocator \<Rightarrow> (nat \<times> 'b ebb_allocator) result" where
  "AllocateLocal b a =
    (if icl_is_empty b (free_ids a) then Inl (KAbort ''free_ids.empty()'')
     else let v = icl_first b (free_ids a)
       in Inr (v, a\<lparr>free_ids := icl_sub b v (free_ids a)\<rparr>))"

definition AllocateGlobal :: "'b icl \<Rightarrow> 'b ebb_allocator \<Rightarrow> (nat \<times> 'b ebb_allocator) result" where
  "AllocateGlobal b a =
    (if icl_is_empty b (free_global_ids a) then Inl (Throw ''Out of Global Ids!'')
     else let v = icl_first b (free_global_ids a)
       in Inr (v, a\<lparr>free_global_ids := icl_sub b v (free_global_ids a)\<rparr>))"

text \<open>The space is shifted as a promoted \<open>int\<close> and converted to \<open>EbbId\<close>: the compiler the build uses
  shifts and converts modulo \<open>2 ^ 32\<close>, also from space 0x7fff on.\<close>

definition SetIdSpace :: "'b icl \<Rightarrow> nat \<Rightarrow> 'b ebb_allocator \<Rightarrow> 'b ebb_allocator" where
  "SetIdSpace b space a =
    (let id_start = (space * 2 ^ 16) mod u32; id_end = ((space + 1) * 2 ^ 16 - 1) mod u32
     in a\<lparr>free_global_ids := icl_add_range b id_start id_end (free_global_ids a)\<rparr>)"

text \<open>\<open>GenerateStaticEbbId\<close>, over the value of the constexpr string hash.\<close>

definition GenerateStaticEbbId :: "nat \<Rightarrow> nat" where
  "GenerateStaticEbbId h = kFirstStaticUserId OR (h mod 0x1000)"

section \<open>An interval set on lists\<close>

text \<open>A concrete interval set, to evaluate the pools on: a duplicate-free sorted list.\<close>

definition list_icl :: "nat list icl" where
  "list_icl =
    \<lparr>icl_empty = [],
     icl_add_range = (\<lambda>x y s. remdups (s @ [x..<y])),
     icl_add = (\<lambda>v s. List.insert v s),
     icl_sub = (\<lambda>v s. removeAll v s),
     icl_is_empty = (\<lambda>s. s = []),
     icl_lower = (\<lambda>s. fold min s (hd s)),
     icl_first = (\<lambda>s. fold min s (hd s)),
     icl_contains = (\<lambda>s v. v \<in> set s)\<rparr>"

lemma fold_min_least:
  "fold min s (x :: nat) \<in> insert x (set s) \<and> (\<forall>v \<in> insert x (set s). fold min s x \<le> v)"
proof (induction s arbitrary: x)
  case (Cons a s)
  from Cons [of "min a x"] show ?case by (auto simp: min_def split: if_splits)
qed simp

lemma list_icl_laws: "icl_laws list_icl set"
proof -
  have "fold min s (hd s) \<in> set s \<and> (\<forall>v \<in> set s. fold min s (hd s) \<le> v)" if "s \<noteq> []" for s :: "nat list"
    using fold_min_least [of s "hd s"] that by (auto simp: insert_absorb)
  then show ?thesis by (auto simp: icl_laws_def list_icl_def)
qed

section \<open>The pool as an allocator\<close>

definition PoolAcquire :: "'b icl \<Rightarrow> unit \<Rightarrow> 'b \<Rightarrow> (nat option \<times> 'b) result" where
  "PoolAcquire b q s = Inr (Pool_Allocate b s)"

definition PoolReturn :: "'b icl \<Rightarrow> nat \<Rightarrow> 'b \<Rightarrow> 'b result" where
  "PoolReturn b v s = Inr (Pool_Free b v s)"

definition pool_inv :: "('b \<Rightarrow> nat set) \<Rightarrow> nat set \<Rightarrow> 'b \<Rightarrow> nat set \<Rightarrow> bool" where
  "pool_inv elems U s L \<longleftrightarrow> elems s \<inter> L = {} \<and> elems s \<union> L = U"

lemma Pool_Allocate_cases:
  assumes "icl_laws b elems"
  shows "(elems s = {} \<and> Pool_Allocate b s = (None, s)) \<or>
    (\<exists>v s'. Pool_Allocate b s = (Some v, s') \<and> v \<in> elems s \<and> (\<forall>x \<in> elems s. v \<le> x) \<and>
       elems s' = elems s - {v})"
  using assms by (cases "elems s = {}") (auto simp: icl_laws_def Pool_Allocate_def Let_def)

lemma elems_Free:
  "icl_laws b elems \<Longrightarrow> elems (Pool_Free b v s) = insert v (elems s)"
  by (simp add: icl_laws_def Pool_Free_def)

lemma pool_allocator:
  assumes "icl_laws b elems"
  shows "allocator (PoolAcquire b) (PoolReturn b) (pool_inv elems U) (=)"
proof
  fix s L and q :: unit assume "pool_inv elems U s L"
  then show "\<exists>r s'. PoolAcquire b q s = Inr (r, s') \<and>
      (case r of None \<Rightarrow> pool_inv elems U s' L | Some x \<Rightarrow> x \<notin> L \<and> pool_inv elems U s' (insert x L))"
    using Pool_Allocate_cases [OF assms, of s] by (auto simp: PoolAcquire_def pool_inv_def)
next
  fix s L x assume "pool_inv elems U s L" "x \<in> L"
  then show "\<exists>s'. PoolReturn b x s = Inr s' \<and> pool_inv elems U s' (L - {x})"
    using elems_Free [OF assms] by (auto simp: PoolReturn_def pool_inv_def)
qed simp

section \<open>Properties\<close>

text \<open>Port and identifier pools never hand out the same value twice.  Over any interval set
  that keeps its laws, a fresh pool \<open>[lo, hi)\<close> serves every history of allocations and frees
  of held values without a fault, and at any moment the held values and the free values
  partition \<open>[lo, hi)\<close>.\<close>

theorem pool_histories:
  assumes "icl_laws b elems"
  shows "\<exists>s L. serve (PoolAcquire b) (PoolReturn b) rs (Pool_new b lo hi) {} = Inr (s, L) \<and>
    elems s \<inter> L = {} \<and> elems s \<union> L = {lo..<hi}"
proof -
  have "pool_inv elems {lo..<hi} (Pool_new b lo hi) {}"
    using assms by (simp add: pool_inv_def Pool_new_def icl_laws_def)
  from allocator.serve_ok [OF pool_allocator [OF assms] this]
  show ?thesis by (auto simp: pool_inv_def)
qed

theorem pool_histories_witness:
  "\<exists>s L. serve (PoolAcquire list_icl) (PoolReturn list_icl) [Acquire (), Acquire (), Return 5]
      (Pool_new list_icl 5 9) {} = Inr (s, L) \<and> set s \<union> L = {5..<9}"
  using pool_histories [OF list_icl_laws, of _ 5 9] by blast

text \<open>Exact behaviour of \<open>Reserve\<close>: it succeeds exactly on a free value and removes only
  that one; after it succeeds no later allocation returns the value until it is freed, and
  freeing it makes the pool hold the same values as before.\<close>

theorem Reserve_spec:
  assumes "icl_laws b elems"
  shows "(fst (Pool_Reserve b v s) \<longleftrightarrow> v \<in> elems s) \<and>
    elems (snd (Pool_Reserve b v s)) = elems s - {v} \<and>
    fst (Pool_Allocate b (snd (Pool_Reserve b v s))) \<noteq> Some v \<and>
    (v \<in> elems s \<longrightarrow> elems (Pool_Free b v (snd (Pool_Reserve b v s))) = elems s)"
proof -
  have 1: "fst (Pool_Reserve b v s) \<longleftrightarrow> v \<in> elems s" "elems (snd (Pool_Reserve b v s)) = elems s - {v}"
    using assms by (auto simp: Pool_Reserve_def icl_laws_def)
  then show ?thesis
    using Pool_Allocate_cases [OF assms, of "snd (Pool_Reserve b v s)"] elems_Free [OF assms] by auto
qed

theorem Reserve_spec_witness:
  "fst (Pool_Reserve list_icl 7 (Pool_new list_icl 5 9)) \<and>
   set (Pool_Free list_icl 7 (snd (Pool_Reserve list_icl 7 (Pool_new list_icl 5 9)))) =
     set (Pool_new list_icl 5 9)"
  using Reserve_spec [OF list_icl_laws, of 7 "Pool_new list_icl 5 9"]
  by (simp add: Pool_new_def list_icl_def)

text \<open>The identifiers a node may hand out.\<close>

definition local_ids :: "nat set" where "local_ids = {kFirstFreeId..<kFirstStaticUserId - 1}"

definition space_ids :: "nat \<Rightarrow> nat set" where
  "space_ids sp = {sp * 2 ^ 16..<(sp + 1) * 2 ^ 16 - 1}"

definition ebb_inv :: "('b \<Rightarrow> nat set) \<Rightarrow> nat \<Rightarrow> 'b ebb_allocator \<Rightarrow> bool" where
  "ebb_inv elems sp a \<longleftrightarrow> elems (free_ids a) \<subseteq> local_ids \<and> elems (free_global_ids a) \<subseteq> space_ids sp"

lemma ebb_inv_SetIdSpace:
  assumes "icl_laws b elems" "sp < 2 ^ 16"
  shows "ebb_inv elems sp (SetIdSpace b sp (EbbAllocator_new b))"
  using assms by (auto simp: ebb_inv_def SetIdSpace_def EbbAllocator_new_def icl_laws_def
      local_ids_def space_ids_def Let_def)

lemma AllocateLocal_ok:
  assumes "icl_laws b elems" "ebb_inv elems sp a" "AllocateLocal b a = Inr (v, a')"
  shows "ebb_inv elems sp a' \<and> v \<in> local_ids \<and> v \<in> elems (free_ids a) \<and> v \<notin> elems (free_ids a')"
  using assms by (fastforce simp: AllocateLocal_def ebb_inv_def icl_laws_def Let_def split: if_splits)

lemma AllocateGlobal_ok:
  assumes "icl_laws b elems" "ebb_inv elems sp a" "AllocateGlobal b a = Inr (v, a')"
  shows "ebb_inv elems sp a' \<and> v \<in> space_ids sp \<and> v \<in> elems (free_global_ids a) \<and>
    v \<notin> elems (free_global_ids a')"
  using assms by (fastforce simp: AllocateGlobal_def ebb_inv_def icl_laws_def Let_def split: if_splits)

text \<open>Any number of global allocations on a node.\<close>

fun take_ids :: "'b icl \<Rightarrow> nat \<Rightarrow> 'b ebb_allocator \<Rightarrow> nat list \<times> 'b ebb_allocator" where
  "take_ids b 0 a = ([], a)"
| "take_ids b (Suc n) a = (case AllocateGlobal b a of
     Inl _ \<Rightarrow> ([], a)
   | Inr (v, a') \<Rightarrow> (let (vs, a'') = take_ids b n a' in (v # vs, a'')))"

lemma take_ids_ok:
  assumes "icl_laws b elems" "ebb_inv elems sp a"
  shows "set (fst (take_ids b n a)) \<subseteq> elems (free_global_ids a) \<inter> space_ids sp \<and>
    distinct (fst (take_ids b n a))"
  using assms(2)
proof (induction n arbitrary: a)
  case (Suc n)
  show ?case
  proof (cases "AllocateGlobal b a")
    case (Inr r)
    then obtain v a' where r: "AllocateGlobal b a = Inr (v, a')" by (cases r) auto
    note ok = AllocateGlobal_ok [OF assms(1) Suc.prems r]
    have "elems (free_global_ids a') \<subseteq> elems (free_global_ids a)"
      using assms(1) r by (auto simp: AllocateGlobal_def icl_laws_def Let_def split: if_splits)
    then show ?thesis using Suc.IH [of a'] ok r by (auto simp: Let_def split: prod.splits)
  qed simp
qed simp

lemma space_ids_disjoint:
  assumes "s \<noteq> t" shows "space_ids s \<inter> space_ids t = {}"
proof -
  have "x div 2 ^ 16 = s" if "x \<in> space_ids s" for x s
    using that by (intro div_nat_eqI) (auto simp: space_ids_def)
  then show ?thesis using assms by auto
qed

text \<open>C28: Global Ebb identifiers are unique across machines.  Two nodes given different id
  spaces each allocate any number of global identifiers: all the identifiers are pairwise
  distinct, within a node and across the two, and none is a local identifier, a reserved
  identifier or a hashed static identifier.\<close>

theorem global_ids_unique:
  assumes "icl_laws b elems" "s \<noteq> t" "0 < s" "0 < t" "s < 2 ^ 16" "t < 2 ^ 16"
    and "xs = fst (take_ids b n (SetIdSpace b s (EbbAllocator_new b)))"
    and "ys = fst (take_ids b m (SetIdSpace b t (EbbAllocator_new b)))"
  shows "distinct (xs @ ys) \<and> (\<forall>v \<in> set (xs @ ys). 2 ^ 16 \<le> v \<and> v \<notin> local_ids \<and>
    (\<forall>h. v \<noteq> GenerateStaticEbbId h))"
proof -
  have X: "set xs \<subseteq> space_ids s" "distinct xs"
    using take_ids_ok [OF assms(1) ebb_inv_SetIdSpace [OF assms(1,5)], of n] assms(7) by auto
  have Y: "set ys \<subseteq> space_ids t" "distinct ys"
    using take_ids_ok [OF assms(1) ebb_inv_SetIdSpace [OF assms(1,6)], of m] assms(8) by auto
  have lo: "2 ^ 16 \<le> v" if "v \<in> space_ids r" "0 < r" for v r
    using that by (auto simp: space_ids_def)
  have "GenerateStaticEbbId h < 2 ^ 16" for h
    unfolding GenerateStaticEbbId_def by (rule or_nat_less) (auto simp: kFirstStaticUserId_def)
  then have st: "v \<noteq> GenerateStaticEbbId h" if "2 ^ 16 \<le> v" for v h
    using that by (metis linorder_not_le)
  have lc: "v \<notin> local_ids" if "2 ^ 16 \<le> v" for v
    using that by (auto simp: local_ids_def kFirstStaticUserId_def)
  have "set xs \<inter> set ys = {}" using X(1) Y(1) space_ids_disjoint [OF assms(2)] by blast
  moreover have "2 ^ 16 \<le> v" if "v \<in> set (xs @ ys)" for v
    using that X(1) Y(1) lo [of v s] lo [of v t] assms(3,4) by auto
  ultimately show ?thesis using X(2) Y(2) st lc by (metis distinct_append)
qed

theorem global_ids_unique_witness:
  "distinct (fst (take_ids list_icl 1 (SetIdSpace list_icl 1 (EbbAllocator_new list_icl))) @
     fst (take_ids list_icl 2 (SetIdSpace list_icl 2 (EbbAllocator_new list_icl))))"
  using global_ids_unique [OF list_icl_laws, of 1 2 _ 1 _ 2] by auto

end
