(* ===== verification/IOBuf.thy ===== *)
theory IOBuf
  imports EbbPrelude "HOL-Library.Monad_Syntax"
begin

text \<open>
  Buffer chains: \<open>src/src/IOBuf.h\<close>, \<open>IOBuf.cc\<close>, \<open>IOBufRef.cc\<close> and \<open>UniqueIOBuf.cc\<close>.

  An \<open>IOBuf\<close> is a view (\<open>data_\<close>, \<open>length_\<close>) into a buffer and a node of a circular doubly
  linked list.  The links live in a heap from addresses to \<open>iobuf\<close> records, updated in the
  order of the C++ assignments; the bytes live in a separate store of buffers, so that two
  views of one buffer alias.  \<open>chain h xs\<close> says that the nodes \<open>xs\<close> form a chain with head
  \<open>hd xs\<close>; every operation is shown to act on \<open>xs\<close> as a list operation.  The C++ loops follow
  links until they meet the head again: they are \<open>partial_function\<close>s, and a chain makes them
  return.
\<close>

section \<open>Nodes and views\<close>

type_synonym addr = nat

record iobuf =
  nxt :: addr
  prv :: addr
  buffer :: nat
  capacity :: nat
  data :: nat
  len :: nat

type_synonym heap = "addr \<Rightarrow> iobuf"

type_synonym store = "nat \<Rightarrow> byte list"

definition view :: "store \<Rightarrow> iobuf \<Rightarrow> byte list" where
  "view m b = take (len b) (drop (data b) (m (buffer b)))"

definition view_ok :: "store \<Rightarrow> iobuf \<Rightarrow> bool" where
  "view_ok m b \<longleftrightarrow> length (m (buffer b)) = capacity b \<and> data b + len b \<le> capacity b"

definition Advance :: "nat \<Rightarrow> iobuf \<Rightarrow> iobuf result" where
  "Advance amount b =
    (if len b < amount then Inl (KAssert ''length_ >= amount'')
     else Inr (b\<lparr>data := data b + amount, len := len b - amount\<rparr>))"

definition Retreat :: "nat \<Rightarrow> iobuf \<Rightarrow> iobuf result" where
  "Retreat amount b =
    (if data b < amount then Inl (KAssert ''(data_ - amount) >= Buffer()'')
     else Inr (b\<lparr>data := data b - amount, len := len b + amount\<rparr>))"

text \<open>\<open>TrimEnd\<close> has no check: \<open>length_\<close> wraps around when \<open>amount\<close> exceeds it.\<close>

definition TrimEnd :: "nat \<Rightarrow> iobuf \<Rightarrow> iobuf" where
  "TrimEnd amount b = b\<lparr>len := (len b + u64 - amount mod u64) mod u64\<rparr>"

text \<open>\<open>MakeUniqueIOBuf\<close>: a node at address \<open>a\<close> that views the whole of a fresh buffer \<open>r\<close>.\<close>

definition MakeUniqueIOBuf :: "addr \<Rightarrow> nat \<Rightarrow> nat \<Rightarrow> bool \<Rightarrow> byte list \<Rightarrow> heap \<times> store \<Rightarrow> heap \<times> store" where
  "MakeUniqueIOBuf a r cap zero_memory junk = (\<lambda>(h, m).
     (h(a := \<lparr>nxt = a, prv = a, buffer = r, capacity = cap, data = 0, len = cap\<rparr>),
      m(r := (if zero_memory then replicate cap 0 else take cap (junk @ replicate cap 0)))))"

section \<open>Links\<close>

definition set_nxt :: "addr \<Rightarrow> addr \<Rightarrow> heap \<Rightarrow> heap" where
  "set_nxt a v h = h(a := (h a)\<lparr>nxt := v\<rparr>)"

definition set_prv :: "addr \<Rightarrow> addr \<Rightarrow> heap \<Rightarrow> heap" where
  "set_prv a v h = h(a := (h a)\<lparr>prv := v\<rparr>)"

definition PrependChain :: "addr \<Rightarrow> addr \<Rightarrow> heap \<Rightarrow> heap" where
  "PrependChain this other h =
    (let other_tail = prv (h other);
         h1 = set_nxt (prv (h this)) other h;
         h2 = set_prv other (prv (h1 this)) h1;
         h3 = set_nxt other_tail this h2
     in set_prv this other_tail h3)"

definition AppendChain :: "addr \<Rightarrow> addr \<Rightarrow> heap \<Rightarrow> heap" where
  "AppendChain this other h = PrependChain (nxt (h this)) other h"

definition Unlink :: "addr \<Rightarrow> heap \<Rightarrow> heap" where
  "Unlink this h =
    (let h1 = set_prv (nxt (h this)) (prv (h this)) h;
         h2 = set_nxt (prv (h1 this)) (nxt (h1 this)) h1
     in set_nxt this this (set_prv this this h2))"

definition UnlinkEnd :: "addr \<Rightarrow> addr \<Rightarrow> heap \<Rightarrow> heap" where
  "UnlinkEnd this fin h =
    (let new_end = prv (h fin);
         h1 = set_prv fin (prv (h this)) h;
         h2 = (if nxt (h1 fin) = this then set_nxt fin fin h1 else h1);
         h3 = set_nxt (prv (h2 this)) fin h2;
         h4 = set_prv this new_end h3
     in set_nxt new_end this h4)"

definition Pop :: "addr \<Rightarrow> heap \<Rightarrow> addr option \<times> heap" where
  "Pop this h =
    (let nx = nxt (h this);
         h1 = set_prv (nxt (h this)) (prv (h this)) h;
         h2 = set_nxt (prv (h1 this)) (nxt (h1 this)) h1
     in (if nx = this then None else Some nx, set_nxt this this (set_prv this this h2)))"

definition IsChained :: "addr \<Rightarrow> heap \<Rightarrow> bool" where
  "IsChained this h \<longleftrightarrow> nxt (h this) \<noteq> this"

text \<open>The walk of the range-for loops and of the counting loops: the nodes after \<open>cur\<close> up to
  \<open>this\<close>.\<close>

partial_function (option) walk :: "heap \<Rightarrow> addr \<Rightarrow> addr \<Rightarrow> addr list option" where
  "walk h this cur =
    (if cur = this then Some []
     else Option.bind (walk h this (nxt (h cur))) (\<lambda>xs. Some (cur # xs)))"

definition elements :: "heap \<Rightarrow> addr \<Rightarrow> addr list option" where
  "elements h this = map_option ((#) this) (walk h this (nxt (h this)))"

partial_function (option) count_loop :: "heap \<Rightarrow> addr \<Rightarrow> addr \<Rightarrow> nat \<Rightarrow> nat option" where
  "count_loop h this cur n =
    (if cur = this then Some n else count_loop h this (nxt (h cur)) (n + 1))"

definition CountChainElements :: "heap \<Rightarrow> addr \<Rightarrow> nat option" where
  "CountChainElements h this = count_loop h this (nxt (h this)) 1"

partial_function (option) length_loop :: "heap \<Rightarrow> addr \<Rightarrow> addr \<Rightarrow> nat \<Rightarrow> nat option" where
  "length_loop h this cur n =
    (if cur = this then Some n else length_loop h this (nxt (h cur)) (n + len (h cur)))"

definition ComputeChainDataLength :: "heap \<Rightarrow> addr \<Rightarrow> nat option" where
  "ComputeChainDataLength h this = length_loop h this (nxt (h this)) (len (h this))"

text \<open>The loop of \<open>AdvanceChain\<close>, from \<open>buf\<close>; the iterator ends when it is back at the head.\<close>

partial_function (option) AdvanceChain_loop :: "addr \<Rightarrow> addr \<Rightarrow> nat \<Rightarrow> heap \<Rightarrow> heap option" where
  "AdvanceChain_loop this buf amount h =
    (let advance_len = min (len (h buf)) amount;
         h' = h(buf := (h buf)\<lparr>data := data (h buf) + advance_len, len := len (h buf) - advance_len\<rparr>)
     in if amount - advance_len = 0 \<or> nxt (h buf) = this then Some h'
        else AdvanceChain_loop this (nxt (h buf)) (amount - advance_len) h')"

definition AdvanceChain :: "addr \<Rightarrow> nat \<Rightarrow> heap \<Rightarrow> heap result option" where
  "AdvanceChain this amount h =
    Option.bind (ComputeChainDataLength h this) (\<lambda>n.
      if n < amount then Some (Inl (KAssert ''ComputeChainDataLength() >= amount''))
      else map_option Inr (AdvanceChain_loop this this amount h))"

text \<open>The destructor unlinks and deletes every other node of the chain, nearest first.\<close>

partial_function (option) Destroy :: "addr \<Rightarrow> heap \<Rightarrow> addr list \<Rightarrow> (addr list \<times> heap) option" where
  "Destroy this h freed =
    (if nxt (h this) = this then Some (freed @ [this], h)
     else Destroy this (Unlink (nxt (h this)) h) (freed @ [nxt (h this)]))"

text \<open>\<open>CreateRef\<close>: a node at a fresh address that views the same bytes; \<open>CreateRefChain\<close> takes
  one fresh address per node.\<close>

definition CreateRef :: "addr \<Rightarrow> addr \<Rightarrow> heap \<Rightarrow> heap result" where
  "CreateRef fresh src h =
    (let b = h src; r = \<lparr>nxt = fresh, prv = fresh, buffer = buffer b, capacity = capacity b,
                         data = 0, len = capacity b\<rparr>
     in bindr (Advance (data b) r) (\<lambda>r1. Inr (h(fresh := TrimEnd (len r1 - len b) r1))))"

fun CreateRef_loop :: "addr \<Rightarrow> (addr \<times> addr) list \<Rightarrow> heap \<Rightarrow> heap result" where
  "CreateRef_loop first [] h = Inr h"
| "CreateRef_loop first ((fresh, src) # ps) h =
     bindr (CreateRef fresh src h) (\<lambda>h1. CreateRef_loop first ps (PrependChain first fresh h1))"

definition CreateRefChain :: "addr list \<Rightarrow> addr \<Rightarrow> heap \<Rightarrow> heap result option" where
  "CreateRefChain fresh src h =
    Option.bind (elements h src) (\<lambda>srcs.
      Some (bindr (CreateRef (hd fresh) src h)
        (CreateRef_loop (hd fresh) (zip (tl fresh) (tl srcs)))))"

section \<open>DataPointer\<close>

text \<open>A read position: the node and the offset in its view.\<close>

type_synonym dptr = "addr \<times> nat"

partial_function (option) skip_empty :: "heap \<Rightarrow> addr \<Rightarrow> addr option" where
  "skip_empty h p = (if len (h p) = 0 then skip_empty h (nxt (h p)) else Some p)"

definition DataPointer :: "heap \<Rightarrow> addr \<Rightarrow> dptr result option" where
  "DataPointer h p =
    Option.bind (ComputeChainDataLength h p) (\<lambda>n.
      if n = 0 then Some (Inl (KAssert ''p->ComputeChainDataLength() > 0''))
      else map_option (\<lambda>q. Inr (q, 0)) (skip_empty h p))"

text \<open>The copy loop of \<open>GetNoAdvance\<close>; the branch for a request within one node is the same bytes.\<close>

partial_function (option) copy_loop :: "heap \<Rightarrow> store \<Rightarrow> addr \<Rightarrow> nat \<Rightarrow> nat \<Rightarrow> byte list \<Rightarrow> byte list option" where
  "copy_loop h m p offset n acc =
    (if n = 0 then Some acc
     else let remainder = min (len (h p) - offset) n;
              chunk = take remainder (drop (data (h p) + offset) (m (buffer (h p))))
       in copy_loop h m (nxt (h p)) 0 (n - remainder) (acc @ chunk))"

definition GetNoAdvance :: "heap \<Rightarrow> store \<Rightarrow> nat \<Rightarrow> dptr \<Rightarrow> byte list result option" where
  "GetNoAdvance h m sz dp = (case dp of (p, offset) \<Rightarrow>
     if len (h p) = 0 then Some (Inl (KAssert ''p_->Length() > 0''))
     else if len (h p) - offset < sz then map_option Inr (copy_loop h m p offset sz [])
     else if len (h p) - offset = 0 then Some (Inl (Throw ''DataPointer::Data() past end of buffer''))
     else Some (Inr (take sz (drop (data (h p) + offset) (m (buffer (h p)))))))"

partial_function (option) advance_loop :: "heap \<Rightarrow> addr \<Rightarrow> nat \<Rightarrow> nat \<Rightarrow> dptr option" where
  "advance_loop h p offset sz =
    (if sz = 0 then map_option (\<lambda>q. (q, offset)) (skip_empty h p)
     else let remainder = len (h p) - offset in
       if sz < remainder then Some (p, offset + sz)
       else advance_loop h (nxt (h p)) 0 (sz - remainder))"

definition DP_Advance :: "heap \<Rightarrow> nat \<Rightarrow> dptr \<Rightarrow> dptr result option" where
  "DP_Advance h sz dp = (case dp of (p, offset) \<Rightarrow>
     if len (h p) = 0 then Some (Inl (KAssert ''p_->Length() > 0''))
     else map_option Inr (advance_loop h p offset sz))"

definition Get :: "heap \<Rightarrow> store \<Rightarrow> nat \<Rightarrow> dptr \<Rightarrow> (byte list \<times> dptr) result option" where
  "Get h m sz dp =
    Option.bind (GetNoAdvance h m sz dp) (\<lambda>r. case r of Inl e \<Rightarrow> Some (Inl e)
      | Inr bs \<Rightarrow> map_option (map_sum id (Pair bs)) (DP_Advance h sz dp))"

section \<open>Chains as lists\<close>

fun path :: "heap \<Rightarrow> addr list \<Rightarrow> bool" where
  "path h [] = True"
| "path h [a] = True"
| "path h (a # b # r) = (nxt (h a) = b \<and> prv (h b) = a \<and> path h (b # r))"

definition chain :: "heap \<Rightarrow> addr list \<Rightarrow> bool" where
  "chain h xs \<longleftrightarrow> xs \<noteq> [] \<and> distinct xs \<and> path h xs \<and>
     nxt (h (last xs)) = hd xs \<and> prv (h (hd xs)) = last xs"

definition chain_data :: "store \<Rightarrow> heap \<Rightarrow> addr list \<Rightarrow> byte list" where
  "chain_data m h xs = concat (map (\<lambda>a. view m (h a)) xs)"

definition views_ok :: "store \<Rightarrow> heap \<Rightarrow> addr list \<Rightarrow> bool" where
  "views_ok m h xs \<longleftrightarrow> (\<forall>a \<in> set xs. view_ok m (h a))"

lemmas link_defs = set_nxt_def set_prv_def

lemma path_append:
  "path h (xs @ ys) \<longleftrightarrow> path h xs \<and> path h ys \<and>
     (xs \<noteq> [] \<and> ys \<noteq> [] \<longrightarrow> nxt (h (last xs)) = hd ys \<and> prv (h (hd ys)) = last xs)"
proof (induction h xs rule: path.induct)
  case (2 h a)
  then show ?case by (cases ys) auto
qed auto

lemma path_cong:
  assumes "\<And>a. a \<in> set (butlast xs) \<Longrightarrow> nxt (h' a) = nxt (h a)"
    "\<And>a. a \<in> set (tl xs) \<Longrightarrow> prv (h' a) = prv (h a)"
  shows "path h' xs = path h xs"
  using assms
proof (induction h xs rule: path.induct)
  case (3 h a b r)
  then show ?case by (cases r) auto
qed auto

lemma last_notin_butlast: "distinct xs \<Longrightarrow> xs \<noteq> [] \<Longrightarrow> last xs \<notin> set (butlast xs)"
  by (metis append_butlast_last_id distinct_append not_distinct_conv_prefix)

lemma hd_notin_tl: "distinct xs \<Longrightarrow> xs \<noteq> [] \<Longrightarrow> hd xs \<notin> set (tl xs)"
  by (cases xs) auto

text \<open>The views are untouched by link updates.\<close>

definition same_views :: "heap \<Rightarrow> heap \<Rightarrow> bool" where
  "same_views h h' \<longleftrightarrow> (\<forall>a. buffer (h' a) = buffer (h a) \<and> capacity (h' a) = capacity (h a) \<and>
     data (h' a) = data (h a) \<and> len (h' a) = len (h a))"

lemma same_views_refl [simp]: "same_views h h"
  by (simp add: same_views_def)

lemma same_views_nxt [simp]: "same_views h (set_nxt a v h') = same_views h h'"
  by (auto simp: same_views_def link_defs)

lemma same_views_prv [simp]: "same_views h (set_prv a v h') = same_views h h'"
  by (auto simp: same_views_def link_defs)

lemma view_same: "same_views h h' \<Longrightarrow> view m (h' a) = view m (h a)"
  by (simp add: same_views_def view_def)

lemma chain_data_same: "same_views h h' \<Longrightarrow> chain_data m h' xs = chain_data m h xs"
  by (simp add: chain_data_def view_same)

lemma links_simps [simp]:
  "nxt (set_nxt a v h b) = (if b = a then v else nxt (h b))"
  "prv (set_nxt a v h b) = prv (h b)"
  "prv (set_prv a v h b) = (if b = a then v else prv (h b))"
  "nxt (set_prv a v h b) = nxt (h b)"
  by (auto simp: link_defs)

section \<open>The link operations\<close>

lemma PrependChain_same_views [simp]: "same_views h (PrependChain a b h)"
  by (simp add: PrependChain_def Let_def)

lemma PrependChain_chain:
  assumes x: "chain h xs" and y: "chain h ys" and d: "set xs \<inter> set ys = {}"
  shows "chain (PrependChain (hd xs) (hd ys) h) (xs @ ys)"
proof -
  let ?h = "PrependChain (hd xs) (hd ys) h"
  have ne: "xs \<noteq> []" "ys \<noteq> []" and dx: "distinct xs" "distinct ys" using x y by (auto simp: chain_def)
  have lx: "prv (h (hd xs)) = last xs" "prv (h (hd ys)) = last ys" using x y by (auto simp: chain_def)
  have neq: "hd xs \<noteq> hd ys" "last xs \<noteq> last ys" "last xs \<notin> set ys" "last ys \<notin> set xs"
    "hd xs \<notin> set ys" "hd ys \<notin> set xs"
    using ne d by (auto dest: hd_in_set last_in_set)
  have N: "nxt (?h a) = (if a = last ys then hd xs else if a = last xs then hd ys else nxt (h a))" for a
    using neq lx by (auto simp: PrependChain_def Let_def)
  have P: "prv (?h a) = (if a = hd xs then last ys else if a = hd ys then last xs else prv (h a))" for a
    using neq lx by (auto simp: PrependChain_def Let_def)
  have "path ?h xs = path h xs"
    using last_notin_butlast [OF dx(1) ne(1)] hd_notin_tl [OF dx(1) ne(1)] neq ne
    by (intro path_cong) (auto simp: N P dest: in_set_butlastD list.set_sel(2))
  moreover have "path ?h ys = path h ys"
    using last_notin_butlast [OF dx(2) ne(2)] hd_notin_tl [OF dx(2) ne(2)] neq ne
    by (intro path_cong) (auto simp: N P dest: in_set_butlastD list.set_sel(2))
  ultimately show ?thesis
    using x y ne d neq by (auto simp: chain_def path_append N P)
qed

lemma chain_single: "nxt (h a) = a \<Longrightarrow> prv (h a) = a \<Longrightarrow> chain h [a]"
  by (simp add: chain_def)

lemma UnlinkEnd_same_views [simp]: "same_views h (UnlinkEnd a b h)"
  by (simp add: UnlinkEnd_def Let_def)

lemma UnlinkEnd_chain:
  assumes c: "chain h (xs @ ys)" and ne: "xs \<noteq> []" "ys \<noteq> []"
  shows "chain (UnlinkEnd (hd xs) (hd ys) h) xs" "chain (UnlinkEnd (hd xs) (hd ys) h) ys"
proof -
  let ?h = "UnlinkEnd (hd xs) (hd ys) h"
  have dx: "distinct xs" "distinct ys" and d: "set xs \<inter> set ys = {}" using c by (auto simp: chain_def)
  have l: "prv (h (hd xs)) = last ys" "prv (h (hd ys)) = last xs" "nxt (h (last ys)) = hd xs"
    "nxt (h (last xs)) = hd ys" and p: "path h xs" "path h ys"
    using c ne by (auto simp: chain_def path_append)
  have neq: "hd xs \<noteq> hd ys" "last xs \<noteq> last ys" "last xs \<notin> set ys" "last ys \<notin> set xs"
    "hd xs \<notin> set ys" "hd ys \<notin> set xs" "hd xs \<noteq> last ys" "hd ys \<noteq> last xs"
    using ne d by (metis IntI empty_iff hd_in_set last_in_set)+
  have nx: "nxt (h (hd ys)) = hd xs \<longleftrightarrow> last ys = hd ys"
  proof (cases ys)
    case (Cons b r)
    show ?thesis
    proof (cases r)
      case (Cons e r')
      then have "nxt (h (hd ys)) = e" "e \<in> set ys" "last ys \<noteq> hd ys"
        using \<open>ys = b # r\<close> p dx by (auto simp: last_in_set)
      then show ?thesis using neq by auto
    qed (use Cons l in auto)
  qed (use ne in auto)
  have N: "nxt (?h a) = (if a = last xs then hd xs else if a = last ys then hd ys else nxt (h a))" for a
    using neq l nx by (auto simp: UnlinkEnd_def Let_def)
  have P: "prv (?h a) = (if a = hd xs then last xs else if a = hd ys then last ys else prv (h a))" for a
    using neq l nx by (auto simp: UnlinkEnd_def Let_def)
  have "path ?h xs = path h xs"
    using last_notin_butlast [OF dx(1) ne(1)] hd_notin_tl [OF dx(1) ne(1)] neq ne
    by (intro path_cong) (auto simp: N P dest: in_set_butlastD list.set_sel(2))
  then show "chain ?h xs" using p dx ne neq by (auto simp: chain_def N P)
  have "path ?h ys = path h ys"
    using last_notin_butlast [OF dx(2) ne(2)] hd_notin_tl [OF dx(2) ne(2)] neq ne
    by (intro path_cong) (auto simp: N P dest: in_set_butlastD list.set_sel(2))
  then show "chain ?h ys" using p dx ne neq by (auto simp: chain_def N P)
qed

lemma Pop_Unlink: "Pop a h = (if nxt (h a) = a then None else Some (nxt (h a)), Unlink a h)"
  by (simp add: Pop_def Unlink_def Let_def)

lemma Unlink_same_views [simp]: "same_views h (Unlink a h)"
  by (simp add: Unlink_def Let_def)

lemma chain_rotate: "chain h (xs @ ys) \<Longrightarrow> chain h (ys @ xs)"
  by (cases "xs = []"; cases "ys = []") (auto simp: chain_def path_append)

lemma Unlink_head_chain:
  assumes c: "chain h (a # zs)" and ne: "zs \<noteq> []"
  shows "chain (Unlink a h) zs" "chain (Unlink a h) [a]" "nxt (h a) = hd zs"
proof -
  let ?h = "Unlink a h"
  have d: "distinct zs" "a \<notin> set zs" using c by (auto simp: chain_def)
  have l: "prv (h a) = last zs" "nxt (h a) = hd zs" "path h zs"
    using c ne path_append [of h "[a]" zs] by (auto simp: chain_def)
  have m: "last zs \<noteq> a" "hd zs \<noteq> a" using ne d(2) by (metis last_in_set hd_in_set)+
  have N: "nxt (?h b) = (if b = a then a else if b = last zs then hd zs else nxt (h b))" for b
    using l m by (auto simp: Unlink_def Let_def)
  have P: "prv (?h b) = (if b = a then a else if b = hd zs then last zs else prv (h b))" for b
    using l m by (auto simp: Unlink_def Let_def)
  show "chain ?h [a]" by (rule chain_single) (simp_all add: N P)
  have "path ?h zs = path h zs"
    using last_notin_butlast [OF d(1) ne] hd_notin_tl [OF d(1) ne] d(2) ne
    by (intro path_cong) (auto simp: N P dest: in_set_butlastD list.set_sel(2))
  then show "chain ?h zs" using d l ne m by (simp add: chain_def N P)
  show "nxt (h a) = hd zs" using l by simp
qed

lemma Unlink_chain:
  assumes c: "chain h (xs @ a # ys)" and ne: "xs @ ys \<noteq> []"
  shows "chain (Unlink a h) (xs @ ys)" "chain (Unlink a h) [a]"
  using Unlink_head_chain [of h a "ys @ xs"] chain_rotate [of h xs "a # ys"] c ne
  by (auto intro: chain_rotate)

section \<open>The loops return\<close>

lemma walk_path:
  assumes "path h (xs @ [t])" "t \<notin> set xs"
  shows "walk h t (hd (xs @ [t])) = Some xs"
  using assms
proof (induction xs)
  case (Cons a xs)
  then have "nxt (h a) = hd (xs @ [t])" "path h (xs @ [t])" by (cases xs; auto)+
  then show ?case using Cons by (simp add: walk.simps [of h t a])
qed (simp add: walk.simps)

lemma walk_Nil: "walk h t c = Some [] \<Longrightarrow> c = t"
  by (auto simp: walk.simps [of h t c] bind_eq_Some_conv split: if_splits)

lemma walk_Cons: "walk h t c = Some (a # xs) \<Longrightarrow> c \<noteq> t \<and> a = c \<and> walk h t (nxt (h c)) = Some xs"
  by (auto simp: walk.simps [of h t c] bind_eq_Some_conv split: if_splits)

lemma walk_links:
  "walk h t c = Some xs \<Longrightarrow> (\<And>a. nxt (h' a) = nxt (h a)) \<Longrightarrow> walk h' t c = Some xs"
proof (induction xs arbitrary: c)
  case Nil
  then show ?case using walk_Nil [OF Nil.prems(1)] by (simp add: walk.simps [of h' t t])
next
  case (Cons a xs)
  from walk_Cons [OF Cons.prems(1)] Cons.IH Cons.prems(2) show ?case
    by (simp add: walk.simps [of h' t c])
qed

lemma count_loop_walk: "walk h t c = Some xs \<Longrightarrow> count_loop h t c n = Some (n + length xs)"
proof (induction xs arbitrary: c n)
  case Nil
  then have "c = t" by (rule walk_Nil)
  then show ?case by (simp add: count_loop.simps)
next
  case (Cons a xs)
  then have "c \<noteq> t" "a = c" "walk h t (nxt (h c)) = Some xs" by (auto dest: walk_Cons)
  then show ?case using Cons.IH by (simp add: count_loop.simps [of h t c])
qed

lemma length_loop_walk:
  "walk h t c = Some xs \<Longrightarrow> length_loop h t c n = Some (n + sum_list (map (\<lambda>a. len (h a)) xs))"
proof (induction xs arbitrary: c n)
  case Nil
  then have "c = t" by (rule walk_Nil)
  then show ?case by (simp add: length_loop.simps)
next
  case (Cons a xs)
  then have "c \<noteq> t" "a = c" "walk h t (nxt (h c)) = Some xs" by (auto dest: walk_Cons)
  then show ?case using Cons.IH by (simp add: length_loop.simps [of h t c])
qed

lemma chain_walk: "chain h (t # xs) \<Longrightarrow> walk h t (nxt (h t)) = Some xs"
proof -
  assume c: "chain h (t # xs)"
  have p: "path h (xs @ [t])" using c path_append [of h "[t]" xs] by (auto simp: chain_def path_append)
  have n: "nxt (h t) = hd (xs @ [t])" using c by (cases xs) (auto simp: chain_def)
  show ?thesis unfolding n using p c by (intro walk_path) (auto simp: chain_def)
qed

lemma chain_elements: "chain h (t # xs) \<Longrightarrow> elements h t = Some (t # xs)"
  by (simp add: elements_def chain_walk)

lemma CountChainElements_chain: "chain h (t # xs) \<Longrightarrow> CountChainElements h t = Some (length (t # xs))"
  by (simp add: CountChainElements_def count_loop_walk [OF chain_walk])

lemma view_length: "view_ok m b \<Longrightarrow> length (view m b) = len b"
  by (auto simp: view_ok_def view_def)

lemma chain_data_length:
  "views_ok m h xs \<Longrightarrow> length (chain_data m h xs) = sum_list (map (\<lambda>a. len (h a)) xs)"
  by (induction xs) (auto simp: chain_data_def views_ok_def view_length)

lemma ComputeChainDataLength_chain:
  "chain h (t # xs) \<Longrightarrow> ComputeChainDataLength h t = Some (sum_list (map (\<lambda>a. len (h a)) (t # xs)))"
  by (simp add: ComputeChainDataLength_def length_loop_walk [OF chain_walk])

lemma chain_data_frame: "a \<notin> set xs \<Longrightarrow> chain_data m (h(a := b)) xs = chain_data m h xs"
  by (auto simp: chain_data_def intro!: arg_cong [where f = concat])

lemma views_ok_frame: "a \<notin> set xs \<Longrightarrow> views_ok m (h(a := b)) xs = views_ok m h xs"
  by (auto simp: views_ok_def)

lemma chain_data_Cons [simp]: "chain_data m h (a # xs) = view m (h a) @ chain_data m h xs"
  by (simp add: chain_data_def)

lemma chain_data_Nil [simp]: "chain_data m h [] = []"
  by (simp add: chain_data_def)

lemma chain_data_append [simp]: "chain_data m h (xs @ ys) = chain_data m h xs @ chain_data m h ys"
  by (simp add: chain_data_def)

lemma views_ok_Cons [simp]: "views_ok m h (a # xs) \<longleftrightarrow> view_ok m (h a) \<and> views_ok m h xs"
  by (auto simp: views_ok_def)

section \<open>AdvanceChain\<close>

definition adv_view :: "nat \<Rightarrow> iobuf \<Rightarrow> iobuf" where
  "adv_view n b = b\<lparr>data := data b + n, len := len b - n\<rparr>"

lemma adv_view_links [simp]: "nxt (adv_view n b) = nxt b" "prv (adv_view n b) = prv b"
  "buffer (adv_view n b) = buffer b" "capacity (adv_view n b) = capacity b"
  "len (adv_view n b) = len b - n" "data (adv_view n b) = data b + n"
  by (simp_all add: adv_view_def)

lemma view_adv: "view m (adv_view n b) = drop n (view m b)"
  by (simp add: view_def drop_take add.commute)

lemma view_ok_adv: "view_ok m b \<Longrightarrow> n \<le> len b \<Longrightarrow> view_ok m (adv_view n b)"
  by (auto simp: view_ok_def)

lemma path_links:
  "(\<And>a. nxt (h' a) = nxt (h a)) \<Longrightarrow> (\<And>a. prv (h' a) = prv (h a)) \<Longrightarrow> path h' xs = path h xs"
  by (intro path_cong)

lemma chain_links:
  "(\<And>a. nxt (h' a) = nxt (h a)) \<Longrightarrow> (\<And>a. prv (h' a) = prv (h a)) \<Longrightarrow> chain h' xs = chain h xs"
  using path_links [of h' h xs] by (simp add: chain_def)

lemma AdvanceChain_loop_ok:
  assumes "walk h t (nxt (h b)) = Some xs" "distinct (b # xs)" "views_ok m h (b # xs)"
    "amount \<le> length (chain_data m h (b # xs))"
  shows "\<exists>h'. AdvanceChain_loop t b amount h = Some h' \<and>
     chain_data m h' (b # xs) = drop amount (chain_data m h (b # xs)) \<and> views_ok m h' (b # xs) \<and>
     (\<forall>a. nxt (h' a) = nxt (h a) \<and> prv (h' a) = prv (h a)) \<and> (\<forall>a. a \<notin> set (b # xs) \<longrightarrow> h' a = h a)"
  using assms
proof (induction xs arbitrary: b amount h)
  case Nil
  let ?n = "min (len (h b)) amount" and ?h = "h(b := adv_view (min (len (h b)) amount) (h b))"
  have t: "nxt (h b) = t" using Nil.prems(1) by (rule walk_Nil)
  have "AdvanceChain_loop t b amount h = Some ?h"
    using t by (subst AdvanceChain_loop.simps) (simp add: Let_def adv_view_def)
  moreover have "amount \<le> len (h b)"
    using Nil.prems(3,4) by (simp add: view_length)
  ultimately show ?case using Nil.prems(3)
    by (auto simp: view_adv view_ok_adv min_def views_ok_def)
next
  case (Cons c xs)
  let ?n = "min (len (h b)) amount" and ?h = "h(b := adv_view (min (len (h b)) amount) (h b))"
  have w: "nxt (h b) = c" "c \<noteq> t" "walk h t (nxt (h c)) = Some xs"
    using walk_Cons [OF Cons.prems(1)] by auto
  have nb: "b \<notin> set (c # xs)" using Cons.prems(2) by simp
  note fr = chain_data_frame [OF nb] views_ok_frame [OF nb]
  show ?case
  proof (cases "amount \<le> len (h b)")
    case True
    then have "AdvanceChain_loop t b amount h = Some ?h"
      by (subst AdvanceChain_loop.simps) (simp add: Let_def adv_view_def)
    then show ?thesis using Cons.prems True fr [of m h "adv_view amount (h b)"]
      by (auto simp: view_adv view_ok_adv view_length min_def)
  next
    case False
    define g where "g = h(b := adv_view (len (h b)) (h b))"
    have g: "nxt (g a) = nxt (h a)" "prv (g a) = prv (h a)" "a \<noteq> b \<Longrightarrow> g a = h a" for a
      by (auto simp: g_def)
    have gd: "chain_data m g (c # xs) = chain_data m h (c # xs)" "views_ok m g (c # xs)"
      using fr [of m h "adv_view (len (h b)) (h b)"] Cons.prems(3) by (simp_all add: g_def)
    have st: "AdvanceChain_loop t b amount h = AdvanceChain_loop t c (amount - len (h b)) g"
      using w False by (subst AdvanceChain_loop.simps) (simp add: Let_def adv_view_def min_def g_def)
    have "\<exists>h'. AdvanceChain_loop t c (amount - len (h b)) g = Some h' \<and>
      chain_data m h' (c # xs) = drop (amount - len (h b)) (chain_data m g (c # xs)) \<and>
      views_ok m h' (c # xs) \<and> (\<forall>a. nxt (h' a) = nxt (g a) \<and> prv (h' a) = prv (g a)) \<and>
      (\<forall>a. a \<notin> set (c # xs) \<longrightarrow> h' a = g a)"
    proof (rule Cons.IH)
      show "walk g t (nxt (g c)) = Some xs" using walk_links [OF w(3), of g] g by simp
      show "amount - len (h b) \<le> length (chain_data m g (c # xs))"
        unfolding gd using Cons.prems(3,4) by (simp add: view_length)
    qed (use Cons.prems gd in auto)
    then obtain h' where h': "AdvanceChain_loop t c (amount - len (h b)) g = Some h'"
      "chain_data m h' (c # xs) = drop (amount - len (h b)) (chain_data m h (c # xs))"
      "views_ok m h' (c # xs)" "\<forall>a. nxt (h' a) = nxt (h a) \<and> prv (h' a) = prv (h a)"
      "\<forall>a. a \<notin> set (c # xs) \<longrightarrow> h' a = g a" using gd(1) g by metis
    have hb: "h' b = adv_view (len (h b)) (h b)" using h'(5) nb by (simp add: g_def)
    have "chain_data m h' (b # c # xs) = drop (amount - len (h b)) (chain_data m h (c # xs))"
      using h'(2) Cons.prems(3) by (simp add: hb view_adv view_length)
    then have "chain_data m h' (b # c # xs) = drop amount (chain_data m h (b # c # xs))"
      using False Cons.prems(3) by (simp add: view_length)
    moreover have "views_ok m h' (b # c # xs)"
      using h'(3) Cons.prems(3) by (auto simp: hb view_ok_adv)
    ultimately show ?thesis using h' g(3) by (auto simp: st)
  qed
qed

lemma AdvanceChain_chain:
  assumes c: "chain h (t # xs)" and v: "views_ok m h (t # xs)" and le: "amount \<le> length (chain_data m h (t # xs))"
  shows "\<exists>h'. AdvanceChain t amount h = Some (Inr h') \<and> chain h' (t # xs) \<and> views_ok m h' (t # xs) \<and>
    chain_data m h' (t # xs) = drop amount (chain_data m h (t # xs))"
proof -
  have "distinct (t # xs)" using c by (simp add: chain_def)
  from AdvanceChain_loop_ok [OF chain_walk [OF c] this v le] obtain h' where
    1: "AdvanceChain_loop t t amount h = Some h'" "views_ok m h' (t # xs)"
      "chain_data m h' (t # xs) = drop amount (chain_data m h (t # xs))"
      "\<forall>a. nxt (h' a) = nxt (h a) \<and> prv (h' a) = prv (h a)" by blast
  have "chain h' (t # xs)" using chain_links [of h' h "t # xs"] 1(4) c by simp
  moreover have "\<not> sum_list (map (\<lambda>a. len (h a)) (t # xs)) < amount"
    using le chain_data_length [OF v] by simp
  ultimately show ?thesis using 1 ComputeChainDataLength_chain [OF c] by (simp add: AdvanceChain_def)
qed

section \<open>Destruction\<close>

lemma Destroy_chain:
  assumes "chain h (t # xs)"
  shows "\<exists>h'. Destroy t h freed = Some (freed @ xs @ [t], h')"
  using assms
proof (induction xs arbitrary: h freed)
  case Nil
  then show ?case by (simp add: chain_def Destroy.simps)
next
  case (Cons a xs)
  have n: "nxt (h t) = a" "t \<noteq> a" using Cons.prems by (auto simp: chain_def)
  have "chain (Unlink a h) (t # xs)" using Unlink_chain(1) [of h "[t]" a xs] Cons.prems by simp
  from Cons.IH [OF this, of "freed @ [a]"] show ?case
    using n by (simp add: Destroy.simps [of t h])
qed

section \<open>Reading through a chain\<close>

abbreviation lens :: "heap \<Rightarrow> addr list \<Rightarrow> nat" where
  "lens h xs \<equiv> sum_list (map (\<lambda>a. len (h a)) xs)"

text \<open>\<open>dp_at h zs dp k\<close>: the read position \<open>dp\<close> stands before byte \<open>k\<close> of the chain \<open>zs\<close>.\<close>

definition dp_at :: "heap \<Rightarrow> addr list \<Rightarrow> dptr \<Rightarrow> nat \<Rightarrow> bool" where
  "dp_at h zs dp k \<longleftrightarrow> (\<exists>pre post. zs = pre @ fst dp # post \<and> snd dp < len (h (fst dp)) \<and>
     k = lens h pre + snd dp)"

lemma chain_next:
  assumes "chain h (pre @ p # post)"
  shows "nxt (h p) = hd (post @ pre @ [p])"
proof (cases post)
  case Nil
  then show ?thesis using assms by (cases pre) (auto simp: chain_def)
next
  case (Cons q r)
  then show ?thesis using assms path_append [of h "[p]" post] by (auto simp: chain_def path_append)
qed

lemma copy_loop_ok:
  assumes "chain h (pre @ p # post)" "views_ok m h (p # post)" "off \<le> len (h p)"
    "n \<le> length (drop off (chain_data m h (p # post)))"
  shows "copy_loop h m p off n acc = Some (acc @ take n (drop off (chain_data m h (p # post))))"
  using assms
proof (induction post arbitrary: pre p off n acc)
  case Nil
  have "n \<le> len (h p) - off" using Nil.prems by (simp add: view_length)
  then show ?case using Nil.prems
    by (cases "n = 0")
       (auto simp: copy_loop.simps [of h m p] copy_loop.simps [of h m _ 0 0] Let_def min_def view_def
          drop_take add.commute)
next
  case (Cons q post)
  let ?r = "min (len (h p) - off) n"
  have v: "view_ok m (h p)" "length (view m (h p)) = len (h p)" using Cons.prems(2) by (auto simp: view_length)
  have nx: "nxt (h p) = q" using chain_next [OF Cons.prems(1)] by simp
  have ch: "take ?r (drop (data (h p) + off) (m (buffer (h p)))) = take ?r (drop off (view m (h p)))"
    by (simp add: view_def drop_take add.commute min_def)
  show ?case
  proof (cases "n = 0")
    case False
    have "copy_loop h m p off n acc = copy_loop h m q 0 (n - ?r) (acc @ take ?r (drop off (view m (h p))))"
      using False nx ch by (subst copy_loop.simps) (simp add: Let_def)
    also have "\<dots> = Some ((acc @ take ?r (drop off (view m (h p)))) @
        take (n - ?r) (drop 0 (chain_data m h (q # post))))"
      using Cons.prems v by (intro Cons.IH [of "pre @ [p]"]) auto
    also have "\<dots> = Some (acc @ take n (drop off (chain_data m h (p # q # post))))"
      using Cons.prems(3) v by (auto simp: min_def)
    finally show ?thesis .
  qed (simp add: copy_loop.simps)
qed

lemma skip_empty_ok:
  assumes "chain h (pre @ p # post)" "0 < lens h (p # post)"
  shows "\<exists>q. skip_empty h p = Some q \<and> dp_at h (pre @ p # post) (q, 0) (lens h pre)"
  using assms
proof (induction post arbitrary: pre p)
  case Nil
  then show ?case by (auto simp: skip_empty.simps [of h p] dp_at_def)
next
  case (Cons q post)
  have nx: "nxt (h p) = q" using chain_next [OF Cons.prems(1)] by simp
  show ?case
  proof (cases "len (h p) = 0")
    case True
    then have "skip_empty h p = skip_empty h q" using nx by (simp add: skip_empty.simps [of h p])
    then show ?thesis using Cons.IH [of "pre @ [p]" q] Cons.prems True by simp
  next
    case False
    then show ?thesis by (auto simp: skip_empty.simps [of h p] dp_at_def)
  qed
qed

lemma skip_empty_wrap:
  assumes "chain h (pre @ p # post)" "0 < lens h (pre @ p # post)"
  shows "\<exists>q. skip_empty h p = Some q \<and>
    dp_at h (pre @ p # post) (q, 0) (lens h pre mod lens h (pre @ p # post))"
  using assms
proof (induction post arbitrary: pre p)
  case Nil
  show ?case
  proof (cases "len (h p) = 0")
    case True
    obtain q r where qr: "pre @ [p] = q # r" by (cases "pre @ [p]") auto
    have "skip_empty h p = skip_empty h q"
      using True chain_next [OF Nil.prems(1)] qr by (simp add: skip_empty.simps [of h p])
    moreover have "lens h (pre @ [p]) = lens h pre" using True by simp
    ultimately show ?thesis using skip_empty_ok [of h "[]" q r] Nil.prems qr by auto
  next
    case False
    then show ?thesis by (auto simp: skip_empty.simps [of h p] dp_at_def)
  qed
next
  case (Cons q post)
  have nx: "nxt (h p) = q" using chain_next [OF Cons.prems(1)] by simp
  show ?case
  proof (cases "len (h p) = 0")
    case True
    then have "skip_empty h p = skip_empty h q" using nx by (simp add: skip_empty.simps [of h p])
    then show ?thesis using Cons.IH [of "pre @ [p]" q] Cons.prems True by simp
  next
    case False
    then show ?thesis by (auto simp: skip_empty.simps [of h p] dp_at_def)
  qed
qed

lemma advance_loop_ok:
  assumes "chain h (pre @ p # post)" "off < len (h p) \<or> off = 0" "0 < lens h (pre @ p # post)"
    "lens h pre + off + n \<le> lens h (pre @ p # post)"
  shows "\<exists>dp. advance_loop h p off n = Some dp \<and>
    dp_at h (pre @ p # post) dp ((lens h pre + off + n) mod lens h (pre @ p # post))"
  using assms
proof (induction post arbitrary: pre p off n)
  case Nil
  note prems = Nil.prems
  have nx: "nxt (h p) = hd (pre @ [p])" using chain_next [OF Nil.prems(1)] by simp
  consider (z) "n = 0" | (lt) "n \<noteq> 0" "n < len (h p) - off" | (eq) "n \<noteq> 0" "n = len (h p) - off"
    using prems by fastforce
  then show ?case
  proof cases
    case z
    with skip_empty_wrap [OF prems(1,3)] prems(2) show ?thesis
      by (cases "off = 0") (auto simp: advance_loop.simps [of h p] skip_empty.simps [of h p] dp_at_def)
  next
    case lt
    then show ?thesis by (auto simp: advance_loop.simps [of h p] dp_at_def Let_def)
  next
    case eq
    then have a: "advance_loop h p off n = map_option (\<lambda>q. (q, 0)) (skip_empty h (hd (pre @ [p])))"
      using nx by (subst advance_loop.simps) (simp add: advance_loop.simps [of h _ 0 0] Let_def)
    obtain q r where qr: "pre @ [p] = q # r" by (cases "pre @ [p]") auto
    from skip_empty_ok [of h "[]" q r] prems qr obtain s where
      "skip_empty h q = Some s" "dp_at h (pre @ [p]) (s, 0) 0" by auto
    moreover have "lens h pre + off + n = lens h (pre @ [p])" using eq by simp
    ultimately show ?thesis using a qr by simp
  qed
next
  case (Cons q post)
  have nx: "nxt (h p) = q" using chain_next [OF Cons.prems(1)] by simp
  consider (z) "n = 0" | (lt) "n \<noteq> 0" "n < len (h p) - off" | (ge) "n \<noteq> 0" "len (h p) - off \<le> n"
    by fastforce
  then show ?case
  proof cases
    case z
    with skip_empty_wrap [OF Cons.prems(1,3)] Cons.prems(2) show ?thesis
      by (cases "off = 0") (auto simp: advance_loop.simps [of h p] skip_empty.simps [of h p] dp_at_def)
  next
    case lt
    then show ?thesis by (auto simp: advance_loop.simps [of h p] dp_at_def Let_def)
  next
    case ge
    let ?n = "n - (len (h p) - off)"
    have st: "advance_loop h p off n = advance_loop h q 0 ?n"
      using ge nx by (simp add: advance_loop.simps [of h p off n] Let_def)
    have "\<exists>dp. advance_loop h q 0 ?n = Some dp \<and>
      dp_at h ((pre @ [p]) @ q # post) dp ((lens h (pre @ [p]) + 0 + ?n) mod lens h ((pre @ [p]) @ q # post))"
      using Cons.prems ge by (intro Cons.IH) auto
    moreover have "lens h (pre @ [p]) + 0 + ?n = lens h pre + off + n" using ge Cons.prems(2) by auto
    ultimately show ?thesis using st by (simp add: ac_simps)
  qed
qed

text \<open>Everything a client of \<open>DataPointer\<close> relies on, over the flattened bytes of the chain.\<close>

lemma DataPointer_ok:
  assumes "chain h zs" "0 < lens h zs"
  shows "\<exists>dp. DataPointer h (hd zs) = Some (Inr dp) \<and> dp_at h zs dp 0"
proof -
  obtain t xs where zs: "zs = t # xs" using assms(1) by (cases zs) (auto simp: chain_def)
  have "\<exists>q. skip_empty h t = Some q \<and> dp_at h zs (q, 0) 0"
    using skip_empty_ok [of h "[]" t xs] assms zs by auto
  moreover have "ComputeChainDataLength h t = Some (lens h zs)"
    using ComputeChainDataLength_chain [of h t xs] assms(1) zs by simp
  ultimately show ?thesis using assms(2) zs
    by (auto simp: DataPointer_def simp del: sum_list_eq_0_iff)
qed

lemma Get_ok:
  assumes c: "chain h zs" and v: "views_ok m h zs" and at: "dp_at h zs dp k" and n: "k + n \<le> lens h zs"
  shows "GetNoAdvance h m n dp = Some (Inr (take n (drop k (chain_data m h zs))))"
    "\<exists>dp'. DP_Advance h n dp = Some (Inr dp') \<and> dp_at h zs dp' ((k + n) mod lens h zs)"
proof -
  obtain p off where dp: "dp = (p, off)" by (cases dp)
  from at dp obtain pre post where z: "zs = pre @ p # post" "off < len (h p)" "k = lens h pre + off"
    by (auto simp: dp_at_def)
  have vv: "views_ok m h pre" "views_ok m h (p # post)" using v z by (auto simp: views_ok_def)
  have lp: "length (chain_data m h pre) = lens h pre" "length (chain_data m h (p # post)) = lens h (p # post)"
    using vv chain_data_length by blast+
  have D: "drop k (chain_data m h zs) = drop off (chain_data m h (p # post))"
    using lp by (simp add: z)
  have vp: "length (view m (h p)) = len (h p)" using vv by (simp add: view_length)
  have "copy_loop h m p off n [] = Some ([] @ take n (drop off (chain_data m h (p # post))))"
    using c z vv lp n by (intro copy_loop_ok [where pre = pre]) auto
  moreover have "take n (drop (data (h p) + off) (m (buffer (h p)))) = take n (drop off (view m (h p)))"
    if "n \<le> len (h p) - off"
    using that by (simp add: view_def drop_take add.commute min_def)
  ultimately show "GetNoAdvance h m n dp = Some (Inr (take n (drop k (chain_data m h zs))))"
    using z vp unfolding D by (auto simp: GetNoAdvance_def dp)
  have "0 < lens h zs" using z by simp
  then show "\<exists>dp'. DP_Advance h n dp = Some (Inr dp') \<and> dp_at h zs dp' ((k + n) mod lens h zs)"
    using advance_loop_ok [of h pre p post off n] c z n by (auto simp: DP_Advance_def dp)
qed

text \<open>A parser: successive \<open>Get\<close>s of the given sizes.\<close>

fun gets :: "heap \<Rightarrow> store \<Rightarrow> nat list \<Rightarrow> dptr \<Rightarrow> byte list list result option" where
  "gets h m [] dp = Some (Inr [])"
| "gets h m (n # ns) dp = Option.bind (Get h m n dp) (\<lambda>r. case r of
     Inl e \<Rightarrow> Some (Inl e)
   | Inr (bs, dp') \<Rightarrow> map_option (map_sum id ((#) bs)) (gets h m ns dp'))"

fun slices :: "nat list \<Rightarrow> 'a list \<Rightarrow> 'a list list" where
  "slices [] bs = []"
| "slices (n # ns) bs = take n bs # slices ns (drop n bs)"

lemma slices_zero: "sum_list ns = 0 \<Longrightarrow> slices ns bs = slices ns bs'"
  by (induction ns arbitrary: bs bs') auto

lemma gets_ok:
  assumes c: "chain h zs" and v: "views_ok m h zs"
    and "dp_at h zs dp (k mod lens h zs)" "k \<le> lens h zs" "k + sum_list ns \<le> lens h zs"
  shows "gets h m ns dp = Some (Inr (slices ns (drop k (chain_data m h zs))))"
  using assms(3-)
proof (induction ns arbitrary: dp k)
  case (Cons n ns)
  let ?t = "lens h zs" and ?D = "chain_data m h zs"
  have pos: "0 < ?t" using Cons.prems(1) by (auto simp: dp_at_def)
  have kn: "k mod ?t + n \<le> ?t" "(k mod ?t + n) mod ?t = (k + n) mod ?t"
    using Cons.prems(2,3) by (cases "k = ?t"; simp add: mod_simps)+
  note g = Get_ok [OF c v Cons.prems(1) kn(1)]
  from g(2) obtain dp' where dp': "DP_Advance h n dp = Some (Inr dp')" "dp_at h zs dp' ((k + n) mod ?t)"
    unfolding kn(2) by blast
  have ih: "gets h m ns dp' = Some (Inr (slices ns (drop (k + n) ?D)))"
    using Cons.prems(2,3) dp'(2) by (intro Cons.IH) auto
  have "take n (drop (k mod ?t) ?D) = take n (drop k ?D)"
    using Cons.prems(2,3) by (cases "k = ?t") auto
  then show ?case using g(1) dp'(1) ih by (simp add: Get_def add.commute)
qed simp

section \<open>References\<close>

lemma CreateRef_ok:
  assumes "data (h src) + len (h src) \<le> capacity (h src)" "capacity (h src) < u64"
  shows "CreateRef fresh src h = Inr (h(fresh := (h src)\<lparr>nxt := fresh, prv := fresh\<rparr>))"
  using assms by (cases "h src") (simp add: CreateRef_def Advance_def TrimEnd_def Let_def)

lemma chain_frame: "a \<notin> set xs \<Longrightarrow> chain (h(a := b)) xs = chain h xs"
proof -
  assume a: "a \<notin> set xs"
  have "path (h(a := b)) xs = path h xs"
    using a by (cases xs) (auto intro!: path_cong dest: in_set_butlastD split: if_splits)
  then show ?thesis using a by (auto simp: chain_def)
qed

lemma PrependChain_frame:
  "a \<notin> {x, y, prv (h x), prv (h y)} \<Longrightarrow> PrependChain x y h a = h a"
  by (auto simp: PrependChain_def Let_def link_defs)

lemma CreateRef_loop_ok:
  assumes "chain h (f # fs)" "length gs = length xs" "distinct (f # fs @ gs)" "set (f # fs @ gs) \<inter> set xs = {}"
    "\<forall>x \<in> set xs. data (h x) + len (h x) \<le> capacity (h x) \<and> capacity (h x) < u64"
  shows "\<exists>h'. CreateRef_loop f (zip gs xs) h = Inr h' \<and> chain h' (f # fs @ gs) \<and>
    (\<forall>m. chain_data m h' (f # fs @ gs) = chain_data m h (f # fs) @ chain_data m h xs) \<and>
    (\<forall>a. a \<notin> set (f # fs @ gs) \<longrightarrow> h' a = h a)"
  using assms
proof (induction gs xs arbitrary: fs h rule: list_induct2')
  case (4 g gs x xs)
  let ?h1 = "h(g := (h x)\<lparr>nxt := g, prv := g\<rparr>)" and ?h2 = "PrependChain f g (h(g := (h x)\<lparr>nxt := g, prv := g\<rparr>))"
  have g: "g \<notin> set (f # fs)" "x \<noteq> g" "g \<notin> set xs" "x \<notin> set (f # fs)" using "4.prems"(3,4) by auto
  have c1: "chain ?h1 (f # fs)" "chain ?h1 [g]"
    using "4.prems"(1) g(1) by (simp_all add: chain_frame chain_single)
  have c2: "chain ?h2 (f # fs @ [g])" using PrependChain_chain [OF c1] g(1) by simp
  have sv: "same_views ?h1 ?h2" by simp
  have lf: "prv (?h1 f) = last (f # fs)" using c1(1) by (simp add: chain_def)
  have fr: "?h2 a = h a" if "a \<notin> set (f # fs @ [g])" for a
  proof -
    have "last (f # fs) \<in> set (f # fs)" by (rule last_in_set) simp
    then have "?h2 a = ?h1 a" using that lf by (intro PrependChain_frame) auto
    then show ?thesis using that by simp
  qed
  have d2: "chain_data m ?h2 (f # fs @ [g]) = chain_data m h (f # fs) @ view m (h x)" for m
    using chain_data_same [OF sv, of m "f # fs @ [g]"] chain_data_frame [OF g(1), of m h]
    by (simp add: view_def)
  have xs2: "\<And>y. y \<in> set xs \<Longrightarrow> ?h2 y = h y" using "4.prems"(4) by (intro fr) (auto simp: disjoint_iff)
  have "\<exists>h'. CreateRef_loop f (zip gs xs) ?h2 = Inr h' \<and> chain h' (f # (fs @ [g]) @ gs) \<and>
    (\<forall>m. chain_data m h' (f # (fs @ [g]) @ gs) = chain_data m ?h2 (f # (fs @ [g])) @ chain_data m ?h2 xs) \<and>
    (\<forall>a. a \<notin> set (f # (fs @ [g]) @ gs) \<longrightarrow> h' a = ?h2 a)"
    using "4.prems" c2 xs2 by (intro "4.IH") auto
  moreover have "chain_data m ?h2 xs = chain_data m h xs" for m
    using xs2 by (auto simp: chain_data_def intro!: arg_cong [where f = concat])
  moreover have "CreateRef g x h = Inr ?h1"
    using "4.prems"(5) by (intro CreateRef_ok) auto
  ultimately show ?case using d2 fr by auto
qed auto

lemma CreateRefChain_ok:
  assumes c: "chain h (t # xs)" and f: "distinct (f # fs)" "length fs = length xs"
    "set (f # fs) \<inter> set (t # xs) = {}"
    and b: "\<forall>x \<in> set (t # xs). data (h x) + len (h x) \<le> capacity (h x) \<and> capacity (h x) < u64"
  shows "\<exists>h'. CreateRefChain (f # fs) t h = Some (Inr h') \<and> chain h' (f # fs) \<and> chain h' (t # xs) \<and>
    (\<forall>m. chain_data m h' (f # fs) = chain_data m h' (t # xs) \<and> chain_data m h' (t # xs) = chain_data m h (t # xs))"
proof -
  let ?h1 = "h(f := (h t)\<lparr>nxt := f, prv := f\<rparr>)"
  have f1: "f \<notin> set (t # xs)" using f(3) by auto
  have "\<exists>h'. CreateRef_loop f (zip fs xs) ?h1 = Inr h' \<and> chain h' (f # [] @ fs) \<and>
    (\<forall>m. chain_data m h' (f # [] @ fs) = chain_data m ?h1 (f # []) @ chain_data m ?h1 xs) \<and>
    (\<forall>a. a \<notin> set (f # [] @ fs) \<longrightarrow> h' a = ?h1 a)"
    using f b f1 by (intro CreateRef_loop_ok) (auto simp: chain_single)
  then obtain h' where h': "CreateRef_loop f (zip fs xs) ?h1 = Inr h'" "chain h' (f # fs)"
    "\<And>m. chain_data m h' (f # fs) = chain_data m ?h1 [f] @ chain_data m ?h1 xs"
    "\<And>a. a \<notin> set (f # fs) \<Longrightarrow> h' a = ?h1 a" by auto
  have same: "h' a = h a" if "a \<in> set (t # xs)" for a
  proof -
    have "a \<notin> set (f # fs)" using that f(3) by blast
    then show ?thesis using h'(4) by simp
  qed
  have "path h' (t # xs) = path h (t # xs)"
    using same by (intro path_cong) (auto dest: in_set_butlastD split: if_splits)
  moreover have "last (t # xs) \<in> set (t # xs)" by (rule last_in_set) simp
  ultimately have "chain h' (t # xs)" using c same by (simp add: chain_def)
  moreover have d: "chain_data m h' (t # xs) = chain_data m h (t # xs)" for m
    using same by (auto simp: chain_data_def intro!: arg_cong [where f = concat])
  moreover have "chain_data m h' (f # fs) = chain_data m h (t # xs)" for m
    unfolding h'(3) using f1 chain_data_frame [of f xs m h] by (simp add: view_def)
  moreover have "CreateRef f t h = Inr ?h1" using b by (intro CreateRef_ok) auto
  ultimately show ?thesis using h' chain_elements [OF c] by (simp add: CreateRefChain_def)
qed

section \<open>A small heap\<close>

text \<open>Two chains: node 1 followed by the empty node 2 and node 3, and node 4 alone.\<close>

definition demo_heap :: heap where
  "demo_heap = (\<lambda>_. \<lparr>nxt = 0, prv = 0, buffer = 0, capacity = 0, data = 0, len = 0\<rparr>)
    (1 := \<lparr>nxt = 2, prv = 3, buffer = 0, capacity = 4, data = 1, len = 3\<rparr>,
     2 := \<lparr>nxt = 3, prv = 1, buffer = 0, capacity = 4, data = 0, len = 0\<rparr>,
     3 := \<lparr>nxt = 1, prv = 2, buffer = 1, capacity = 2, data = 0, len = 2\<rparr>,
     4 := \<lparr>nxt = 4, prv = 4, buffer = 1, capacity = 2, data = 1, len = 1\<rparr>)"

definition demo_store :: store where
  "demo_store = (\<lambda>r. if r = 0 then [10, 11, 12, 13] else [20, 21])"

lemma demo_chains: "chain demo_heap [1, 2, 3]" "chain demo_heap [4]"
  "views_ok demo_store demo_heap [1, 2, 3]" "chain_data demo_store demo_heap [1, 2, 3] = [11, 12, 13, 20, 21]"
  by (simp_all add: chain_def demo_heap_def demo_store_def views_ok_def view_ok_def view_def)

section \<open>Properties\<close>

text \<open>C27: Concatenation and splitting of chains.  \<open>PrependChain\<close> on the heads of two disjoint
  chains gives one chain whose nodes and bytes are the two in sequence; the element count
  adds up; and \<open>UnlinkEnd\<close> at the head of the second part gives back exactly the two chains
  with their bytes.\<close>

theorem PrependChain_UnlinkEnd:
  assumes "chain h xs" "chain h ys" "set xs \<inter> set ys = {}"
    and "h1 = PrependChain (hd xs) (hd ys) h" "h2 = UnlinkEnd (hd xs) (hd ys) h1"
  shows "chain h1 (xs @ ys) \<and> chain_data m h1 (xs @ ys) = chain_data m h xs @ chain_data m h ys \<and>
    CountChainElements h1 (hd xs) = Some (length xs + length ys) \<and>
    chain h2 xs \<and> chain h2 ys \<and> chain_data m h2 xs = chain_data m h xs \<and>
    chain_data m h2 ys = chain_data m h ys"
proof -
  have ne: "xs \<noteq> []" "ys \<noteq> []" using assms(1,2) by (auto simp: chain_def)
  have c: "chain h1 (xs @ ys)" unfolding assms(4) using assms(1-3) by (rule PrependChain_chain)
  have "CountChainElements h1 (hd xs) = Some (length (xs @ ys))"
    using CountChainElements_chain [of h1 "hd xs" "tl xs @ ys"] c ne by (cases xs) auto
  moreover have "same_views h h1" "same_views h1 h2" by (simp_all add: assms(4,5))
  ultimately show ?thesis using c UnlinkEnd_chain [OF c ne] chain_data_same
    by (simp add: assms(5) del: UnlinkEnd_same_views PrependChain_same_views)
qed

theorem PrependChain_UnlinkEnd_witness:
  "chain (PrependChain 1 4 demo_heap) [1, 2, 3, 4] \<and>
   CountChainElements (PrependChain 1 4 demo_heap) 1 = Some 4"
  using PrependChain_UnlinkEnd [OF demo_chains(1,2) _ refl refl, of demo_store] by simp

text \<open>\<open>AdvanceChain\<close> drops bytes from the front across buffer boundaries.  It always
  returns; on more bytes than the chain holds it fails its assertion, and otherwise the
  chain keeps its nodes, every view stays inside its buffer, and the bytes are those after
  the first \<open>amount\<close>.\<close>

theorem AdvanceChain_drops:
  assumes "chain h (t # xs)" "views_ok m h (t # xs)"
  shows "if length (chain_data m h (t # xs)) < amount
    then AdvanceChain t amount h = Some (Inl (KAssert ''ComputeChainDataLength() >= amount''))
    else \<exists>h'. AdvanceChain t amount h = Some (Inr h') \<and> chain h' (t # xs) \<and> views_ok m h' (t # xs) \<and>
      chain_data m h' (t # xs) = drop amount (chain_data m h (t # xs))"
proof (cases "length (chain_data m h (t # xs)) < amount")
  case True
  then have "lens h (t # xs) < amount" using chain_data_length [OF assms(2)] by simp
  then show ?thesis using True ComputeChainDataLength_chain [OF assms(1)] by (simp add: AdvanceChain_def)
next
  case False
  then show ?thesis using AdvanceChain_chain [OF assms, of amount] by simp
qed

theorem AdvanceChain_drops_witness:
  "\<exists>h'. AdvanceChain 1 4 demo_heap = Some (Inr h') \<and> chain h' [1, 2, 3] \<and>
    chain_data demo_store h' [1, 2, 3] = [21]"
  using AdvanceChain_drops [OF demo_chains(1,3), of 4, unfolded demo_chains(4)]
  by (auto simp del: chain_data_Cons One_nat_def)

text \<open>C8: Reading a chain reads its bytes.  A \<open>DataPointer\<close> on a chain that holds data is
  created, and any sequence of \<open>Get\<close>s whose sizes do not exceed the data returns, in
  order, the consecutive slices of the flattened bytes, whatever the buffer boundaries and
  the empty buffers between them.\<close>

theorem DataPointer_reads:
  assumes "chain h zs" "views_ok m h zs" "chain_data m h zs \<noteq> []"
    and "sum_list ns \<le> length (chain_data m h zs)"
  shows "\<exists>dp. DataPointer h (hd zs) = Some (Inr dp) \<and>
    gets h m ns dp = Some (Inr (slices ns (chain_data m h zs)))"
proof -
  have l: "length (chain_data m h zs) = lens h zs" using assms(2) by (rule chain_data_length)
  then have "0 < lens h zs" using assms(3) by (metis length_greater_0_conv)
  from DataPointer_ok [OF assms(1) this] obtain dp where
    dp: "DataPointer h (hd zs) = Some (Inr dp)" "dp_at h zs dp 0" by blast
  then show ?thesis using gets_ok [OF assms(1,2), of dp 0 ns] assms(4) l by simp
qed

theorem DataPointer_reads_witness:
  "\<exists>dp. DataPointer demo_heap 1 = Some (Inr dp) \<and>
    gets demo_heap demo_store [2, 2, 1] dp = Some (Inr [[11, 12], [13, 20], [21]])"
  using DataPointer_reads [OF demo_chains(1,3), of "[2, 2, 1]", unfolded demo_chains(4)]
  by (simp del: gets.simps)

text \<open>References alias.  \<open>CreateRefChain\<close> builds, at fresh addresses, a chain that views
  the same bytes of the same buffers: under every content of the buffers, now or after any
  later write, the two chains hold equal bytes, and the source chain is untouched.\<close>

theorem CreateRefChain_aliases:
  assumes "chain h (t # xs)" "distinct (f # fs)" "length fs = length xs"
    "set (f # fs) \<inter> set (t # xs) = {}"
    "\<forall>x \<in> set (t # xs). data (h x) + len (h x) \<le> capacity (h x) \<and> capacity (h x) < u64"
  shows "\<exists>h'. CreateRefChain (f # fs) t h = Some (Inr h') \<and> chain h' (f # fs) \<and> chain h' (t # xs) \<and>
    (\<forall>m. chain_data m h' (f # fs) = chain_data m h' (t # xs) \<and>
         chain_data m h' (t # xs) = chain_data m h (t # xs))"
  using assms by (rule CreateRefChain_ok)

theorem CreateRefChain_aliases_witness:
  "\<exists>h'. CreateRefChain [7, 8, 9] 1 demo_heap = Some (Inr h') \<and> chain h' [7, 8, 9] \<and>
    chain_data demo_store h' [7, 8, 9] = [11, 12, 13, 20, 21]"
proof -
  have "\<forall>x \<in> set [1, 2, 3]. data (demo_heap x) + len (demo_heap x) \<le> capacity (demo_heap x) \<and>
      capacity (demo_heap x) < u64"
    by (simp add: demo_heap_def)
  from CreateRefChain_aliases [OF demo_chains(1) _ _ _ this, of 7 "[8, 9]"] demo_chains(4)
  show ?thesis by auto
qed

text \<open>Destroying a chain frees every node exactly once.  The destructor of the head
  terminates and deletes the other nodes in chain order and then the head, each once.\<close>

theorem Destroy_frees_once:
  assumes "chain h (t # xs)"
  shows "\<exists>h'. Destroy t h [] = Some (xs @ [t], h') \<and> distinct (xs @ [t])"
  using Destroy_chain [OF assms, of "[]"] assms by (auto simp: chain_def)

theorem Destroy_frees_once_witness:
  "\<exists>h'. Destroy 1 demo_heap [] = Some ([2, 3, 1], h')"
  using Destroy_frees_once [OF demo_chains(1)] by auto

end
