(* ===== verification/NetChecksum.thy ===== *)
theory NetChecksum
  imports IOBuf
begin

text \<open>
  The Internet checksum of \<open>src/src/native/NetChecksum.cc\<close>.  The routine sums 64-byte lines,
  8-, 4- and 2-byte words and a last byte with end-around carries written in inline
  assembly, and corrects for odd addresses and odd offsets by swapping bytes.  The model keeps
  the machine values as natural numbers with \<open>add\<close>/\<open>adc\<close> at their width and an explicit carry
  flag, takes the address of the data (its low bits choose the path), and is shown to compute
  the ones' complement sum of the reference definition \<open>le_sum\<close>.
\<close>

section \<open>The routine\<close>

text \<open>\<open>add\<close>/\<open>adc\<close> of width \<open>w\<close> on a destination and the carry flag.\<close>

definition adc :: "nat \<Rightarrow> nat \<Rightarrow> nat \<times> nat \<Rightarrow> nat \<times> nat" where
  "adc w src dc = ((fst dc + src + snd dc) mod 2 ^ w, (fst dc + src + snd dc) div 2 ^ w)"

fun le_val :: "byte list \<Rightarrow> nat" where
  "le_val [] = 0"
| "le_val (b # bs) = unat b + 256 * le_val bs"

definition load :: "nat \<Rightarrow> byte list \<Rightarrow> nat" where
  "load n bs = le_val (take n bs)"

definition CsumFold :: "nat \<Rightarrow> nat" where
  "CsumFold x =
    (let lower_sum = (x * 2 ^ 16) mod u32;
         high = x div 2 ^ 16 * 2 ^ 16;
         s = fst (adc 32 0xffff (adc 32 lower_sum (high, 0)))
     in 65535 - s div 2 ^ 16 mod 65536)"

definition From32To16 :: "nat \<Rightarrow> nat" where
  "From32To16 val = fst (adc 16 0 (adc 16 (val mod 2 ^ 16) (val div 2 ^ 16 mod 2 ^ 16, 0)))"

definition Add32WithCarry :: "nat \<Rightarrow> nat \<Rightarrow> nat" where
  "Add32WithCarry a b = fst (adc 32 0 (adc 32 (b mod u32) (a mod u32, 0)))"

text \<open>One cache line: eight chained additions and the final carry.\<close>

definition csum_line :: "nat \<Rightarrow> byte list \<Rightarrow> nat" where
  "csum_line res bs =
    fst (adc 64 0 (fold (\<lambda>i. adc 64 (load 8 (drop (i * 8) bs))) [0..<8] (res, 0)))"

primrec csum_lines :: "nat \<Rightarrow> nat \<Rightarrow> byte list \<Rightarrow> nat \<times> byte list" where
  "csum_lines 0 res bs = (res, bs)"
| "csum_lines (Suc n) res bs = csum_lines n (csum_line res bs) (drop 64 bs)"

primrec csum_words :: "nat \<Rightarrow> nat \<Rightarrow> byte list \<Rightarrow> nat \<times> byte list" where
  "csum_words 0 res bs = (res, bs)"
| "csum_words (Suc n) res bs =
     csum_words n (fst (adc 64 0 (adc 64 (load 8 bs) (res, 0)))) (drop 8 bs)"

definition fold64 :: "nat \<Rightarrow> nat" where
  "fold64 r = Add32WithCarry (r div 2 ^ 32) (r mod 2 ^ 32)"

text \<open>The block under \<open>if (count)\<close> that handles 32-bit words: \<open>n\<close> counts them, \<open>buf\<close> is the
  address of the remaining bytes.  The number of cache lines is kept in a \<open>uint32_t\<close>; where it does
  not fit, the lines beyond are skipped and the rest of the routine goes on at the pointer it reached.\<close>

definition csum_dwords :: "nat \<Rightarrow> nat \<Rightarrow> nat \<Rightarrow> byte list \<Rightarrow> nat \<times> byte list" where
  "csum_dwords buf n result bs =
    (if n = 0 then (result, bs)
     else let (result, n, bs) = (if odd (buf div 4) then (result + load 4 bs, n - 1, drop 4 bs)
                                 else (result, n, bs));
              n = n div 2;
              l = length bs;
              (result, bs) = csum_lines (n div 8 mod u32) result bs;
              (result, bs) = csum_words (n mod 8) result bs;
              result = fold64 result
       in if odd (l div 4) then (result + load 4 bs, drop 4 bs) else (result, bs))"

definition csum_body :: "nat \<Rightarrow> nat \<Rightarrow> byte list \<Rightarrow> nat \<times> byte list" where
  "csum_body buf result bs =
    (if length bs div 2 = 0 then (result, bs)
     else let (result, buf, bs) = (if odd (buf div 2) then (result + load 2 bs, buf + 2, drop 2 bs)
                                   else (result, buf, bs));
              l = length bs;
              (result, bs) = csum_dwords buf (l div 2 div 2) result bs
       in if odd (l div 2) then (result + load 2 bs, drop 2 bs) else (result, bs))"

definition swap16 :: "nat \<Rightarrow> nat" where
  "swap16 r = (r div 256) mod 256 + (r mod 256) * 256"

text \<open>\<open>Csum\<close> up to the final fold of the sum to 32 bits.\<close>

definition csum_raw :: "nat \<Rightarrow> byte list \<Rightarrow> nat" where
  "csum_raw buf bs =
    (let (result, buf, bs) = (if odd buf then (unat (hd bs) * 256, buf + 1, tl bs)
                              else (0, buf, bs));
         l = length bs;
         (result, bs) = csum_body buf result bs
     in fold64 (if odd l then result + load 1 bs else result))"

definition Csum :: "nat \<Rightarrow> byte list \<Rightarrow> nat \<Rightarrow> nat" where
  "Csum buf bs offset =
    (if bs = [] then 0
     else let result = csum_raw buf bs
       in if odd buf \<noteq> odd offset then swap16 (From32To16 result) else result)"

text \<open>Over the buffers of a chain, each an address and its bytes.\<close>

fun IpCsum_loop :: "(nat \<times> byte list) list \<Rightarrow> nat \<Rightarrow> nat \<Rightarrow> nat" where
  "IpCsum_loop [] offset ret = ret"
| "IpCsum_loop ((a, bs) # bufs) offset ret =
     IpCsum_loop bufs (offset + length bs) (Add32WithCarry ret (Csum a bs offset))"

definition IpCsumNoFold :: "(nat \<times> byte list) list \<Rightarrow> nat" where
  "IpCsumNoFold bufs = IpCsum_loop bufs 0 0"

definition bswap16 :: "nat \<Rightarrow> nat" where
  "bswap16 x = (x div 256) mod 256 + (x mod 256) * 256"

definition PseudoCsum :: "nat \<Rightarrow> nat \<Rightarrow> byte list \<Rightarrow> byte list \<Rightarrow> nat" where
  "PseudoCsum l proto src dst =
    (let lenproto = (bswap16 (l mod u16) * 2 ^ 16 + proto mod 256 * 2 ^ 8) mod u32
     in fst (adc 32 0 (adc 32 lenproto (adc 32 (load 4 src) (adc 32 (load 4 dst) (0, 0))))))"

definition OffloadPseudoCsum :: "(nat \<times> byte list) list \<Rightarrow> nat \<Rightarrow> byte list \<Rightarrow> byte list \<Rightarrow> nat" where
  "OffloadPseudoCsum bufs proto src dst =
    From32To16 (PseudoCsum (length (concat (map snd bufs))) proto src dst)"

definition IpPseudoCsum :: "(nat \<times> byte list) list \<Rightarrow> nat \<Rightarrow> byte list \<Rightarrow> byte list \<Rightarrow> nat" where
  "IpPseudoCsum bufs proto src dst =
    CsumFold (Add32WithCarry (IpCsumNoFold bufs)
      (PseudoCsum (length (concat (map snd bufs))) proto src dst))"

definition IpCsum_chain :: "(nat \<times> byte list) list \<Rightarrow> nat" where
  "IpCsum_chain bufs = CsumFold (IpCsumNoFold bufs)"

definition IpCsum :: "nat \<Rightarrow> byte list \<Rightarrow> nat" where
  "IpCsum buf bs = CsumFold (Csum buf bs 0)"

section \<open>The reference: ones' complement sums\<close>

text \<open>\<open>le_sum\<close> adds the 16-bit words of the data in memory (little-endian) order; \<open>canon\<close> is
  the 16-bit ones' complement representative, zero only for zero.  \<open>ocong\<close> relates a number
  with one that has the same representative.\<close>

fun le_sum :: "byte list \<Rightarrow> nat" where
  "le_sum [] = 0"
| "le_sum [a] = unat a"
| "le_sum (a # b # bs) = unat a + 256 * unat b + le_sum bs"

definition canon :: "nat \<Rightarrow> nat" where
  "canon n = (if n = 0 then 0 else (n - 1) mod 65535 + 1)"

definition ocong :: "nat \<Rightarrow> nat \<Rightarrow> bool" where
  "ocong x n \<longleftrightarrow> x mod 65535 = n mod 65535 \<and> (x = 0 \<longleftrightarrow> n = 0)"

named_theorems oc \<open>congruence of ones' complement sums\<close>

lemma ocong_refl [simp]: "ocong x x"
  by (simp add: ocong_def)

lemma ocong_trans [trans]: "ocong x y \<Longrightarrow> ocong y z \<Longrightarrow> ocong x z"
  by (simp add: ocong_def)

lemma ocong_sym: "ocong x y \<Longrightarrow> ocong y x"
  by (simp add: ocong_def)

lemma ocong_add [oc]: "ocong x n \<Longrightarrow> ocong y m \<Longrightarrow> ocong (x + y) (n + m)"
  by (auto simp: ocong_def intro: mod_add_cong)

lemma ocong_mult [oc]: "ocong x n \<Longrightarrow> ocong (k * x) (k * n)"
  by (auto simp: ocong_def intro: mod_mult_cong)

lemma ocong_65536 [oc]: "ocong (65536 * x) x"
proof -
  have "65536 * x mod 65535 = 65536 mod 65535 * x mod 65535" by (simp only: mod_mult_left_eq)
  then show ?thesis by (simp add: ocong_def)
qed

lemma ocong_pow: "ocong (x * 2 ^ (16 * k)) x"
proof (induction k)
  case (Suc k)
  have "x * 2 ^ (16 * Suc k) = 65536 * (x * 2 ^ (16 * k))" by (simp add: power_add)
  then show ?case using Suc ocong_65536 [of "x * 2 ^ (16 * k)"] by (metis ocong_trans)
qed simp

lemma canon_ocong: "ocong x n \<Longrightarrow> canon x = canon n"
proof -
  have "(x - 1) mod 65535 = (n - 1) mod 65535" if nz: "x mod 65535 = n mod 65535" "x \<noteq> 0" "n \<noteq> 0"
  proof -
    obtain a b where ab: "x = Suc a" "n = Suc b" using nz(2,3) by (cases x; cases n) auto
    then have "(Suc a + 65534) mod 65535 = (Suc b + 65534) mod 65535"
      using nz(1) by (intro mod_add_cong) auto
    then show ?thesis using ab by simp
  qed
  then show "ocong x n \<Longrightarrow> canon x = canon n" by (auto simp: ocong_def canon_def)
qed

lemma canon_self: "x < 65536 \<Longrightarrow> canon x = x"
  by (cases x) (auto simp: canon_def)

lemma canon_less: "canon n < 65536"
proof -
  have "(n - 1) mod 65535 < 65535" by simp
  then show ?thesis by (simp add: canon_def)
qed

lemma ocong_canon: "ocong (canon n) n"
  by (cases n) (simp_all add: ocong_def canon_def mod_Suc_eq)

section \<open>Each step keeps the sum\<close>

lemma adc_exact: "fst (adc w src dc) + 2 ^ w * snd (adc w src dc) = fst dc + src + snd dc"
  by (simp add: adc_def)

lemma adc_fst_less: "fst (adc w src dc) < 2 ^ w"
  by (simp add: adc_def)

text \<open>The carry flag is at most one, and when it is set the destination is not all ones: so the
  final \<open>adc $0\<close> never overflows.\<close>

definition carry_ok :: "nat \<Rightarrow> nat \<times> nat \<Rightarrow> bool" where
  "carry_ok w dc \<longleftrightarrow> fst dc + snd dc < 2 ^ w \<and> snd dc \<le> 1"

lemma carry_ok_adc:
  assumes "carry_ok w dc" "src < 2 ^ w"
  shows "carry_ok w (adc w src dc)"
proof -
  let ?t = "fst dc + src + snd dc"
  have t: "?t < 2 * 2 ^ w - 1" using assms by (auto simp: carry_ok_def)
  then have "?t div 2 ^ w < 2" by (simp add: less_mult_imp_div_less)
  moreover have "?t mod 2 ^ w + ?t div 2 ^ w < 2 ^ w"
  proof (cases "?t div 2 ^ w = 0")
    case False
    then have "?t div 2 ^ w = 1" using calculation by simp
    then show ?thesis using t div_mult_mod_eq [of ?t "2 ^ w"] by auto
  qed simp
  ultimately show ?thesis by (simp add: carry_ok_def adc_def)
qed

lemma carry_ok_start: "r < 2 ^ w \<Longrightarrow> carry_ok w (r, 0)"
  by (simp add: carry_ok_def)

lemma adc_final: "carry_ok w dc \<Longrightarrow> fst (adc w 0 dc) = fst dc + snd dc"
  by (simp add: carry_ok_def adc_def)

text \<open>At a width that is a multiple of 16 the destination plus the carry is the same sum.\<close>

lemma adc_ocong:
  "ocong (fst (adc (16 * k) src dc) + snd (adc (16 * k) src dc)) (fst dc + snd dc + src)"
proof -
  have "ocong (fst (adc (16 * k) src dc) + snd (adc (16 * k) src dc))
      (fst (adc (16 * k) src dc) + snd (adc (16 * k) src dc) * 2 ^ (16 * k))"
    by (intro ocong_add ocong_refl ocong_sym [OF ocong_pow])
  then show ?thesis using adc_exact [of "16 * k" src dc] by (simp add: ac_simps)
qed

lemmas adc_ocong_16 = adc_ocong [of 1, simplified]
lemmas adc_ocong_32 = adc_ocong [of 2, simplified]
lemmas adc_ocong_64 = adc_ocong [of 4, simplified]

lemma Add32WithCarry_ocong:
  assumes "a < u32" "b < u32"
  shows "ocong (Add32WithCarry a b) (a + b)" "Add32WithCarry a b < u32"
proof -
  have "carry_ok 32 (adc 32 b (a, 0))" using assms by (intro carry_ok_adc carry_ok_start) auto
  then show "ocong (Add32WithCarry a b) (a + b)"
    using adc_ocong_32 [of b "(a, 0)"] assms by (simp add: Add32WithCarry_def adc_final)
  show "Add32WithCarry a b < u32" using adc_fst_less [of 32] by (simp add: Add32WithCarry_def)
qed

lemma fold64_ocong: "r < 2 ^ 64 \<Longrightarrow> ocong (fold64 r) r \<and> fold64 r < u32"
proof -
  assume r: "r < 2 ^ 64"
  have h: "r div 2 ^ 32 < u32" "r mod 2 ^ 32 < u32" using r by (auto simp: less_mult_imp_div_less)
  have "ocong (r div 2 ^ 32 + r mod 2 ^ 32) (r div 2 ^ 32 * 2 ^ (16 * 2) + r mod 2 ^ 32)"
    by (intro ocong_add ocong_refl ocong_sym [OF ocong_pow])
  then have "ocong (r div 2 ^ 32 + r mod 2 ^ 32) r" by (simp add: div_mult_mod_eq)
  then show ?thesis using Add32WithCarry_ocong [OF h] unfolding fold64_def by (blast intro: ocong_trans)
qed

lemma From32To16_ocong:
  assumes "v < u32" shows "ocong (From32To16 v) v" "From32To16 v < u16"
proof -
  have h: "v div 2 ^ 16 < 2 ^ 16" using assms by (simp add: less_mult_imp_div_less)
  have "carry_ok 16 (adc 16 (v mod 2 ^ 16) (v div 2 ^ 16, 0))"
    using h by (intro carry_ok_adc carry_ok_start) auto
  then have "ocong (From32To16 v) (v div 2 ^ 16 + v mod 2 ^ 16)"
    using adc_ocong_16 [of "v mod 2 ^ 16" "(v div 2 ^ 16, 0)"] h by (simp add: From32To16_def adc_final)
  moreover have "ocong (v div 2 ^ 16 + v mod 2 ^ 16) (v div 2 ^ 16 * 2 ^ (16 * 1) + v mod 2 ^ 16)"
    by (intro ocong_add ocong_refl ocong_sym [OF ocong_pow])
  ultimately show "ocong (From32To16 v) v" by (simp add: div_mult_mod_eq) (blast intro: ocong_trans)
  show "From32To16 v < u16" using adc_fst_less [of 16] by (simp add: From32To16_def)
qed

lemma CsumFold_canon:
  assumes "x < u32"
  shows "CsumFold x = 65535 - canon x"
proof -
  let ?h = "x div 2 ^ 16" and ?l = "x mod 2 ^ 16"
  have h: "?h < 2 ^ 16" "?l < 2 ^ 16" using assms by (auto simp: less_mult_imp_div_less)
  have lo: "(x * 2 ^ 16) mod u32 = ?l * 2 ^ 16" using mult_mod_left [of x "2 ^ 16" "2 ^ 16"] by simp
  have "ocong (?h * 2 ^ (16 * 1) + ?l) (?h + ?l)" by (intro ocong_add ocong_pow ocong_refl)
  then have c: "canon x = canon (?h + ?l)" by (intro canon_ocong) (simp add: div_mult_mod_eq)
  show ?thesis
  proof (cases "?h + ?l < 2 ^ 16")
    case True
    then have "(?h + ?l) * 2 ^ 16 < 2 ^ 32" by simp
    then have a: "adc 32 (?l * 2 ^ 16) (?h * 2 ^ 16, 0) = ((?h + ?l) * 2 ^ 16, 0)"
      unfolding adc_def fst_conv snd_conv add_0_right add_mult_distrib [symmetric]
      by (simp only: mod_less div_less)
    have "((?h + ?l) * 2 ^ 16 + 0xffff) mod 2 ^ 32 = (?h + ?l) * 2 ^ 16 + 0xffff" using True by simp
    then have "CsumFold x = 65535 - ((?h + ?l) * 2 ^ 16 + 0xffff) div 2 ^ 16 mod 65536"
      unfolding CsumFold_def Let_def lo a by (simp add: adc_def)
    also have "((?h + ?l) * 2 ^ 16 + 0xffff) div 2 ^ 16 = ?h + ?l"
      by (rule div_nat_eqI) auto
    finally show ?thesis using True c canon_self [of "?h + ?l"] by simp
  next
    case False
    define s where "s = ?h + ?l - 2 ^ 16"
    have s: "?h + ?l = 2 ^ 16 + s" "s < 2 ^ 16 - 1" using False h by (auto simp: s_def)
    then have t: "?h * 2 ^ 16 + ?l * 2 ^ 16 = s * 2 ^ 16 + 2 ^ 32" by (simp flip: add_mult_distrib)
    have a: "adc 32 (?l * 2 ^ 16) (?h * 2 ^ 16, 0) = (s * 2 ^ 16, 1)"
      unfolding adc_def fst_conv snd_conv add_0_right t using s(2) by simp
    have "fst (adc 32 0xffff (s * 2 ^ 16, 1)) = (s + 1) * 2 ^ 16" using s(2) by (simp add: adc_def)
    then have "CsumFold x = 65535 - (s + 1)"
      unfolding CsumFold_def Let_def lo a using s(2) by simp
    moreover have "canon (?h + ?l) = s + 1"
      unfolding s(1) canon_def using s(2) by simp
    ultimately show ?thesis using c by simp
  qed
qed

section \<open>Words and bytes\<close>

lemma le_val_less: "le_val bs < 256 ^ length bs"
proof (induction bs)
  case (Cons b bs)
  have "unat b < 256" using unsigned_less [of b] by simp
  then show ?case using Cons by simp
qed simp

lemma load_less: "load n bs < 2 ^ (8 * n)"
proof -
  have "load n bs < 256 ^ length (take n bs)" unfolding load_def by (rule le_val_less)
  also have "\<dots> \<le> (256 :: nat) ^ n" by (intro power_increasing) auto
  finally show ?thesis by (simp add: power_mult)
qed

lemma le_sum_le_val: "even (length bs) \<or> length bs = 1 \<Longrightarrow> ocong (le_val bs) (le_sum bs)"
proof (induction bs rule: le_sum.induct)
  case (3 a b bs)
  have "le_val (a # b # bs) = unat a + 256 * unat b + 65536 * le_val bs" by simp
  moreover have "ocong (unat a + 256 * unat b + 65536 * le_val bs) (unat a + 256 * unat b + le_val bs)"
    by (intro ocong_add ocong_refl ocong_65536)
  moreover have "ocong (unat a + 256 * unat b + le_val bs) (unat a + 256 * unat b + le_sum bs)"
    using 3 by (intro ocong_add ocong_refl) auto
  ultimately show ?case unfolding le_sum.simps by (simp only: ) (blast intro: ocong_trans)
qed auto

lemma load_ocong: "even n \<or> n = 1 \<Longrightarrow> n \<le> length bs \<Longrightarrow> ocong (load n bs) (le_sum (take n bs))"
  unfolding load_def by (rule le_sum_le_val) (auto simp: min_def)

lemma le_sum_even: "even (length as) \<Longrightarrow> le_sum (as @ bs) = le_sum as + le_sum bs"
  by (induction as rule: le_sum.induct) auto

lemma le_sum_take_drop: "even n \<Longrightarrow> n \<le> length bs \<Longrightarrow> le_sum bs = le_sum (take n bs) + le_sum (drop n bs)"
  using le_sum_even [of "take n bs" "drop n bs"] by (simp add: min_def)

lemma le_sum_Cons: "ocong (le_sum (a # bs)) (unat a + 256 * le_sum bs)"
proof (induction bs arbitrary: a rule: le_sum.induct)
  case (3 b c bs)
  have "ocong (256 * unat b + le_sum (c # bs)) (256 * unat b + (unat c + 256 * le_sum bs))"
    by (intro ocong_add ocong_refl) (use 3 in \<open>cases bs; auto\<close>)
  moreover have "ocong (256 * unat b + unat c + 256 * le_sum bs)
      (256 * unat b + 65536 * unat c + 256 * le_sum bs)"
    by (intro ocong_add ocong_refl ocong_sym [OF ocong_65536])
  ultimately have "ocong (unat a + (256 * unat b + le_sum (c # bs)))
      (unat a + (256 * unat b + 65536 * unat c + 256 * le_sum bs))"
    by (intro ocong_add [OF ocong_refl]) (simp only: add.assoc, blast intro: ocong_trans)
  then show ?case by (simp add: algebra_simps)
qed auto

lemma le_sum_append: "ocong (le_sum (as @ bs)) (le_sum as + (if even (length as) then 1 else 256) * le_sum bs)"
proof (induction as rule: le_sum.induct)
  case (2 a)
  then show ?case using le_sum_Cons [of a bs] by simp
next
  case (3 a b as)
  then have "ocong (unat a + 256 * unat b + le_sum (as @ bs))
      (unat a + 256 * unat b + (le_sum as + (if even (length as) then 1 else 256) * le_sum bs))"
    by (intro ocong_add [OF ocong_refl])
  then show ?case by (simp add: add.assoc)
qed simp

section \<open>The loops\<close>

lemma adc_chain:
  assumes "carry_ok 64 dc" "8 * n \<le> length bs"
  shows "carry_ok 64 (fold (\<lambda>i. adc 64 (load 8 (drop (i * 8) bs))) [0..<n] dc) \<and>
    ocong (fst (fold (\<lambda>i. adc 64 (load 8 (drop (i * 8) bs))) [0..<n] dc) +
           snd (fold (\<lambda>i. adc 64 (load 8 (drop (i * 8) bs))) [0..<n] dc))
      (fst dc + snd dc + le_sum (take (8 * n) bs))"
  using assms(2)
proof (induction n)
  case (Suc n)
  let ?dc = "fold (\<lambda>i. adc 64 (load 8 (drop (i * 8) bs))) [0..<n] dc" and ?w = "load 8 (drop (n * 8) bs)"
  have ih: "carry_ok 64 ?dc" "ocong (fst ?dc + snd ?dc) (fst dc + snd dc + le_sum (take (8 * n) bs))"
    using Suc by auto
  have w: "ocong ?w (le_sum (take 8 (drop (8 * n) bs)))"
    using load_ocong [of 8 "drop (n * 8) bs"] Suc.prems by (simp add: mult.commute)
  have "ocong (fst (adc 64 ?w ?dc) + snd (adc 64 ?w ?dc)) (fst ?dc + snd ?dc + ?w)" by (rule adc_ocong_64)
  also have "ocong \<dots> (fst dc + snd dc + le_sum (take (8 * n) bs) + le_sum (take 8 (drop (8 * n) bs)))"
    using ih(2) w by (rule ocong_add)
  also have "\<dots> = fst dc + snd dc + le_sum (take (8 * Suc n) bs)"
    using le_sum_even [of "take (8 * n) bs" "take 8 (drop (8 * n) bs)"] Suc.prems
    by (simp add: take_add [symmetric] add.commute)
  finally show ?case using carry_ok_adc [OF ih(1), of ?w] load_less [of 8 "drop (n * 8) bs"] by simp
qed (use assms in simp)

lemma csum_line_ok:
  assumes "r < 2 ^ 64" "64 \<le> length bs"
  shows "ocong (csum_line r bs) (r + le_sum (take 64 bs)) \<and> csum_line r bs < 2 ^ 64"
  using adc_chain [OF carry_ok_start [OF assms(1)], of 8 bs] assms(2)
  by (simp add: csum_line_def adc_final) (simp add: carry_ok_def)

lemma csum_lines_ok:
  assumes "r < 2 ^ 64" "64 * n \<le> length bs"
  shows "snd (csum_lines n r bs) = drop (64 * n) bs \<and> fst (csum_lines n r bs) < 2 ^ 64 \<and>
    ocong (fst (csum_lines n r bs)) (r + le_sum (take (64 * n) bs))"
  using assms
proof (induction n arbitrary: r bs)
  case (Suc n)
  have l: "ocong (csum_line r bs) (r + le_sum (take 64 bs))" "csum_line r bs < 2 ^ 64"
    using csum_line_ok [of r bs] Suc.prems by auto
  have ih: "snd (csum_lines n (csum_line r bs) (drop 64 bs)) = drop (64 * n) (drop 64 bs)"
    "fst (csum_lines n (csum_line r bs) (drop 64 bs)) < 2 ^ 64"
    "ocong (fst (csum_lines n (csum_line r bs) (drop 64 bs)))
       (csum_line r bs + le_sum (take (64 * n) (drop 64 bs)))"
    using Suc.IH [OF l(2), of "drop 64 bs"] Suc.prems(2) by auto
  note ih(3)
  also have "ocong (csum_line r bs + le_sum (take (64 * n) (drop 64 bs)))
      (r + le_sum (take 64 bs) + le_sum (take (64 * n) (drop 64 bs)))"
    using l(1) by (intro ocong_add ocong_refl)
  also have "\<dots> = r + le_sum (take (64 * Suc n) bs)"
    using le_sum_even [of "take 64 bs" "take (64 * n) (drop 64 bs)"] Suc.prems
    by (simp add: take_add [symmetric])
  finally show ?case using ih by (simp add: add.commute)
qed simp

lemma csum_words_ok:
  assumes "r < 2 ^ 64" "8 * n \<le> length bs"
  shows "snd (csum_words n r bs) = drop (8 * n) bs \<and> fst (csum_words n r bs) < 2 ^ 64 \<and>
    ocong (fst (csum_words n r bs)) (r + le_sum (take (8 * n) bs))"
  using assms
proof (induction n arbitrary: r bs)
  case (Suc n)
  let ?r = "fst (adc 64 0 (adc 64 (load 8 bs) (r, 0)))"
  have "carry_ok 64 (adc 64 (load 8 bs) (r, 0))"
    using load_less [of 8 bs] Suc.prems(1) by (intro carry_ok_adc carry_ok_start) auto
  then have "ocong ?r (r + load 8 bs)" using adc_ocong_64 [of "load 8 bs" "(r, 0)"] by (simp add: adc_final)
  moreover have "ocong (r + load 8 bs) (r + le_sum (take 8 bs))"
    using Suc.prems(2) by (intro ocong_add ocong_refl load_ocong) auto
  ultimately have l: "ocong ?r (r + le_sum (take 8 bs))" by (rule ocong_trans)
  have l2: "?r < 2 ^ 64" by (rule adc_fst_less)
  have ih: "snd (csum_words n ?r (drop 8 bs)) = drop (8 * n) (drop 8 bs)"
    "fst (csum_words n ?r (drop 8 bs)) < 2 ^ 64"
    "ocong (fst (csum_words n ?r (drop 8 bs))) (?r + le_sum (take (8 * n) (drop 8 bs)))"
    using Suc.IH [OF l2, of "drop 8 bs"] Suc.prems(2) by auto
  note ih(3)
  also have "ocong (?r + le_sum (take (8 * n) (drop 8 bs)))
      (r + le_sum (take 8 bs) + le_sum (take (8 * n) (drop 8 bs)))"
    using l by (intro ocong_add ocong_refl)
  also have "\<dots> = r + le_sum (take (8 * Suc n) bs)"
    using le_sum_even [of "take 8 bs" "take (8 * n) (drop 8 bs)"] Suc.prems
    by (simp add: take_add [symmetric])
  finally show ?case using ih by (simp add: add.commute)
qed simp

lemma ocong_step:
  assumes "ocong x (r + le_sum (take k bs))" "ocong w (le_sum (take j (drop k bs)))" "even k" "k + j \<le> length bs"
  shows "ocong (x + w) (r + le_sum (take (k + j) bs))"
proof -
  have "ocong (x + w) (r + le_sum (take k bs) + le_sum (take j (drop k bs)))"
    using assms(1,2) by (rule ocong_add)
  moreover have "le_sum (take (k + j) bs) = le_sum (take k bs) + le_sum (take j (drop k bs))"
    using le_sum_even [of "take k bs" "take j (drop k bs)"] assms(3,4) by (simp add: take_add min_absorb2)
  ultimately show ?thesis by (simp add: add.assoc)
qed

text \<open>Data below 256 GiB: the number of its cache lines fits the 32-bit counter.\<close>

abbreviation (input) csum_max :: nat where "csum_max \<equiv> 2 ^ 38"

lemma csum_dwords_aligned:
  fixes bs :: "byte list" and r :: nat
  assumes "r < 2 ^ 40" and small: "length bs < csum_max"
  defines "n \<equiv> length bs div 4 div 2"
  defines "a \<equiv> csum_lines (n div 8 mod u32) r bs"
  defines "b \<equiv> csum_words (n mod 8) (fst a) (snd a)"
  shows "snd b = drop (8 * n) bs" "ocong (fold64 (fst b)) (r + le_sum (take (8 * n) bs))" "fold64 (fst b) < 2 ^ 32"
proof -
  have n: "8 * n \<le> length bs" unfolding n_def by linarith
  have "64 * (n div 8) \<le> length bs" using n div_mult_mod_eq [of n 8] by linarith
  then have m: "n div 8 mod u32 = n div 8" using small by simp
  have nn: "64 * (n div 8) + 8 * (n mod 8) = 8 * n" using div_mult_mod_eq [of n 8] by linarith
  have A: "snd a = drop (64 * (n div 8)) bs" "fst a < 2 ^ 64" "ocong (fst a) (r + le_sum (take (64 * (n div 8)) bs))"
  proof -
    have "r < 2 ^ 64" "64 * (n div 8) \<le> length bs" using assms(1) n nn by simp_all
    from csum_lines_ok [OF this] show "snd a = drop (64 * (n div 8)) bs" "fst a < 2 ^ 64"
      "ocong (fst a) (r + le_sum (take (64 * (n div 8)) bs))" unfolding a_def m by simp_all
  qed
  have B: "snd b = drop (8 * (n mod 8)) (snd a)" "fst b < 2 ^ 64" "ocong (fst b) (fst a + le_sum (take (8 * (n mod 8)) (snd a)))"
    using csum_words_ok [OF A(2), of "n mod 8" "snd a"] n nn unfolding b_def A(1) by auto
  show "snd b = drop (8 * n) bs" unfolding B A using nn by (simp add: add.commute)
  have "ocong (fst a + le_sum (take (8 * (n mod 8)) (snd a))) (r + le_sum (take (64 * (n div 8) + 8 * (n mod 8)) bs))"
    using A(3) n nn by (intro ocong_step) (auto simp: A(1))
  then have "ocong (fst b) (r + le_sum (take (8 * n) bs))" unfolding nn using B(3) by (blast intro: ocong_trans)
  then show "ocong (fold64 (fst b)) (r + le_sum (take (8 * n) bs))" "fold64 (fst b) < 2 ^ 32"
    using fold64_ocong [OF B(2)] by (auto intro: ocong_trans)
qed

lemma csum_dwords_ok:
  assumes r: "r < 2 ^ 33" and small: "length bs < csum_max"
  shows "snd (csum_dwords buf (length bs div 4) r bs) = drop (length bs div 4 * 4) bs \<and>
    fst (csum_dwords buf (length bs div 4) r bs) < 2 ^ 34 \<and>
    ocong (fst (csum_dwords buf (length bs div 4) r bs)) (r + le_sum (take (length bs div 4 * 4) bs))"
proof (cases "length bs div 4 = 0")
  case False
  define k where "k = (if odd (buf div 4) then 4 else 0 :: nat)"
  define r1 where "r1 = (if odd (buf div 4) then r + load 4 bs else r)"
  define bs1 where "bs1 = drop k bs"
  define n where "n = length bs1 div 4 div 2"
  define a where "a = csum_lines (n div 8 mod u32) r1 bs1"
  define b where "b = csum_words (n mod 8) (fst a) (snd a)"
  have k: "k \<le> length bs" "even k" using False by (auto simp: k_def)
  have r1: "r1 < 2 ^ 40" "ocong r1 (r + le_sum (take k bs))"
    using r load_less [of 4 bs] load_ocong [of 4 bs] False
    by (auto simp: r1_def k_def intro: ocong_add)
  have "length bs1 < csum_max" using small by (simp add: bs1_def)
  note al = csum_dwords_aligned [OF r1(1) this, folded n_def, folded a_def, folded b_def]
  have n8: "8 * n \<le> length bs1" unfolding n_def by linarith
  have s1: "ocong (fold64 (fst b)) (r + le_sum (take (k + 8 * n) bs))"
  proof -
    have "ocong (fold64 (fst b)) (r1 + le_sum (take (8 * n) (drop k bs)))" using al(2) by (simp add: bs1_def)
    moreover have "ocong (r1 + le_sum (take (8 * n) (drop k bs))) (r + le_sum (take (k + 8 * n) bs))"
      using r1(2) k n8 by (intro ocong_step) (auto simp: bs1_def)
    ultimately show ?thesis by (rule ocong_trans)
  qed
  have cnt: "(if odd (buf div 4) then length bs div 4 - 1 else length bs div 4) = length bs1 div 4"
    using False by (auto simp: bs1_def k_def)
  have eq: "csum_dwords buf (length bs div 4) r bs =
    (if odd (length bs1 div 4) then (fold64 (fst b) + load 4 (snd b), drop 4 (snd b)) else (fold64 (fst b), snd b))"
    using False cnt unfolding csum_dwords_def Let_def b_def a_def n_def r1_def
    by (cases "odd (buf div 4)") (simp_all add: bs1_def k_def split_beta)
  have fin: "length bs div 4 * 4 = k + 8 * n + (if odd (length bs1 div 4) then 4 else 0)"
  proof -
    have "4 \<le> length bs" using False by (simp add: div_eq_0_iff)
    then obtain m where "length bs = 4 + m" by (auto simp: le_iff_add)
    then have "length bs div 4 * 4 = k + length bs1 div 4 * 4" by (auto simp: bs1_def k_def div_add_self1)
    moreover have "length bs1 div 4 * 4 = 8 * n + (if odd (length bs1 div 4) then 4 else 0)"
    proof -
      have "m * 4 = 8 * (m div 2) + (if odd m then 4 else 0)" for m :: nat by presburger
      then show ?thesis unfolding n_def .
    qed
    ultimately show ?thesis by simp
  qed
  show ?thesis
  proof (cases "odd (length bs1 div 4)")
    case True
    have "ocong (load 4 (snd b)) (le_sum (take 4 (drop (k + 8 * n) bs)))"
      using load_ocong [of 4 "snd b"] fin True by (simp add: al(1) bs1_def add.commute)
    from ocong_step [OF s1 this] k fin True load_less [of 4 "snd b"] al show ?thesis
      unfolding eq by (auto simp: bs1_def add.commute)
  qed (use s1 fin al in \<open>simp add: eq bs1_def add.commute\<close>)
qed (use r in \<open>simp add: csum_dwords_def\<close>)

lemma csum_body_ok:
  assumes r: "r < 2 ^ 16" and small: "length bs < csum_max"
  shows "snd (csum_body buf r bs) = drop (length bs div 2 * 2) bs \<and>
    fst (csum_body buf r bs) < 2 ^ 35 \<and>
    ocong (fst (csum_body buf r bs)) (r + le_sum (take (length bs div 2 * 2) bs))"
proof (cases "length bs div 2 = 0")
  case False
  define k where "k = (if odd (buf div 2) then 2 else 0 :: nat)"
  define r1 where "r1 = (if odd (buf div 2) then r + load 2 bs else r)"
  define bs1 where "bs1 = drop k bs"
  define a where "a = csum_dwords (buf + k) (length bs1 div 4) r1 bs1"
  have k: "k \<le> length bs" "even k" using False by (auto simp: k_def)
  have r1: "r1 < 2 ^ 33" "ocong r1 (r + le_sum (take k bs))"
    using r load_less [of 2 bs] load_ocong [of 2 bs] False
    by (auto simp: r1_def k_def intro: ocong_add)
  have A: "snd a = drop (length bs1 div 4 * 4) bs1" "fst a < 2 ^ 34"
    "ocong (fst a) (r1 + le_sum (take (length bs1 div 4 * 4) bs1))"
    using csum_dwords_ok [OF r1(1), of bs1 "buf + k"] small by (simp_all add: a_def bs1_def)
  let ?m = "length bs1 div 4 * 4"
  have m4: "?m \<le> length bs1" by simp
  have s1: "ocong (fst a) (r + le_sum (take (k + ?m) bs))"
  proof -
    have "ocong (r1 + le_sum (take ?m (drop k bs))) (r + le_sum (take (k + ?m) bs))"
      using r1(2) k m4 by (intro ocong_step) (auto simp: bs1_def)
    then show ?thesis using A(3) by (auto simp: bs1_def intro: ocong_trans)
  qed
  have eq: "csum_body buf r bs =
    (if odd (length bs1 div 2) then (fst a + load 2 (snd a), drop 2 (snd a)) else a)"
    using False unfolding csum_body_def Let_def a_def r1_def
    by (cases "odd (buf div 2)") (simp_all add: bs1_def k_def split_beta div_mult2_eq [symmetric])
  have fin: "length bs div 2 * 2 = k + ?m + (if odd (length bs1 div 2) then 2 else 0)"
  proof -
    have "2 \<le> length bs" using False by (simp add: div_eq_0_iff)
    then obtain m where "length bs = 2 + m" by (auto simp: le_iff_add)
    then have "length bs div 2 * 2 = k + length bs1 div 2 * 2" by (auto simp: bs1_def k_def)
    moreover have "l div 2 * 2 = l div 4 * 4 + (if odd (l div 2) then 2 else 0)" for l :: nat by presburger
    ultimately show ?thesis by (metis add.assoc)
  qed
  show ?thesis
  proof (cases "odd (length bs1 div 2)")
    case True
    have "ocong (load 2 (snd a)) (le_sum (take 2 (drop (k + ?m) bs)))"
      using load_ocong [of 2 "snd a"] fin True by (simp add: A(1) bs1_def add.commute)
    from ocong_step [OF s1 this] k fin True load_less [of 2 "snd a"] A show ?thesis
      unfolding eq by (auto simp: bs1_def add.commute)
  qed (use s1 fin A in \<open>simp add: eq bs1_def add.commute\<close>)
qed (use r in \<open>simp add: csum_body_def\<close>)

section \<open>The whole checksum\<close>

lemma swap16_ocong: "r < 2 ^ 16 \<Longrightarrow> ocong (swap16 r) (256 * r)"
proof -
  assume r: "r < 2 ^ 16"
  have "256 * r = 256 * (r mod 256) + 65536 * (r div 256)"
    using div_mult_mod_eq [of r 256] by linarith
  moreover have "ocong (256 * (r mod 256) + 65536 * (r div 256)) (256 * (r mod 256) + r div 256)"
    by (intro ocong_add ocong_refl ocong_65536)
  moreover have "r div 256 mod 256 = r div 256" using r by (simp add: less_mult_imp_div_less)
  ultimately show ?thesis by (simp add: swap16_def ocong_sym ac_simps)
qed

lemma swap16_less: "swap16 x < u32"
proof -
  have "x div 256 mod 256 < 256" "x mod 256 < 256" by simp_all
  then show ?thesis unfolding swap16_def by simp
qed

lemma swap_fold_ocong: "r < u32 \<Longrightarrow> ocong (swap16 (From32To16 r)) (256 * r)"
proof -
  assume r: "r < u32"
  have "ocong (swap16 (From32To16 r)) (256 * From32To16 r)"
    using From32To16_ocong(2) [OF r] by (intro swap16_ocong) simp
  then show ?thesis using ocong_mult [OF From32To16_ocong(1) [OF r], of 256] by (rule ocong_trans)
qed

lemma ocong_swap_twice: "ocong (256 * x) y \<Longrightarrow> ocong x (256 * y)"
proof -
  assume "ocong (256 * x) y"
  then have "ocong (256 * (256 * x)) (256 * y)" by (rule ocong_mult)
  moreover have "ocong x (256 * (256 * x))" using ocong_sym [OF ocong_65536 [of x]] by simp
  ultimately show ?thesis by (blast intro: ocong_trans)
qed

text \<open>With an odd address the first byte is added in the high half: the swapped sum.\<close>

lemma odd_start_ocong: "ocong (unat b * 256 + le_sum bs) (256 * le_sum (b # bs))"
proof -
  have "ocong (65536 * unat b + 256 * le_sum bs) (unat b + 256 * le_sum bs)"
    by (intro ocong_add ocong_refl ocong_65536)
  then have "ocong (256 * (unat b * 256 + le_sum bs)) (le_sum (b # bs))"
    using ocong_sym [OF le_sum_Cons [of b bs]] by (simp add: algebra_simps) (rule ocong_trans)
  then show ?thesis by (rule ocong_swap_twice)
qed

lemma csum_tail_ok:
  assumes "snd a = drop (length bs div 2 * 2) bs" "ocong (fst a) (r + le_sum (take (length bs div 2 * 2) bs))"
  shows "ocong (if odd (length bs) then fst a + load 1 (snd a) else fst a) (r + le_sum bs)"
proof (cases "odd (length bs)")
  case True
  then have t: "length bs div 2 * 2 + 1 = length bs" by presburger
  then have "ocong (load 1 (snd a)) (le_sum (take 1 (drop (length bs div 2 * 2) bs)))"
    using assms(1) load_ocong [of 1 "snd a"] by simp
  from ocong_step [OF assms(2) this] t True show ?thesis by simp
qed (use assms in simp)

lemma csum_raw_ok:
  assumes "bs \<noteq> []" "length bs < csum_max"
  shows "ocong (csum_raw buf bs) ((if even buf then 1 else 256) * le_sum bs)" "csum_raw buf bs < u32"
proof -
  define bs1 where "bs1 = (if odd buf then tl bs else bs)"
  define r0 where "r0 = (if odd buf then unat (hd bs) * 256 else 0)"
  define a where "a = csum_body (if odd buf then buf + 1 else buf) r0 bs1"
  have "unat (hd bs) < 256" using unsigned_less [of "hd bs"] by simp
  then have r0: "r0 < 2 ^ 16" by (simp add: r0_def)
  have "length bs1 < csum_max" using assms(2) by (auto simp: bs1_def)
  note B = csum_body_ok [OF r0 this, of "if odd buf then buf + 1 else buf", folded a_def]
  let ?s = "if odd (length bs1) then fst a + load 1 (snd a) else fst a"
  have eq: "csum_raw buf bs = fold64 ?s"
    unfolding csum_raw_def Let_def a_def bs1_def r0_def by (cases "odd buf") (simp_all add: split_beta)
  have "?s < 2 ^ 64" using B load_less [of 1 "snd a"] by auto
  note F = fold64_ocong [OF this]
  have "ocong ?s (r0 + le_sum bs1)" using B by (intro csum_tail_ok) auto
  moreover have "ocong (r0 + le_sum bs1) ((if even buf then 1 else 256) * le_sum bs)"
    using odd_start_ocong [of "hd bs" "tl bs"] assms by (simp add: r0_def bs1_def)
  ultimately show "ocong (csum_raw buf bs) ((if even buf then 1 else 256) * le_sum bs)"
    using F unfolding eq by (blast intro: ocong_trans)
  show "csum_raw buf bs < u32" using F eq by simp
qed

lemma Csum_ok:
  assumes small: "length bs < csum_max"
  shows "ocong (Csum buf bs offset) ((if even offset then 1 else 256) * le_sum bs)" "Csum buf bs offset < u32"
proof -
  have "ocong (Csum buf bs offset) ((if even offset then 1 else 256) * le_sum bs) \<and> Csum buf bs offset < u32"
  proof (cases "bs = []")
    case False
    note R = csum_raw_ok [OF False small, of buf]
    have "ocong (256 * csum_raw buf bs) (256 * ((if even buf then 1 else 256) * le_sum bs))"
      using R(1) by (rule ocong_mult)
    then have S: "ocong (swap16 (From32To16 (csum_raw buf bs)))
        (256 * ((if even buf then 1 else 256) * le_sum bs))"
      using swap_fold_ocong [OF R(2)] by (blast intro: ocong_trans)
    have T: "ocong (256 * (256 * le_sum bs)) (le_sum bs)" using ocong_65536 [of "le_sum bs"] by simp
    show ?thesis using False R S T swap16_less
      by (cases "odd buf"; cases "odd offset") (auto simp: Csum_def Let_def intro: ocong_trans)
  qed (simp add: Csum_def)
  then show "ocong (Csum buf bs offset) ((if even offset then 1 else 256) * le_sum bs)" "Csum buf bs offset < u32"
    by auto
qed

lemma IpCsum_loop_ok:
  assumes "ret < u32" "ocong ret (le_sum pre)" "offset = length pre" "length (concat (map snd bufs)) < csum_max"
  shows "ocong (IpCsum_loop bufs offset ret) (le_sum (pre @ concat (map snd bufs))) \<and>
    IpCsum_loop bufs offset ret < u32"
  using assms
proof (induction bufs offset ret arbitrary: pre rule: IpCsum_loop.induct)
  case (2 a bs bufs offset ret)
  let ?c = "Csum a bs offset"
  have "length bs < csum_max" using "2.prems"(4) by simp
  note c = Csum_ok [OF this, of a offset]
  note A = Add32WithCarry_ocong [OF "2.prems"(1) c(2)]
  have "ocong (ret + ?c) (le_sum pre + (if even (length pre) then 1 else 256) * le_sum bs)"
    using "2.prems"(2,3) c(1) by (auto intro: ocong_add)
  also have "ocong \<dots> (le_sum (pre @ bs))" by (rule ocong_sym [OF le_sum_append])
  finally have "ocong (Add32WithCarry ret ?c) (le_sum (pre @ bs))" using A(1) by (blast intro: ocong_trans)
  from "2.IH" [OF A(2) this] "2.prems"(3,4) show ?case by simp
qed simp

lemma IpCsumNoFold_ok:
  assumes "length (concat (map snd bufs)) < csum_max"
  shows "ocong (IpCsumNoFold bufs) (le_sum (concat (map snd bufs)))" "IpCsumNoFold bufs < u32"
  using IpCsum_loop_ok [of 0 "[]" 0 bufs] assms by (auto simp: IpCsumNoFold_def)

text \<open>The pseudo header of TCP and UDP in memory order: source, destination, zero, protocol and
  the big-endian length.\<close>

definition pseudo_header :: "nat \<Rightarrow> nat \<Rightarrow> byte list \<Rightarrow> byte list \<Rightarrow> byte list" where
  "pseudo_header l proto src dst =
    src @ dst @ [0, of_nat proto, of_nat (l div 256), of_nat (l mod 256)]"

lemma unat_byte: "n < 256 \<Longrightarrow> unat (of_nat n :: byte) = n"
  by (simp add: unsigned_of_nat take_bit_nat_eq_self)

lemma PseudoCsum_ok:
  assumes "l < u16" "proto < 256" "length src = 4" "length dst = 4"
  shows "ocong (PseudoCsum l proto src dst) (le_sum (pseudo_header l proto src dst))"
    "PseudoCsum l proto src dst < u32"
proof -
  let ?lp = "bswap16 l * 2 ^ 16 + proto * 2 ^ 8"
  have d: "l div 256 < 256" using assms(1) by (simp add: less_mult_imp_div_less)
  have lp: "?lp < u32"
  proof -
    have "bswap16 l \<le> 255 + 255 * 256" unfolding bswap16_def
      using mod_less_divisor [of 256 "l div 256"] mod_less_divisor [of 256 l] by linarith
    then show ?thesis using assms(2) by simp
  qed
  define d1 where "d1 = adc 32 (load 4 dst) (0, 0)"
  define d2 where "d2 = adc 32 (load 4 src) d1"
  define d3 where "d3 = adc 32 ?lp d2"
  have c: "carry_ok 32 d1" "carry_ok 32 d2" "carry_ok 32 d3"
    using load_less [of 4 dst] load_less [of 4 src] lp unfolding d1_def d2_def d3_def
    by (intro carry_ok_adc carry_ok_start; simp)+
  have eq: "PseudoCsum l proto src dst = fst d3 + snd d3"
    using lp assms(1,2) adc_final [OF c(3)] unfolding PseudoCsum_def Let_def d1_def d2_def d3_def by simp
  have "ocong (fst d1 + snd d1) (load 4 dst)" using adc_ocong_32 [of "load 4 dst" "(0, 0)"] by (simp add: d1_def)
  also have "ocong (load 4 dst) (le_sum dst)" using load_ocong [of 4 dst] assms(4) by simp
  finally have 1: "ocong (fst d1 + snd d1) (le_sum dst)" .
  have "ocong (fst d2 + snd d2) (fst d1 + snd d1 + load 4 src)" using adc_ocong_32 by (simp add: d2_def)
  also have "ocong \<dots> (le_sum dst + le_sum src)"
    using 1 load_ocong [of 4 src] assms(3) by (intro ocong_add) auto
  finally have 2: "ocong (fst d2 + snd d2) (le_sum dst + le_sum src)" .
  have "ocong ?lp (bswap16 l + proto * 2 ^ 8)"
    using ocong_65536 [of "bswap16 l"] by (intro ocong_add ocong_refl) (simp add: mult.commute)
  moreover have "ocong (fst d3 + snd d3) (fst d2 + snd d2 + ?lp)" using adc_ocong_32 by (simp add: d3_def)
  ultimately have "ocong (fst d3 + snd d3) (le_sum dst + le_sum src + (bswap16 l + proto * 2 ^ 8))"
    using 2 by (blast intro: ocong_trans ocong_add)
  moreover have "le_sum (pseudo_header l proto src dst) = le_sum src + (le_sum dst + (256 * proto + bswap16 l))"
    using assms d by (simp add: pseudo_header_def le_sum_even unat_byte bswap16_def mult.commute)
  ultimately show "ocong (PseudoCsum l proto src dst) (le_sum (pseudo_header l proto src dst))"
    by (simp add: eq ac_simps)
  show "PseudoCsum l proto src dst < u32" using c(3) by (simp add: eq carry_ok_def)
qed

section \<open>Properties\<close>

text \<open>C6: The optimised checksum is the Internet checksum.  For data at any address and of any
  length below 256 GiB (the number of its cache lines fits the routine's 32-bit counter), the
  result of the unrolled assembly routine is the complement of the 16-bit ones' complement sum
  of the data's 16-bit words; in particular it does not depend on the alignment of the data.\<close>

theorem IpCsum_correct:
  assumes "length bs < 2 ^ 38"
  shows "IpCsum buf bs = 65535 - canon (le_sum bs)"
proof -
  have "canon (Csum buf bs 0) = canon (le_sum bs)"
    using Csum_ok(1) [OF assms, of buf 0] by (intro canon_ocong) simp
  then show ?thesis using CsumFold_canon [OF Csum_ok(2) [OF assms]] by (simp add: IpCsum_def)
qed

text \<open>A UDP datagram of odd length at an odd address, and the same at an address that is two
  bytes off a quad word.\<close>

theorem IpCsum_correct_witness:
  "IpCsum 7 [0x45, 0, 1, 2, 3, 4, 5, 6, 7, 8, 9] = 65535 - 0x145E \<and>
   IpCsum 2 [0x45, 0, 1, 2, 3, 4, 5, 6, 7, 8, 9] = 65535 - 0x145E"
  using IpCsum_correct [of "[0x45, 0, 1, 2, 3, 4, 5, 6, 7, 8, 9]" 7]
    IpCsum_correct [of "[0x45, 0, 1, 2, 3, 4, 5, 6, 7, 8, 9]" 2] by (simp add: canon_def)

text \<open>The checksum of a chain of buffers is the checksum of its bytes, however the bytes are
  split into buffers (odd lengths included) and wherever the buffers lie.\<close>

theorem IpCsum_chain_correct:
  assumes "length (concat (map snd bufs)) < 2 ^ 38"
  shows "IpCsum_chain bufs = 65535 - canon (le_sum (concat (map snd bufs)))"
  using CsumFold_canon [OF IpCsumNoFold_ok(2) [OF assms]] canon_ocong [OF IpCsumNoFold_ok(1) [OF assms]]
  by (simp add: IpCsum_chain_def)

text \<open>The transport checksum covers the pseudo header.  For a payload shorter than 64 KiB,
  \<open>IpPseudoCsum\<close> is the Internet checksum of the pseudo header of RFC 793 and RFC 768
  followed by the payload.\<close>

theorem IpPseudoCsum_correct:
  assumes "length (concat (map snd bufs)) < u16" "proto < 256" "length src = 4" "length dst = 4"
  shows "IpPseudoCsum bufs proto src dst = 65535 - canon (le_sum
    (pseudo_header (length (concat (map snd bufs))) proto src dst @ concat (map snd bufs)))"
proof -
  let ?p = "concat (map snd bufs)"
  have "length ?p < csum_max" using assms(1) by simp
  note P = PseudoCsum_ok [OF assms] and N = IpCsumNoFold_ok [OF this]
  note A = Add32WithCarry_ocong [OF N(2) P(2)]
  have "ocong (IpCsumNoFold bufs + PseudoCsum (length ?p) proto src dst)
      (le_sum ?p + le_sum (pseudo_header (length ?p) proto src dst))"
    using N(1) P(1) by (rule ocong_add)
  moreover have "le_sum (pseudo_header (length ?p) proto src dst @ ?p) =
      le_sum (pseudo_header (length ?p) proto src dst) + le_sum ?p"
    using assms(3,4) by (intro le_sum_even) (simp add: pseudo_header_def)
  ultimately have "canon (Add32WithCarry (IpCsumNoFold bufs) (PseudoCsum (length ?p) proto src dst)) =
      canon (le_sum (pseudo_header (length ?p) proto src dst @ ?p))"
    using A(1) by (intro canon_ocong) (auto simp: add.commute intro: ocong_trans)
  then show ?thesis using CsumFold_canon [OF A(2)] by (simp add: IpPseudoCsum_def)
qed

theorem IpPseudoCsum_correct_witness:
  "IpPseudoCsum [(1, [1, 2, 3]), (8, [4])] 17 [10, 0, 0, 1] [10, 0, 0, 2] =
    65535 - canon (le_sum (pseudo_header (length [1, 2, 3, 4 :: byte]) 17 [10, 0, 0, 1] [10, 0, 0, 2] @ [1, 2, 3, 4]))"
  using IpPseudoCsum_correct [of "[(1, [1, 2, 3]), (8, [4])]" 17 "[10, 0, 0, 1]" "[10, 0, 0, 2]"] by simp

text \<open>A stored checksum verifies.  Writing the checksum of a header, computed with a zero
  checksum field at an even offset, into that field (in memory order) makes the checksum of
  the whole header zero, which is the test the receive path applies.\<close>

theorem checksum_verifies:
  assumes "even (length as)" "c = IpCsum buf (as @ [0, 0] @ bs)" and small: "length (as @ [0, 0] @ bs) < 2 ^ 38"
  shows "IpCsum buf' (as @ [of_nat (c mod 256), of_nat (c div 256)] @ bs) = 0"
proof -
  let ?s = "le_sum as + le_sum bs"
  have s: "le_sum (as @ [0, 0] @ bs) = ?s" using assms(1) by (simp add: le_sum_even)
  have c: "c = 65535 - canon ?s"
    using CsumFold_canon [OF Csum_ok(2) [OF small]] canon_ocong [OF Csum_ok(1) [OF small, of buf 0]]
      s by (simp add: assms(2) IpCsum_def)
  have cd: "c div 256 < 256" "c mod 256 < 256" using c by (auto simp: less_mult_imp_div_less)
  have "le_sum (as @ [of_nat (c mod 256), of_nat (c div 256)] @ bs) = ?s + (c mod 256 + 256 * (c div 256))"
    using assms(1) cd by (simp add: le_sum_even unat_byte)
  also have "\<dots> = ?s + c" by simp
  also have "ocong \<dots> (canon ?s + c)" by (intro ocong_add ocong_refl ocong_sym [OF ocong_canon])
  also have "canon ?s + c = 65535" using c canon_less [of ?s] by simp
  finally have "canon (le_sum (as @ [of_nat (c mod 256), of_nat (c div 256)] @ bs)) = 65535"
    using canon_ocong [of _ 65535] canon_self [of 65535] by simp
  moreover have "length (as @ [of_nat (c mod 256), of_nat (c div 256)] @ bs) < csum_max" using small by simp
  note k = Csum_ok [OF this, of buf' 0]
  ultimately show ?thesis using CsumFold_canon [OF k(2)] canon_ocong [OF k(1)] by (simp add: IpCsum_def)
qed

theorem checksum_verifies_witness:
  "IpCsum 3 ([69, 0, 0, 20] @ [of_nat (IpCsum 4 ([69, 0, 0, 20] @ [0, 0] @ [10, 1, 2]) mod 256),
     of_nat (IpCsum 4 ([69, 0, 0, 20] @ [0, 0] @ [10, 1, 2]) div 256)] @ [10, 1, 2]) = 0"
  using checksum_verifies [of "[69, 0, 0, 20]", OF _ refl, of "[10, 1, 2]"] by simp

end
