(* ===== verification/NetTcp.thy ===== *)
theory NetTcp
  imports NetChecksum
begin

text \<open>
  The TCP engine of \<open>src/src/native/NetTcp.cc\<close> (with \<open>NetTcp.h\<close> and the entry of \<open>Net.h\<close>).
  A connection is the record \<open>tcp_entry\<close>; every method is a function on it, with the network
  and timer effects and the upcalls to the application appended to the field \<open>out\<close> in the order
  the code makes them.  The application's handler is an argument \<open>up\<close>: what an upcall does to
  the entry (a handler may call back into \<open>Send\<close> or \<open>Close\<close>).  Sequence numbers are
  \<open>32 word\<close>s.  A packet buffer is the list of the byte views of its chain, the first of which
  starts with the TCP header.  Time points are nanoseconds, 0 the unset time point.
\<close>

section \<open>Constants and sequence arithmetic\<close>

definition kTcpMss :: nat where "kTcpMss = 1460"

definition kTcpWnd :: "32 word" where "kTcpWnd = push_bit 21 1"

definition kWindowShift :: nat where "kWindowShift = 7"

definition TcpWindow16 :: "32 word \<Rightarrow> 16 word" where
  "TcpWindow16 sz = ucast (drop_bit kWindowShift sz)"

definition kTcpFin :: "16 word" where "kTcpFin = 0x01"

definition kTcpSyn :: "16 word" where "kTcpSyn = 0x02"

definition kTcpRst :: "16 word" where "kTcpRst = 0x04"

definition kTcpAck :: "16 word" where "kTcpAck = 0x10"

definition kTcpUrg :: "16 word" where "kTcpUrg = 0x20"

definition kTcpFlagMask :: "16 word" where "kTcpFlagMask = 0x3f"

definition has :: "16 word \<Rightarrow> 16 word \<Rightarrow> bool" where
  "has flags f \<longleftrightarrow> flags AND f \<noteq> 0"

definition TcpSeqBetween :: "32 word \<Rightarrow> 32 word \<Rightarrow> 32 word \<Rightarrow> bool" where
  "TcpSeqBetween inn left right \<longleftrightarrow> inn - left \<le> right - left"

definition TcpSeqLT :: "32 word \<Rightarrow> 32 word \<Rightarrow> bool" where
  "TcpSeqLT a b \<longleftrightarrow> sint (a - b) < 0"

definition TcpSeqGT :: "32 word \<Rightarrow> 32 word \<Rightarrow> bool" where
  "TcpSeqGT a b \<longleftrightarrow> sint (a - b) > 0"

definition TcpSeqLEQ :: "32 word \<Rightarrow> 32 word \<Rightarrow> bool" where
  "TcpSeqLEQ a b \<longleftrightarrow> sint (a - b) \<le> 0"

definition TcpSeqGEQ :: "32 word \<Rightarrow> 32 word \<Rightarrow> bool" where
  "TcpSeqGEQ a b \<longleftrightarrow> sint (a - b) \<ge> 0"

section \<open>The header word\<close>

text \<open>\<open>hdrlen_flags\<close> in host order: four bits of length in words, twelve of flags.\<close>

definition SetHdrLenFlags :: "nat \<Rightarrow> 16 word \<Rightarrow> 16 word" where
  "SetHdrLenFlags header_len flags = push_bit 12 (of_nat (header_len div 4)) OR flags"

definition SetFlags :: "16 word \<Rightarrow> 16 word \<Rightarrow> 16 word" where
  "SetFlags hf flags = (hf AND NOT 0xFFF) OR (flags AND 0xFFF)"

definition HdrLen :: "16 word \<Rightarrow> nat" where
  "HdrLen hf = unat (drop_bit 12 hf) * 4"

definition Flags :: "16 word \<Rightarrow> 16 word" where
  "Flags hf = hf AND kTcpFlagMask"

section \<open>Connection state\<close>

type_synonym ipv4 = "byte list"

datatype tcp_state = kClosed | kSynSent | kSynReceived | kEstablished | kFinWait1 | kFinWait2
  | kCloseWait | kClosing | kLastAck | kTimeWait

text \<open>The enumerators compare by their position.\<close>

fun st_num :: "tcp_state \<Rightarrow> nat" where
  "st_num kClosed = 0" | "st_num kSynSent = 1" | "st_num kSynReceived = 2"
| "st_num kEstablished = 3" | "st_num kFinWait1 = 4" | "st_num kFinWait2 = 5"
| "st_num kCloseWait = 6" | "st_num kClosing = 7" | "st_num kLastAck = 8" | "st_num kTimeWait = 9"

record segment =
  s_seq :: "32 word"
  s_hf :: "16 word"
  s_len :: "16 word"
  s_opts :: "byte list"
  s_data :: "byte list"

record wire_segment =
  w_src :: "16 word"
  w_dst :: "16 word"
  w_seq :: "32 word"
  w_ack :: "32 word"
  w_hf :: "16 word"
  w_wnd :: "16 word"
  w_csum :: nat
  w_body :: "byte list"
  w_gso_size :: nat
  w_gso_hdr :: nat

datatype upcall = UpConnected | UpReceive "byte list" | UpClose | UpAbort | UpSendWindowIncrease

datatype tcp_event = SendIp wire_segment ipv4 ipv4 | Upcall upcall | TimerStart nat | TimerStop
  | Destroyed

record tcp_entry =
  address :: ipv4
  key_ip :: ipv4
  key_rport :: "16 word"
  key_lport :: "16 word"
  unacked_segments :: "segment list"
  pending_segments :: "segment list"
  stashed_segments :: "(32 word \<times> byte list list) list"
  state :: tcp_state
  snd_una :: "32 word"
  snd_nxt :: "32 word"
  snd_wnd :: "32 word"
  snd_wl1 :: "32 word"
  snd_wl2 :: "32 word"
  rcv_nxt :: "32 word"
  rcv_wnd :: "32 word"
  rcv_last_acked :: "32 word"
  close_window :: bool
  retransmit :: nat
  time_wait :: nat
  window_notify :: bool
  timer_set :: bool
  out :: "tcp_event list"

text \<open>A received segment: the fields of \<open>TcpInfo\<close>, the header fields and the buffer.\<close>

record tcp_packet =
  p_src :: ipv4
  p_dst :: ipv4
  p_sport :: "16 word"
  p_dport :: "16 word"
  p_seq :: "32 word"
  p_ack :: "32 word"
  p_tcplen :: nat
  p_hf :: "16 word"
  p_wnd :: "16 word"
  p_bufs :: "byte list list"

type_synonym handler = "upcall \<Rightarrow> tcp_entry \<Rightarrow> tcp_entry"

definition emit :: "tcp_event \<Rightarrow> tcp_entry \<Rightarrow> tcp_entry" where
  "emit ev e = e\<lparr>out := out e @ [ev]\<rparr>"

definition call :: "handler \<Rightarrow> upcall \<Rightarrow> tcp_entry \<Rightarrow> tcp_entry" where
  "call up u e = up u (emit (Upcall u) e)"

definition bytes :: "byte list list \<Rightarrow> nat" where
  "bytes bufs = length (concat bufs)"

section \<open>Sending\<close>

definition sizeof_TcpHeader :: nat where "sizeof_TcpHeader = 20"

definition SendWindowRemaining :: "tcp_entry \<Rightarrow> 32 word" where
  "SendWindowRemaining e = snd_wnd e - (snd_nxt e - snd_una e)"

text \<open>\<open>tcp_len\<close> is a \<open>size_t\<close> here; the queued segment keeps its low 16 bits.\<close>

definition EnqueueSegment :: "byte list \<Rightarrow> 16 word \<Rightarrow> byte list \<Rightarrow> tcp_entry \<Rightarrow> tcp_entry" where
  "EnqueueSegment dat flags opts e =
    (let packet_len = sizeof_TcpHeader + length opts + length dat;
         tcp_len = packet_len - sizeof_TcpHeader - length opts +
                   (if has flags (kTcpSyn OR kTcpFin) then 1 else 0);
         seg = \<lparr>s_seq = snd_nxt e, s_hf = SetHdrLenFlags (sizeof_TcpHeader + length opts) flags,
                s_len = of_nat tcp_len, s_opts = opts, s_data = dat\<rparr>
     in e\<lparr>pending_segments := pending_segments e @ [seg], snd_nxt := snd_nxt e + of_nat tcp_len\<rparr>)"

text \<open>\<open>TcpEntry::Send\<close> puts a header before the data; \<open>TcpPcb::Send\<close> guards it.\<close>

definition Entry_Send :: "byte list \<Rightarrow> tcp_entry \<Rightarrow> tcp_entry" where
  "Entry_Send dat e = EnqueueSegment dat kTcpAck [] e"

definition Pcb_Send :: "byte list \<Rightarrow> tcp_entry \<Rightarrow> tcp_entry result" where
  "Pcb_Send dat e =
    (if \<not> length dat \<le> unat (SendWindowRemaining e)
     then Inl (KAssert ''ComputeChainDataLength() <= SendWindowRemaining()'')
     else if \<not> length dat \<le> 65535 - 60 - 60
     then Inl (KAssert ''ComputeChainDataLength() <= max_tcp_segment_size'')
     else Inr (Entry_Send dat e))"

definition SendSegment :: "segment \<Rightarrow> tcp_entry \<Rightarrow> tcp_entry" where
  "SendSegment seg e =
    (let e1 = e\<lparr>rcv_last_acked := rcv_nxt e\<rparr>;
         w = \<lparr>w_src = key_lport e, w_dst = key_rport e, w_seq = s_seq seg, w_ack = rcv_nxt e,
              w_hf = s_hf seg, w_wnd = TcpWindow16 (rcv_wnd e),
              w_csum = From32To16 (PseudoCsum (sizeof_TcpHeader + length (s_opts seg) + length (s_data seg))
                6 (address e) (key_ip e)),
              w_body = s_opts seg @ s_data seg,
              w_gso_size = (if kTcpMss < unat (s_len seg) then kTcpMss else 0),
              w_gso_hdr = (if kTcpMss < unat (s_len seg) then HdrLen (s_hf seg) else 0)\<rparr>
     in emit (SendIp w (address e) (key_ip e)) e1)"

definition SendEmptyAck :: "tcp_entry \<Rightarrow> tcp_entry" where
  "SendEmptyAck e =
    (let e1 = e\<lparr>rcv_last_acked := rcv_nxt e\<rparr>;
         w = \<lparr>w_src = key_lport e, w_dst = key_rport e, w_seq = snd_nxt e, w_ack = rcv_nxt e,
              w_hf = SetHdrLenFlags sizeof_TcpHeader kTcpAck, w_wnd = TcpWindow16 (rcv_wnd e),
              w_csum = From32To16 (PseudoCsum sizeof_TcpHeader 6 (address e) (key_ip e)),
              w_body = [], w_gso_size = 0, w_gso_hdr = 0\<rparr>
     in emit (SendIp w (address e) (key_ip e)) e1)"

definition TcpReset :: "bool \<Rightarrow> 32 word \<Rightarrow> 32 word \<Rightarrow> ipv4 \<Rightarrow> ipv4 \<Rightarrow> 16 word \<Rightarrow> 16 word \<Rightarrow> tcp_event" where
  "TcpReset ack seqno ackno local_ip remote_ip local_port remote_port =
    SendIp \<lparr>w_src = local_port, w_dst = remote_port, w_seq = seqno, w_ack = ackno,
            w_hf = SetHdrLenFlags sizeof_TcpHeader (kTcpRst OR (if ack then kTcpAck else 0)),
            w_wnd = TcpWindow16 kTcpWnd,
            w_csum = From32To16 (PseudoCsum sizeof_TcpHeader 6 local_ip remote_ip),
            w_body = [], w_gso_size = 0, w_gso_hdr = 0\<rparr> local_ip remote_ip"

definition SendFin :: "tcp_entry \<Rightarrow> tcp_entry" where
  "SendFin e =
    (if pending_segments e \<noteq> [] \<and>
        \<not> has (Flags (s_hf (last (pending_segments e)))) (kTcpSyn OR kTcpFin OR kTcpRst)
     then let seg = last (pending_segments e) in
       e\<lparr>pending_segments := butlast (pending_segments e) @
            [seg\<lparr>s_hf := SetFlags (s_hf seg) (Flags (s_hf seg) OR kTcpFin), s_len := s_len seg + 1\<rparr>],
         snd_nxt := snd_nxt e + 1\<rparr>
     else EnqueueSegment [] (kTcpFin OR kTcpAck) [] e)"

definition Close :: "tcp_entry \<Rightarrow> tcp_entry result" where
  "Close e = (case state e of
     kClosed \<Rightarrow> Inr e
   | kCloseWait \<Rightarrow> Inr ((SendFin e)\<lparr>state := kLastAck\<rparr>)
   | kSynReceived \<Rightarrow> Inr ((SendFin e)\<lparr>state := kFinWait1\<rparr>)
   | kEstablished \<Rightarrow> Inr ((SendFin e)\<lparr>state := kFinWait1\<rparr>)
   | _ \<Rightarrow> Inl (KAbort ''UNIMPLEMENTED: Close()''))"

text \<open>The sending loop of \<open>Output\<close>: the segments still unsent, the entry, the count.\<close>

definition seg_end :: "segment \<Rightarrow> 32 word" where
  "seg_end s = s_seq s + ucast (s_len s)"

fun output_loop :: "segment list \<Rightarrow> tcp_entry \<Rightarrow> nat \<Rightarrow> segment list \<times> tcp_entry \<times> nat" where
  "output_loop [] e sent = ([], e, sent)"
| "output_loop (s # ss) e sent =
     (if TcpSeqLEQ (seg_end s) (snd_nxt e + SendWindowRemaining e)
      then output_loop ss (SendSegment s e) (sent + 1)
      else (s # ss, e, sent))"

definition Output :: "nat \<Rightarrow> tcp_entry \<Rightarrow> tcp_entry result" where
  "Output now e =
    (let (rest, e1, sent) = output_loop (pending_segments e) e 0 in
     if 0 < sent then
       Inr (e1\<lparr>unacked_segments := unacked_segments e1 @ take sent (pending_segments e),
               pending_segments := rest, retransmit := now + 250000000\<rparr>)
     else if pending_segments e1 \<noteq> [] \<and> unacked_segments e1 = [] then
       (if 0 < snd_wnd e1 then Inl (KAbort ''UNIMPLEMENTED: Shrink pending segment to be sent'')
        else Inl (KAbort ''UNIMPLEMENTED: Window size probe needed''))
     else if TcpSeqLT (rcv_last_acked e1) (rcv_nxt e1) then Inr (SendEmptyAck e1)
     else Inr e1)"

section \<open>Timers\<close>

definition SetTimer :: "nat \<Rightarrow> tcp_entry \<Rightarrow> tcp_entry" where
  "SetTimer now e =
    (if timer_set e then e
     else if retransmit e \<le> now \<and> time_wait e \<le> now then e
     else let min_timer = (if retransmit e \<le> now then time_wait e else retransmit e)
       in (emit (TimerStart ((min_timer - now) div 1000)) e)\<lparr>timer_set := True\<rparr>)"

definition DisableTimers :: "tcp_entry \<Rightarrow> tcp_entry" where
  "DisableTimers e =
    (if timer_set e then emit TimerStop e else e)\<lparr>timer_set := False, retransmit := 0, time_wait := 0\<rparr>"

definition Purge :: "tcp_entry \<Rightarrow> tcp_entry" where
  "Purge e = e\<lparr>unacked_segments := [], pending_segments := []\<rparr>"

definition Entry_Destroy :: "tcp_entry \<Rightarrow> tcp_entry" where
  "Entry_Destroy e = emit Destroyed e"

definition teardown :: "tcp_entry \<Rightarrow> tcp_entry" where
  "teardown e = Entry_Destroy (DisableTimers (Purge e))"

definition Fire :: "nat \<Rightarrow> tcp_entry \<Rightarrow> tcp_entry result" where
  "Fire now e0 =
    (let e = e0\<lparr>timer_set := False\<rparr> in
     if time_wait e \<noteq> 0 \<and> time_wait e \<le> now
     then Inr (teardown (e\<lparr>time_wait := 0\<rparr>))
     else let e1 = (if retransmit e \<noteq> 0 \<and> retransmit e \<le> now
                    then e\<lparr>retransmit := 0, pending_segments := unacked_segments e @ pending_segments e,
                           unacked_segments := []\<rparr>
                    else e)
       in bindr (Output now e1) (\<lambda>e2. Inr (SetTimer now e2)))"

definition ClearAckedSegments :: "32 word \<Rightarrow> tcp_entry \<Rightarrow> tcp_entry" where
  "ClearAckedSegments ackno e =
    (let clear = dropWhile (\<lambda>s. \<not> TcpSeqGT (seg_end s) ackno);
         e1 = e\<lparr>unacked_segments := clear (unacked_segments e),
                pending_segments := clear (pending_segments e)\<rparr>
     in if unacked_segments e1 = [] then DisableTimers e1 else e1)"

section \<open>Receiving\<close>

definition wnd_of :: "tcp_packet \<Rightarrow> 32 word" where
  "wnd_of p = push_bit kWindowShift (ucast (p_wnd p))"

definition reply_reset :: "tcp_packet \<Rightarrow> bool \<Rightarrow> 32 word \<Rightarrow> tcp_entry \<Rightarrow> tcp_entry" where
  "reply_reset p ack ackno e =
    emit (TcpReset ack (p_ack p) ackno (p_dst p) (p_src p) (p_dport p) (p_sport p)) e"

text \<open>The \<open>kSynSent\<close> half of \<open>Receive\<close>; the boolean is its return value.\<close>

definition Receive_SynSent :: "handler \<Rightarrow> tcp_packet \<Rightarrow> tcp_entry \<Rightarrow> (tcp_entry \<times> bool) result" where
  "Receive_SynSent up p e =
    (let flags = Flags (p_hf p); ack = has flags kTcpAck in
     if ack \<and> (TcpSeqLEQ (p_ack p) (snd_una e) \<or> TcpSeqGT (p_ack p) (snd_nxt e)) then
       (if \<not> has flags kTcpRst
        then Inr (teardown (call up UpAbort ((reply_reset p False 0 e)\<lparr>state := kClosed\<rparr>)), False)
        else Inr (e, True))
     else if has flags kTcpRst then
       (if ack then Inr (teardown (call up UpAbort (e\<lparr>state := kClosed\<rparr>)), False) else Inr (e, True))
     else if has flags kTcpSyn then
       (if ack then
          let e1 = e\<lparr>rcv_nxt := p_seq p + 1, rcv_last_acked := p_seq p, snd_una := p_ack p,
                     state := kEstablished, snd_wnd := wnd_of p, snd_wl1 := p_seq p, snd_wl2 := p_ack p\<rparr>;
              e2 = ClearAckedSegments (p_ack p) e1
          in if 1 < p_tcplen p then Inl (KAbort ''UNIMPLEMENTED: Data with SYN packet'')
             else Inr (call up UpConnected e2, True)
        else Inl (KAbort ''UNIMPLEMENTED: Simultaneous Open''))
     else Inr (e, True))"

text \<open>The early ACK processing: \<open>Inr\<close> of an entry to go on with, \<open>Inl\<close> of an entry and the value
  returned at once.\<close>

definition ack_window :: "tcp_packet \<Rightarrow> tcp_entry \<Rightarrow> tcp_entry" where
  "ack_window p e0 =
    (let e = e0\<lparr>snd_una := p_ack p\<rparr> in
     if TcpSeqBetween (p_ack p) (snd_una e + 1) (snd_nxt e) \<or> TcpSeqLT (snd_wl1 e) (p_seq p) \<or>
        (snd_wl1 e = p_seq p \<and> TcpSeqLEQ (snd_wl2 e) (p_ack p))
     then e\<lparr>snd_wnd := wnd_of p, snd_wl1 := p_seq p, snd_wl2 := p_ack p\<rparr>
     else e)"

definition ack_closing :: "nat \<Rightarrow> tcp_packet \<Rightarrow> tcp_entry \<Rightarrow> tcp_entry" where
  "ack_closing now p e =
    (if state e = kFinWait1 \<and> p_ack p = snd_nxt e then e\<lparr>state := kFinWait2\<rparr>
     else if state e = kClosing \<and> p_ack p = snd_nxt e
     then (DisableTimers (Purge e))\<lparr>time_wait := now + 60000000000, state := kTimeWait\<rparr>
     else e)"

definition ack_connected :: "handler \<Rightarrow> nat \<Rightarrow> tcp_packet \<Rightarrow> tcp_entry \<Rightarrow> (tcp_entry \<times> bool) + tcp_entry" where
  "ack_connected up now p e =
    (if TcpSeqBetween (p_ack p) (snd_una e) (snd_nxt e) then
       let e1 = ClearAckedSegments (p_ack p) (ack_window p e);
           e2 = (if window_notify e1 then call up UpSendWindowIncrease e1 else e1)
       in Inr (ack_closing now p e2)
     else if TcpSeqGT (p_ack p) (snd_nxt e) then Inl (SendEmptyAck e, True)
     else Inr (ack_closing now p e))"

definition Receive_ack :: "handler \<Rightarrow> nat \<Rightarrow> tcp_packet \<Rightarrow> tcp_entry \<Rightarrow> (tcp_entry \<times> bool) + tcp_entry" where
  "Receive_ack up now p e =
    (let flags = Flags (p_hf p) in
     if TcpSeqGEQ (p_seq p) (rcv_nxt e) \<and> has flags kTcpAck \<and> \<not> has flags kTcpSyn \<and> \<not> has flags kTcpRst
     then
       if state e = kSynReceived \<and> \<not> TcpSeqBetween (p_ack p) (snd_una e + 1) (snd_nxt e)
       then Inl (reply_reset p False 0 e, True)
       else
         let e1 = (if state e = kSynReceived
                   then e\<lparr>state := kEstablished, snd_wnd := wnd_of p, snd_wl1 := p_seq p, snd_wl2 := p_ack p\<rparr>
                   else e)
         in if st_num (state e1) \<le> st_num kClosing then ack_connected up now p e1
            else if state e1 = kLastAck \<and> p_ack p = snd_nxt e1
            then Inl (teardown (e1\<lparr>state := kClosed\<rparr>), False)
            else Inr e1
     else Inr e)"

text \<open>Advancing the first view of a buffer; \<open>TrimEnd\<close> shortens only the first view.\<close>

definition advance_head :: "nat \<Rightarrow> byte list list \<Rightarrow> byte list list result" where
  "advance_head n bufs = (case bufs of
     [] \<Rightarrow> Inl (Undefined ''null buffer'')
   | b # bs \<Rightarrow> if length b < n then Inl (KAssert ''length_ >= amount'') else Inr (drop n b # bs))"

definition trim_head :: "nat \<Rightarrow> byte list list \<Rightarrow> byte list list result" where
  "trim_head n bufs = (case bufs of
     [] \<Rightarrow> Inl (Undefined ''null buffer'')
   | b # bs \<Rightarrow> if length b < n then Inl (Undefined ''length_ wraps around'')
                else Inr (take (length b - n) b # bs))"

text \<open>The loop over the stash, a map in increasing (unsigned) key order.  The comparison
  \<open>it->first == rcv_nxt + payload_len\<close> is made in 64 bits.\<close>

fun stash_loop :: "(32 word \<times> byte list list) list \<Rightarrow> nat \<Rightarrow> nat \<Rightarrow> byte list list \<Rightarrow>
    (32 word \<times> byte list list) list \<times> nat \<times> byte list list" where
  "stash_loop [] base plen buf = ([], plen, buf)"
| "stash_loop ((k, c) # r) base plen buf =
     (if unat k = base + plen then stash_loop r base (plen + bytes c) (buf @ c)
      else case stash_loop r base plen buf of (r', plen', buf') \<Rightarrow> ((k, c) # r', plen', buf'))"

definition stash_insert :: "32 word \<Rightarrow> byte list list \<Rightarrow> (32 word \<times> byte list list) list \<Rightarrow>
    (32 word \<times> byte list list) list" where
  "stash_insert k c m = (if k \<in> fst ` set m then m else insort_key fst (k, c) m)"

definition Receive_established :: "handler \<Rightarrow> tcp_packet \<Rightarrow> nat \<Rightarrow> tcp_entry \<Rightarrow>
    ((tcp_entry \<times> bool) + (nat \<times> tcp_entry)) result" where
  "Receive_established up p payload_len e =
    (let hdr_len = HdrLen (p_hf p) in
     if TcpSeqGT (p_seq p) (rcv_nxt e) then
       bindr (advance_head hdr_len (p_bufs p)) (\<lambda>buf.
         Inr (Inl (SendEmptyAck (e\<lparr>stashed_segments := stash_insert (p_seq p) buf (stashed_segments e)\<rparr>), True)))
     else
       let (stash, plen, buf) = stash_loop (stashed_segments e) (unat (rcv_nxt e)) payload_len (p_bufs p);
           e1 = e\<lparr>stashed_segments := stash\<rparr>;
           tcplen = (if unat (rcv_wnd e) < plen \<and> has (Flags (p_hf p)) kTcpFin then p_tcplen p - 1 else p_tcplen p)
       in bindr (if unat (rcv_wnd e) < plen then trim_head (plen - unat (rcv_wnd e)) buf else Inr buf) (\<lambda>buf1.
            let plen1 = min plen (unat (rcv_wnd e));
                e2 = e1\<lparr>rcv_nxt := rcv_nxt e + of_nat plen1,
                        rcv_wnd := (if close_window e then rcv_wnd e - of_nat plen1 else rcv_wnd e)\<rparr>
            in bindr (advance_head hdr_len buf1) (\<lambda>buf2.
                 Inr (Inr (tcplen, call up (UpReceive (concat buf2)) e2)))))"

definition Receive_payload :: "handler \<Rightarrow> tcp_packet \<Rightarrow> tcp_entry \<Rightarrow>
    ((tcp_entry \<times> bool) + (nat \<times> tcp_entry)) result" where
  "Receive_payload up p e =
    (let payload_len = (bytes (p_bufs p) + u64 - HdrLen (p_hf p)) mod u64 in
     if 0 < payload_len \<and> state e = kEstablished then Receive_established up p payload_len e
     else if 0 < payload_len \<and> (state e = kFinWait1 \<or> state e = kFinWait2)
     then Inr (Inl (teardown ((reply_reset p True (p_seq p + of_nat (p_tcplen p)) e)\<lparr>state := kClosed\<rparr>), False))
     else Inr (Inr (p_tcplen p, e)))"

definition Receive_fin :: "handler \<Rightarrow> nat \<Rightarrow> tcp_packet \<Rightarrow> nat \<Rightarrow> tcp_entry \<Rightarrow> tcp_entry" where
  "Receive_fin up now p tcplen e0 =
    (if \<not> has (Flags (p_hf p)) kTcpFin \<or> state e0 = kSynSent then e0
     else let e = e0\<lparr>rcv_nxt := p_seq p + of_nat tcplen\<rparr> in
       case state e of
         kEstablished \<Rightarrow> call up UpClose (e\<lparr>state := kCloseWait\<rparr>)
       | kSynReceived \<Rightarrow> call up UpClose (e\<lparr>state := kCloseWait\<rparr>)
       | kFinWait1 \<Rightarrow> e\<lparr>state := kClosing\<rparr>
       | kFinWait2 \<Rightarrow> (DisableTimers e)\<lparr>time_wait := now + 60000000000, state := kTimeWait\<rparr>
       | kTimeWait \<Rightarrow> (DisableTimers e)\<lparr>time_wait := now + 60000000000\<rparr>
       | _ \<Rightarrow> e)"

text \<open>The body of the sequence check, for a segment in the window.  An RST sets \<open>kClosed\<close> before
  the state is examined.\<close>

definition Receive_acceptable :: "handler \<Rightarrow> nat \<Rightarrow> tcp_packet \<Rightarrow> tcp_entry \<Rightarrow> (tcp_entry \<times> bool) result" where
  "Receive_acceptable up now p0 e =
    bindr (if TcpSeqGT (rcv_nxt e) (p_seq p0)
           then bindr (advance_head (unat (rcv_nxt e - p_seq p0)) (p_bufs p0)) (\<lambda>b.
                  Inr (p0\<lparr>p_bufs := b, p_tcplen := (p_tcplen p0 + u64 - unat (rcv_nxt e - p_seq p0)) mod u64\<rparr>))
           else Inr p0) (\<lambda>p.
      let flags = Flags (p_hf p) in
      if has flags kTcpRst then
        let e1 = e\<lparr>state := kClosed\<rparr>;
            e2 = (if state e1 = kSynReceived then call up UpAbort e1
                  else if st_num kEstablished \<le> st_num (state e1) \<and> st_num (state e1) \<le> st_num kCloseWait
                  then call up UpAbort e1 else e1)
        in Inr (teardown e2, False)
      else if has flags kTcpSyn then
        Inr (teardown (call up UpAbort
          ((reply_reset p True (p_seq p + of_nat (p_tcplen p)) e)\<lparr>state := kClosed\<rparr>)), False)
      else if \<not> has flags kTcpAck then Inr (e, True)
      else if has flags kTcpUrg then Inl (KAbort ''UNIMPLEMENTED: URG bit set'')
      else bindr (Receive_payload up p e) (\<lambda>r. case r of
          Inl ret \<Rightarrow> Inr ret
        | Inr (tcplen, e1) \<Rightarrow> Inr (Receive_fin up now p tcplen e1, True)))"

definition acceptable :: "tcp_packet \<Rightarrow> tcp_entry \<Rightarrow> bool" where
  "acceptable p e \<longleftrightarrow>
    (0 < rcv_wnd e \<and> TcpSeqBetween (p_seq p) (rcv_nxt e) (rcv_nxt e + rcv_wnd e)) \<or>
    (p_tcplen p = 0 \<and> p_seq p = rcv_nxt e)"

definition Receive :: "handler \<Rightarrow> nat \<Rightarrow> tcp_packet \<Rightarrow> tcp_entry \<Rightarrow> (tcp_entry \<times> bool) result" where
  "Receive up now p e =
    (if state e = kSynSent then Receive_SynSent up p e
     else case Receive_ack up now p e of
       Inl ret \<Rightarrow> Inr ret
     | Inr e1 \<Rightarrow>
         if acceptable p e1 then Receive_acceptable up now p e1
         else Inr (if pending_segments e1 = [] \<and> \<not> has (Flags (p_hf p)) kTcpRst then SendEmptyAck e1 else e1, True))"

definition Input :: "handler \<Rightarrow> nat \<Rightarrow> tcp_packet \<Rightarrow> tcp_entry \<Rightarrow> tcp_entry result" where
  "Input up now p e =
    bindr (Receive up now p e) (\<lambda>(e1, ok).
      if ok then bindr (Output now e1) (\<lambda>e2. Inr (SetTimer now e2)) else Inr e1)"

section \<open>The connection's user interface\<close>

definition Pcb_Output :: "nat \<Rightarrow> tcp_entry \<Rightarrow> tcp_entry result" where
  "Pcb_Output now e = bindr (Output now e) (\<lambda>e1. Inr (SetTimer now e1))"

text \<open>Dropping the last reference to a connection closes it.\<close>

definition Pcb_Delete :: "nat \<Rightarrow> tcp_entry \<Rightarrow> tcp_entry result" where
  "Pcb_Delete now e = bindr (Close e) (\<lambda>e1. bindr (Output now e1) (\<lambda>e2. Inr (SetTimer now e2)))"

definition OpenWindow :: "tcp_entry \<Rightarrow> tcp_entry" where
  "OpenWindow e = e\<lparr>close_window := False, rcv_wnd := kTcpWnd\<rparr>"

definition CloseWindow :: "tcp_entry \<Rightarrow> tcp_entry" where
  "CloseWindow e = e\<lparr>close_window := True\<rparr>"

definition SetWindowNotify :: "bool \<Rightarrow> tcp_entry \<Rightarrow> tcp_entry" where
  "SetWindowNotify notify e = e\<lparr>window_notify := notify\<rparr>"

text \<open>The options of a SYN: MSS 1460, a NOP and the window scale.\<close>

definition syn_opts :: "byte list" where
  "syn_opts = [2, 4, 5, 180, 1, 3, 3, of_nat kWindowShift]"

definition new_entry :: tcp_entry where
  "new_entry = \<lparr>address = [0, 0, 0, 0], key_ip = [0, 0, 0, 0], key_rport = 0, key_lport = 0,
     unacked_segments = [], pending_segments = [], stashed_segments = [], state = kClosed,
     snd_una = 0, snd_nxt = 0, snd_wnd = 0, snd_wl1 = 0, snd_wl2 = 0, rcv_nxt = 0, rcv_wnd = 0,
     rcv_last_acked = 0, close_window = False, retransmit = 0, time_wait = 0,
     window_notify = False, timer_set = False, out = []\<rparr>"

text \<open>The entry a \<open>Connect\<close> sets up and the one an incoming SYN creates, each with its SYN queued.
  The latter leaves \<open>rcv_last_acked\<close>, \<open>snd_wl1\<close> and \<open>snd_wl2\<close> at zero.\<close>

definition connect_entry :: "ipv4 \<Rightarrow> ipv4 \<Rightarrow> 16 word \<Rightarrow> 16 word \<Rightarrow> 32 word \<Rightarrow> tcp_entry \<Rightarrow> tcp_entry" where
  "connect_entry itf_addr remote port local_port iss e =
    e\<lparr>address := itf_addr, key_ip := remote, key_rport := port, key_lport := local_port,
      state := kSynSent, snd_una := iss, snd_nxt := iss, snd_wnd := kTcpWnd,
      rcv_nxt := 0, rcv_wnd := kTcpWnd\<rparr>"

definition listen_entry :: "tcp_packet \<Rightarrow> 32 word \<Rightarrow> tcp_entry" where
  "listen_entry p start_seq =
    new_entry\<lparr>address := p_dst p, key_ip := p_src p, key_rport := p_sport p, key_lport := p_dport p,
      state := kSynReceived, snd_nxt := start_seq, rcv_nxt := p_seq p + 1, snd_una := start_seq,
      snd_wnd := wnd_of p, rcv_wnd := kTcpWnd\<rparr>"

section \<open>Sequence numbers on a circle\<close>

lemma unat_less_32: "unat (w :: 32 word) < 2 ^ 32"
  using unsigned_less [of w] by simp

lemma sint_32: "unat (w :: 32 word) = n \<Longrightarrow> sint w = (if n < 2 ^ 31 then int n else int n - 2 ^ 32)"
proof -
  assume n: "unat w = n"
  have u: "uint w = int n" using n by (simp flip: n)
  have b: "int n < 2 ^ 32" using unat_less_32 [of w] n by simp
  have "sint w = signed_take_bit 31 (int n)" by (simp add: sint_uint u)
  also have "\<dots> = (int n + 2 ^ 31) mod 2 ^ 32 - 2 ^ 31"
    by (simp add: signed_take_bit_eq_take_bit_shift take_bit_eq_mod)
  also have "\<dots> = (if n < 2 ^ 31 then int n else int n - 2 ^ 32)"
  proof (cases "n < 2 ^ 31")
    case False
    have "int n + 2 ^ 31 = (int n - 2 ^ 31) + 2 ^ 32" by simp
    then have "(int n + 2 ^ 31) mod 2 ^ 32 = int n - 2 ^ 31"
      using False b by (simp only: mod_add_self2) simp
    then show ?thesis using False by simp
  qed simp
  finally show ?thesis .
qed

lemma seq_cases:
  obtains n where "unat (a - b :: 32 word) = n" "n < 2 ^ 32"
    "sint (a - b) = (if n < 2 ^ 31 then int n else int n - 2 ^ 32)"
  using unat_less_32 sint_32 [OF refl] by blast

lemma seq_gt: "TcpSeqGT a b \<longleftrightarrow> 0 < unat (a - b) \<and> unat (a - b) < 2 ^ 31"
proof (rule seq_cases [of a b])
  fix n assume n: "unat (a - b) = n" "n < 2 ^ 32" "sint (a - b) = (if n < 2 ^ 31 then int n else int n - 2 ^ 32)"
  show ?thesis unfolding TcpSeqGT_def n(1,3) using n(2) by auto
qed

lemma seq_lt: "TcpSeqLT a b \<longleftrightarrow> 2 ^ 31 \<le> unat (a - b)"
proof (rule seq_cases [of a b])
  fix n assume n: "unat (a - b) = n" "n < 2 ^ 32" "sint (a - b) = (if n < 2 ^ 31 then int n else int n - 2 ^ 32)"
  show ?thesis unfolding TcpSeqLT_def n(1,3) using n(2) by auto
qed

lemma seq_leq: "TcpSeqLEQ a b \<longleftrightarrow> unat (a - b) = 0 \<or> 2 ^ 31 \<le> unat (a - b)"
proof (rule seq_cases [of a b])
  fix n assume n: "unat (a - b) = n" "n < 2 ^ 32" "sint (a - b) = (if n < 2 ^ 31 then int n else int n - 2 ^ 32)"
  show ?thesis unfolding TcpSeqLEQ_def n(1,3) using n(2) by auto
qed

lemma seq_geq: "TcpSeqGEQ a b \<longleftrightarrow> unat (a - b) < 2 ^ 31"
proof (rule seq_cases [of a b])
  fix n assume n: "unat (a - b) = n" "n < 2 ^ 32" "sint (a - b) = (if n < 2 ^ 31 then int n else int n - 2 ^ 32)"
  show ?thesis unfolding TcpSeqGEQ_def n(1,3) using n(2) by auto
qed

lemmas seq_simps = seq_gt seq_lt seq_leq seq_geq

lemma unat_of_nat_32 [simp]: "x < 2 ^ 32 \<Longrightarrow> unat (of_nat x :: 32 word) = x"
  by (simp add: unsigned_of_nat take_bit_nat_eq_self)

text \<open>The distance between two numbers at offsets below \<open>2 ^ 31\<close> from a common base.\<close>

lemma unat_diff_offsets:
  assumes "x < 2 ^ 31" "y < 2 ^ 31"
  shows "unat ((b + of_nat x) - (b + of_nat y :: 32 word)) = (if y \<le> x then x - y else 2 ^ 32 + x - y)"
proof -
  have d: "(b + of_nat x) - (b + of_nat y) = (of_nat x - of_nat y :: 32 word)" by simp
  show ?thesis
  proof (cases "y \<le> x")
    case True
    then have e: "(of_nat x - of_nat y :: 32 word) = of_nat (x - y)" by (simp add: of_nat_diff)
    show ?thesis unfolding d e using True assms by (subst unat_of_nat_32) auto
  next
    case False
    then have "(of_nat (2 ^ 32 + x - y) :: 32 word) = of_nat (2 ^ 32) + of_nat x - of_nat y"
      using assms by (subst of_nat_diff) auto
    also have "(of_nat (2 ^ 32) :: 32 word) = 0" by simp
    finally have e: "(of_nat x - of_nat y :: 32 word) = of_nat (2 ^ 32 + x - y)" by simp
    show ?thesis unfolding d e using False assms by (subst unat_of_nat_32) auto
  qed
qed

text \<open>From a common top, counted downwards.\<close>

lemma unat_diff_below:
  assumes "x < 2 ^ 31" "y < 2 ^ 31"
  shows "unat ((n - of_nat x) - (n - of_nat y :: 32 word)) = (if x \<le> y then y - x else 2 ^ 32 + y - x)"
proof -
  have "(n - of_nat x) - (n - of_nat y) = (0 + of_nat y) - (0 + of_nat x :: 32 word)" by simp
  then show ?thesis using unat_diff_offsets [OF assms(2,1), of 0] by metis
qed

lemma seq_gt_below:
  assumes "x < 2 ^ 31" "y < 2 ^ 31"
  shows "TcpSeqGT (n - of_nat x) (n - of_nat y) \<longleftrightarrow> x < y"
  unfolding seq_gt unat_diff_below [OF assms] using assms by auto

text \<open>C29: Sequence comparison is wrap-safe.  For any base, two sequence numbers less than
  \<open>2 ^ 31\<close> beyond it compare by their offsets under all four comparisons, wherever the
  32-bit counter wraps; and \<open>TcpSeqBetween\<close> holds exactly of the numbers reached from the
  left end by at most the length of the interval.\<close>

theorem seq_compare:
  assumes "x < 2 ^ 31" "y < 2 ^ 31"
  shows "(TcpSeqLT (b + of_nat x) (b + of_nat y) \<longleftrightarrow> x < y) \<and>
    (TcpSeqGT (b + of_nat x) (b + of_nat y) \<longleftrightarrow> x > y) \<and>
    (TcpSeqLEQ (b + of_nat x) (b + of_nat y) \<longleftrightarrow> x \<le> y) \<and>
    (TcpSeqGEQ (b + of_nat x) (b + of_nat y) \<longleftrightarrow> x \<ge> y) \<and>
    (TcpSeqBetween s b (b + of_nat y) \<longleftrightarrow> (\<exists>k \<le> y. s = b + of_nat k))"
proof -
  have "TcpSeqBetween s b (b + of_nat y) \<longleftrightarrow> (\<exists>k \<le> y. s = b + of_nat k)"
  proof
    assume "TcpSeqBetween s b (b + of_nat y)"
    then have "unat (s - b) \<le> y" using assms(2) by (simp add: TcpSeqBetween_def word_le_nat_alt)
    moreover have "s = b + of_nat (unat (s - b))" by simp
    ultimately show "\<exists>k \<le> y. s = b + of_nat k" by blast
  next
    assume "\<exists>k \<le> y. s = b + of_nat k"
    then show "TcpSeqBetween s b (b + of_nat y)" using assms(2)
      by (auto simp: TcpSeqBetween_def word_le_nat_alt)
  qed
  moreover note d = unat_diff_offsets [OF assms, of b]
  ultimately show ?thesis unfolding seq_simps d using assms by auto
qed

theorem seq_compare_witness:
  "TcpSeqLT (0xFFFFFFF0 + of_nat 5) (0xFFFFFFF0 + of_nat 40) \<and> \<not> TcpSeqLT (0xFFFFFFF0 + of_nat 40) (0xFFFFFFF0 + of_nat 5)"
  using seq_compare [of 5 40 "0xFFFFFFF0"] seq_compare [of 40 5 "0xFFFFFFF0"] by simp

end
