(* ===== verification/NetTcpSend.thy ===== *)
theory NetTcpSend
  imports NetTcp
begin

text \<open>
  The sending half of a TCP connection: the layout invariant of the two segment queues, kept by
  every method of \<open>TcpEntry\<close> and every call of the application; that unacknowledged data stays
  queued; and flow control.
\<close>

section \<open>The send queue\<close>

definition queue :: "tcp_entry \<Rightarrow> segment list" where
  "queue e = unacked_segments e @ pending_segments e"

fun seq_total :: "segment list \<Rightarrow> nat" where
  "seq_total [] = 0"
| "seq_total (s # ss) = unat (s_len s) + seq_total ss"

text \<open>The segments occupy consecutive sequence numbers, the last one ending at \<open>n\<close>.\<close>

fun laid :: "32 word \<Rightarrow> segment list \<Rightarrow> bool" where
  "laid n [] \<longleftrightarrow> True"
| "laid n (s # ss) \<longleftrightarrow> s_seq s = n - of_nat (seq_total (s # ss)) \<and> laid n ss"

text \<open>A segment's length in sequence space: its data and one for a SYN or FIN.\<close>

definition seg_ok :: "segment \<Rightarrow> bool" where
  "seg_ok s \<longleftrightarrow> length (s_data s) \<le> 65415 \<and>
    unat (s_len s) = length (s_data s) + (if has (Flags (s_hf s)) (kTcpSyn OR kTcpFin) then 1 else 0)"

text \<open>The oldest unacknowledged number lies in the first queued segment (or at the end of the queue).\<close>

definition send_inv :: "tcp_entry \<Rightarrow> bool" where
  "send_inv e \<longleftrightarrow> laid (snd_nxt e) (queue e) \<and> seq_total (queue e) < 2 ^ 31 \<and>
    (\<forall>s \<in> set (queue e). seg_ok s) \<and> unat (snd_nxt e - snd_una e) \<le> seq_total (queue e) \<and>
    seq_total (tl (queue e)) \<le> unat (snd_nxt e - snd_una e)"

lemma seq_total_append [simp]: "seq_total (xs @ ys) = seq_total xs + seq_total ys"
  by (induction xs) auto

lemma laid_append: "laid n (xs @ ys) \<longleftrightarrow> laid (n - of_nat (seq_total ys)) xs \<and> laid n ys"
  by (induction xs) (auto simp: algebra_simps)

lemma laid_snoc: "laid (n + of_nat (unat (s_len s))) (ss @ [s]) \<longleftrightarrow> laid n ss \<and> s_seq s = n"
  by (auto simp: laid_append)

lemma seg_end_laid: "laid n (s # ss) \<Longrightarrow> seg_end s = n - of_nat (seq_total ss)"
  by (simp add: seg_end_def of_nat_unat)

text \<open>Acknowledged segments form a prefix, and clearing the two queues clears their concatenation.\<close>

definition acked :: "32 word \<Rightarrow> segment \<Rightarrow> bool" where
  "acked ackno s \<longleftrightarrow> \<not> TcpSeqGT (seg_end s) ackno"

lemma acked_laid:
  assumes "laid n (s # ss)" "seq_total (s # ss) < 2 ^ 31" "unat (n - ackno) < 2 ^ 31"
  shows "acked ackno s \<longleftrightarrow> unat (n - ackno) \<le> seq_total ss"
proof -
  have "ackno = n - of_nat (unat (n - ackno))" by simp
  then have "TcpSeqGT (seg_end s) ackno \<longleftrightarrow> seq_total ss < unat (n - ackno)"
    using seq_gt_below [of "seq_total ss" "unat (n - ackno)" n] assms seg_end_laid [OF assms(1)] by simp
  then show ?thesis by (auto simp: acked_def)
qed

lemma acked_mono:
  assumes "laid n (s # ss)" "seq_total (s # ss) < 2 ^ 31" "unat (n - ackno) < 2 ^ 31"
    "\<not> acked ackno s"
  shows "\<forall>t \<in> set ss. \<not> acked ackno t"
  using assms
proof (induction ss arbitrary: s)
  case (Cons t ss)
  have "\<not> acked ackno t" using Cons.prems acked_laid [of n s "t # ss" ackno] acked_laid [of n t ss ackno] by auto
  moreover have "\<forall>u \<in> set ss. \<not> acked ackno u" using Cons.IH [of t] Cons.prems calculation by auto
  ultimately show ?case by simp
qed simp

lemma dropWhile_none: "\<forall>t \<in> set ss. \<not> P t \<Longrightarrow> dropWhile P ss = ss"
  by (cases ss) auto

lemma clear_append:
  assumes "laid n (xs @ ys)" "seq_total (xs @ ys) < 2 ^ 31" "unat (n - ackno) < 2 ^ 31"
  shows "dropWhile (acked ackno) xs @ dropWhile (acked ackno) ys = dropWhile (acked ackno) (xs @ ys)"
  using assms
proof (induction xs)
  case (Cons x xs)
  then show ?case
  proof (cases "acked ackno x")
    case True
    then show ?thesis using Cons by auto
  next
    case False
    then have "\<forall>t \<in> set (xs @ ys). \<not> acked ackno t" using acked_mono [of n x "xs @ ys" ackno] Cons.prems by simp
    then show ?thesis using False by (simp add: dropWhile_none)
  qed
qed simp

lemma clear_laid: "laid n ss \<Longrightarrow> laid n (dropWhile P ss)"
  by (induction ss) auto

lemma clear_total: "seq_total (dropWhile P ss) \<le> seq_total ss"
  by (induction ss) auto

text \<open>What clearing keeps still reaches down to the acknowledged number.\<close>

lemma clear_covers:
  assumes "laid n ss" "seq_total ss < 2 ^ 31" "unat (n - ackno) \<le> seq_total ss"
  shows "unat (n - ackno) \<le> seq_total (dropWhile (acked ackno) ss)"
  using assms
proof (induction ss)
  case (Cons s ss)
  then show ?case using acked_laid [of n s ss ackno] by auto
qed simp

text \<open>Every segment still queued after clearing ends beyond the acknowledged number.\<close>

lemma clear_rest:
  assumes "laid n ss" "seq_total ss < 2 ^ 31" "unat (n - ackno) < 2 ^ 31"
    "s \<in> set (dropWhile (acked ackno) ss)"
  shows "\<not> acked ackno s"
  using assms
proof (induction ss)
  case (Cons t ss)
  then show ?case using acked_mono [of n t ss ackno] by (auto split: if_splits)
qed simp

section \<open>Sending\<close>

definition snd_view :: "tcp_entry \<Rightarrow> segment list \<times> segment list \<times> 32 word \<times> 32 word" where
  "snd_view e = (unacked_segments e, pending_segments e, snd_una e, snd_nxt e)"

lemma send_inv_view: "snd_view e = snd_view e' \<Longrightarrow> send_inv e \<longleftrightarrow> send_inv e'"
  by (simp add: snd_view_def send_inv_def queue_def)

lemma snd_view_frames [simp]:
  "snd_view (emit ev e) = snd_view e"
  "snd_view (SendSegment s e) = snd_view e"
  "snd_view (SendEmptyAck e) = snd_view e"
  "snd_view (SetTimer now e) = snd_view e"
  "snd_view (DisableTimers e) = snd_view e"
  "snd_view (reply_reset p a n e) = snd_view e"
  "snd_view (OpenWindow e) = snd_view e"
  "snd_view (CloseWindow e) = snd_view e"
  "snd_view (SetWindowNotify b e) = snd_view e"
  by (simp_all add: snd_view_def emit_def SendSegment_def SendEmptyAck_def SetTimer_def DisableTimers_def
      reply_reset_def OpenWindow_def CloseWindow_def SetWindowNotify_def Let_def)

lemma snd_view_updates [simp]:
  "snd_view (e\<lparr>rcv_nxt := x\<rparr>) = snd_view e"
  "snd_view (e\<lparr>rcv_wnd := x\<rparr>) = snd_view e"
  "snd_view (e\<lparr>rcv_last_acked := x\<rparr>) = snd_view e"
  "snd_view (e\<lparr>snd_wnd := x\<rparr>) = snd_view e"
  "snd_view (e\<lparr>snd_wl1 := x\<rparr>) = snd_view e"
  "snd_view (e\<lparr>snd_wl2 := x\<rparr>) = snd_view e"
  "snd_view (e\<lparr>state := st\<rparr>) = snd_view e"
  "snd_view (e\<lparr>time_wait := t\<rparr>) = snd_view e"
  "snd_view (e\<lparr>retransmit := t\<rparr>) = snd_view e"
  "snd_view (e\<lparr>timer_set := b\<rparr>) = snd_view e"
  "snd_view (e\<lparr>stashed_segments := m\<rparr>) = snd_view e"
  by (simp_all add: snd_view_def)

text \<open>The segments \<open>Output\<close> may send: those that end inside the peer's window.\<close>

definition in_window :: "tcp_entry \<Rightarrow> segment \<Rightarrow> bool" where
  "in_window e s \<longleftrightarrow> TcpSeqLEQ (seg_end s) (snd_una e + snd_wnd e)"

lemma window_edge: "snd_nxt e + SendWindowRemaining e = snd_una e + snd_wnd e"
  by (simp add: SendWindowRemaining_def)

definition wire :: "tcp_entry \<Rightarrow> segment \<Rightarrow> tcp_event" where
  "wire e s = last (out (SendSegment s e))"

lemma SendSegment_out: "out (SendSegment s e) = out e @ [wire e s]"
  by (simp add: wire_def SendSegment_def emit_def Let_def)

lemma SendSegment_keeps [simp]:
  "in_window (SendSegment s e) = in_window e" "wire (SendSegment s e) = wire e"
  "rcv_last_acked (SendSegment s e) = rcv_nxt e" "rcv_nxt (SendSegment s e) = rcv_nxt e"
  "snd_una (SendSegment s e) = snd_una e" "snd_wnd (SendSegment s e) = snd_wnd e"
  by (simp_all add: fun_eq_iff in_window_def wire_def SendSegment_def emit_def Let_def)

lemma output_loop_eq:
  "output_loop ss e k =
    (let sent = takeWhile (in_window e) ss in
     (dropWhile (in_window e) ss, fold SendSegment sent e, k + length sent))"
  by (induction ss e k rule: output_loop.induct)
    (auto simp: Let_def in_window_def window_edge SendSegment_keeps(1) [unfolded in_window_def fun_eq_iff])

lemma fold_SendSegment:
  "out (fold SendSegment ss e) = out e @ map (wire e) ss \<and> snd_view (fold SendSegment ss e) = snd_view e \<and>
   snd_wnd (fold SendSegment ss e) = snd_wnd e \<and> rcv_nxt (fold SendSegment ss e) = rcv_nxt e"
  by (induction ss arbitrary: e) (auto simp: SendSegment_out)

lemma snd_view_eq: "snd_view e = snd_view e' \<longleftrightarrow> unacked_segments e = unacked_segments e' \<and>
    pending_segments e = pending_segments e' \<and> snd_una e = snd_una e' \<and> snd_nxt e = snd_nxt e'"
  by (auto simp: snd_view_def)

lemma Output_Inr:
  assumes "Output now e = Inr e'"
  shows "unacked_segments e' = unacked_segments e @ takeWhile (in_window e) (pending_segments e) \<and>
    pending_segments e' = dropWhile (in_window e) (pending_segments e) \<and>
    snd_una e' = snd_una e \<and> snd_nxt e' = snd_nxt e"
proof -
  define sent where "sent = takeWhile (in_window e) (pending_segments e)"
  have f: "snd_view (fold SendSegment sent e) = snd_view e" using fold_SendSegment by blast
  show ?thesis
  proof (cases "sent = []")
    case True
    have t: "takeWhile (in_window e) (pending_segments e) = []" using True sent_def by simp
    have d: "dropWhile (in_window e) (pending_segments e) = pending_segments e"
      using t takeWhile_dropWhile_id [of "in_window e" "pending_segments e"] by (metis append_Nil)
    have "e' = e \<or> e' = SendEmptyAck e"
      using assms t by (auto simp: Output_def output_loop_eq Let_def split: if_splits)
    then show ?thesis using t d snd_view_frames(3) [of e, unfolded snd_view_eq] by auto
  next
    case False
    then show ?thesis using assms f unfolding snd_view_eq sent_def
      by (auto simp: Output_def output_loop_eq Let_def takeWhile_eq_take [symmetric]
         split: if_splits) 
  qed
qed

lemma Output_inv: "send_inv e \<Longrightarrow> Output now e = Inr e' \<Longrightarrow> send_inv e'"
  by (drule Output_Inr) (simp add: send_inv_def queue_def)

lemma tl_append_total: "seq_total (tl (xs @ ys)) = (if xs = [] then seq_total (tl ys) else seq_total (tl xs) + seq_total ys)"
  by (cases xs) auto

lemma unat_diff_up:
  assumes "unat (n - u :: 32 word) + k < 2 ^ 32"
  shows "unat (n + of_nat k - u) = unat (n - u) + k"
proof -
  have "n + of_nat k - u = of_nat (unat (n - u) + k)" by (simp add: algebra_simps)
  then show ?thesis using assms by (metis unat_of_nat_32)
qed

lemma queue_Enqueue: "queue (EnqueueSegment dat flags opts e) = queue e @
    [\<lparr>s_seq = snd_nxt e, s_hf = SetHdrLenFlags (20 + length opts) flags,
      s_len = of_nat (length dat + (if has flags (kTcpSyn OR kTcpFin) then 1 else 0)),
      s_opts = opts, s_data = dat\<rparr>]"
  by (simp add: EnqueueSegment_def queue_def Let_def sizeof_TcpHeader_def)

lemma Enqueue_inv:
  assumes "send_inv e" "length dat \<le> 65415" "seq_total (queue e) + length dat + 1 < 2 ^ 31"
    "Flags (SetHdrLenFlags (20 + length opts) flags) = flags"
  shows "send_inv (EnqueueSegment dat flags opts e)"
proof -
  define l where "l = length dat + (if has flags (kTcpSyn OR kTcpFin) then 1 else 0)"
  have l: "l < 2 ^ 16" "l \<le> length dat + 1" using assms(2) by (auto simp: l_def)
  have u: "unat (of_nat l :: 16 word) = l"
    using l(1) by (simp add: unsigned_of_nat take_bit_nat_eq_self)
  define s where "s = \<lparr>s_seq = snd_nxt e, s_hf = SetHdrLenFlags (20 + length opts) flags,
      s_len = of_nat l, s_opts = opts, s_data = dat\<rparr>"
  have q: "queue (EnqueueSegment dat flags opts e) = queue e @ [s]" by (simp add: queue_Enqueue s_def l_def)
  have sl: "unat (s_len s) = l" by (simp add: s_def u)
  have n: "snd_nxt (EnqueueSegment dat flags opts e) = snd_nxt e + of_nat l"
    "snd_una (EnqueueSegment dat flags opts e) = snd_una e"
    by (simp_all add: EnqueueSegment_def Let_def l_def)
  have "laid (snd_nxt e + of_nat l) (queue e @ [s])"
    using assms(1) laid_snoc [of "snd_nxt e" s "queue e", unfolded sl]
    by (auto simp: send_inv_def s_def)
  moreover have "seg_ok s" using assms(2,4) sl by (simp add: seg_ok_def s_def l_def)
  moreover have "unat (snd_nxt e + of_nat l - snd_una e) = unat (snd_nxt e - snd_una e) + l"
    using assms(1,3) l by (intro unat_diff_up) (auto simp: send_inv_def)
  ultimately show ?thesis unfolding send_inv_def q n
    using assms(1,3) l sl by (auto simp: send_inv_def tl_append_total)
qed

lemma Flags_SetHdrLenFlags [simp]:
  "Flags (SetHdrLenFlags 20 kTcpAck) = kTcpAck" "Flags (SetHdrLenFlags 20 (kTcpFin OR kTcpAck)) = kTcpFin OR kTcpAck"
  "Flags (SetHdrLenFlags 28 kTcpSyn) = kTcpSyn" "Flags (SetHdrLenFlags 28 (kTcpSyn OR kTcpAck)) = kTcpSyn OR kTcpAck"
  by (simp_all add: Flags_def SetHdrLenFlags_def kTcpAck_def kTcpFin_def kTcpSyn_def kTcpFlagMask_def)

lemma Flags_SetFlags: "Flags (SetFlags hf (Flags hf OR kTcpFin)) = Flags hf OR kTcpFin"
proof -
  have m: "(0xFFF :: 16 word) = mask 12" "(0x3f :: 16 word) = mask 6" "(1 :: 16 word) = mask 1"
    by (simp_all add: mask_eq_exp_minus_1)
  show ?thesis unfolding Flags_def SetFlags_def kTcpFlagMask_def kTcpFin_def m
    by (rule bit_word_eqI) (auto simp: bit_simps)
qed

lemma has_or: "has (f OR kTcpFin) (kTcpSyn OR kTcpFin)"
proof -
  have "bit ((f OR kTcpFin) AND (kTcpSyn OR kTcpFin)) 0" 
    by (simp add: bit_simps kTcpFin_def kTcpSyn_def)
  then show ?thesis unfolding has_def by fastforce
qed

lemma has_mono: "has f (a OR b) \<Longrightarrow> has f (a OR b OR c)"
  unfolding has_def bit_eq_iff by (auto simp: bit_simps)

lemma SendFin_inv:
  assumes "send_inv e" "seq_total (queue e) + 1 < 2 ^ 31"
  shows "send_inv (SendFin e)"
proof (cases "pending_segments e \<noteq> [] \<and>
    \<not> has (Flags (s_hf (last (pending_segments e)))) (kTcpSyn OR kTcpFin OR kTcpRst)")
  case False
  then have "SendFin e = EnqueueSegment [] (kTcpFin OR kTcpAck) [] e" unfolding SendFin_def by argo
  then show ?thesis using Enqueue_inv [OF assms(1), of "[]" "[]"] assms(2) by simp
next
  case True
  define s where "s = last (pending_segments e)"
  define r where "r = unacked_segments e @ butlast (pending_segments e)"
  define s' where "s' = s\<lparr>s_hf := SetFlags (s_hf s) (Flags (s_hf s) OR kTcpFin), s_len := s_len s + 1\<rparr>"
  have q: "queue e = r @ [s]" using True by (simp add: r_def s_def queue_def)
  have e': "SendFin e = e\<lparr>pending_segments := butlast (pending_segments e) @ [s'], snd_nxt := snd_nxt e + 1\<rparr>"
    using True by (simp add: SendFin_def Let_def s_def s'_def)
  have ok: "seg_ok s" using assms(1) q by (simp add: send_inv_def)
  have "\<not> has (Flags (s_hf s)) (kTcpSyn OR kTcpFin)" using True unfolding s_def by (metis has_mono)
  then have l: "unat (s_len s) = length (s_data s)" "length (s_data s) \<le> 65415" using ok by (auto simp: seg_ok_def)
  then have l': "unat (s_len s + 1) = length (s_data s) + 1" by (simp add: unat_plus_if_size word_size)
  have "laid (snd_nxt e + 1) (r @ [s'])" using assms(1) l l' unfolding send_inv_def q
    by (simp add: laid_append s'_def)
  moreover have "seg_ok s'" using l l' by (simp add: seg_ok_def s'_def Flags_SetFlags has_or)
  moreover have "unat (snd_nxt e + 1 - snd_una e) = unat (snd_nxt e - snd_una e) + 1"
    using assms unat_diff_up [of "snd_nxt e" "snd_una e" 1] by (auto simp: send_inv_def)
  ultimately show ?thesis using assms l l' unfolding send_inv_def q
    by (auto simp: e' queue_def r_def tl_append_total s'_def split: if_splits)
qed

section \<open>Histories of a connection\<close>

text \<open>What an application may do with a connection, through its \<open>TcpPcb\<close>.  It keeps less than
  \<open>2 ^ 31\<close> sequence numbers outstanding.\<close>

inductive api :: "tcp_entry \<Rightarrow> tcp_entry \<Rightarrow> bool" where
  api_send: "Pcb_Send dat e = Inr e' \<Longrightarrow> seq_total (queue e) + length dat + 1 < 2 ^ 31 \<Longrightarrow> api e e'"
| api_output: "Pcb_Output now e = Inr e' \<Longrightarrow> api e e'"
| api_delete: "Pcb_Delete now e = Inr e' \<Longrightarrow> seq_total (queue e) + 1 < 2 ^ 31 \<Longrightarrow> api e e'"
| api_open: "api e (OpenWindow e)"
| api_close: "api e (CloseWindow e)"
| api_notify: "api e (SetWindowNotify b e)"

text \<open>A handler touches the entry only through that interface.\<close>

definition handler_api :: "handler \<Rightarrow> bool" where
  "handler_api up \<longleftrightarrow> (\<forall>u e. api\<^sup>*\<^sup>* e (up u e))"

definition alive :: "tcp_entry \<Rightarrow> bool" where
  "alive e \<longleftrightarrow> Destroyed \<notin> set (out e)"

lemma snd_una_ops [simp]:
  "snd_una (EnqueueSegment d f os e) = snd_una e" "snd_una (SendFin e) = snd_una e"
  by (auto simp: EnqueueSegment_def SendFin_def Let_def)

lemma snd_view_D: "snd_view e = snd_view e' \<Longrightarrow> snd_una e = snd_una e'"
  by (simp add: snd_view_def)

lemma snd_una_frames [simp]:
  "snd_una (SetTimer now e) = snd_una e" "snd_una (emit ev e) = snd_una e"
  "snd_una (SendEmptyAck e) = snd_una e" "snd_una (OpenWindow e) = snd_una e"
  "snd_una (CloseWindow e) = snd_una e" "snd_una (SetWindowNotify b e) = snd_una e"
  by (simp_all add: snd_view_D [OF snd_view_frames(4)] snd_view_D [OF snd_view_frames(1)]
      snd_view_D [OF snd_view_frames(3)] snd_view_D [OF snd_view_frames(7)]
      snd_view_D [OF snd_view_frames(8)] snd_view_D [OF snd_view_frames(9)])

lemma send_inv_frames [simp]:
  "send_inv (emit ev e) = send_inv e" "send_inv (SendEmptyAck e) = send_inv e"
  "send_inv (SetTimer now e) = send_inv e" "send_inv (DisableTimers e) = send_inv e"
  "send_inv (reply_reset p a n e) = send_inv e" "send_inv (OpenWindow e) = send_inv e"
  "send_inv (CloseWindow e) = send_inv e" "send_inv (SetWindowNotify b e) = send_inv e"
  "send_inv (e\<lparr>state := st\<rparr>) = send_inv e" "send_inv (e\<lparr>rcv_nxt := x\<rparr>) = send_inv e"
  "send_inv (e\<lparr>rcv_wnd := x\<rparr>) = send_inv e" "send_inv (e\<lparr>stashed_segments := m\<rparr>) = send_inv e"
  "send_inv (e\<lparr>time_wait := t\<rparr>) = send_inv e" "send_inv (e\<lparr>timer_set := b\<rparr>) = send_inv e"
  "send_inv (e\<lparr>snd_wnd := x\<rparr>) = send_inv e" "send_inv (e\<lparr>snd_wl1 := x\<rparr>) = send_inv e"
  "send_inv (e\<lparr>snd_wl2 := x\<rparr>) = send_inv e" "send_inv (e\<lparr>rcv_last_acked := x\<rparr>) = send_inv e"
  "send_inv (e\<lparr>retransmit := t\<rparr>) = send_inv e"
  by (rule send_inv_view, simp)+

lemma Pcb_Send_Inr: "Pcb_Send dat e = Inr e' \<Longrightarrow> length dat \<le> 65415 \<and> e' = EnqueueSegment dat kTcpAck [] e"
  by (auto simp: Pcb_Send_def Entry_Send_def split: if_splits)

lemma Close_Inr: "Close e = Inr e' \<Longrightarrow> e' = e \<or> (\<exists>st. e' = (SendFin e)\<lparr>state := st\<rparr>)"
  by (auto simp: Close_def split: tcp_state.splits)

lemma api_inv: "api e e' \<Longrightarrow> send_inv e \<Longrightarrow> send_inv e' \<and> snd_una e' = snd_una e"
proof (induction rule: api.induct)
  case (api_send dat e e')
  then show ?case using Pcb_Send_Inr [OF api_send(1)] Enqueue_inv [of e dat "[]" kTcpAck] by simp
next
  case (api_output now e e')
  then obtain e1 where "Output now e = Inr e1" "e' = SetTimer now e1" by (auto simp: Pcb_Output_def bindr_eq_Inr_iff)
  then show ?case using api_output(2) Output_inv Output_Inr by simp
next
  case (api_delete now e e')
  then obtain e1 e2 where e: "Close e = Inr e1" "Output now e1 = Inr e2" "e' = SetTimer now e2"
    by (auto simp: Pcb_Delete_def bindr_eq_Inr_iff)
  then have "send_inv e1 \<and> snd_una e1 = snd_una e" using Close_Inr [OF e(1)] SendFin_inv api_delete by auto
  then show ?case using e Output_inv [OF _ e(2)] Output_Inr [OF e(2)] by simp
qed simp_all

lemma apis_inv: "api\<^sup>*\<^sup>* e e' \<Longrightarrow> send_inv e \<Longrightarrow> send_inv e' \<and> snd_una e' = snd_una e"
  by (induction rule: rtranclp_induct) (auto dest: api_inv)

lemma call_inv:
  "handler_api up \<Longrightarrow> send_inv e \<Longrightarrow> send_inv (call up u e) \<and> snd_una (call up u e) = snd_una e"
  using apis_inv [of "emit (Upcall u) e" "call up u e"] by (simp add: handler_api_def call_def)

lemma Clear_inv:
  assumes "send_inv e" "snd_una e1 = ackno" "snd_nxt e1 = snd_nxt e" "unacked_segments e1 = unacked_segments e"
    "pending_segments e1 = pending_segments e" "unat (snd_nxt e - ackno) \<le> unat (snd_nxt e - snd_una e)"
  shows "send_inv (ClearAckedSegments ackno e1)" and "snd_una (ClearAckedSegments ackno e1) = ackno"
    and "queue (ClearAckedSegments ackno e1) = dropWhile (acked ackno) (queue e)"
proof -
  let ?c = "ClearAckedSegments ackno e1"
  have b: "unat (snd_nxt e - ackno) < 2 ^ 31" and t: "laid (snd_nxt e) (queue e)" "seq_total (queue e) < 2 ^ 31"
    "unat (snd_nxt e - ackno) \<le> seq_total (queue e)"
    using assms(1,6) by (auto simp: send_inv_def)
  have cl: "(\<lambda>s. \<not> TcpSeqGT (seg_end s) ackno) = acked ackno" by (simp add: acked_def fun_eq_iff)
  have v: "snd_view ?c = (dropWhile (acked ackno) (unacked_segments e), dropWhile (acked ackno) (pending_segments e), ackno, snd_nxt e)"
    using assms(2-5) by (simp add: ClearAckedSegments_def Let_def cl snd_view_def DisableTimers_def emit_def)
  have n: "snd_nxt ?c = snd_nxt e" and u: "snd_una ?c = ackno" using v by (simp_all add: snd_view_def)
  show q: "queue ?c = dropWhile (acked ackno) (queue e)"
    using v clear_append [of "snd_nxt e" "unacked_segments e" "pending_segments e" ackno] t(1,2) b
    by (simp add: snd_view_def queue_def)
  have "seq_total (tl (dropWhile (acked ackno) (queue e))) \<le> unat (snd_nxt e - ackno)"
  proof (cases "dropWhile (acked ackno) (queue e)")
    case (Cons s ss)
    then have "\<not> acked ackno s" "laid (snd_nxt e) (s # ss)" "seq_total (s # ss) < 2 ^ 31"
      using hd_dropWhile [of "acked ackno" "queue e"] clear_laid [OF t(1), of "acked ackno"]
        clear_total [of "acked ackno" "queue e"] t(2) by auto
    then show ?thesis using acked_laid [of "snd_nxt e" s ss ackno] b Cons by simp
  next
    case Nil
    then show ?thesis by (simp only: list.sel seq_total.simps)
  qed
  then show "send_inv ?c" unfolding send_inv_def q n u
    using assms(1) t clear_laid [OF t(1)] clear_covers [OF t] clear_total [of "acked ackno" "queue e"]
    by (auto simp: send_inv_def dest: set_dropWhileD)
  show "snd_una ?c = ackno" by (rule u)
qed

lemma Fire_alive:
  assumes "Fire now e = Inr e'" "alive e'"
  shows "\<exists>u p r e2. u @ p = queue e \<and> e' = SetTimer now e2 \<and>
    Output now (e\<lparr>timer_set := False, retransmit := r, pending_segments := p, unacked_segments := u\<rparr>) = Inr e2"
proof -
  define go where "go \<longleftrightarrow> retransmit e \<noteq> 0 \<and> retransmit e \<le> now"
  let ?e = "\<lambda>r p u. e\<lparr>timer_set := False, retransmit := r, pending_segments := p, unacked_segments := u\<rparr>"
  have "\<not> (time_wait e \<noteq> 0 \<and> time_wait e \<le> now)"
    using assms by (auto simp: Fire_def Let_def alive_def teardown_def Entry_Destroy_def emit_def)
  then have f: "bindr (Output now (if go then ?e 0 (queue e) [] else e\<lparr>timer_set := False\<rparr>))
      (\<lambda>e2. Inr (SetTimer now e2)) = Inr e'"
    using assms(1) by (auto simp: Fire_def Let_def queue_def go_def split: if_splits)
  have keep: "?e (retransmit e) (pending_segments e) (unacked_segments e) = e\<lparr>timer_set := False\<rparr>" by simp
  show ?thesis
  proof (cases go)
    case True
    then show ?thesis using f by (intro exI [of _ "[]"] exI [of _ "queue e"] exI [of _ 0]) (auto simp: bindr_eq_Inr_iff)
  next
    case False
    then show ?thesis using f unfolding bindr_eq_Inr_iff queue_def
      by (intro exI [of _ "unacked_segments e"] exI [of _ "pending_segments e"] exI [of _ "retransmit e"])
        (auto simp: keep)
  qed
qed

lemma Fire_inv:
  assumes "send_inv e" "Fire now e = Inr e'" "alive e'"
  shows "send_inv e'"
proof -
  obtain u p r e2 where f: "u @ p = queue e" "e' = SetTimer now e2"
    "Output now (e\<lparr>timer_set := False, retransmit := r, pending_segments := p, unacked_segments := u\<rparr>) = Inr e2"
    using Fire_alive [OF assms(2,3)] by blast
  have "send_inv (e\<lparr>timer_set := False, retransmit := r, pending_segments := p, unacked_segments := u\<rparr>)"
    using assms(1) f(1) by (simp add: send_inv_def queue_def)
  then show ?thesis using Output_inv f(2,3) by simp
qed

lemma Receive_SynSent_inv:
  assumes up: "handler_api up" and inv: "send_inv e" and r: "Receive_SynSent up p e = Inr (e', True)"
  shows "send_inv e'"
proof (cases "e' = e")
  case False
  define e1 where "e1 = e\<lparr>rcv_nxt := p_seq p + 1, rcv_last_acked := p_seq p, snd_una := p_ack p,
       state := kEstablished, snd_wnd := wnd_of p, snd_wl1 := p_seq p, snd_wl2 := p_ack p\<rparr>"
  have a: "\<not> TcpSeqLEQ (p_ack p) (snd_una e)" "\<not> TcpSeqGT (p_ack p) (snd_nxt e)"
    and e': "e' = call up UpConnected (ClearAckedSegments (p_ack p) e1)"
    using r False by (auto simp: Receive_SynSent_def Let_def e1_def split: if_splits)
  have "unat (snd_nxt e - p_ack p) \<le> unat (snd_nxt e - snd_una e)"
  proof -
    let ?i = "unat (snd_nxt e - snd_una e)" and ?x = "unat (p_ack p - snd_una e)"
    have i: "?i < 2 ^ 31" using inv by (auto simp: send_inv_def)
    have x: "?x < 2 ^ 31" using a(1) by (simp add: seq_simps not_le)
    have e: "p_ack p = snd_una e + of_nat ?x" "snd_nxt e = snd_una e + of_nat ?i" by simp_all
    have "?x \<le> ?i" using a(2) unat_diff_offsets [OF x i, of "snd_una e"] e x i by (auto simp: seq_gt split: if_splits)
    then show ?thesis using unat_diff_offsets [OF i x, of "snd_una e"] e by simp
  qed
  then have "send_inv (ClearAckedSegments (p_ack p) e1)"
    by (intro Clear_inv [OF inv]) (simp_all add: e1_def)
  then show ?thesis using call_inv [OF up] e' by simp
qed (use inv in simp)

lemma ack_window_view [simp]:
  "snd_nxt (ack_window p e) = snd_nxt e" "snd_una (ack_window p e) = p_ack p"
  "unacked_segments (ack_window p e) = unacked_segments e"
  "pending_segments (ack_window p e) = pending_segments e"
  by (simp_all add: ack_window_def Let_def)

lemma between_diff: "TcpSeqBetween a u n \<Longrightarrow> unat (n - a) \<le> unat (n - u)"
proof -
  assume "TcpSeqBetween a u n"
  then have "a - u \<le> n - u" by (simp add: TcpSeqBetween_def)
  then have "unat ((n - u) - (a - u)) = unat (n - u) - unat (a - u)" by (rule unat_sub)
  then show ?thesis by simp
qed

lemma ack_closing_inv:
  assumes "send_inv e" "p_ack p = snd_nxt e \<longrightarrow> snd_una e = snd_nxt e"
  shows "send_inv (ack_closing now p e)"
  using assms by (auto simp: ack_closing_def Purge_def) (simp add: send_inv_def queue_def)

lemma Receive_ack_inv:
  assumes up: "handler_api up" and inv: "send_inv e"
  shows "Receive_ack up now p e = Inl (e', True) \<Longrightarrow> send_inv e'"
    and "Receive_ack up now p e = Inr e' \<Longrightarrow> send_inv e'"
proof -
  define e1 where "e1 = (if state e = kSynReceived
      then e\<lparr>state := kEstablished, snd_wnd := wnd_of p, snd_wl1 := p_seq p, snd_wl2 := p_ack p\<rparr> else e)"
  have 1: "send_inv e1" using inv by (simp add: e1_def)
  define e2 where "e2 = ClearAckedSegments (p_ack p) (ack_window p e1)"
  define e3 where "e3 = (if window_notify e2 then call up UpSendWindowIncrease e2 else e2)"
  have 3: "send_inv e3 \<and> snd_una e3 = p_ack p" if "TcpSeqBetween (p_ack p) (snd_una e1) (snd_nxt e1)"
    using call_inv [OF up, of e2] Clear_inv(1,2) [OF 1, of "ack_window p e1" "p_ack p"] between_diff [OF that]
    by (simp add: e3_def e2_def)
  have 4: "send_inv (ack_closing now p e3)" if "TcpSeqBetween (p_ack p) (snd_una e1) (snd_nxt e1)"
    using 3 [OF that] by (intro ack_closing_inv) auto
  have 5: "send_inv (ack_closing now p e1)" if "\<not> TcpSeqBetween (p_ack p) (snd_una e1) (snd_nxt e1)"
    using that 1 by (intro ack_closing_inv) (auto simp: TcpSeqBetween_def)
  note defs = Receive_ack_def ack_connected_def Let_def e1_def [symmetric] e2_def [symmetric] e3_def [symmetric]
  show "Receive_ack up now p e = Inl (e', True) \<Longrightarrow> send_inv e'"
    using inv 1 by (auto simp: defs split: if_splits)
  show "Receive_ack up now p e = Inr e' \<Longrightarrow> send_inv e'"
    using inv 1 4 5 by (auto simp: defs split: if_splits)
qed

lemma teardown_False: "\<not> alive (teardown e)"
  by (simp add: teardown_def Entry_Destroy_def emit_def alive_def)

lemma Receive_established_inv:
  assumes up: "handler_api up" and inv: "send_inv e"
  shows "Receive_established up p n e = Inr (Inl (e', b)) \<Longrightarrow> send_inv e'"
    and "Receive_established up p n e = Inr (Inr (l, e')) \<Longrightarrow> send_inv e'"
  using inv call_inv [OF up]
  by (auto simp: Receive_established_def Let_def bindr_eq_Inr_iff split: if_splits prod.splits)

lemma Receive_payload_inv:
  assumes up: "handler_api up" and inv: "send_inv e"
  shows "Receive_payload up p e = Inr (Inl (e', True)) \<Longrightarrow> send_inv e'"
    and "Receive_payload up p e = Inr (Inr (l, e')) \<Longrightarrow> send_inv e'"
  using inv Receive_established_inv [OF up inv]
  by (auto simp: Receive_payload_def Let_def split: if_splits)

lemma Receive_fin_inv: "handler_api up \<Longrightarrow> send_inv e \<Longrightarrow> send_inv (Receive_fin up now p l e)"
  using call_inv [of up] by (auto simp: Receive_fin_def Let_def split: tcp_state.split)

definition front_trim :: "tcp_packet \<Rightarrow> tcp_entry \<Rightarrow> tcp_packet result" where
  "front_trim p e = (if TcpSeqGT (rcv_nxt e) (p_seq p)
     then bindr (advance_head (unat (rcv_nxt e - p_seq p)) (p_bufs p)) (\<lambda>b.
            Inr (p\<lparr>p_bufs := b, p_tcplen := (p_tcplen p + u64 - unat (rcv_nxt e - p_seq p)) mod u64\<rparr>))
     else Inr p)"

lemma Receive_acceptable_cases:
  assumes "Receive_acceptable up now p e = Inr (e', b)"
  obtains (dead) "\<not> alive e'" "\<not> b"
  | (same) "e' = e" "b"
  | (stop) q where "front_trim p e = Inr q" "Receive_payload up q e = Inr (Inl (e', b))"
  | (goes) q l e1 where "front_trim p e = Inr q" "Receive_payload up q e = Inr (Inr (l, e1))"
      "e' = Receive_fin up now q l e1" "b" "has (Flags (p_hf q)) kTcpAck" "\<not> has (Flags (p_hf q)) kTcpSyn"
proof -
  obtain q where q: "front_trim p e = Inr q" using assms
    by (cases "front_trim p e") (auto simp: Receive_acceptable_def front_trim_def [symmetric])
  have r: "Receive_acceptable up now p e = (let flags = Flags (p_hf q) in
      if has flags kTcpRst then
        let e1 = e\<lparr>state := kClosed\<rparr>;
            e2 = (if state e1 = kSynReceived then call up UpAbort e1
                  else if st_num kEstablished \<le> st_num (state e1) \<and> st_num (state e1) \<le> st_num kCloseWait
                  then call up UpAbort e1 else e1)
        in Inr (teardown e2, False)
      else if has flags kTcpSyn then
        Inr (teardown (call up UpAbort
          ((reply_reset q True (p_seq q + of_nat (p_tcplen q)) e)\<lparr>state := kClosed\<rparr>)), False)
      else if \<not> has flags kTcpAck then Inr (e, True)
      else if has flags kTcpUrg then Inl (KAbort ''UNIMPLEMENTED: URG bit set'')
      else bindr (Receive_payload up q e) (\<lambda>r. case r of
          Inl ret \<Rightarrow> Inr ret
        | Inr (tcplen, e1) \<Rightarrow> Inr (Receive_fin up now q tcplen e1, True)))"
    unfolding Receive_acceptable_def front_trim_def [symmetric] q by simp
  show thesis
  proof (cases "Receive_payload up q e")
    case (Inr x)
    then show ?thesis using assms r dead same stop [OF q] goes [OF q]
      by (cases x) (auto simp: Let_def teardown_False split: if_splits prod.splits)
  qed (use assms r dead same in \<open>auto simp: Let_def teardown_False split: if_splits\<close>)
qed

lemma Receive_acceptable_inv:
  assumes up: "handler_api up" and inv: "send_inv e" and r: "Receive_acceptable up now p e = Inr (e', True)"
  shows "send_inv e'"
  using r by (cases rule: Receive_acceptable_cases)
    (use inv Receive_payload_inv [OF up inv] Receive_fin_inv [OF up] in auto)

lemma Receive_inv:
  assumes up: "handler_api up" and inv: "send_inv e" and r: "Receive up now p e = Inr (e', True)"
  shows "send_inv e'"
proof (cases "state e = kSynSent")
  case True
  then show ?thesis using Receive_SynSent_inv [OF up inv] r by (simp add: Receive_def)
next
  case False
  then show ?thesis
    using r
    by (auto simp: Receive_def split: sum.splits if_splits
        dest: Receive_ack_inv [OF up inv] Receive_acceptable_inv [OF up])
qed

text \<open>A receive that returns false has destroyed the entry.\<close>

lemma Receive_ack_False: "Receive_ack up now p e = Inl (e', False) \<Longrightarrow> \<not> alive e'"
  by (auto simp: Receive_ack_def ack_connected_def Let_def teardown_False split: if_splits)

lemma Receive_payload_False: "Receive_payload up p e = Inr (Inl (e', False)) \<Longrightarrow> \<not> alive e'"
  by (auto simp: Receive_payload_def Receive_established_def Let_def teardown_False bindr_eq_Inr_iff
      split: if_splits prod.splits)

lemma Receive_acceptable_False: "Receive_acceptable up now p e = Inr (e', False) \<Longrightarrow> \<not> alive e'"
  by (erule Receive_acceptable_cases) (auto dest: Receive_payload_False)

lemma Receive_False: "Receive up now p e = Inr (e', False) \<Longrightarrow> \<not> alive e'"
  by (auto simp: Receive_def Receive_SynSent_def Let_def teardown_False
      dest: Receive_ack_False Receive_acceptable_False split: if_splits sum.splits)

inductive tcp_step :: "handler \<Rightarrow> tcp_entry \<Rightarrow> tcp_entry \<Rightarrow> bool" for up where
  step_input: "alive e \<Longrightarrow> Input up now p e = Inr e' \<Longrightarrow> tcp_step up e e'"
| step_fire: "alive e \<Longrightarrow> Fire now e = Inr e' \<Longrightarrow> tcp_step up e e'"
| step_app: "alive e \<Longrightarrow> api e e' \<Longrightarrow> tcp_step up e e'"

definition connect_start :: "ipv4 \<Rightarrow> ipv4 \<Rightarrow> 16 word \<Rightarrow> 16 word \<Rightarrow> 32 word \<Rightarrow> tcp_entry" where
  "connect_start itf_addr remote port local_port iss =
    EnqueueSegment [] kTcpSyn syn_opts (connect_entry itf_addr remote port local_port iss new_entry)"

definition listen_start :: "tcp_packet \<Rightarrow> 32 word \<Rightarrow> tcp_entry" where
  "listen_start p start_seq = EnqueueSegment [] (kTcpSyn OR kTcpAck) syn_opts (listen_entry p start_seq)"

definition tcp_start :: "tcp_entry \<Rightarrow> bool" where
  "tcp_start e \<longleftrightarrow> (\<exists>a r p l iss. e = connect_start a r p l iss) \<or> (\<exists>p iss. e = listen_start p iss)"

lemma start_inv: "tcp_start e \<Longrightarrow> send_inv e"
proof -
  have "send_inv (connect_entry a r p l iss new_entry) \<and> queue (connect_entry a r p l iss new_entry) = []"
    "send_inv (listen_entry q iss) \<and> queue (listen_entry q iss) = []" for a r p l iss q
    by (simp_all add: send_inv_def queue_def connect_entry_def listen_entry_def new_entry_def)
  moreover have "length syn_opts = 8" by (simp add: syn_opts_def)
  moreover assume "tcp_start e"
  ultimately show ?thesis unfolding tcp_start_def connect_start_def listen_start_def
    by (auto intro!: Enqueue_inv)
qed

lemma Input_alive:
  assumes "Input up now p e = Inr e'" "alive e'"
  obtains e1 e2 where "Receive up now p e = Inr (e1, True)" "Output now e1 = Inr e2" "e' = SetTimer now e2"
proof -
  obtain e1 b where r: "Receive up now p e = Inr (e1, b)"
    and o: "(if b then bindr (Output now e1) (\<lambda>e2. Inr (SetTimer now e2)) else Inr e1) = Inr e'"
    using assms(1) by (auto simp: Input_def bindr_eq_Inr_iff)
  have b using r o assms(2) by (cases b) (auto dest: Receive_False)
  then show thesis using that r o by (auto simp: bindr_eq_Inr_iff)
qed

lemma Input_inv:
  assumes "handler_api up" "send_inv e" "Input up now p e = Inr e'" "alive e'"
  shows "send_inv e'"
  by (rule Input_alive [OF assms(3,4)]) (simp add: Output_inv [OF Receive_inv [OF assms(1,2)]])

lemma step_inv:
  assumes "handler_api up" "tcp_step up e e'" "send_inv e" "alive e'"
  shows "send_inv e'"
  using assms(2,1,3,4) by (induction rule: tcp_step.induct) (blast dest: Input_inv Fire_inv api_inv)+

lemma step_alive: "tcp_step up e e' \<Longrightarrow> alive e"
  by (auto elim: tcp_step.cases)

lemma steps_inv: "(tcp_step up)\<^sup>*\<^sup>* e e' \<Longrightarrow> handler_api up \<Longrightarrow> send_inv e \<Longrightarrow> alive e' \<Longrightarrow> send_inv e'"
  by (induction rule: rtranclp_induct) (blast dest: step_inv step_alive)+

lemma covered:
  assumes "laid n ss" "seq_total ss < 2 ^ 31" "0 < d" "d \<le> seq_total ss"
  shows "\<exists>s \<in> set ss. unat (n - of_nat d - s_seq s) < unat (s_len s)"
  using assms
proof (induction ss)
  case (Cons s ss)
  show ?case
  proof (cases "d \<le> seq_total ss")
    case False
    have "s_seq s = n - of_nat (seq_total (s # ss))" using Cons.prems(1) by simp
    then have "unat (n - of_nat d - s_seq s) = seq_total (s # ss) - d"
      using unat_diff_below [of d "seq_total (s # ss)" n] Cons.prems by simp
    then show ?thesis using False Cons.prems by auto
  qed (use Cons in auto)
qed simp

lemma covered_una:
  assumes "send_inv e" "x < unat (snd_nxt e - snd_una e)"
  shows "\<exists>s \<in> set (queue e). unat (snd_una e + of_nat x - s_seq s) < unat (s_len s)"
proof -
  let ?i = "unat (snd_nxt e - snd_una e)"
  have "snd_una e + of_nat x = snd_nxt e - of_nat (?i - x)" using assms(2) by (simp add: of_nat_diff)
  then show ?thesis using covered [of "snd_nxt e" "queue e" "?i - x"] assms by (auto simp: send_inv_def)
qed

text \<open>C5: No unacknowledged byte is ever forgotten.  From a connection set up by \<open>Connect\<close> or by
  an incoming SYN, after any sequence of received packets, timer expiries and calls of the
  application (whose handler may itself call back into the connection), as long as the entry
  exists: the queued segments are laid out consecutively up to \<open>snd_nxt\<close>, each with the length of
  its data plus its SYN or FIN, and every sequence number from \<open>snd_una\<close> up to \<open>snd_nxt\<close> lies in a
  segment of the unacknowledged or the pending queue, so that a retransmission can resend it.\<close>

theorem tcp_unacked_retained:
  assumes "handler_api up" "tcp_start e0" "(tcp_step up)\<^sup>*\<^sup>* e0 e" "alive e"
  shows "laid (snd_nxt e) (queue e) \<and> (\<forall>s \<in> set (queue e). seg_ok s) \<and>
    (\<forall>x < unat (snd_nxt e - snd_una e).
       \<exists>s \<in> set (queue e). unat (snd_una e + of_nat x - s_seq s) < unat (s_len s))"
  using steps_inv [OF assms(3,1) start_inv [OF assms(2)] assms(4)] covered_una
  by (auto simp: send_inv_def)
text \<open>An application that reopens the window at every upcall; a connection that has sent its SYN,
  received the SYN-ACK of a peer with a window of \<open>512\<close> bytes, and queued three bytes.\<close>

definition demo_up :: handler where "demo_up u e = OpenWindow e"

definition demo_start :: tcp_entry where
  "demo_start = connect_start [10, 0, 0, 1] [10, 0, 0, 2] 80 50000 0xFFFFFFFE"

definition demo_synack :: tcp_packet where
  "demo_synack = \<lparr>p_src = [10, 0, 0, 2], p_dst = [10, 0, 0, 1], p_sport = 80, p_dport = 50000,
     p_seq = 1000, p_ack = 0xFFFFFFFF, p_tcplen = 1, p_hf = SetHdrLenFlags 20 (kTcpSyn OR kTcpAck),
     p_wnd = 4, p_bufs = [replicate 20 0]\<rparr>"

definition demo_e1 :: tcp_entry where "demo_e1 = projr (Pcb_Output 1 demo_start)"

definition demo_e2 :: tcp_entry where "demo_e2 = projr (Input demo_up 2 demo_synack demo_e1)"

definition demo_e3 :: tcp_entry where "demo_e3 = projr (Pcb_Send [1, 2, 3] demo_e2)"

lemma demo_handler: "handler_api demo_up"
  by (auto simp: handler_api_def demo_up_def intro: api_open)


lemmas demo_start_defs = demo_start_def connect_start_def connect_entry_def new_entry_def EnqueueSegment_def
  kTcpSyn_def kTcpFin_def kTcpAck_def has_def SetHdrLenFlags_def sizeof_TcpHeader_def syn_opts_def
  kWindowShift_def kTcpWnd_def Let_def

lemmas demo_output_defs = Pcb_Output_def Output_def TcpSeqLEQ_def TcpSeqLT_def TcpSeqGT_def seg_end_def
  SendWindowRemaining_def SendSegment_def emit_def SetTimer_def TcpWindow16_def kTcpMss_def HdrLen_def

lemmas demo_input_defs = Input_def Receive_def Receive_SynSent_def demo_synack_def Flags_def kTcpFlagMask_def
  kTcpRst_def wnd_of_def ClearAckedSegments_def DisableTimers_def call_def demo_up_def OpenWindow_def
  SendEmptyAck_def

lemma demo_output: "Pcb_Output 1 demo_start = Inr demo_e1" "alive demo_start" "alive demo_e1"
  by (simp_all add: demo_e1_def demo_start_defs demo_output_defs alive_def)

lemma demo_input: "Input demo_up 2 demo_synack demo_e1 = Inr demo_e2" "alive demo_e2" "queue demo_e2 = []"
  by (simp_all add: demo_e2_def demo_e1_def demo_input_defs demo_start_defs demo_output_defs alive_def queue_def)

lemma demo_send: "Pcb_Send [1, 2, 3] demo_e2 = Inr demo_e3" "alive demo_e3" "unat (snd_nxt demo_e3 - snd_una demo_e3) = 3"
  by (simp_all add: demo_e3_def Pcb_Send_def Entry_Send_def demo_e2_def demo_e1_def demo_input_defs demo_start_defs demo_output_defs alive_def)

lemma demo_run: "tcp_start demo_start" "(tcp_step demo_up)\<^sup>*\<^sup>* demo_start demo_e3"
proof -
  show "tcp_start demo_start" unfolding tcp_start_def demo_start_def by blast
  have "tcp_step demo_up demo_start demo_e1"
    by (rule step_app [OF demo_output(2) api_output [OF demo_output(1)]])
  moreover have "tcp_step demo_up demo_e1 demo_e2" by (rule step_input [OF demo_output(3) demo_input(1)])
  moreover have "tcp_step demo_up demo_e2 demo_e3"
    by (rule step_app [OF demo_input(2) api_send [OF demo_send(1)]]) (simp add: demo_input(3))
  ultimately show "(tcp_step demo_up)\<^sup>*\<^sup>* demo_start demo_e3" by simp
qed

theorem tcp_unacked_retained_witness:
  "alive demo_e3 \<and> unat (snd_nxt demo_e3 - snd_una demo_e3) = 3 \<and>
   (\<exists>s \<in> set (queue demo_e3). unat (snd_una demo_e3 + of_nat 2 - s_seq s) < unat (s_len s))"
proof -
  have "2 < unat (snd_nxt demo_e3 - snd_una demo_e3)" by (simp add: demo_send(3))
  then show ?thesis using tcp_unacked_retained [OF demo_handler demo_run demo_send(2)] demo_send(2,3) by blast
qed

section \<open>Flow control\<close>

lemma seg_end_offset:
  assumes "laid n ss" "s \<in> set ss"
  shows "\<exists>k \<le> seq_total (tl ss). seg_end s = n - of_nat k"
  using assms
proof (induction ss)
  case (Cons t ss)
  show ?case
  proof (cases "s = t")
    case True
    then show ?thesis using seg_end_laid [OF Cons.prems(1)] by auto
  next
    case False
    then obtain k where "k \<le> seq_total (tl ss)" "seg_end s = n - of_nat k" using Cons by auto
    moreover have "seq_total (tl ss) \<le> seq_total ss" by (cases ss) auto
    ultimately show ?thesis by (auto intro: le_trans)
  qed
qed simp

lemma seg_end_una:
  assumes "send_inv e" "s \<in> set (queue e)"
  shows "\<exists>k < 2 ^ 31. seg_end s = snd_una e + of_nat k"
proof -
  let ?i = "unat (snd_nxt e - snd_una e)"
  obtain k where k: "k \<le> seq_total (tl (queue e))" "seg_end s = snd_nxt e - of_nat k"
    using seg_end_offset [OF _ assms(2)] assms(1) unfolding send_inv_def by blast
  have "?i < 2 ^ 31" "k \<le> ?i" using k(1) assms(1) by (auto simp: send_inv_def)
  moreover have "seg_end s = snd_una e + of_nat (?i - k)" using k(2) calculation(2) by (simp add: of_nat_diff)
  ultimately show ?thesis by (meson diff_le_self le_less_trans)
qed

lemma in_window_iff:
  assumes "send_inv e" "s \<in> set (queue e)" "unat (snd_wnd e) < 2 ^ 31"
  shows "in_window e s \<longleftrightarrow> unat (seg_end s - snd_una e) \<le> unat (snd_wnd e)"
proof -
  obtain k where k: "k < 2 ^ 31" "seg_end s = snd_una e + of_nat k" using seg_end_una [OF assms(1,2)] by blast
  have w: "snd_wnd e = of_nat (unat (snd_wnd e))" by simp
  have "in_window e s \<longleftrightarrow> k \<le> unat (snd_wnd e)"
    using unat_diff_offsets [OF k(1) assms(3), of "snd_una e"] k(1) assms(3)
    by (auto simp: in_window_def seq_leq k(2) split: if_splits)
  then show ?thesis using k by simp
qed

lemma Output_out:
  assumes "Output now e = Inr e'"
  shows "out e' = out e @ map (wire e) (takeWhile (in_window e) (pending_segments e)) @
    (if takeWhile (in_window e) (pending_segments e) = [] \<and> TcpSeqLT (rcv_last_acked e) (rcv_nxt e)
     then [last (out (SendEmptyAck e))] else [])"
proof (cases "takeWhile (in_window e) (pending_segments e) = []")
  case True
  then show ?thesis using assms
    by (auto simp: Output_def output_loop_eq Let_def SendEmptyAck_def emit_def split: if_splits)
next
  case False
  then show ?thesis using assms fold_SendSegment [of "takeWhile (in_window e) (pending_segments e)" e]
    by (auto simp: Output_def output_loop_eq Let_def split: if_splits)
qed

text \<open>C14: \<open>Output\<close> obeys the peer's window.  On a well-formed send queue and an advertised window
  below \<open>2 ^ 31\<close>, a successful \<open>Output\<close> transmits the longest run of pending segments that end
  within \<open>snd_wnd\<close> bytes of \<open>snd_una\<close>, in order, each with the queued sequence number, options and
  data and the current acknowledgement; it moves exactly these to the unacknowledged queue, and the
  first segment left pending would overrun the window.  When nothing is sent, an empty
  acknowledgement goes out if received data is still unacknowledged.\<close>

theorem Output_flow_control:
  assumes "send_inv e" "unat (snd_wnd e) < 2 ^ 31" "Output now e = Inr e'"
  shows "\<exists>sent. pending_segments e = sent @ pending_segments e' \<and>
    unacked_segments e' = unacked_segments e @ sent \<and>
    (\<forall>s \<in> set sent. unat (seg_end s - snd_una e) \<le> unat (snd_wnd e)) \<and>
    (pending_segments e' \<noteq> [] \<longrightarrow> unat (snd_wnd e) < unat (seg_end (hd (pending_segments e')) - snd_una e)) \<and>
    out e' = out e @ map (wire e) sent @
      (if sent = [] \<and> TcpSeqLT (rcv_last_acked e) (rcv_nxt e) then [last (out (SendEmptyAck e))] else []) \<and>
    (\<forall>s \<in> set sent. \<exists>w. wire e s = SendIp w (address e) (key_ip e) \<and> w_seq w = s_seq s \<and>
       w_ack w = rcv_nxt e \<and> w_body w = s_opts s @ s_data s)"
proof (intro exI conjI)
  let ?sent = "takeWhile (in_window e) (pending_segments e)"
  have r: "pending_segments e' = dropWhile (in_window e) (pending_segments e)"
    "unacked_segments e' = unacked_segments e @ ?sent" using Output_Inr [OF assms(3)] by auto
  have q: "set (pending_segments e) \<subseteq> set (queue e)" by (auto simp: queue_def)
  note iff = in_window_iff [OF assms(1) _ assms(2)]
  show "pending_segments e = ?sent @ pending_segments e'" by (simp add: r)
  show "unacked_segments e' = unacked_segments e @ ?sent" by (rule r)
  show "\<forall>s \<in> set ?sent. unat (seg_end s - snd_una e) \<le> unat (snd_wnd e)"
    using iff q by (auto dest: set_takeWhileD)
  show "pending_segments e' \<noteq> [] \<longrightarrow> unat (snd_wnd e) < unat (seg_end (hd (pending_segments e')) - snd_una e)"
  proof
    assume n: "pending_segments e' \<noteq> []"
    then have "hd (pending_segments e') \<in> set (pending_segments e)" by (metis r(1) hd_in_set set_dropWhileD)
    moreover have "\<not> in_window e (hd (pending_segments e'))" using n hd_dropWhile r(1) by metis
    ultimately show "unat (snd_wnd e) < unat (seg_end (hd (pending_segments e')) - snd_una e)"
      using iff q by (meson in_mono linorder_not_less)
  qed
  show "out e' = out e @ map (wire e) ?sent @
      (if ?sent = [] \<and> TcpSeqLT (rcv_last_acked e) (rcv_nxt e) then [last (out (SendEmptyAck e))] else [])"
    by (rule Output_out [OF assms(3)])
  show "\<forall>s \<in> set ?sent. \<exists>w. wire e s = SendIp w (address e) (key_ip e) \<and> w_seq w = s_seq s \<and>
       w_ack w = rcv_nxt e \<and> w_body w = s_opts s @ s_data s"
    by (auto simp: wire_def SendSegment_def emit_def Let_def)
qed

theorem Output_flow_control_witness:
  "\<exists>e' sent. Output 1 demo_start = Inr e' \<and> pending_segments demo_start = sent @ pending_segments e' \<and>
    length sent = 1 \<and> unat (seg_end (hd sent) - snd_una demo_start) \<le> 2097152"
proof -
  obtain e' where e': "Output 1 demo_start = Inr e'" "pending_segments e' = []"
    by (simp add: demo_start_defs demo_output_defs)
  have w: "unat (snd_wnd demo_start) = 2097152" "length (pending_segments demo_start) = 1"
    by (simp_all add: demo_start_defs)
  obtain sent where s: "pending_segments demo_start = sent @ pending_segments e'"
    "\<forall>s \<in> set sent. unat (seg_end s - snd_una demo_start) \<le> unat (snd_wnd demo_start)"
    using Output_flow_control [OF start_inv [OF demo_run(1)] _ e'(1)] w by auto
  then show ?thesis using e' w by (intro exI [of _ e'] exI [of _ sent]) (cases sent, auto)
qed

text \<open>The room \<open>SendWindowRemaining\<close> reports is the window less the bytes in flight as long as
  the bytes in flight fit the window; once the peer has shrunk its window below them, the
  subtraction wraps and the report is at least \<open>2 ^ 31\<close> whatever the window, so the guard of
  \<open>TcpPcb::Send\<close> admits a segment of any legal size.\<close>

theorem SendWindowRemaining_wraps:
  "(snd_nxt e - snd_una e \<le> snd_wnd e \<longrightarrow>
      unat (SendWindowRemaining e) = unat (snd_wnd e) - unat (snd_nxt e - snd_una e)) \<and>
   (snd_wnd e < snd_nxt e - snd_una e \<and> unat (snd_nxt e - snd_una e) < 2 ^ 31 \<longrightarrow>
      2 ^ 31 \<le> unat (SendWindowRemaining e) \<and>
      (length dat \<le> 65415 \<longrightarrow> Pcb_Send dat e = Inr (Entry_Send dat e)))"
proof -
  let ?i = "snd_nxt e - snd_una e"
  have 1: "unat (SendWindowRemaining e) = unat (snd_wnd e) - unat ?i" if "?i \<le> snd_wnd e"
    using that unfolding SendWindowRemaining_def by (rule unat_sub)
  have 2: "2 ^ 31 \<le> unat (SendWindowRemaining e)" if s: "snd_wnd e < ?i" "unat ?i < 2 ^ 31"
  proof -
    have w: "unat (snd_wnd e) < 2 ^ 31" using s by (simp add: word_less_nat_alt)
    have "unat ((snd_wnd e) - ?i) = 2 ^ 32 + unat (snd_wnd e) - unat ?i"
      using unat_diff_offsets [OF w s(2), of 0] s(1) by (simp add: word_less_nat_alt)
    then show ?thesis unfolding SendWindowRemaining_def using s(2) by simp
  qed
  then show ?thesis using 1 by (force simp: Pcb_Send_def)
qed

text \<open>An entry with five bytes in flight and a window of two.\<close>

theorem SendWindowRemaining_wraps_witness:
  "2 ^ 31 \<le> unat (SendWindowRemaining (new_entry\<lparr>snd_nxt := 5, snd_wnd := 2\<rparr>)) \<and>
   unat (SendWindowRemaining (new_entry\<lparr>snd_nxt := 5, snd_wnd := 9\<rparr>)) = 4"
  using SendWindowRemaining_wraps [of "new_entry\<lparr>snd_nxt := 5, snd_wnd := 2\<rparr>"]
    SendWindowRemaining_wraps [of "new_entry\<lparr>snd_nxt := 5, snd_wnd := 9\<rparr>"]
  by (simp add: new_entry_def)

end
