(* ===== verification/NetTcpRecv.thy ===== *)
theory NetTcpRecv
  imports NetTcpSend
begin

text \<open>
  The receiving half of a TCP connection: which operations leave it alone, the invariant of the
  reassembly (the bytes handed to the application are a prefix of the peer's stream, the stash holds
  pieces of that stream), and what happens on a RST and on a FIN.
\<close>

section \<open>The delivered stream\<close>

fun received :: "tcp_event list \<Rightarrow> byte list" where
  "received [] = []"
| "received (Upcall (UpReceive d) # evs) = d @ received evs"
| "received (ev # evs) = received evs"

lemma received_append [simp]: "received (xs @ ys) = received xs @ received ys"
  by (induction xs rule: received.induct) auto

text \<open>\<open>S\<close> is the byte stream of the peer and \<open>b\<close> the sequence number of its first byte; the
  bytes from position \<open>n\<close> up to position \<open>k\<close>.\<close>

definition part :: "(nat \<Rightarrow> byte) \<Rightarrow> nat \<Rightarrow> nat \<Rightarrow> byte list" where
  "part S n k = map S [n..<k]"

lemma part_append: "n \<le> k \<Longrightarrow> k \<le> l \<Longrightarrow> part S n k @ part S k l = part S n l"
  using upt_add_eq_append [of n k "l - k"] by (simp add: part_def)

lemma length_part [simp]: "length (part S n k) = k - n"
  by (simp add: part_def)

definition stash_ok :: "(nat \<Rightarrow> byte) \<Rightarrow> 32 word \<Rightarrow> nat \<Rightarrow> (32 word \<times> byte list list) list \<Rightarrow> bool" where
  "stash_ok S b edge st \<longleftrightarrow>
    (\<forall>(k, c) \<in> set st. \<exists>n. k = b + of_nat n \<and> concat c = part S n (n + bytes c) \<and> n + bytes c \<le> edge)"

definition rcv_inv :: "(nat \<Rightarrow> byte) \<Rightarrow> 32 word \<Rightarrow> nat \<Rightarrow> tcp_entry \<Rightarrow> bool" where
  "rcv_inv S b N e \<longleftrightarrow> unat (rcv_wnd e) \<le> 2 ^ 21 \<and>
    (\<exists>m. received (out e) = part S 0 m \<and>
      (state e = kSynSent \<longrightarrow> m = 0 \<and> stashed_segments e = []) \<and>
      (state e = kSynReceived \<or> state e = kEstablished \<longrightarrow> m \<le> N \<and> rcv_nxt e = b + of_nat m \<and>
         stash_ok S b (min N (m + unat (rcv_wnd e))) (stashed_segments e)))"

lemma stash_ok_mono: "stash_ok S b x st \<Longrightarrow> x \<le> y \<Longrightarrow> set st' \<subseteq> set st \<Longrightarrow> stash_ok S b y st'"
  unfolding stash_ok_def by fastforce

lemma pos_unique:
  assumes "(b :: 32 word) + of_nat n = b + of_nat m" "n < 2 ^ 32" "m < 2 ^ 32"
  shows "n = m"
  using assms unat_of_nat_32 by (metis add_left_cancel)

lemma bytes_Cons: "bytes (x # xs) = length x + bytes xs" by (simp add: bytes_def)

text \<open>The stash loop extends an in-order payload by stashed segments that continue it.\<close>

lemma stash_loop_ok:
  assumes "stash_loop st (unat (b + of_nat m :: 32 word)) plen buf = (st', plen', buf')"
    "stash_ok S b edge st" "edge < 2 ^ 32" "m + plen \<le> edge" "concat buf = h @ part S m (m + plen)"
  shows "concat buf' = h @ part S m (m + plen') \<and> plen \<le> plen' \<and> m + plen' \<le> edge \<and> set st' \<subseteq> set st \<and>
    (\<exists>x. buf' = buf @ x)"
  using assms
proof (induction st arbitrary: plen buf st')
  case Nil
  then show ?case by auto
next
  case (Cons kc st)
  obtain k c where kc: "kc = (k, c)" by (cases kc)
  obtain n where n: "k = b + of_nat n" "concat c = part S n (n + bytes c)" "n + bytes c \<le> edge"
    using Cons.prems(2) by (auto simp: stash_ok_def kc)
  have ok: "stash_ok S b edge st" using Cons.prems(2) by (auto simp: stash_ok_def)
  show ?case
  proof (cases "unat k = unat (b + of_nat m :: 32 word) + plen")
    case True
    have "k = of_nat (unat k)" by simp
    then have "k = of_nat (unat (b + of_nat m :: 32 word)) + of_nat plen" by (simp only: True of_nat_add)
    then have "b + of_nat n = b + of_nat (m + plen)" using n(1) by simp
    then have nm: "n = m + plen" using n(3) Cons.prems(3,4) by (intro pos_unique) auto
    have l: "stash_loop st (unat (b + of_nat m)) (plen + bytes c) (buf @ c) = (st', plen', buf')"
      using Cons.prems(1) True kc by simp
    have "concat (buf @ c) = h @ part S m (m + (plen + bytes c))"
      using Cons.prems(5) n(2) nm part_append [of m "m + plen" "m + plen + bytes c" S] by (simp add: add.assoc)
    then show ?thesis using Cons.IH [OF l ok Cons.prems(3)] n(3) nm by (auto simp: add.assoc)
  next
    case False
    obtain r where r: "stash_loop st (unat (b + of_nat m)) plen buf = (r, plen', buf')" "st' = (k, c) # r"
      using Cons.prems(1) False kc by (auto split: prod.splits)
    show ?thesis using Cons.IH [OF r(1) ok Cons.prems(3,4,5)] r(2) kc by auto
  qed
qed

section \<open>What leaves the receive side alone\<close>

definition rcv_open :: "tcp_state \<Rightarrow> bool" where
  "rcv_open st \<longleftrightarrow> st = kSynSent \<or> st = kSynReceived \<or> st = kEstablished"

definition rcv_le :: "tcp_entry \<Rightarrow> tcp_entry \<Rightarrow> bool" where
  "rcv_le e e' \<longleftrightarrow> rcv_nxt e' = rcv_nxt e \<and> stashed_segments e' = stashed_segments e \<and>
    received (out e') = received (out e) \<and> (rcv_wnd e' = rcv_wnd e \<or> rcv_wnd e' = kTcpWnd) \<and>
    (state e' = state e \<or> \<not> rcv_open (state e'))"

lemma rcv_le_refl [simp]: "rcv_le e e"
  by (simp add: rcv_le_def)

lemma rcv_le_trans [trans]: "rcv_le e e1 \<Longrightarrow> rcv_le e1 e2 \<Longrightarrow> rcv_le e e2"
  unfolding rcv_le_def by (elim conjE) auto

lemma kTcpWnd_val [simp]: "unat kTcpWnd = 2 ^ 21"
  by (simp add: kTcpWnd_def)

lemma rcv_inv_le: "rcv_inv S b N e \<Longrightarrow> rcv_le e e' \<Longrightarrow> rcv_inv S b N e'"
proof -
  assume i: "rcv_inv S b N e" and l: "rcv_le e e'"
  obtain m where m: "unat (rcv_wnd e) \<le> 2 ^ 21" "received (out e) = part S 0 m"
    "state e = kSynSent \<longrightarrow> m = 0 \<and> stashed_segments e = []"
    "state e = kSynReceived \<or> state e = kEstablished \<longrightarrow> m \<le> N \<and> rcv_nxt e = b + of_nat m \<and>
         stash_ok S b (min N (m + unat (rcv_wnd e))) (stashed_segments e)"
    using i by (auto simp: rcv_inv_def)
  have w: "unat (rcv_wnd e) \<le> unat (rcv_wnd e')" "unat (rcv_wnd e') \<le> 2 ^ 21"
    using l m(1) by (auto simp: rcv_le_def)
  have "stash_ok S b (min N (m + unat (rcv_wnd e'))) (stashed_segments e')"
    if "stash_ok S b (min N (m + unat (rcv_wnd e))) (stashed_segments e)"
    using stash_ok_mono [OF that] w l by (auto simp: rcv_le_def)
  then show ?thesis using l m w unfolding rcv_inv_def rcv_le_def rcv_open_def by metis
qed

lemma rcv_le_SendSegment: "rcv_le e (SendSegment s e)"
  by (simp add: rcv_le_def SendSegment_def emit_def Let_def)

lemma rcv_le_frames [simp]:
  "rcv_le e (SendEmptyAck e)" "rcv_le e (SetTimer now e)"
  "rcv_le e (DisableTimers e)" "rcv_le e (reply_reset p a n e)" "rcv_le e (EnqueueSegment d f os e)"
  "rcv_le e (SendFin e)" "rcv_le e (ClearAckedSegments ack e)" "rcv_le e (ack_window p e)"
  "rcv_le e (OpenWindow e)" "rcv_le e (CloseWindow e)" "rcv_le e (SetWindowNotify c e)"
  by (simp_all add: rcv_le_def SendEmptyAck_def SetTimer_def DisableTimers_def reply_reset_def
      EnqueueSegment_def SendFin_def ClearAckedSegments_def ack_window_def emit_def TcpReset_def
      OpenWindow_def CloseWindow_def SetWindowNotify_def Let_def)

lemma rcv_le_fold: "rcv_le e (fold SendSegment ss e)"
  by (induction ss arbitrary: e) (auto intro: rcv_le_trans rcv_le_SendSegment)

lemma rcv_le_Output: "Output now e = Inr e' \<Longrightarrow> rcv_le e e'"
  using rcv_le_fold [of e "takeWhile (in_window e) (pending_segments e)"] rcv_le_frames(1) [of e]
  by (auto simp: Output_def output_loop_eq Let_def rcv_le_def split: if_splits)

lemma rcv_le_Close: "Close e = Inr e' \<Longrightarrow> rcv_le e e'"
  using rcv_le_frames(6) [of e] by (auto simp: Close_def rcv_le_def rcv_open_def split: tcp_state.splits)

lemma rcv_le_api: "api e e' \<Longrightarrow> rcv_le e e'"
proof (induction rule: api.induct)
  case (api_send dat e e')
  then show ?case using Pcb_Send_Inr by fastforce
next
  case (api_output now e e')
  then show ?case by (auto simp: Pcb_Output_def bindr_eq_Inr_iff dest: rcv_le_Output intro: rcv_le_trans)
next
  case (api_delete now e e')
  then show ?case
    by (auto simp: Pcb_Delete_def bindr_eq_Inr_iff dest!: rcv_le_Output rcv_le_Close intro: rcv_le_trans)
qed simp_all

lemma rcv_le_apis: "api\<^sup>*\<^sup>* e e' \<Longrightarrow> rcv_le e e'"
  by (induction rule: rtranclp_induct) (auto intro: rcv_le_trans rcv_le_api)

lemma rcv_le_call:
  assumes "handler_api up"
  shows "rcv_le (e\<lparr>out := out e @ [Upcall u]\<rparr>) (call up u e)"
  using rcv_le_apis assms by (simp add: handler_api_def call_def emit_def)

lemma rcv_le_call_other:
  assumes "handler_api up" "\<And>d. u \<noteq> UpReceive d"
  shows "rcv_le e (call up u e)"
proof -
  have "received [Upcall u] = []" using assms(2) by (cases u) auto
  then have "rcv_le e (e\<lparr>out := out e @ [Upcall u]\<rparr>)" by (simp add: rcv_le_def)
  then show ?thesis using rcv_le_call [OF assms(1)] by (rule rcv_le_trans)
qed

lemma rcv_le_Fire:
  assumes "Fire now e = Inr e'" "alive e'"
  shows "rcv_le e e'"
proof -
  obtain u p r e2 where f: "e' = SetTimer now e2"
    "Output now (e\<lparr>timer_set := False, retransmit := r, pending_segments := p, unacked_segments := u\<rparr>) = Inr e2"
    using Fire_alive [OF assms] by blast
  have "rcv_le e (e\<lparr>timer_set := False, retransmit := r, pending_segments := p, unacked_segments := u\<rparr>)"
    by (simp add: rcv_le_def)
  also have "rcv_le \<dots> e2" by (rule rcv_le_Output [OF f(2)])
  also have "rcv_le \<dots> e'" by (simp add: f(1))
  finally show ?thesis .
qed

section \<open>Reassembly\<close>

definition payload :: "tcp_packet \<Rightarrow> byte list" where
  "payload p = drop (HdrLen (p_hf p)) (concat (p_bufs p))"

text \<open>A packet of the peer: its header is there, its payload is the piece of the stream at its
  sequence number, below position \<open>N\<close> and within the window offered.\<close>

definition genuine :: "(nat \<Rightarrow> byte) \<Rightarrow> 32 word \<Rightarrow> nat \<Rightarrow> tcp_entry \<Rightarrow> tcp_packet \<Rightarrow> bool" where
  "genuine S b N e p \<longleftrightarrow> HdrLen (p_hf p) \<le> bytes (p_bufs p) \<and> bytes (p_bufs p) < 2 ^ 64 \<and>
    (state e = kSynSent \<longrightarrow> p_seq p + 1 = b) \<and>
    (payload p \<noteq> [] \<and> (state e = kSynReceived \<or> state e = kEstablished) \<longrightarrow>
      (\<exists>n. p_seq p = b + of_nat n \<and> payload p = part S n (n + length (payload p)) \<and>
        n + length (payload p) \<le> N \<and>
        n + length (payload p) \<le> unat (rcv_nxt e - b) + unat (rcv_wnd e)))"

lemma advance_head_Inr: "advance_head n bufs = Inr bufs' \<Longrightarrow> concat bufs' = drop n (concat bufs)"
  by (auto simp: advance_head_def split: list.splits if_splits)

lemma advance_head_append: "advance_head n (bufs @ x) = Inr bufs' \<Longrightarrow> bufs \<noteq> [] \<Longrightarrow> n \<le> bytes bufs"
  by (cases bufs) (auto simp: advance_head_def bytes_def split: if_splits)

text \<open>An acceptable segment starts at or after \<open>rcv_nxt\<close>: the code that trims its front never runs.\<close>

lemma acceptable_front:
  assumes "acceptable p e" "unat (rcv_wnd e) < 2 ^ 31"
  shows "\<not> TcpSeqGT (rcv_nxt e) (p_seq p)" "\<not> TcpSeqGT (p_seq p) (rcv_nxt e) \<Longrightarrow> p_seq p = rcv_nxt e"
proof -
  have d: "unat (p_seq p - rcv_nxt e) \<le> unat (rcv_wnd e)"
    using assms(1) by (auto simp: acceptable_def TcpSeqBetween_def word_le_nat_alt)
  have p: "p_seq p = rcv_nxt e + of_nat (unat (p_seq p - rcv_nxt e))" by simp
  show "\<not> TcpSeqGT (rcv_nxt e) (p_seq p)"
    using unat_diff_offsets [of 0 "unat (p_seq p - rcv_nxt e)" "rcv_nxt e"] d assms(2) by (auto simp: seq_gt split: if_splits)
  show "p_seq p = rcv_nxt e" if "\<not> TcpSeqGT (p_seq p) (rcv_nxt e)"
    using that d assms(2) by (auto simp: seq_gt unat_eq_zero)
qed

lemma stash_insert_set: "set (stash_insert k c st) \<subseteq> insert (k, c) (set st)"
  by (auto simp: stash_insert_def set_insort_key)

lemma unat_sub_of_nat:
  assumes "k \<le> unat (w :: 32 word)"
  shows "unat (w - of_nat k) = unat w - k"
proof -
  have "k < 2 ^ 32" using assms unat_less_32 [of w] by simp
  then have "unat (of_nat k :: 32 word) = k" by simp
  then show ?thesis using assms by (subst unat_sub) (simp_all add: word_le_nat_alt)
qed

lemma Receive_established_ok:
  assumes inv: "rcv_inv S b N e" and up: "handler_api up" and N: "N + 2 ^ 21 < 2 ^ 32"
    and st: "state e = kEstablished" and acc: "acceptable p e"
    and plen: "l = length (payload p)" "0 < l" "HdrLen (p_hf p) + l = bytes (p_bufs p)"
    and n: "p_seq p = b + of_nat n" "payload p = part S n (n + l)" "n + l \<le> N"
      "n + l \<le> unat (rcv_nxt e - b) + unat (rcv_wnd e)"
  shows "Receive_established up p l e = Inr (Inl (e', c)) \<Longrightarrow> rcv_inv S b N e'"
    and "Receive_established up p l e = Inr (Inr (t, e')) \<Longrightarrow> rcv_inv S b N e'"
proof -
  obtain m where w: "unat (rcv_wnd e) \<le> 2 ^ 21" and m: "received (out e) = part S 0 m" "m \<le> N"
    "rcv_nxt e = b + of_nat m" "stash_ok S b (min N (m + unat (rcv_wnd e))) (stashed_segments e)"
    using inv st by (auto simp: rcv_inv_def)
  have pos: "unat (rcv_nxt e - b) = m" using m(2,3) N by simp
  show "rcv_inv S b N e'" if r: "Receive_established up p l e = Inr (Inl (e', c))"
  proof -
    obtain buf where buf: "advance_head (HdrLen (p_hf p)) (p_bufs p) = Inr buf"
      and e': "e' = SendEmptyAck (e\<lparr>stashed_segments := stash_insert (p_seq p) buf (stashed_segments e)\<rparr>)"
      using r by (auto simp: Receive_established_def Let_def bindr_eq_Inr_iff split: if_splits prod.splits)
    have c: "concat buf = payload p" using advance_head_Inr [OF buf] by (simp add: payload_def)
    have "stash_ok S b (min N (m + unat (rcv_wnd e))) [(p_seq p, buf)]"
      using n c plen(1) pos by (auto simp: stash_ok_def bytes_def)
    then have "stash_ok S b (min N (m + unat (rcv_wnd e))) (stash_insert (p_seq p) buf (stashed_segments e))"
      using m(4) stash_insert_set [of "p_seq p" buf "stashed_segments e"] unfolding stash_ok_def by fastforce
    then have "rcv_inv S b N (e\<lparr>stashed_segments := stash_insert (p_seq p) buf (stashed_segments e)\<rparr>)"
      using m w st by (auto simp: rcv_inv_def)
    then show ?thesis unfolding e' by (rule rcv_inv_le) simp
  qed
  show "rcv_inv S b N e'" if r: "Receive_established up p l e = Inr (Inr (t, e'))"
  proof -
    have "\<not> TcpSeqGT (p_seq p) (rcv_nxt e)"
      using r by (auto simp: Receive_established_def Let_def bindr_eq_Inr_iff split: if_splits)
    moreover have "unat (rcv_wnd e) < 2 ^ 31" using w by simp
    ultimately have "p_seq p = rcv_nxt e" using acceptable_front(2) [OF acc] by blast
    then have nm: "n = m" using pos_unique [of b n m] n(1,3) m(2,3) N by simp
    obtain st' pl buf where loop: "stash_loop (stashed_segments e) (unat (rcv_nxt e)) l (p_bufs p) = (st', pl, buf)"
      by (metis prod_cases3)
    define h where "h = take (HdrLen (p_hf p)) (concat (p_bufs p))"
    have h: "concat (p_bufs p) = h @ part S m (m + l)" "length h = HdrLen (p_hf p)"
      using n(2) nm plen(3) by (simp_all add: h_def payload_def [symmetric] bytes_def) (metis append_take_drop_id payload_def)
    have ok: "concat buf = h @ part S m (m + pl)" "m + pl \<le> min N (m + unat (rcv_wnd e))" "set st' \<subseteq> set (stashed_segments e)"
      using stash_loop_ok [OF loop [unfolded m(3)] m(4) _ _ h(1)] N n nm pos by auto
    define e2 where "e2 = e\<lparr>stashed_segments := st', rcv_nxt := rcv_nxt e + of_nat pl,
        rcv_wnd := (if close_window e then rcv_wnd e - of_nat pl else rcv_wnd e)\<rparr>"
    obtain buf2 where b2: "advance_head (HdrLen (p_hf p)) buf = Inr buf2" and e': "e' = call up (UpReceive (concat buf2)) e2"
      using r ok(2) by (auto simp: Receive_established_def Let_def loop bindr_eq_Inr_iff e2_def split: if_splits)
    have d: "concat buf2 = part S m (m + pl)" using advance_head_Inr [OF b2] ok(1) h(2) by simp
    have w2: "unat (rcv_wnd e) - pl \<le> unat (rcv_wnd e2)" "unat (rcv_wnd e2) \<le> 2 ^ 21"
      using unat_sub_of_nat [of pl "rcv_wnd e"] ok(2) w by (auto simp: e2_def)
    have "rcv_inv S b N (e2\<lparr>out := out e2 @ [Upcall (UpReceive (concat buf2))]\<rparr>)"
      unfolding rcv_inv_def
    proof (intro conjI exI [of _ "m + pl"] impI)
      show "received (out (e2\<lparr>out := out e2 @ [Upcall (UpReceive (concat buf2))]\<rparr>)) = part S 0 (m + pl)"
        using m(1) part_append [of 0 m "m + pl" S] by (simp add: e2_def d)
      show "stash_ok S b (min N (m + pl + unat (rcv_wnd (e2\<lparr>out := out e2 @ [Upcall (UpReceive (concat buf2))]\<rparr>))))
          (stashed_segments (e2\<lparr>out := out e2 @ [Upcall (UpReceive (concat buf2))]\<rparr>))"
        using ok w2 by (intro stash_ok_mono [OF m(4)]) (auto simp: e2_def)
    qed (use m ok w2 st in \<open>auto simp: e2_def\<close>)
    then show ?thesis unfolding e' by (rule rcv_inv_le) (rule rcv_le_call [OF up])
  qed
qed

lemma payload_len:
  assumes "HdrLen (p_hf p) \<le> bytes (p_bufs p)" "bytes (p_bufs p) < 2 ^ 64"
  shows "(bytes (p_bufs p) + u64 - HdrLen (p_hf p)) mod u64 = length (payload p)"
    and "HdrLen (p_hf p) + length (payload p) = bytes (p_bufs p)"
proof -
  have "bytes (p_bufs p) + u64 - HdrLen (p_hf p) = (bytes (p_bufs p) - HdrLen (p_hf p)) + u64" using assms by simp
  then have "(bytes (p_bufs p) + u64 - HdrLen (p_hf p)) mod u64 = bytes (p_bufs p) - HdrLen (p_hf p)"
    using assms by (metis less_imp_diff_less mod_add_self2 mod_less)
  then show "(bytes (p_bufs p) + u64 - HdrLen (p_hf p)) mod u64 = length (payload p)"
    "HdrLen (p_hf p) + length (payload p) = bytes (p_bufs p)"
    using assms by (simp_all add: payload_def bytes_def)
qed

lemma Receive_payload_ok:
  assumes inv: "rcv_inv S b N e" and up: "handler_api up" and N: "N + 2 ^ 21 < 2 ^ 32"
    and acc: "acceptable p e" and gen: "genuine S b N e p"
  shows "Receive_payload up p e = Inr (Inl (e', True)) \<Longrightarrow> rcv_inv S b N e'"
    and "Receive_payload up p e = Inr (Inr (t, e')) \<Longrightarrow> rcv_inv S b N e'"
proof -
  have g: "HdrLen (p_hf p) \<le> bytes (p_bufs p)" "bytes (p_bufs p) < 2 ^ 64" using gen by (auto simp: genuine_def)
  note len = payload_len [OF g]
  have est: "Receive_established up p (length (payload p)) e = Inr (Inl (e', True)) \<Longrightarrow> rcv_inv S b N e'"
    "Receive_established up p (length (payload p)) e = Inr (Inr (t, e')) \<Longrightarrow> rcv_inv S b N e'"
    if a: "0 < length (payload p)" "state e = kEstablished"
  proof -
    obtain n where n: "p_seq p = b + of_nat n" "payload p = part S n (n + length (payload p))"
      "n + length (payload p) \<le> N" "n + length (payload p) \<le> unat (rcv_nxt e - b) + unat (rcv_wnd e)"
      using gen a by (auto simp: genuine_def)
    note ok = Receive_established_ok [OF inv up N a(2) acc refl a(1) len(2) n]
    show "Receive_established up p (length (payload p)) e = Inr (Inl (e', True)) \<Longrightarrow> rcv_inv S b N e'"
      "Receive_established up p (length (payload p)) e = Inr (Inr (t, e')) \<Longrightarrow> rcv_inv S b N e'"
      by (erule ok)+
  qed
  show "Receive_payload up p e = Inr (Inl (e', True)) \<Longrightarrow> rcv_inv S b N e'"
    using est(1) unfolding Receive_payload_def Let_def len(1) by (auto split: if_splits)
  show "Receive_payload up p e = Inr (Inr (t, e')) \<Longrightarrow> rcv_inv S b N e'"
    using est(2) inv unfolding Receive_payload_def Let_def len(1) by (auto split: if_splits)
qed

lemma rcv_inv_closed:
  "rcv_inv S b N e \<Longrightarrow> received (out e') = received (out e) \<Longrightarrow> rcv_wnd e' = rcv_wnd e \<Longrightarrow>
    \<not> rcv_open (state e') \<Longrightarrow> rcv_inv S b N e'"
  by (auto simp: rcv_inv_def rcv_open_def)

lemma Receive_fin_ok:
  assumes inv: "rcv_inv S b N e" and up: "handler_api up"
  shows "rcv_inv S b N (Receive_fin up now p t e)"
proof (cases "\<not> has (Flags (p_hf p)) kTcpFin \<or> state e = kSynSent")
  case False
  define e1 where "e1 = e\<lparr>rcv_nxt := p_seq p + of_nat t\<rparr>"
  have w: "rcv_inv S b N (e1\<lparr>state := kCloseWait\<rparr>)" by (rule rcv_inv_closed [OF inv]) (simp_all add: e1_def rcv_open_def)
  have c: "rcv_inv S b N (call up UpClose (e1\<lparr>state := kCloseWait\<rparr>))"
    by (rule rcv_inv_le [OF w]) (rule rcv_le_call_other [OF up], simp)
  have "state e \<noteq> kEstablished \<Longrightarrow> state e \<noteq> kSynReceived \<Longrightarrow> rcv_inv S b N (Receive_fin up now p t e)"
    using False by (intro rcv_inv_closed [OF inv])
      (auto simp: Receive_fin_def Let_def DisableTimers_def emit_def rcv_open_def split: tcp_state.splits)
  then show ?thesis using c False by (cases "state e") (auto simp: Receive_fin_def Let_def e1_def)
qed (use inv in \<open>auto simp: Receive_fin_def\<close>)

lemma ack_closing_ok: "rcv_inv S b N e \<Longrightarrow> rcv_inv S b N (ack_closing now p e)"
  by (rule rcv_inv_le, assumption)
    (auto simp: ack_closing_def rcv_le_def rcv_open_def DisableTimers_def Purge_def emit_def)

text \<open>ACK processing keeps the receive side; it may open the connection.\<close>

lemma Receive_ack_ok:
  assumes inv: "rcv_inv S b N e" and up: "handler_api up"
  shows "Receive_ack up now p e = Inl (e', True) \<Longrightarrow> rcv_inv S b N e'"
    and "Receive_ack up now p e = Inr e' \<Longrightarrow> rcv_inv S b N e' \<and> rcv_nxt e' = rcv_nxt e \<and>
      unat (rcv_wnd e) \<le> unat (rcv_wnd e') \<and> (rcv_open (state e') \<longrightarrow> rcv_open (state e) \<and> state e' \<noteq> kSynSent \<or> state e' = state e)"
proof -
  define e1 where "e1 = (if state e = kSynReceived
      then e\<lparr>state := kEstablished, snd_wnd := wnd_of p, snd_wl1 := p_seq p, snd_wl2 := p_ack p\<rparr> else e)"
  have 1: "rcv_inv S b N e1" "rcv_nxt e1 = rcv_nxt e" "rcv_wnd e1 = rcv_wnd e" "state e1 = state e \<or> state e = kSynReceived \<and> state e1 = kEstablished"
    using inv by (auto simp: e1_def rcv_inv_def)
  define e2 where "e2 = ClearAckedSegments (p_ack p) (ack_window p e1)"
  define e3 where "e3 = (if window_notify e2 then call up UpSendWindowIncrease e2 else e2)"
  have 3: "rcv_le e1 e3"
  proof -
    have "rcv_le e1 (ack_window p e1)" by simp
    also have "rcv_le \<dots> e2" by (simp add: e2_def)
    also have "rcv_le e2 e3" using rcv_le_call_other [OF up] by (simp add: e3_def)
    finally show ?thesis .
  qed
  have cl: "rcv_le e4 (ack_closing now p e4)" for e4
    by (auto simp: ack_closing_def rcv_le_def rcv_open_def DisableTimers_def Purge_def emit_def)
  have le: "rcv_le e1 e'" if "Receive_ack up now p e = Inr e'" "e' \<noteq> e"
    using that rcv_le_trans [OF 3 cl] cl
    by (auto simp: Receive_ack_def ack_connected_def Let_def e1_def [symmetric] e2_def [symmetric] e3_def [symmetric] split: if_splits)
  show "Receive_ack up now p e = Inl (e', True) \<Longrightarrow> rcv_inv S b N e'"
    using inv 1(1) rcv_inv_le [OF inv] rcv_inv_le [OF 1(1)]
    by (auto simp: Receive_ack_def ack_connected_def Let_def e1_def [symmetric] split: if_splits)
  show "Receive_ack up now p e = Inr e' \<Longrightarrow> rcv_inv S b N e' \<and> rcv_nxt e' = rcv_nxt e \<and>
      unat (rcv_wnd e) \<le> unat (rcv_wnd e') \<and> (rcv_open (state e') \<longrightarrow> rcv_open (state e) \<and> state e' \<noteq> kSynSent \<or> state e' = state e)"
  proof (cases "e' = e")
    case False
    assume "Receive_ack up now p e = Inr e'"
    then have l: "rcv_le e1 e'" using le False by simp
    moreover have "unat (rcv_wnd e) \<le> 2 ^ 21" using inv by (simp add: rcv_inv_def)
    ultimately show ?thesis using rcv_inv_le [OF 1(1) l] 1 by (auto simp: rcv_le_def rcv_open_def)
  qed (use inv in simp)
qed

lemma genuine_mono:
  assumes "genuine S b N e p" "rcv_nxt e' = rcv_nxt e" "unat (rcv_wnd e) \<le> unat (rcv_wnd e')"
    "rcv_open (state e') \<longrightarrow> rcv_open (state e) \<and> state e' \<noteq> kSynSent \<or> state e' = state e" "state e \<noteq> kSynSent"
  shows "genuine S b N e' p"
proof -
  have k: "x \<le> unat (rcv_nxt e - b) + unat (rcv_wnd e) \<Longrightarrow> x \<le> unat (rcv_nxt e' - b) + unat (rcv_wnd e')" for x
    using assms(2,3) by simp
  have "state e' = kSynReceived \<or> state e' = kEstablished \<Longrightarrow> state e = kSynReceived \<or> state e = kEstablished"
    "state e' \<noteq> kSynSent" using assms(4,5) by (auto simp: rcv_open_def)
  then show ?thesis using assms(1) k unfolding genuine_def by blast
qed

lemma front_trim_none: "acceptable p e \<Longrightarrow> unat (rcv_wnd e) < 2 ^ 31 \<Longrightarrow> front_trim p e = Inr p"
  using acceptable_front(1) by (simp add: front_trim_def)

lemma Receive_acceptable_ok:
  assumes inv: "rcv_inv S b N e" and up: "handler_api up" and N: "N + 2 ^ 21 < 2 ^ 32"
    and acc: "acceptable p e" and gen: "genuine S b N e p" and r: "Receive_acceptable up now p e = Inr (e', True)"
  shows "rcv_inv S b N e'"
proof -
  have "unat (rcv_wnd e) < 2 ^ 31" using inv by (simp add: rcv_inv_def)
  note f = front_trim_none [OF acc this]
  from r show ?thesis
  proof (cases rule: Receive_acceptable_cases)
    case (stop q)
    then show ?thesis using Receive_payload_ok(1) [OF inv up N acc gen] f by simp
  next
    case (goes q l e1)
    then have "rcv_inv S b N e1" using Receive_payload_ok(2) [OF inv up N acc gen] f by simp
    then show ?thesis using Receive_fin_ok [OF _ up] goes(3) by simp
  qed (use inv in auto)
qed

lemma Receive_SynSent_ok:
  assumes inv: "rcv_inv S b N e" and up: "handler_api up" and st: "state e = kSynSent" and gen: "genuine S b N e p"
    and r: "Receive_SynSent up p e = Inr (e', True)"
  shows "rcv_inv S b N e'"
proof (cases "e' = e")
  case False
  define e1 where "e1 = e\<lparr>rcv_nxt := p_seq p + 1, rcv_last_acked := p_seq p, snd_una := p_ack p,
       state := kEstablished, snd_wnd := wnd_of p, snd_wl1 := p_seq p, snd_wl2 := p_ack p\<rparr>"
  have e': "e' = call up UpConnected (ClearAckedSegments (p_ack p) e1)"
    using r False by (auto simp: Receive_SynSent_def Let_def e1_def split: if_splits)
  have "rcv_inv S b N e1" using inv st gen by (auto simp: rcv_inv_def e1_def genuine_def stash_ok_def)
  moreover have "rcv_le e1 e'" unfolding e'
    by (rule rcv_le_trans [OF rcv_le_frames(7) rcv_le_call_other [OF up]]) simp
  ultimately show ?thesis by (rule rcv_inv_le)
qed (use inv in simp)

lemma Receive_ok:
  assumes inv: "rcv_inv S b N e" and up: "handler_api up" and N: "N + 2 ^ 21 < 2 ^ 32"
    and gen: "genuine S b N e p" and r: "Receive up now p e = Inr (e', True)"
  shows "rcv_inv S b N e'"
proof (cases "state e = kSynSent")
  case True
  then show ?thesis using Receive_SynSent_ok [OF inv up True gen] r by (simp add: Receive_def)
next
  case False
  show ?thesis
  proof (cases "Receive_ack up now p e")
    case (Inl a)
    then show ?thesis using r False Receive_ack_ok(1) [OF inv up] by (cases a) (auto simp: Receive_def)
  next
    case (Inr e1)
    note ack = Receive_ack_ok(2) [OF inv up Inr]
    have g: "genuine S b N e1 p" by (rule genuine_mono [OF gen]) (use ack False in auto)
    show ?thesis
    proof (cases "acceptable p e1")
      case True
      then show ?thesis using r False Inr ack g Receive_acceptable_ok [OF _ up N True g]
        by (auto simp: Receive_def)
    next
      case no: False
      have "rcv_le e1 e'" using r False Inr no by (auto simp: Receive_def split: if_splits)
      then show ?thesis using ack rcv_inv_le by blast
    qed
  qed
qed

text \<open>Histories in which every packet comes from the peer.\<close>

inductive rcv_step :: "(nat \<Rightarrow> byte) \<Rightarrow> 32 word \<Rightarrow> nat \<Rightarrow> handler \<Rightarrow> tcp_entry \<Rightarrow> tcp_entry \<Rightarrow> bool"
  for S b N up where
  rcv_input: "alive e \<Longrightarrow> genuine S b N e p \<Longrightarrow> Input up now p e = Inr e' \<Longrightarrow> rcv_step S b N up e e'"
| rcv_fire: "alive e \<Longrightarrow> Fire now e = Inr e' \<Longrightarrow> rcv_step S b N up e e'"
| rcv_app: "alive e \<Longrightarrow> api e e' \<Longrightarrow> rcv_step S b N up e e'"

lemma rcv_step_ok:
  assumes "rcv_step S b N up e e'" "rcv_inv S b N e" "handler_api up" "N + 2 ^ 21 < 2 ^ 32" "alive e'"
  shows "rcv_inv S b N e'"
  using assms
proof (induction rule: rcv_step.induct)
  case (rcv_input e p now e')
  then obtain e1 e2 where i: "Receive up now p e = Inr (e1, True)" "Output now e1 = Inr e2" "e' = SetTimer now e2"
    using Input_alive by blast
  have "rcv_le e1 e'" using rcv_le_trans [OF rcv_le_Output [OF i(2)] rcv_le_frames(2)] i(3) by simp
  then show ?case using Receive_ok [OF rcv_input(4-6,2) i(1)] rcv_inv_le by blast
qed (blast intro: rcv_inv_le rcv_le_Fire rcv_le_api)+

lemma rcv_steps_ok:
  assumes "(rcv_step S b N up)\<^sup>*\<^sup>* e e'" "rcv_inv S b N e" "handler_api up" "N + 2 ^ 21 < 2 ^ 32" "alive e'"
  shows "rcv_inv S b N e'"
  using assms
proof (induction rule: rtranclp_induct)
  case (step y z)
  then have "alive y" by (auto elim: rcv_step.cases)
  then show ?case using step rcv_step_ok by blast
qed

definition rcv_start :: "32 word \<Rightarrow> tcp_entry \<Rightarrow> bool" where
  "rcv_start b e \<longleftrightarrow> (\<exists>a r p l iss. e = connect_start a r p l iss) \<or>
    (\<exists>p iss. e = listen_start p iss \<and> p_seq p + 1 = b)"

lemma rcv_start_ok: "rcv_start b e \<Longrightarrow> rcv_inv S b N e"
  by (auto simp: rcv_start_def rcv_inv_def connect_start_def listen_start_def connect_entry_def listen_entry_def
      new_entry_def EnqueueSegment_def part_def stash_ok_def Let_def)

text \<open>C4: The application receives the peer's byte stream, in order, without gaps, duplicates or
  reordering.  Take any history of a connection that starts with a \<open>Connect\<close> or an incoming SYN, in
  which packets arrive in any order, any number of times and overlapping, timers expire and the
  application (or its handler, from inside an upcall) uses the connection.  If every packet carries
  the piece of the stream \<open>S\<close> at its sequence number, stays within the window offered and below
  position \<open>N\<close>, and the stream is shorter than the sequence space, then as long as the entry exists
  the bytes passed to \<open>Receive\<close> upcalls are exactly the first \<open>m\<close> bytes of \<open>S\<close>, and an established
  connection acknowledges exactly those.\<close>

theorem tcp_delivers_stream:
  assumes "handler_api up" "N + 2 ^ 21 < 2 ^ 32" "rcv_start b e0" "(rcv_step S b N up)\<^sup>*\<^sup>* e0 e" "alive e"
  shows "\<exists>m. received (out e) = map S [0..<m] \<and> (state e = kEstablished \<longrightarrow> rcv_nxt e = b + of_nat m)"
  using rcv_steps_ok [OF assms(4) rcv_start_ok [OF assms(3)] assms(1,2,5)]
  by (auto simp: rcv_inv_def part_def)

text \<open>The demo connection receives positions 3 and 4 of a stream before positions 0 to 2.\<close>

definition demo_data :: "32 word \<Rightarrow> byte list \<Rightarrow> tcp_packet" where
  "demo_data sq d = \<lparr>p_src = [10, 0, 0, 2], p_dst = [10, 0, 0, 1], p_sport = 80, p_dport = 50000,
     p_seq = sq, p_ack = 0xFFFFFFFF, p_tcplen = length d, p_hf = SetHdrLenFlags 20 kTcpAck,
     p_wnd = 4, p_bufs = [replicate 20 0 @ d]\<rparr>"

definition demo_r1 :: tcp_entry where "demo_r1 = projr (Input demo_up 3 (demo_data 1004 [3, 4]) demo_e2)"

definition demo_r2 :: tcp_entry where "demo_r2 = projr (Input demo_up 4 (demo_data 1001 [0, 1, 2]) demo_r1)"

lemmas demo_recv_defs = demo_data_def Receive_ack_def ack_connected_def ack_window_def ack_closing_def
  TcpSeqBetween_def TcpSeqGEQ_def acceptable_def Receive_acceptable_def Receive_payload_def bytes_def
  Receive_established_def advance_head_def stash_insert_def Receive_fin_def kTcpUrg_def

lemma demo_e2_fields: "state demo_e2 = kEstablished" "rcv_nxt demo_e2 = 1001" "rcv_wnd demo_e2 = 2097152"
  by (simp_all add: demo_e2_def demo_e1_def demo_input_defs demo_start_defs demo_output_defs)

lemma demo_r1_fields: "Input demo_up 3 (demo_data 1004 [3, 4]) demo_e2 = Inr demo_r1" "alive demo_r1"
    "state demo_r1 = kEstablished" "rcv_nxt demo_r1 = 1001" "rcv_wnd demo_r1 = 2097152"
  by (simp_all add: demo_r1_def demo_recv_defs demo_e2_def demo_e1_def demo_input_defs demo_start_defs demo_output_defs alive_def)

lemma demo_r2_fields: "Input demo_up 4 (demo_data 1001 [0, 1, 2]) demo_r1 = Inr demo_r2" "alive demo_r2"
    "state demo_r2 = kEstablished" "rcv_nxt demo_r2 = 1006"
  by (simp_all add: demo_r2_def demo_r1_def demo_recv_defs demo_e2_def demo_e1_def demo_input_defs demo_start_defs demo_output_defs alive_def)

lemma demo_rcv_steps:
  "genuine of_nat 1001 100 demo_e2 (demo_data 1004 [3, 4])"
  "genuine of_nat 1001 100 demo_r1 (demo_data 1001 [0, 1, 2])"
  "(rcv_step of_nat 1001 100 demo_up)\<^sup>*\<^sup>* demo_start demo_r1"
proof -
  have g0: "genuine of_nat 1001 100 demo_e1 demo_synack"
    by (simp add: genuine_def demo_synack_def payload_def HdrLen_def SetHdrLenFlags_def kTcpSyn_def kTcpAck_def bytes_def)
  have h: "HdrLen (SetHdrLenFlags 20 kTcpAck) = 20" by (simp add: HdrLen_def SetHdrLenFlags_def kTcpAck_def)
  show g1: "genuine of_nat 1001 100 demo_e2 (demo_data 1004 [3, 4])"
    unfolding genuine_def by (intro conjI impI exI [of _ 3])
      (simp_all add: demo_data_def payload_def bytes_def part_def demo_e2_fields h upt_rec)
  show "genuine of_nat 1001 100 demo_r1 (demo_data 1001 [0, 1, 2])"
    unfolding genuine_def by (intro conjI impI exI [of _ 0])
      (simp_all add: demo_data_def payload_def bytes_def part_def demo_r1_fields h upt_rec)
  have "rcv_step of_nat 1001 100 demo_up demo_start demo_e1"
    by (rule rcv_app [OF demo_output(2) api_output [OF demo_output(1)]])
  moreover have "rcv_step of_nat 1001 100 demo_up demo_e1 demo_e2"
    by (rule rcv_input [OF demo_output(3) g0 demo_input(1)])
  moreover have "rcv_step of_nat 1001 100 demo_up demo_e2 demo_r1"
    by (rule rcv_input [OF demo_input(2) g1 demo_r1_fields(1)])
  ultimately show "(rcv_step of_nat 1001 100 demo_up)\<^sup>*\<^sup>* demo_start demo_r1" by simp
qed

lemma demo_rcv_run: "rcv_start 1001 demo_start" "(rcv_step of_nat 1001 100 demo_up)\<^sup>*\<^sup>* demo_start demo_r2"
proof -
  show "rcv_start 1001 demo_start" unfolding rcv_start_def demo_start_def by blast
  show "(rcv_step of_nat 1001 100 demo_up)\<^sup>*\<^sup>* demo_start demo_r2"
    using demo_rcv_steps(3) rcv_input [OF demo_r1_fields(2) demo_rcv_steps(2) demo_r2_fields(1)] by simp
qed

theorem tcp_delivers_stream_witness:
  "\<exists>m. received (out demo_r2) = map of_nat [0..<m] \<and> rcv_nxt demo_r2 = 1001 + of_nat m \<and> rcv_nxt demo_r2 = 1006"
  using tcp_delivers_stream [OF demo_handler _ demo_rcv_run demo_r2_fields(2)] demo_r2_fields(3,4) by auto

section \<open>Resets and closing\<close>

text \<open>C31: A reset in the receive window closes the connection without a word to the application.
  In every synchronised state an acceptable segment with RST purges the queues, stops the timers and
  destroys the entry, but no upcall is made, since the state is overwritten before it is examined.\<close>

theorem reset_without_abort:
  assumes "state e \<noteq> kSynSent" "acceptable p e" "unat (rcv_wnd e) < 2 ^ 31" "has (Flags (p_hf p)) kTcpRst"
  shows "Receive up now p e = Inr (teardown (e\<lparr>state := kClosed\<rparr>), False) \<and>
    (\<forall>u. Upcall u \<in> set (out (teardown (e\<lparr>state := kClosed\<rparr>))) \<longleftrightarrow> Upcall u \<in> set (out e))"
proof -
  have "Receive_ack up now p e = Inr e" using assms(4) by (simp add: Receive_ack_def Let_def)
  moreover have "Receive_acceptable up now p e = Inr (teardown (e\<lparr>state := kClosed\<rparr>), False)"
    using assms(4) acceptable_front(1) [OF assms(2,3)] by (simp add: Receive_acceptable_def Let_def)
  ultimately show ?thesis using assms(1,2)
    by (simp add: Receive_def teardown_def Entry_Destroy_def DisableTimers_def Purge_def emit_def)
qed

theorem reset_without_abort_witness:
  "Receive demo_up 5 ((demo_data 1001 [])\<lparr>p_hf := SetHdrLenFlags 20 kTcpRst\<rparr>) demo_e2 =
     Inr (teardown (demo_e2\<lparr>state := kClosed\<rparr>), False)"
proof -
  have "has (Flags (SetHdrLenFlags 20 kTcpRst)) kTcpRst"
    by (simp add: has_def Flags_def SetHdrLenFlags_def kTcpRst_def kTcpFlagMask_def)
  then show ?thesis
    using reset_without_abort [of demo_e2 "(demo_data 1001 [])\<lparr>p_hf := SetHdrLenFlags 20 kTcpRst\<rparr>" demo_up 5]
    by (simp add: demo_e2_fields demo_data_def acceptable_def)
qed

text \<open>C32: A FIN is taken out of order.  On an established connection, an acceptable segment with
  ACK and FIN and no payload, at any distance \<open>k\<close> inside the window beyond \<open>rcv_nxt\<close>, moves the
  connection to \<open>kCloseWait\<close> at once, tells the application that the peer has closed, and sets
  \<open>rcv_nxt\<close> beyond the FIN: the \<open>k\<close> bytes in between count as received without having been
  delivered.\<close>

theorem early_fin:
  assumes "state e = kEstablished" "p_seq p = rcv_nxt e + of_nat k" "k \<le> unat (rcv_wnd e)" "rcv_wnd e \<noteq> 0"
    "unat (rcv_wnd e) < 2 ^ 31" "bytes (p_bufs p) = HdrLen (p_hf p)" "Flags (p_hf p) = kTcpFin OR kTcpAck" "p_tcplen p = 1"
  shows "acceptable p e \<and> Receive_acceptable up now p e =
    Inr (call up UpClose (e\<lparr>rcv_nxt := rcv_nxt e + of_nat (k + 1), state := kCloseWait\<rparr>), True)"
proof -
  have u: "unat (of_nat k :: 32 word) = k" using assms(3,5) by simp
  have acc: "acceptable p e"
    using assms(2,3,4) u by (simp add: acceptable_def TcpSeqBetween_def word_le_nat_alt word_gt_0)
  have f: "has (kTcpFin OR kTcpAck) kTcpFin" "\<not> has (kTcpFin OR kTcpAck) kTcpRst" "\<not> has (kTcpFin OR kTcpAck) kTcpSyn"
    "has (kTcpFin OR kTcpAck) kTcpAck" "\<not> has (kTcpFin OR kTcpAck) kTcpUrg"
    by (simp_all add: has_def kTcpFin_def kTcpAck_def kTcpRst_def kTcpSyn_def kTcpUrg_def)
  have "Receive_acceptable up now p e =
    Inr (call up UpClose (e\<lparr>rcv_nxt := rcv_nxt e + of_nat (k + 1), state := kCloseWait\<rparr>), True)"
    using acceptable_front(1) [OF acc assms(5)] assms f
    by (simp add: Receive_acceptable_def Let_def Receive_payload_def Receive_fin_def add.commute add.left_commute)
  with acc show ?thesis by simp
qed

theorem early_fin_witness:
  "Receive_acceptable demo_up 5 ((demo_data 1500 [])\<lparr>p_hf := SetHdrLenFlags 20 (kTcpFin OR kTcpAck), p_tcplen := 1\<rparr>) demo_e2 =
     Inr (call demo_up UpClose (demo_e2\<lparr>rcv_nxt := 1501, state := kCloseWait\<rparr>), True)"
proof -
  have "HdrLen (SetHdrLenFlags 20 (kTcpFin OR kTcpAck)) = 20"
    by (simp add: HdrLen_def SetHdrLenFlags_def kTcpFin_def kTcpAck_def)
  then show ?thesis
    using early_fin [of demo_e2 "(demo_data 1500 [])\<lparr>p_hf := SetHdrLenFlags 20 (kTcpFin OR kTcpAck), p_tcplen := 1\<rparr>" 499 demo_up 5]
    by (simp add: demo_e2_fields demo_data_def bytes_def)
qed

section \<open>Progress\<close>

lemma Receive_established_next:
  assumes inv: "rcv_inv S b N e" and N: "N + 2 ^ 21 < 2 ^ 32" and st: "state e = kEstablished"
    and hd: "p_bufs p = v # vs" "HdrLen (p_hf p) \<le> length v"
    and plen: "HdrLen (p_hf p) + l = bytes (p_bufs p)" "l = length (payload p)"
    and n: "rcv_nxt e = b + of_nat n" "payload p = part S n (n + l)" "n + l \<le> N" "n + l \<le> unat (rcv_nxt e - b) + unat (rcv_wnd e)"
    and sq: "p_seq p = rcv_nxt e"
  shows "\<exists>t x e2. Receive_established up p l e = Inr (Inr (t, call up (UpReceive (payload p @ x)) e2)) \<and> out e2 = out e \<and>
    rcv_nxt e2 = rcv_nxt e + of_nat (length (payload p @ x))"
proof -
  obtain m where m: "m \<le> N" "rcv_nxt e = b + of_nat m" "stash_ok S b (min N (m + unat (rcv_wnd e))) (stashed_segments e)"
    using inv st by (auto simp: rcv_inv_def)
  have nm: "n = m" using pos_unique [of b n m] n(1,3) m N by simp
  have pos: "unat (rcv_nxt e - b) = m" using m(1,2) N by simp
  obtain st' pl buf where loop: "stash_loop (stashed_segments e) (unat (rcv_nxt e)) l (p_bufs p) = (st', pl, buf)"
    by (metis prod_cases3)
  define h where "h = take (HdrLen (p_hf p)) (concat (p_bufs p))"
  have h: "concat (p_bufs p) = h @ part S m (m + l)"
    using n(2) nm unfolding h_def payload_def by (metis append_take_drop_id)
  have ok: "l \<le> pl" "m + pl \<le> min N (m + unat (rcv_wnd e))" "\<exists>x. buf = p_bufs p @ x" "concat buf = h @ part S m (m + pl)"
    using stash_loop_ok [OF loop [unfolded m(2)] m(3) _ _ h] N n nm pos by auto
  obtain x where x: "buf = v # (vs @ x)" using ok(3) hd(1) by auto
  have a: "advance_head (HdrLen (p_hf p)) buf = Inr (drop (HdrLen (p_hf p)) v # (vs @ x))"
    using hd(2) x by (simp add: advance_head_def)
  have "length h = HdrLen (p_hf p)" using plen(1) by (simp add: h_def bytes_def)
  then have "concat (drop (HdrLen (p_hf p)) v # (vs @ x)) = part S m (m + pl)"
    using advance_head_Inr [OF a] ok(4) by simp
  also have "\<dots> = payload p @ part S (m + l) (m + pl)"
    unfolding n(2) nm using ok(1) by (intro part_append [symmetric]) simp_all
  finally have d: "concat (drop (HdrLen (p_hf p)) v # (vs @ x)) = payload p @ part S (m + l) (m + pl)" .
  have "\<not> TcpSeqGT (p_seq p) (rcv_nxt e)" by (simp add: sq seq_gt)
  moreover have "\<not> unat (rcv_wnd e) < pl" using ok(2) by simp
  ultimately have "Receive_established up p l e =
      Inr (Inr (p_tcplen p, call up (UpReceive (payload p @ part S (m + l) (m + pl)))
        (e\<lparr>stashed_segments := st', rcv_nxt := rcv_nxt e + of_nat pl,
          rcv_wnd := (if close_window e then rcv_wnd e - of_nat pl else rcv_wnd e)\<rparr>)))"
    by (simp add: Receive_established_def loop a Let_def min_def not_less d [simplified])
  moreover have "length (payload p @ part S (m + l) (m + pl)) = pl" using ok(1) plen(2) by simp
  ultimately show ?thesis by fastforce
qed

text \<open>The processing of the acknowledgement goes on with an entry whose receive side is the same.\<close>

lemma Receive_ack_established:
  assumes up: "handler_api up" and st: "state e = kEstablished" and sq: "p_seq p = rcv_nxt e"
    and fl: "Flags (p_hf p) = kTcpAck" and ack: "\<not> TcpSeqGT (p_ack p) (snd_nxt e)"
    and keep: "\<And>x. state x = kEstablished \<Longrightarrow> state (up UpSendWindowIncrease x) = kEstablished"
  shows "\<exists>e1. Receive_ack up now p e = Inr e1 \<and> rcv_le e e1 \<and> state e1 = kEstablished"
proof -
  define e2 where "e2 = ClearAckedSegments (p_ack p) (ack_window p e)"
  define e3 where "e3 = (if window_notify e2 then call up UpSendWindowIncrease e2 else e2)"
  have "rcv_le e (ack_window p e)" by simp
  also have "rcv_le \<dots> e2" by (simp add: e2_def)
  finally have 2: "rcv_le e e2" .
  have s2: "state e2 = kEstablished" using st by (simp add: e2_def ClearAckedSegments_def ack_window_def DisableTimers_def emit_def Let_def)
  have 3: "rcv_le e e3" "state e3 = kEstablished"
    using rcv_le_trans [OF 2 rcv_le_call_other [OF up]] 2 s2 keep by (auto simp: e3_def call_def emit_def)
  have f: "has kTcpAck kTcpAck" "\<not> has kTcpAck kTcpSyn" "\<not> has kTcpAck kTcpRst"
    by (simp_all add: has_def kTcpAck_def kTcpRst_def kTcpSyn_def)
  have cl: "ack_closing now p x = x" if "state x = kEstablished" for x using that by (simp add: ack_closing_def)
  have "Receive_ack up now p e = Inr (if TcpSeqBetween (p_ack p) (snd_una e) (snd_nxt e) then e3 else e)"
    using f st ack cl 3(2) by (simp add: Receive_ack_def fl sq seq_geq ack_connected_def Let_def e2_def [symmetric] e3_def [symmetric])
  then show ?thesis using 3 st by auto
qed

lemma genuine_le: "genuine S b N e p \<Longrightarrow> rcv_le e e1 \<Longrightarrow> state e1 = state e \<Longrightarrow> unat (rcv_wnd e) \<le> 2 ^ 21 \<Longrightarrow> genuine S b N e1 p"
  unfolding genuine_def rcv_le_def by (elim conjE disjE) (fastforce simp: kTcpWnd_val)+

lemma Receive_acceptable_next:
  assumes "rcv_inv S b N e" "handler_api up" "N + 2 ^ 21 < 2 ^ 32" "state e = kEstablished"
    "genuine S b N e p" "payload p \<noteq> []" "p_seq p = rcv_nxt e"
    "p_bufs p = v # vs" "HdrLen (p_hf p) \<le> length v" "Flags (p_hf p) = kTcpAck"
  shows "acceptable p e \<and> (\<exists>e' x. Receive_acceptable up now p e = Inr (e', True) \<and>
    received (out e') = received (out e) @ payload p @ x \<and> rcv_nxt e' = rcv_nxt e + of_nat (length (payload p @ x)))"
proof -
  have g: "HdrLen (p_hf p) \<le> bytes (p_bufs p)" "bytes (p_bufs p) < 2 ^ 64" using assms(5) by (auto simp: genuine_def)
  obtain n where n: "p_seq p = b + of_nat n" "payload p = part S n (n + length (payload p))"
    "n + length (payload p) \<le> N" "n + length (payload p) \<le> unat (rcv_nxt e - b) + unat (rcv_wnd e)"
    using assms(4,5,6) by (auto simp: genuine_def)
  obtain t x e2 where r: "Receive_established up p (length (payload p)) e = Inr (Inr (t, call up (UpReceive (payload p @ x)) e2))"
    "out e2 = out e" "rcv_nxt e2 = rcv_nxt e + of_nat (length (payload p @ x))"
    using Receive_established_next [OF assms(1,3,4,8,9) payload_len(2) [OF g] refl n(1) [unfolded assms(7)] n(2-4) assms(7)] by blast
  have nz: "rcv_wnd e \<noteq> 0"
  proof
    assume "rcv_wnd e = 0"
    moreover have "n = unat (rcv_nxt e - b)" using n(1,3) assms(3,7) by simp
    ultimately show False using n(4) assms(6) by simp
  qed
  then have acc: "acceptable p e" by (simp add: acceptable_def TcpSeqBetween_def assms(7) word_gt_0)
  have f: "\<not> has kTcpAck kTcpRst" "\<not> has kTcpAck kTcpSyn" "has kTcpAck kTcpAck" "\<not> has kTcpAck kTcpUrg" "\<not> has kTcpAck kTcpFin"
    by (simp_all add: has_def kTcpFin_def kTcpAck_def kTcpRst_def kTcpSyn_def kTcpUrg_def)
  have pay: "Receive_payload up p e = Inr (Inr (t, call up (UpReceive (payload p @ x)) e2))"
    unfolding Receive_payload_def Let_def payload_len(1) [OF g] using r(1) assms(4,6) by simp
  have "Receive_acceptable up now p e = Inr (call up (UpReceive (payload p @ x)) e2, True)"
    using f by (simp add: Receive_acceptable_def Let_def assms(7,10) seq_gt pay Receive_fin_def)
  moreover have "received (out (call up (UpReceive (payload p @ x)) e2)) = received (out e) @ payload p @ x"
    "rcv_nxt (call up (UpReceive (payload p @ x)) e2) = rcv_nxt e2"
    using rcv_le_call [OF assms(2), of e2 "UpReceive (payload p @ x)"] r(2) by (simp_all add: rcv_le_def)
  ultimately show ?thesis using acc r(3) by metis
qed

text \<open>C20: An in-order segment is delivered.  On an established connection whose receive side is
  well-formed, a plain ACK segment of the peer at \<open>rcv_nxt\<close>, with its header in the first view and
  an acknowledgement of nothing not yet sent, goes through the whole of \<open>Receive\<close> without a fault:
  exactly its payload, without the header, is the next data the application receives, followed by
  nothing but what the stash continues it with, and \<open>rcv_nxt\<close> advances by what was delivered.
  The application does not close the connection inside the upcall for the send window.\<close>

theorem in_order_progress:
  assumes "rcv_inv S b N e" "handler_api up" "N + 2 ^ 21 < 2 ^ 32" "state e = kEstablished"
    "genuine S b N e p" "payload p \<noteq> []" "p_seq p = rcv_nxt e"
    "p_bufs p = v # vs" "HdrLen (p_hf p) \<le> length v" "Flags (p_hf p) = kTcpAck"
    "\<not> TcpSeqGT (p_ack p) (snd_nxt e)"
    "\<And>x. state x = kEstablished \<Longrightarrow> state (up UpSendWindowIncrease x) = kEstablished"
  shows "\<exists>e' x. Receive up now p e = Inr (e', True) \<and>
    received (out e') = received (out e) @ payload p @ x \<and>
    rcv_nxt e' = rcv_nxt e + of_nat (length (payload p @ x))"
proof -
  obtain e1 where e1: "Receive_ack up now p e = Inr e1" "rcv_le e e1" "state e1 = kEstablished"
    using Receive_ack_established [OF assms(2,4,7,10,11,12)] by blast
  have "unat (rcv_wnd e) \<le> 2 ^ 21" using assms(1) by (simp add: rcv_inv_def)
  then have g: "genuine S b N e1 p" using genuine_le [OF assms(5) e1(2)] e1(3) assms(4) by simp
  have k: "rcv_nxt e1 = rcv_nxt e" "received (out e1) = received (out e)" using e1(2) by (simp_all add: rcv_le_def)
  have "p_seq p = rcv_nxt e1" using assms(7) k by simp
  from Receive_acceptable_next [OF rcv_inv_le [OF assms(1) e1(2)] assms(2,3) e1(3) g assms(6) this assms(8-10)]
  show ?thesis using e1(1) assms(4) k by (simp add: Receive_def)
qed

theorem in_order_progress_witness:
  "\<exists>e' x. Receive demo_up 4 (demo_data 1001 [0, 1, 2]) demo_r1 = Inr (e', True) \<and>
     received (out e') = received (out demo_r1) @ [0, 1, 2] @ x \<and>
     rcv_nxt e' = 1001 + of_nat (length ([0, 1, 2] @ x))"
proof -
  have "rcv_inv of_nat 1001 100 demo_r1"
    using rcv_steps_ok [OF _ rcv_start_ok [OF demo_rcv_run(1)] demo_handler _ demo_r1_fields(2)] demo_rcv_steps(3) by simp
  moreover have "genuine of_nat 1001 100 demo_r1 (demo_data 1001 [0, 1, 2])" by (rule demo_rcv_steps(2))
  moreover have p: "payload (demo_data 1001 [0, 1, 2]) = [0, 1, 2]" "HdrLen (p_hf (demo_data 1001 [0, 1, 2])) = 20"
    "Flags (p_hf (demo_data 1001 [0, 1, 2])) = kTcpAck"
    by (simp_all add: payload_def demo_data_def HdrLen_def SetHdrLenFlags_def kTcpAck_def Flags_def kTcpFlagMask_def)
  moreover have "\<not> TcpSeqGT (p_ack (demo_data 1001 [0, 1, 2])) (snd_nxt demo_r1)"
    by (simp add: demo_r1_def demo_recv_defs demo_e2_def demo_e1_def demo_input_defs demo_start_defs demo_output_defs)
  moreover have "state (demo_up UpSendWindowIncrease x) = kEstablished" if "state x = kEstablished" for x
    using that by (simp add: demo_up_def OpenWindow_def)
  ultimately show ?thesis
    using in_order_progress [of of_nat 1001 100 demo_r1 demo_up "demo_data 1001 [0, 1, 2]" "replicate 20 0 @ [0, 1, 2]" "[]" 4]
    by (simp add: demo_handler demo_r1_fields(3,4)) (simp add: demo_data_def)
qed

end
