(* ===== verification/NetTcpState.thy ===== *)
theory NetTcpState
  imports NetTcpRecv
begin

text \<open>
  The states a connection goes through, against the state diagram of RFC 793.
\<close>

section \<open>The state diagram\<close>

text \<open>The transitions of RFC 793 (without LISTEN), with a reset to \<open>kClosed\<close> from every state.\<close>

inductive rfc793 :: "tcp_state \<Rightarrow> tcp_state \<Rightarrow> bool" where
  rfc_synack: "rfc793 kSynSent kEstablished"
| rfc_ack: "rfc793 kSynReceived kEstablished"
| rfc_close_syn: "rfc793 kSynReceived kFinWait1"
| rfc_close: "rfc793 kEstablished kFinWait1"
| rfc_fin: "rfc793 kEstablished kCloseWait"
| rfc_fin_syn: "rfc793 kSynReceived kCloseWait"
| rfc_ack_fin: "rfc793 kFinWait1 kFinWait2"
| rfc_both: "rfc793 kFinWait1 kClosing"
| rfc_fin2: "rfc793 kFinWait2 kTimeWait"
| rfc_closing: "rfc793 kClosing kTimeWait"
| rfc_last: "rfc793 kCloseWait kLastAck"
| rfc_reset: "rfc793 st kClosed"

abbreviation st_le :: "tcp_entry \<Rightarrow> tcp_entry \<Rightarrow> bool" where
  "st_le e e' \<equiv> rfc793\<^sup>*\<^sup>* (state e) (state e')"

lemma rfc_step: "rfc793 (state e) (state e') \<Longrightarrow> st_le e e'"
  by (rule r_into_rtranclp)

lemma rfc_closed: "rfc793\<^sup>*\<^sup>* st kClosed"
  by (rule r_into_rtranclp) (rule rfc_reset)

lemma state_frames [simp]:
  "state (SendEmptyAck e) = state e" "state (SetTimer now e) = state e" "state (DisableTimers e) = state e"
  "state (reply_reset p a n e) = state e" "state (EnqueueSegment d f os e) = state e" "state (SendFin e) = state e"
  "state (ClearAckedSegments ack e) = state e" "state (ack_window p e) = state e" "state (OpenWindow e) = state e"
  "state (CloseWindow e) = state e" "state (SetWindowNotify c e) = state e" "state (Purge e) = state e"
  "state (SendSegment s e) = state e" "state (emit ev e) = state e" "state (teardown e) = state e"
  by (simp_all add: SendEmptyAck_def SetTimer_def DisableTimers_def reply_reset_def EnqueueSegment_def SendFin_def
      ClearAckedSegments_def ack_window_def emit_def OpenWindow_def CloseWindow_def SetWindowNotify_def
      SendSegment_def Purge_def teardown_def Entry_Destroy_def Let_def)

lemma state_fold: "state (fold SendSegment ss e) = state e"
  by (induction ss arbitrary: e) auto

lemma state_Output: "Output now e = Inr e' \<Longrightarrow> state e' = state e"
  by (auto simp: Output_def output_loop_eq Let_def state_fold split: if_splits)

lemma state_Close: "Close e = Inr e' \<Longrightarrow> st_le e e'"
  by (auto simp: Close_def intro!: r_into_rtranclp rfc793.intros split: tcp_state.splits)

lemma state_api: "api e e' \<Longrightarrow> st_le e e'"
proof (induction rule: api.induct)
  case (api_send dat e e')
  then show ?case using Pcb_Send_Inr by fastforce
next
  case (api_output now e e')
  then show ?case by (auto simp: Pcb_Output_def bindr_eq_Inr_iff dest: state_Output)
next
  case (api_delete now e e')
  then obtain e1 e2 where e: "Close e = Inr e1" "Output now e1 = Inr e2" "e' = SetTimer now e2"
    by (auto simp: Pcb_Delete_def bindr_eq_Inr_iff)
  then show ?case using state_Close [OF e(1)] state_Output [OF e(2)] by simp
qed simp_all

lemma state_apis: "api\<^sup>*\<^sup>* e e' \<Longrightarrow> st_le e e'"
  by (induction rule: rtranclp_induct) (auto dest: state_api)

lemma state_call: "handler_api up \<Longrightarrow> st_le e (call up u e)"
  using state_apis [of "emit (Upcall u) e" "call up u e"] by (simp add: handler_api_def call_def)

lemma state_to_Closed: "handler_api up \<Longrightarrow> state e1 = kClosed \<Longrightarrow> rfc793\<^sup>*\<^sup>* st (state (call up u e1))"
  using state_call [of up e1 u] rfc_reset [of st] by (metis converse_rtranclp_into_rtranclp)

lemma state_ack_closing: "st_le e (ack_closing now p e)"
  by (auto simp: ack_closing_def intro: rfc_step rfc793.intros)

lemma state_Receive_SynSent:
  assumes "handler_api up" "state e = kSynSent" "Receive_SynSent up p e = Inr (e', b)"
  shows "st_le e e'"
proof -
  have "rfc793\<^sup>*\<^sup>* kSynSent (state (call up UpConnected (ClearAckedSegments (p_ack p) (e\<lparr>rcv_nxt := p_seq p + 1,
      rcv_last_acked := p_seq p, snd_una := p_ack p, state := kEstablished, snd_wnd := wnd_of p,
      snd_wl1 := p_seq p, snd_wl2 := p_ack p\<rparr>))))"
    using converse_rtranclp_into_rtranclp [OF rfc_synack state_call [OF assms(1),
      of "ClearAckedSegments (p_ack p) (e\<lparr>rcv_nxt := p_seq p + 1,
      rcv_last_acked := p_seq p, snd_una := p_ack p, state := kEstablished, snd_wnd := wnd_of p,
      snd_wl1 := p_seq p, snd_wl2 := p_ack p\<rparr>)" UpConnected, simplified]] .
  then show ?thesis using assms(2,3) state_to_Closed [OF assms(1)]
    by (auto simp: Receive_SynSent_def Let_def split: if_splits)
qed

lemma state_Receive_ack:
  assumes up: "handler_api up"
  shows "Receive_ack up now p e = Inl (e', c) \<Longrightarrow> st_le e e'" and "Receive_ack up now p e = Inr e' \<Longrightarrow> st_le e e'"
proof -
  define e1 where "e1 = (if state e = kSynReceived
      then e\<lparr>state := kEstablished, snd_wnd := wnd_of p, snd_wl1 := p_seq p, snd_wl2 := p_ack p\<rparr> else e)"
  have 1: "st_le e e1" by (auto simp: e1_def intro: rfc_step rfc793.intros)
  define e2 where "e2 = ClearAckedSegments (p_ack p) (ack_window p e1)"
  define e3 where "e3 = (if window_notify e2 then call up UpSendWindowIncrease e2 else e2)"
  have 3: "st_le e1 e3" using state_call [OF up, of e2] by (simp add: e3_def e2_def)
  have c: "rfc793\<^sup>*\<^sup>* st kClosed" for st by (blast intro: rfc_reset)
  note defs = Receive_ack_def ack_connected_def Let_def e1_def [symmetric] e2_def [symmetric] e3_def [symmetric]
  show "Receive_ack up now p e = Inl (e', c) \<Longrightarrow> st_le e e'"
    using 1 c by (auto simp: defs split: if_splits)
  have "st_le e (ack_closing now p e3)" "st_le e (ack_closing now p e1)"
    using 1 3 state_ack_closing by (meson rtranclp_trans)+
  then show "Receive_ack up now p e = Inr e' \<Longrightarrow> st_le e e'"
    using 1 by (auto simp: defs split: if_splits)
qed

lemma state_Receive_payload:
  assumes up: "handler_api up"
  shows "Receive_payload up p e = Inr (Inl (e', c)) \<Longrightarrow> st_le e e'" and "Receive_payload up p e = Inr (Inr (t, e')) \<Longrightarrow> st_le e e'"
proof -
  have c: "rfc793\<^sup>*\<^sup>* kEstablished (state (call up u e1))" if "state e1 = kEstablished" for e1 u
    using state_call [OF up, of e1 u] that by simp
  show "Receive_payload up p e = Inr (Inl (e', c)) \<Longrightarrow> st_le e e'"
    by (auto simp: Receive_payload_def Receive_established_def Let_def bindr_eq_Inr_iff
        intro: rfc_closed split: if_splits prod.splits)
  show "Receive_payload up p e = Inr (Inr (t, e')) \<Longrightarrow> st_le e e'"
    by (auto intro!: c simp: Receive_payload_def Receive_established_def Let_def bindr_eq_Inr_iff split: if_splits prod.splits)
qed

lemma state_Receive_fin: "handler_api up \<Longrightarrow> st_le e (Receive_fin up now p t e)"
  using state_call [of up "e\<lparr>rcv_nxt := p_seq p + of_nat t, state := kCloseWait\<rparr>" UpClose]
  by (auto simp: Receive_fin_def Let_def intro: rfc_step rfc793.intros converse_rtranclp_into_rtranclp split: tcp_state.split)

lemma state_Receive_acceptable:
  assumes up: "handler_api up" and r: "Receive_acceptable up now p e = Inr (e', True)"
  shows "st_le e e'"
  using r
proof (cases rule: Receive_acceptable_cases)
  case (goes q l e1)
  then show ?thesis using rtranclp_trans [OF state_Receive_payload(2) [OF up goes(2)] state_Receive_fin [OF up]] by simp
qed (use state_Receive_payload(1) [OF up] in auto)

lemma state_Receive:
  assumes up: "handler_api up" and r: "Receive up now p e = Inr (e', True)"
  shows "st_le e e'"
proof (cases "state e = kSynSent")
  case True
  then show ?thesis using state_Receive_SynSent [OF up True] r by (simp add: Receive_def)
next
  case False
  show ?thesis
  proof (cases "Receive_ack up now p e")
    case (Inl a)
    then show ?thesis using r False state_Receive_ack(1) [OF up] by (cases a) (auto simp: Receive_def)
  next
    case (Inr e1)
    have "st_le e e1" by (rule state_Receive_ack(2) [OF up Inr])
    moreover have "st_le e1 e'"
      using r False Inr state_Receive_acceptable [OF up] by (auto simp: Receive_def split: if_splits)
    ultimately show ?thesis by (rule rtranclp_trans)
  qed
qed

lemma rfc_back: "rfc793\<^sup>*\<^sup>* st st' \<Longrightarrow> st' = kEstablished \<Longrightarrow> st \<in> {kSynSent, kSynReceived, kEstablished}"
  by (induction rule: converse_rtranclp_induct) (auto elim: rfc793.cases)

lemma step_state:
  assumes "handler_api up" "tcp_step up e e'" "alive e'"
  shows "st_le e e'"
  using assms(2,3)
proof (induction rule: tcp_step.induct)
  case (step_input e now p e')
  then show ?case by (elim Input_alive) (auto dest!: state_Output state_Receive [OF assms(1)])
next
  case (step_fire e now e')
  then show ?case using Fire_alive [OF step_fire(2,3)] state_Output by fastforce
qed (rule state_api)

text \<open>C26: Connections follow the TCP state diagram.  Whatever packet arrives, whichever timer
  expires and whatever the application or its handler does, a step of a connection that survives it
  changes its state only along the transitions of RFC 793; in particular a connection that has left
  \<open>kEstablished\<close> never returns to it.\<close>

theorem tcp_state_diagram:
  assumes "handler_api up" "tcp_step up e e'" "alive e'"
  shows "rfc793\<^sup>*\<^sup>* (state e) (state e') \<and>
    (state e' = kEstablished \<longrightarrow> state e \<in> {kSynSent, kSynReceived, kEstablished})"
  using step_state [OF assms] rfc_back by blast

theorem tcp_state_diagram_witness: "rfc793\<^sup>*\<^sup>* (state demo_e1) (state demo_e2) \<and> state demo_e2 = kEstablished"
  using tcp_state_diagram [OF demo_handler step_input [OF demo_output(3) demo_input(1)] demo_input(2)]
    demo_e2_fields(1) by blast
end
