(* ===== verification/RcuList.thy ===== *)
theory RcuList
  imports EbbPrelude "HOL-Library.Sublist"
begin

text \<open>
  The RCU hash list of \<open>src/src/native/RcuList.h\<close>.  A node is its address; its hook has a
  \<open>next\<close> pointer and a \<open>pprev\<close> pointer to the cell that points at it, which is the head of a list
  or the \<open>next\<close> field of another node.  A writer's operation is the sequence of its stores in
  program order, so that the states a concurrent reader can see are the results of the prefixes of
  that sequence.
\<close>

section \<open>Cells and stores\<close>

type_synonym lst = "nat \<times> nat"

datatype cell = Head lst | Next nat

record rheap =
  heads :: "lst \<Rightarrow> nat option"
  nexts :: "nat \<Rightarrow> nat option"
  pprevs :: "nat \<Rightarrow> cell"

datatype hstore = WCell cell "nat option" | WPprev nat cell

fun cell_get :: "cell \<Rightarrow> rheap \<Rightarrow> nat option" where
  "cell_get (Head l) h = heads h l"
| "cell_get (Next x) h = nexts h x"

fun store1 :: "hstore \<Rightarrow> rheap \<Rightarrow> rheap" where
  "store1 (WCell (Head l) v) h = h\<lparr>heads := (heads h)(l := v)\<rparr>"
| "store1 (WCell (Next x) v) h = h\<lparr>nexts := (nexts h)(x := v)\<rparr>"
| "store1 (WPprev x c) h = h\<lparr>pprevs := (pprevs h)(x := c)\<rparr>"

definition exec :: "hstore list \<Rightarrow> rheap \<Rightarrow> rheap" where
  "exec ws h = fold store1 ws h"

section \<open>The operations\<close>

definition push_front :: "lst \<Rightarrow> nat \<Rightarrow> rheap \<Rightarrow> hstore list" where
  "push_front l x h =
    (let hd = heads h l in
     [WCell (Next x) hd, WPprev x (Head l), WCell (Head l) (Some x)] @
     (case hd of None \<Rightarrow> [] | Some y \<Rightarrow> [WPprev y (Next x)]))"

definition insert_before :: "nat \<Rightarrow> nat \<Rightarrow> rheap \<Rightarrow> hstore list" where
  "insert_before x y h =
    (let pprev = pprevs h y in
     [WPprev x pprev, WCell (Next x) (Some y), WCell pprev (Some x), WPprev y (Next x)])"

definition insert_after :: "nat \<Rightarrow> nat \<Rightarrow> rheap \<Rightarrow> hstore list" where
  "insert_after x y h =
    (let nx = nexts h y in
     [WCell (Next x) nx, WPprev x (Next y), WCell (Next y) (Some x)] @
     (case nx of None \<Rightarrow> [] | Some z \<Rightarrow> [WPprev z (Next x)]))"

definition erase :: "nat \<Rightarrow> rheap \<Rightarrow> hstore list" where
  "erase x h =
    (let nx = nexts h x; pprev = pprevs h x in
     WCell pprev nx # (case nx of None \<Rightarrow> [] | Some y \<Rightarrow> [WPprev y pprev]))"

definition clear :: "lst \<Rightarrow> rheap \<Rightarrow> hstore list" where
  "clear l h = [WCell (Head l) None]"

definition clear_after :: "nat \<Rightarrow> rheap \<Rightarrow> hstore list" where
  "clear_after x h = [WCell (Next x) None]"

definition splice_after :: "nat \<Rightarrow> nat \<Rightarrow> rheap \<Rightarrow> hstore list" where
  "splice_after x y h = [WPprev x (Next y), WCell (Next y) (Some x)]"

definition set_head :: "lst \<Rightarrow> nat \<Rightarrow> rheap \<Rightarrow> hstore list" where
  "set_head l x h = [WCell (Head l) (Some x)]"

text \<open>Iteration follows the \<open>next\<close> pointers; \<open>splice_end\<close> first walks to the last node.\<close>

partial_function (option) iter :: "rheap \<Rightarrow> nat option \<Rightarrow> nat list option" where
  "iter h p = (case p of None \<Rightarrow> Some [] | Some x \<Rightarrow> Option.bind (iter h (nexts h x)) (\<lambda>r. Some (x # r)))"

definition hempty :: "lst \<Rightarrow> rheap \<Rightarrow> bool" where
  "hempty l h \<longleftrightarrow> heads h l = None"

definition splice_end :: "lst \<Rightarrow> nat \<Rightarrow> rheap \<Rightarrow> hstore list result option" where
  "splice_end l x h =
    (if hempty l h then Some (Inl (KAssert ''!empty()''))
     else map_option (\<lambda>xs. Inr [WPprev x (Next (last xs)), WCell (Next (last xs)) (Some x)]) (iter h (heads h l)))"

section \<open>Lists in the heap\<close>

fun lseg :: "rheap \<Rightarrow> nat option \<Rightarrow> nat list \<Rightarrow> bool" where
  "lseg h p [] \<longleftrightarrow> p = None"
| "lseg h p (x # xs) \<longleftrightarrow> p = Some x \<and> lseg h (nexts h x) xs"

fun backs :: "rheap \<Rightarrow> cell \<Rightarrow> nat list \<Rightarrow> bool" where
  "backs h c [] \<longleftrightarrow> True"
| "backs h c (x # xs) \<longleftrightarrow> pprevs h x = c \<and> backs h (Next x) xs"

definition hlist :: "rheap \<Rightarrow> lst \<Rightarrow> nat list \<Rightarrow> bool" where
  "hlist h l xs \<longleftrightarrow> lseg h (heads h l) xs \<and> backs h (Head l) xs \<and> distinct xs"

lemma iter_lseg: "lseg h p xs \<Longrightarrow> iter h p = Some xs"
  by (induction xs arbitrary: p) (subst iter.simps, simp)+

lemma lseg_unique: "lseg h p xs \<Longrightarrow> lseg h p ys \<Longrightarrow> xs = ys"
  by (auto dest!: iter_lseg)

lemma lseg_frame: "lseg h p xs \<Longrightarrow> \<forall>x \<in> set xs. nexts h' x = nexts h x \<Longrightarrow> lseg h' p xs"
  by (induction xs arbitrary: p) auto

lemma backs_frame: "backs h c xs \<Longrightarrow> \<forall>x \<in> set xs. pprevs h' x = pprevs h x \<Longrightarrow> backs h' c xs"
  by (induction xs arbitrary: c) auto

lemma exec_simps [simp]: "exec [] h = h" "exec (w # ws) h = exec ws (store1 w h)"
  by (simp_all add: exec_def)

lemma exec_append [simp]: "exec (ws @ vs) h = exec vs (exec ws h)"
  by (simp add: exec_def)



lemma backs_append: "backs h c (us @ ys) \<longleftrightarrow> backs h c us \<and> backs h (if us = [] then c else Next (last us)) ys"
  by (induction us arbitrary: c) auto

text \<open>The cell that points at what follows a prefix of a list.\<close>

definition before :: "lst \<Rightarrow> nat list \<Rightarrow> cell" where
  "before l us = (if us = [] then Head l else Next (last us))"

lemma lseg_split: "lseg h p (us @ ys) \<Longrightarrow> lseg h (if us = [] then p else nexts h (last us)) ys"
  by (induction us arbitrary: p) auto

lemma lseg_join:
  assumes "lseg h p (us @ ys)" "us \<noteq> []" "distinct us" "lseg h' q zs" "nexts h' (last us) = q"
    "\<forall>u \<in> set us - {last us}. nexts h' u = nexts h u"
  shows "lseg h' p (us @ zs)"
  using assms
proof (induction us arbitrary: p)
  case (Cons u us)
  show ?case
  proof (cases "us = []")
    case False
    then have "u \<noteq> last us" using Cons.prems(3) by auto
    then show ?thesis using Cons False by auto
  qed (use Cons in auto)
qed simp

lemma hlist_reader: "hlist h l (us @ ys) \<Longrightarrow> lseg h (cell_get (before l us) h) ys"
  using lseg_split [of h "heads h l" us ys] by (auto simp: hlist_def before_def split: if_splits)

lemma hlist_backs: "hlist h l (us @ ys) \<Longrightarrow> backs h (before l us) ys"
  by (simp add: hlist_def before_def backs_append)

text \<open>Writing the cell after a prefix replaces what follows it.\<close>

lemma hlist_store:
  assumes "hlist h l (us @ ys)" "lseg h q zs" "last us \<notin> set zs \<or> us = []"
  shows "lseg (store1 (WCell (before l us) q) h) (heads (store1 (WCell (before l us) q) h) l) (us @ zs)"
proof (cases "us = []")
  case True
  have "lseg (h\<lparr>heads := (heads h)(l := q)\<rparr>) q zs" by (rule lseg_frame [OF assms(2)]) simp
  then show ?thesis using True by (simp add: before_def)
next
  case False
  have z: "lseg (h\<lparr>nexts := (nexts h)(last us := q)\<rparr>) q zs"
    by (rule lseg_frame [OF assms(2)]) (use assms(3) False in auto)
  have "lseg (h\<lparr>nexts := (nexts h)(last us := q)\<rparr>) (heads h l) (us @ zs)"
    by (rule lseg_join [of h _ us ys, OF _ False _ z]) (use assms(1) in \<open>auto simp: hlist_def\<close>)
  then show ?thesis using False by (simp add: before_def)
qed

section \<open>What the operations do\<close>

lemma lseg_pprevs [simp]: "lseg (h\<lparr>pprevs := f\<rparr>) p xs = lseg h p xs"
  by (induction xs arbitrary: p) auto

lemma lseg_heads [simp]: "lseg (h\<lparr>heads := f\<rparr>) p xs = lseg h p xs"
  by (induction xs arbitrary: p) auto

lemma backs_nexts [simp]: "backs (h\<lparr>nexts := f\<rparr>) c xs = backs h c xs"
  by (induction xs arbitrary: c) auto

lemma backs_heads [simp]: "backs (h\<lparr>heads := f\<rparr>) c xs = backs h c xs"
  by (induction xs arbitrary: c) auto

lemma lseg_nexts_other: "x \<notin> set xs \<Longrightarrow> lseg (h\<lparr>nexts := (nexts h)(x := v)\<rparr>) p xs = lseg h p xs"
  by (induction xs arbitrary: p) auto

lemma backs_other: "x \<notin> set xs \<Longrightarrow> backs (h\<lparr>pprevs := (pprevs h)(x := v)\<rparr>) c xs = backs h c xs"
  by (induction xs arbitrary: c) auto

lemma push_front_hlist:
  assumes "hlist h l xs" "x \<notin> set xs"
  shows "hlist (exec (push_front l x h) h) l (x # xs)"
proof (cases xs)
  case Nil
  then show ?thesis using assms by (simp add: hlist_def push_front_def Let_def)
next
  case (Cons y ys)
  then have "heads h l = Some y" "lseg h (nexts h y) ys" "backs h (Next y) ys" "y \<notin> set ys" "x \<noteq> y" "x \<notin> set ys" "distinct ys"
    using assms by (auto simp: hlist_def)
  then show ?thesis using Cons
    by (auto simp: hlist_def push_front_def lseg_nexts_other elim: backs_frame)
qed

lemma store_pprev [simp]: "heads (store1 (WPprev x c) h) = heads h" "nexts (store1 (WPprev x c) h) = nexts h"
  by simp_all

lemma erase_hlist:
  assumes "hlist h l (us @ x # ys)"
  shows "hlist (exec (erase x h) h) l (us @ ys)"
proof -
  have nx: "lseg h (nexts h x) ys" and pp: "pprevs h x = before l us" and d: "distinct (us @ x # ys)"
    and bk: "backs h (Next x) ys" and bu: "backs h (Head l) us"
    using hlist_reader [OF assms] hlist_backs [OF assms] assms by (auto simp: hlist_def backs_append)
  let ?h = "store1 (WCell (before l us) (nexts h x)) h"
  have l: "lseg ?h (heads ?h l) (us @ ys)" by (rule hlist_store [OF assms nx]) (use d in \<open>cases "us = []"; auto simp: disjoint_iff\<close>)
  have pr: "pprevs ?h = pprevs h" by (simp add: before_def)
  show ?thesis
  proof (cases ys)
    case Nil
    then have e: "exec (erase x h) h = ?h" using nx pp by (simp add: erase_def Let_def)
    show ?thesis unfolding e hlist_def using l Nil d bu pr by (auto intro: backs_frame)
  next
    case (Cons y zs)
    then have ny: "nexts h x = Some y" "pprevs h y = Next x" "backs h (Next y) zs" using nx bk by auto
    have e: "exec (erase x h) h = ?h\<lparr>pprevs := (pprevs ?h)(y := before l us)\<rparr>"
      using ny pp by (simp add: erase_def Let_def)
    have "backs (exec (erase x h) h) (Head l) us" "backs (exec (erase x h) h) (Next y) zs"
      unfolding e by (rule backs_frame [OF bu] backs_frame [OF ny(3)], use d Cons pr in auto)+
    moreover have "pprevs (exec (erase x h) h) y = before l us" unfolding e by simp
    ultimately have "backs (exec (erase x h) h) (Head l) (us @ ys)"
      using Cons by (simp add: backs_append before_def)
    then show ?thesis unfolding hlist_def using l d e by auto
  qed
qed

lemma insert_after_hlist:
  assumes "hlist h l (us @ y # ys)" "x \<notin> set (us @ y # ys)"
  shows "hlist (exec (insert_after x y h) h) l (us @ y # x # ys)"
proof -
  have nx: "lseg h (nexts h y) ys" and d: "distinct (us @ y # ys)" and l: "lseg h (heads h l) ((us @ [y]) @ ys)"
    and bk: "backs h (Next y) ys" and bu: "backs h (Head l) (us @ [y])"
    using hlist_reader [OF assms(1)] hlist_backs [OF assms(1)] assms(1) by (auto simp: hlist_def backs_append)
  let ?h = "h\<lparr>nexts := (nexts h)(x := nexts h y, y \<mapsto> x)\<rparr>"
  have e: "nexts (exec (insert_after x y h) h) = nexts ?h" "heads (exec (insert_after x y h) h) = heads h"
    using assms(2) by (auto simp: insert_after_def Let_def fun_eq_iff split: option.splits)
  have "lseg ?h (nexts h y) ys" by (rule lseg_frame [OF nx]) (use d assms(2) in auto)
  then have z: "lseg ?h (Some x) (x # ys)" using assms(2) by auto
  have "lseg ?h (heads h l) ((us @ [y]) @ x # ys)"
    by (rule lseg_join [OF l _ _ z]) (use d assms(2) in auto)
  then have "lseg (exec (insert_after x y h) h) (heads h l) (us @ y # x # ys)"
    using lseg_frame [of ?h "heads h l" "us @ y # x # ys"] e by simp
  moreover have "backs (exec (insert_after x y h) h) (Head l) ((us @ [y]) @ x # ys)"
  proof (cases ys)
    case Nil
    then show ?thesis using nx bu backs_frame [OF bu, of "exec (insert_after x y h) h"] assms(2)
      by (auto simp: backs_append insert_after_def Let_def)
  next
    case (Cons z zs)
    have "backs (exec (insert_after x y h) h) (Head l) (us @ [y])" "backs (exec (insert_after x y h) h) (Next z) zs"
      by (rule backs_frame [OF bu] backs_frame [of h "Next z" zs],
          use d bk nx Cons assms(2) in \<open>auto simp: insert_after_def Let_def\<close>)+
    then show ?thesis using Cons nx assms(2) by (auto simp: backs_append insert_after_def Let_def)
  qed
  ultimately show ?thesis using d e assms(2) by (auto simp: hlist_def)
qed

lemma splice_end_empty: "hlist h l [] \<Longrightarrow> splice_end l x h = Some (Inl (KAssert ''!empty()''))"
  by (simp add: splice_end_def hempty_def hlist_def)

lemma splice_end_ok: "hlist h l xs \<Longrightarrow> xs \<noteq> [] \<Longrightarrow> splice_end l x h = Some (Inr (splice_after x (last xs) h))"
  using iter_lseg [of h "heads h l" xs]
  by (cases xs) (auto simp: splice_end_def splice_after_def hempty_def hlist_def)

section \<open>A reader beside a writer\<close>

text \<open>
  One writer at a time runs \<open>push_front\<close> and \<open>erase\<close> on a list, and a reader walks the list: its
  loads and the writer's stores interleave.  \<open>ghost\<close> lists the nodes that were ever linked, erased
  ones included, the latest first: a node is not linked again while a reader may stand on it, which
  is what the grace period of \<open>call_rcu\<close> gives.
\<close>

record rcu =
  mem :: rheap
  pend :: "hstore list"
  ghost :: "nat list"
  pos :: "nat option"
  seen :: "nat list"

fun linked :: "lst \<Rightarrow> hstore \<Rightarrow> nat list \<Rightarrow> nat list" where
  "linked l (WCell (Head l') (Some x)) G = (if l' = l \<and> x \<notin> set G then x # G else G)"
| "linked l w G = G"

definition list_elements :: "lst \<Rightarrow> rheap \<Rightarrow> nat set" where
  "list_elements l h = (case iter h (heads h l) of None \<Rightarrow> {} | Some xs \<Rightarrow> set xs)"

inductive rcu_step :: "lst \<Rightarrow> rcu \<Rightarrow> rcu \<Rightarrow> bool" for l where
  w_push: "pend s = [] \<Longrightarrow> x \<notin> set (ghost s) \<Longrightarrow> rcu_step l s (s\<lparr>pend := push_front l x (mem s)\<rparr>)"
| w_erase: "pend s = [] \<Longrightarrow> x \<in> list_elements l (mem s) \<Longrightarrow> rcu_step l s (s\<lparr>pend := erase x (mem s)\<rparr>)"
| w_store: "pend s = w # ws \<Longrightarrow>
    rcu_step l s (s\<lparr>mem := store1 w (mem s), pend := ws, ghost := linked l w (ghost s)\<rparr>)"
| r_next: "pos s = Some x \<Longrightarrow> rcu_step l s (s\<lparr>pos := nexts (mem s) x, seen := seen s @ [x]\<rparr>)"

abbreviation rcu_run :: "lst \<Rightarrow> rcu \<Rightarrow> rcu \<Rightarrow> bool" where
  "rcu_run l \<equiv> (rcu_step l)\<^sup>*\<^sup>*"

definition rcu_init :: "rheap \<Rightarrow> nat list \<Rightarrow> rcu" where
  "rcu_init h xs = \<lparr>mem = h, pend = [], ghost = xs, pos = None, seen = []\<rparr>"

definition rcu_read :: "lst \<Rightarrow> rcu \<Rightarrow> rcu" where
  "rcu_read l s = s\<lparr>pos := heads (mem s) l, seen := []\<rparr>"

text \<open>A pointer into the ghost list skips only nodes that are no longer in the list.\<close>

fun lands :: "nat list \<Rightarrow> nat option \<Rightarrow> nat list \<Rightarrow> bool" where
  "lands xs p [] \<longleftrightarrow> p = None"
| "lands xs p (y # ys) \<longleftrightarrow> p = Some y \<or> y \<notin> set xs \<and> lands xs p ys"

fun gok :: "rheap \<Rightarrow> nat list \<Rightarrow> nat list \<Rightarrow> bool" where
  "gok h xs [] \<longleftrightarrow> True"
| "gok h xs (y # ys) \<longleftrightarrow> lands xs (nexts h y) ys \<and> gok h xs ys"

definition rview :: "lst \<Rightarrow> rheap \<Rightarrow> nat list \<Rightarrow> nat list \<Rightarrow> bool" where
  "rview l h G xs \<longleftrightarrow>
    lseg h (heads h l) xs \<and> distinct G \<and> set xs \<subseteq> set G \<and> lands xs (heads h l) G \<and> gok h xs G"

lemma lands_mono: "lands xs p G \<Longrightarrow> set xs' \<subseteq> set xs \<Longrightarrow> lands xs' p G"
  by (induction G) auto

lemma lands_fresh: "lands xs p G \<Longrightarrow> x \<notin> set G \<Longrightarrow> lands (x # xs) p G"
  by (induction G) auto

lemma gok_mono: "gok h xs G \<Longrightarrow> set xs' \<subseteq> set xs \<Longrightarrow> \<forall>y \<in> set G. nexts h' y = nexts h y \<Longrightarrow> gok h' xs' G"
  by (induction G) (auto intro: lands_mono)

lemma gok_fresh: "gok h xs G \<Longrightarrow> x \<notin> set G \<Longrightarrow> \<forall>y \<in> set G. nexts h' y = nexts h y \<Longrightarrow> gok h' (x # xs) G"
  by (induction G) (auto intro: lands_fresh)

lemma lands_skip:
  "lands xs (Some x) G \<Longrightarrow> gok h xs G \<Longrightarrow> set xs' \<subseteq> set xs - {x} \<Longrightarrow> lands xs' (nexts h x) G"
  by (induction G) (auto intro: lands_mono)

lemma gok_skip:
  "gok h xs G \<Longrightarrow> nexts h u = Some x \<Longrightarrow> set xs' \<subseteq> set xs - {x} \<Longrightarrow>
    gok (h\<lparr>nexts := (nexts h)(u := nexts h x)\<rparr>) xs' G"
proof (induction G)
  case (Cons y ys)
  then have "lands xs' (if y = u then nexts h x else nexts h y) ys"
    using lands_skip [of xs x ys h xs'] lands_mono [of xs "nexts h y" ys xs'] by auto
  then show ?case using Cons by auto
qed simp

lemma gok_self: "lseg h p xs \<Longrightarrow> distinct xs \<Longrightarrow> set xs \<subseteq> set X \<Longrightarrow> lands X p xs \<and> gok h X xs"
proof (induction xs arbitrary: p)
  case (Cons x xs)
  then show ?case using Cons.IH [of "nexts h x"] by auto
qed simp

lemma rview_init: "hlist h l xs \<Longrightarrow> rview l h xs xs"
  using gok_self [of h "heads h l" xs xs] by (auto simp: rview_def hlist_def)

lemma rview_pprevs [simp]: "rview l (h\<lparr>pprevs := f\<rparr>) G xs = rview l h G xs"
proof -
  have "gok (h\<lparr>pprevs := f\<rparr>) xs G = gok h xs G" by (induction G) auto
  then show ?thesis by (simp add: rview_def)
qed

lemma rview_pprevs_heads [simp]:
  "rview l (h\<lparr>nexts := a, pprevs := f, heads := c\<rparr>) G xs = rview l (h\<lparr>nexts := a, heads := c\<rparr>) G xs"
proof -
  have "h\<lparr>nexts := a, pprevs := f, heads := c\<rparr> = h\<lparr>nexts := a, heads := c\<rparr>\<lparr>pprevs := f\<rparr>" by simp
  then show ?thesis by (metis rview_pprevs)
qed

lemma rview_elements: "rview l h G xs \<Longrightarrow> list_elements l h = set xs"
  by (auto simp: rview_def list_elements_def dest: iter_lseg)

lemma append_Cons_cases: "(ws @ vs = a # as) = (ws = [] \<and> vs = a # as \<or> (\<exists>us. ws = a # us \<and> us @ vs = as))"
  by (cases ws) auto

lemma push_fresh_view:
  assumes "rview l h G xs" "x \<notin> set G"
  shows "rview l (h\<lparr>nexts := (nexts h)(x := heads h l)\<rparr>) G xs"
    "rview l (h\<lparr>nexts := (nexts h)(x := heads h l), heads := (heads h)(l \<mapsto> x)\<rparr>) (x # G) (x # xs)"
proof -
  have "x \<notin> set xs" using assms by (auto simp: rview_def)
  then show "rview l (h\<lparr>nexts := (nexts h)(x := heads h l)\<rparr>) G xs"
    "rview l (h\<lparr>nexts := (nexts h)(x := heads h l), heads := (heads h)(l \<mapsto> x)\<rparr>) (x # G) (x # xs)"
    using assms by (auto simp: rview_def lseg_nexts_other intro: lands_fresh elim: gok_mono gok_fresh)
qed

lemma push_prefix:
  assumes "rview l h G xs" "x \<notin> set G" "ws @ vs = push_front l x h"
  shows "if length ws < 3 then rview l (exec ws h) G xs \<and> fold (linked l) ws G = G
    else rview l (exec ws h) (x # G) (x # xs) \<and> fold (linked l) ws G = x # G"
proof (cases "heads h l")
  case None
  then have w: "ws @ vs = [WCell (Next x) None, WPprev x (Head l), WCell (Head l) (Some x)]"
    using assms(3) by (simp add: push_front_def)
  show ?thesis
    using w assms(1,2) push_fresh_view [OF assms(1,2)] unfolding append_Cons_cases
    by (auto simp: None simp del: fun_upd_apply)
next
  case (Some y)
  then have w: "ws @ vs = [WCell (Next x) (Some y), WPprev x (Head l), WCell (Head l) (Some x), WPprev y (Next x)]"
    using assms(3) by (simp add: push_front_def)
  show ?thesis
    using w assms(1,2) push_fresh_view [OF assms(1,2)] unfolding append_Cons_cases
    by (auto simp: Some simp del: fun_upd_apply)
qed

lemma erase_view:
  assumes "hlist h l (us @ x # ys)" "rview l h G (us @ x # ys)"
  shows "rview l (store1 (WCell (before l us) (nexts h x)) h) G (us @ ys)"
proof -
  have nx: "lseg h (nexts h x) ys" and d: "distinct (us @ x # ys)" and p: "cell_get (before l us) h = Some x"
    using hlist_reader [OF assms(1)] assms(1) by (auto simp: hlist_def)
  let ?h = "store1 (WCell (before l us) (nexts h x)) h"
  have l: "lseg ?h (heads ?h l) (us @ ys)"
    by (rule hlist_store [OF assms(1) nx]) (use d in \<open>cases "us = []"; auto simp: disjoint_iff\<close>)
  have sub: "set (us @ ys) \<subseteq> set (us @ x # ys) - {x}" using d by auto
  have g: "gok h (us @ x # ys) G" "lands (us @ x # ys) (heads h l) G" using assms(2) by (auto simp: rview_def)
  have "lands (us @ ys) (heads ?h l) G \<and> gok ?h (us @ ys) G"
  proof (cases "us = []")
    case True
    then show ?thesis
      using lands_skip [of "us @ x # ys" x G h "us @ ys"] gok_mono [OF g(1), of "us @ ys" ?h] g sub p
      by (auto simp: before_def)
  next
    case False
    then show ?thesis
      using gok_skip [OF g(1) _ sub, of "last us"] lands_mono [OF g(2), of "us @ ys"] sub p by (auto simp: before_def)
  qed
  then show ?thesis using l assms(2) sub by (auto simp: rview_def)
qed

lemma erase_prefix:
  assumes "hlist h l (us @ x # ys)" "rview l h G (us @ x # ys)" "ws @ vs = erase x h"
  shows "rview l (exec ws h) G (if ws = [] then us @ x # ys else us @ ys) \<and> fold (linked l) ws G = G"
proof -
  have pp: "pprevs h x = before l us" using hlist_backs [OF assms(1)] by simp
  have in_G: "v \<in> set G" if "nexts h x = Some v" for v
    using hlist_reader [of h l "us @ [x]" ys] that assms by (cases ys) (auto simp: rview_def before_def)
  have lk: "linked l (WCell (before l us) (nexts h x)) G = G"
    using in_G by (cases "nexts h x"; auto simp: before_def)
  have tail: "ws = [] \<or> ws = [WCell (before l us) (nexts h x)] \<or>
      (\<exists>y c. ws = [WCell (before l us) (nexts h x), WPprev y c])"
    using assms(3) pp by (auto simp: erase_def Let_def append_Cons_cases split: option.splits)
  then show ?thesis using erase_view [OF assms(1,2)] assms(2) lk by auto
qed

section \<open>The invariant of the interleaving\<close>

definition winv :: "lst \<Rightarrow> rcu \<Rightarrow> bool" where
  "winv l s \<longleftrightarrow> (\<exists>h xs G ws. hlist h l xs \<and> rview l h G xs \<and> mem s = exec ws h \<and> ghost s = fold (linked l) ws G \<and>
    (ws @ pend s = [] \<or> (\<exists>x. x \<notin> set G \<and> ws @ pend s = push_front l x h) \<or>
     (\<exists>x \<in> set xs. ws @ pend s = erase x h)))"

lemma winv_rview: "winv l s \<Longrightarrow> \<exists>xs. rview l (mem s) (ghost s) xs"
  unfolding winv_def
proof (elim exE conjE disjE bexE)
  fix h xs G ws x
  assume *: "rview l h G xs" "x \<notin> set G" "mem s = exec ws h" "ghost s = fold (linked l) ws G" "ws @ pend s = push_front l x h"
  then show ?thesis using push_prefix [OF *(1,2,5)] by (auto split: if_splits)
next
  fix h xs G ws x
  assume *: "hlist h l xs" "rview l h G xs" "mem s = exec ws h" "ghost s = fold (linked l) ws G" "x \<in> set xs" "ws @ pend s = erase x h"
  obtain us ys where "xs = us @ x # ys" using *(5) by (meson split_list)
  then show ?thesis using erase_prefix [of h l us x ys G ws "pend s"] * by metis
qed auto

lemma push_front_ne: "push_front l x h \<noteq> []" and erase_ne: "erase x h \<noteq> []"
  by (simp_all add: push_front_def erase_def Let_def)

lemma push_front_long: "length (push_front l x h) \<ge> 3"
  by (simp add: push_front_def Let_def)

text \<open>When no store is pending the writer's view of the list is complete.\<close>

lemma winv_idle:
  assumes "winv l s" "pend s = []"
  shows "\<exists>xs. hlist (mem s) l xs \<and> rview l (mem s) (ghost s) xs"
proof -
  obtain h xs G ws where *: "hlist h l xs" "rview l h G xs" "mem s = exec ws h" "ghost s = fold (linked l) ws G"
    "ws = [] \<or> (\<exists>x. x \<notin> set G \<and> ws = push_front l x h) \<or> (\<exists>x \<in> set xs. ws = erase x h)"
    using assms unfolding winv_def append_Nil2 by (elim exE conjE) (rule that; simp)
  from *(5) show ?thesis
  proof (elim disjE exE bexE conjE)
    fix x assume x: "x \<notin> set G" "ws = push_front l x h"
    then have "x \<notin> set xs" using *(2) by (auto simp: rview_def)
    then have "hlist (exec ws h) l (x # xs)" using push_front_hlist *(1) x(2) by blast
    moreover have "rview l (exec ws h) (ghost s) (x # xs)"
      using push_prefix [OF *(2) x(1), of ws "[]"] push_front_long [of l x h] x(2) *(4) by auto
    ultimately show ?thesis using *(3) by metis
  next
    fix x assume x: "x \<in> set xs" "ws = erase x h"
    obtain us ys where u: "xs = us @ x # ys" using x(1) by (meson split_list)
    then have "hlist (exec ws h) l (us @ ys)" using erase_hlist *(1) x(2) by blast
    moreover have "rview l (exec ws h) (ghost s) (us @ ys)"
      using erase_prefix [of h l us x ys G ws "[]"] erase_ne [of x h] u x(2) * by auto
    ultimately show ?thesis using *(3) by metis
  qed (use * in auto)
qed

lemma winv_init: "hlist h l xs \<Longrightarrow> winv l (rcu_init h xs)"
  unfolding winv_def rcu_init_def
  by (rule exI [of _ h], rule exI [of _ xs], rule exI [of _ xs], rule exI [of _ "[]"]) (auto intro: rview_init)

lemma winv_start:
  assumes "winv l s" "pend s = []" "ops = [] \<or> (\<exists>x. x \<notin> set (ghost s) \<and> ops = push_front l x (mem s)) \<or>
    (\<exists>x \<in> list_elements l (mem s). ops = erase x (mem s))"
  shows "winv l (s\<lparr>pend := ops\<rparr>)"
proof -
  obtain xs where "hlist (mem s) l xs" "rview l (mem s) (ghost s) xs" using winv_idle assms(1,2) by blast
  then show ?thesis unfolding winv_def using assms(3) rview_elements
    by (intro exI [of _ "mem s"] exI [of _ xs] exI [of _ "ghost s"] exI [of _ "[]"]) fastforce
qed

lemma winv_reader: "winv l (s\<lparr>pos := p, seen := v\<rparr>) = winv l s"
  by (simp add: winv_def)

lemma winv_store:
  assumes "winv l s" "pend s = w # ws"
  shows "winv l (s\<lparr>mem := store1 w (mem s), pend := ws, ghost := linked l w (ghost s)\<rparr>)"
proof -
  obtain h xs G vs where *: "hlist h l xs" "rview l h G xs" "mem s = exec vs h" "ghost s = fold (linked l) vs G"
    "(vs @ [w]) @ ws = [] \<or> (\<exists>x. x \<notin> set G \<and> (vs @ [w]) @ ws = push_front l x h) \<or> (\<exists>x \<in> set xs. (vs @ [w]) @ ws = erase x h)"
    using assms unfolding winv_def by (elim exE conjE) (rule that; simp)
  then show ?thesis unfolding winv_def
    by (intro exI [of _ h] exI [of _ xs] exI [of _ G] exI [of _ "vs @ [w]"]) simp
qed

lemma winv_step: "rcu_step l s s' \<Longrightarrow> winv l s \<Longrightarrow> winv l s'"
proof (induction rule: rcu_step.induct)
  case (w_store s w ws)
  then show ?case by (rule winv_store [rotated])
qed (auto intro!: winv_start simp: winv_reader)

lemma winv_change_store:
  assumes "winv l s" "pend s = w # ws"
  shows "(\<exists>pre. linked l w (ghost s) = pre @ ghost s) \<and>
    list_elements l (store1 w (mem s)) \<inter> set (ghost s) \<subseteq> list_elements l (mem s)"
proof -
  obtain h xs G vs where *: "hlist h l xs" "rview l h G xs" "mem s = exec vs h" "ghost s = fold (linked l) vs G"
    "(\<exists>x. x \<notin> set G \<and> vs @ w # ws = push_front l x h) \<or> (\<exists>x \<in> set xs. vs @ w # ws = erase x h)"
    using assms unfolding winv_def by (elim exE conjE) (rule that; simp)
  have pre: "\<exists>pre. linked l w (ghost s) = pre @ ghost s"
    by (induction l w "ghost s" rule: linked.induct) auto
  have m: "store1 w (mem s) = exec (vs @ [w]) h" using *(3) by simp
  from *(5) show ?thesis
  proof (elim disjE exE bexE conjE)
    fix x assume x: "x \<notin> set G" "vs @ w # ws = push_front l x h"
    then have a: "vs @ (w # ws) = push_front l x h" "(vs @ [w]) @ ws = push_front l x h" by simp_all
    show ?thesis
      using push_prefix [OF *(2) x(1) a(1)] push_prefix [OF *(2) x(1) a(2)] pre *(3,4) x(1) unfolding m
      by (auto split: if_splits dest!: rview_elements)
  next
    fix x assume x: "x \<in> set xs" "vs @ w # ws = erase x h"
    then have a: "vs @ (w # ws) = erase x h" "(vs @ [w]) @ ws = erase x h" by simp_all
    obtain us ys where u: "xs = us @ x # ys" using x(1) by (meson split_list)
    have hx: "hlist h l (us @ x # ys)" "rview l h G (us @ x # ys)" using *(1,2) u by simp_all
    show ?thesis
      using erase_prefix [OF hx a(1)] erase_prefix [OF hx a(2)] pre *(3,4) unfolding m
      by (auto split: if_splits dest!: rview_elements)
  qed
qed

lemma winv_change:
  "rcu_step l s s' \<Longrightarrow> winv l s \<Longrightarrow> (\<exists>pre. ghost s' = pre @ ghost s) \<and>
    list_elements l (mem s') \<inter> set (ghost s) \<subseteq> list_elements l (mem s)"
  by (induction rule: rcu_step.induct) (auto simp: winv_change_store)

definition rinv :: "lst \<Rightarrow> nat list \<Rightarrow> nat set \<Rightarrow> rcu \<Rightarrow> bool" where
  "rinv l G X s \<longleftrightarrow> (\<exists>pre. ghost s = pre @ G) \<and> pos s \<in> insert None (Some ` set G) \<and>
    subseq (seen s) (takeWhile (\<lambda>y. Some y \<noteq> pos s) G) \<and>
    X \<inter> list_elements l (mem s) \<subseteq> set (seen s) \<union> set (dropWhile (\<lambda>y. Some y \<noteq> pos s) G)"

lemma lands_split:
  "lands xs p bs \<Longrightarrow> (p = None \<and> set bs \<inter> set xs = {}) \<or> (\<exists>cs w ds. p = Some w \<and> bs = cs @ w # ds \<and> set cs \<inter> set xs = {})"
proof (induction bs)
  case (Cons b bs)
  then show ?case
  proof (cases "p = Some b")
    case False
    then have b: "b \<notin> set xs" "lands xs p bs" using Cons.prems by auto
    show ?thesis using Cons.IH [OF b(2)]
    proof (elim disjE exE conjE)
      fix cs w ds assume "p = Some w" "bs = cs @ w # ds" "set cs \<inter> set xs = {}"
      then have "p = Some w \<and> b # bs = (b # cs) @ w # ds \<and> set (b # cs) \<inter> set xs = {}" using b(1) by simp
      then show ?thesis by blast
    qed (use b in auto)
  next
    case True
    then have "p = Some b \<and> b # bs = [] @ b # bs \<and> set [] \<inter> set xs = {}" by simp
    then show ?thesis by blast
  qed
qed simp

lemma gok_at: "gok h xs (as @ y # bs) \<Longrightarrow> lands xs (nexts h y) bs"
  by (induction as) auto

lemma while_at [simp]:
  "y \<notin> set as \<Longrightarrow> takeWhile (\<lambda>z. z \<noteq> y) (as @ y # bs) = as"
  "y \<notin> set as \<Longrightarrow> dropWhile (\<lambda>z. z \<noteq> y) (as @ y # bs) = y # bs"
  "takeWhile (\<lambda>z. True) as = as" "dropWhile (\<lambda>z. True) as = []"
  by (induction as) auto

lemma rinv_next:
  assumes "winv l s" "rinv l G X s" "X \<subseteq> set G" "pos s = Some y"
  shows "rinv l G X (s\<lparr>pos := nexts (mem s) y, seen := seen s @ [y]\<rparr>)"
proof -
  obtain xs where v: "rview l (mem s) (ghost s) xs" using winv_rview assms(1) by blast
  obtain pre where pre: "ghost s = pre @ G" using assms(2) by (auto simp: rinv_def)
  obtain as bs where G: "G = as @ y # bs" using assms(2,4) split_list by (fastforce simp: rinv_def)
  have d: "distinct G" using v pre by (auto simp: rview_def)
  then have ny: "y \<notin> set as" using G by auto
  have s: "subseq (seen s) as" and c: "X \<inter> list_elements l (mem s) \<subseteq> set (seen s) \<union> set (y # bs)"
    using assms(2,4) ny unfolding rinv_def G by auto
  have e: "list_elements l (mem s) = set xs" using v rview_elements by blast
  have "lands xs (nexts (mem s) y) bs" using v pre G gok_at [of "mem s" xs "pre @ as" y bs] by (simp add: rview_def)
  then show ?thesis
  proof (rule lands_split [THEN disjE])
    assume n: "nexts (mem s) y = None \<and> set bs \<inter> set xs = {}"
    have "subseq (seen s @ [y]) (as @ y # bs)" using s by (intro list_emb_append_mono) auto
    then show ?thesis using n pre c e unfolding rinv_def G by auto
  next
    assume "\<exists>cs w ds. nexts (mem s) y = Some w \<and> bs = cs @ w # ds \<and> set cs \<inter> set xs = {}"
    then obtain cs w ds where n: "nexts (mem s) y = Some w" "bs = cs @ w # ds" "set cs \<inter> set xs = {}" by blast
    have nw: "w \<notin> set (as @ y # cs)" using d G n(2) by auto
    have G': "G = (as @ y # cs) @ w # ds" using G n(2) by simp
    have "subseq (seen s @ [y]) (as @ y # cs)" using s by (intro list_emb_append_mono) auto
    then show ?thesis using n pre c e while_at(1,2) [OF nw, of ds] unfolding rinv_def G'
      by (auto simp del: while_at(1,2))
  qed
qed

lemma rinv_write:
  assumes "rinv l G X s" "X \<subseteq> set G" "\<exists>pre. ghost s' = pre @ ghost s" "list_elements l (mem s') \<inter> set (ghost s) \<subseteq> list_elements l (mem s)"
    "pos s' = pos s" "seen s' = seen s"
  shows "rinv l G X s'"
proof -
  have "X \<subseteq> set (ghost s)" using assms(1,2) by (auto simp: rinv_def)
  then have "X \<inter> list_elements l (mem s') \<subseteq> X \<inter> list_elements l (mem s)" using assms(4) by blast
  then show ?thesis using assms(1,3,5,6) unfolding rinv_def by auto
qed

lemma rinv_step:
  assumes "rcu_step l s s'" "winv l s" "rinv l G X s" "X \<subseteq> set G"
  shows "rinv l G X s'"
  using assms(1)
proof cases
  case (r_next x)
  then show ?thesis using rinv_next [OF assms(2,3,4)] by simp
qed (rule rinv_write [OF assms(3,4)], use winv_change [OF assms(1,2)] in auto)+

lemma rinv_run:
  "rcu_run l s s' \<Longrightarrow> winv l s \<Longrightarrow> rinv l G X s \<Longrightarrow> X \<subseteq> set G \<Longrightarrow> winv l s' \<and> rinv l G X s'"
  by (induction rule: rtranclp_induct) (auto intro: winv_step rinv_step)

lemma winv_run: "rcu_run l s s' \<Longrightarrow> winv l s \<Longrightarrow> winv l s'"
  by (induction rule: rtranclp_induct) (auto intro: winv_step)

lemma rinv_read: "winv l s \<Longrightarrow> rinv l (ghost s) (list_elements l (mem s)) (rcu_read l s) \<and> list_elements l (mem s) \<subseteq> set (ghost s)"
proof -
  assume "winv l s"
  then obtain xs where v: "rview l (mem s) (ghost s) xs" using winv_rview by blast
  then have e: "list_elements l (mem s) = set xs" using rview_elements by blast
  have "lands xs (heads (mem s) l) (ghost s)" "distinct (ghost s)" using v by (auto simp: rview_def)
  then show ?thesis
  proof (elim lands_split [THEN disjE])
    assume "\<exists>cs w ds. heads (mem s) l = Some w \<and> ghost s = cs @ w # ds \<and> set cs \<inter> set xs = {}"
    then obtain cs w ds where n: "heads (mem s) l = Some w" "ghost s = cs @ w # ds" "set cs \<inter> set xs = {}" by blast
    then have "set xs \<subseteq> set (w # ds)" using v by (auto simp: rview_def)
    then show ?thesis using n v e by (auto simp: rinv_def rcu_read_def rview_def)
  qed (use v e in \<open>cases xs; auto simp: rinv_def rcu_read_def rview_def\<close>)
qed

lemma subseq_takeWhile: "subseq xs (takeWhile P ys) \<Longrightarrow> subseq xs ys"
  using subseq_rev_drop_many [of xs "takeWhile P ys" "dropWhile P ys"] by simp

lemma subseq_distinct: "subseq xs ys \<Longrightarrow> distinct ys \<Longrightarrow> distinct xs \<and> set xs \<subseteq> set ys \<and> length xs \<le> length ys"
  by (auto dest: list_emb_length list_emb_set subseqs_distinctD [rotated] simp flip: set_subseqs_eq)

text \<open>C9: A reader that walks the list while a writer runs any sequence of \<open>push_front\<close> and
  \<open>erase\<close>, its loads and the writer's stores interleaved in any order, never loses its way: it
  visits no node twice and only nodes that had been linked when it started, so it stops after at
  most that many loads; and when it reaches the end it has visited every node that was in the list
  when it started and is still there.\<close>

theorem rcu_reader_complete:
  assumes "hlist h l xs" "rcu_run l (rcu_init h xs) s" "rcu_run l (rcu_read l s) t"
  shows "distinct (seen t) \<and> set (seen t) \<subseteq> set (ghost s) \<and> length (seen t) \<le> length (ghost s) \<and>
    (pos t = None \<longrightarrow> list_elements l (mem s) \<inter> list_elements l (mem t) \<subseteq> set (seen t))"
proof -
  have w: "winv l s" "winv l (rcu_read l s)"
    using winv_run [OF assms(2) winv_init [OF assms(1)]] by (simp_all add: rcu_read_def winv_reader)
  have "rinv l (ghost s) (list_elements l (mem s)) t"
    using rinv_run [OF assms(3) w(2)] rinv_read [OF w(1)] by blast
  then have t: "subseq (seen t) (takeWhile (\<lambda>y. Some y \<noteq> pos t) (ghost s))"
    "list_elements l (mem s) \<inter> list_elements l (mem t) \<subseteq> set (seen t) \<union> set (dropWhile (\<lambda>y. Some y \<noteq> pos t) (ghost s))"
    by (auto simp: rinv_def)
  have d: "distinct (ghost s)" using winv_rview [OF w(1)] by (auto simp: rview_def)
  have "distinct (seen t) \<and> set (seen t) \<subseteq> set (ghost s) \<and> length (seen t) \<le> length (ghost s)"
    using subseq_distinct [OF subseq_takeWhile [OF t(1)] d] .
  then show ?thesis using t(2) by auto
qed

text \<open>A run in which the reader stands on a node while the writer erases it.\<close>

definition demo_heap :: rheap where
  "demo_heap = \<lparr>heads = (\<lambda>_. None)((0, 0) \<mapsto> 1), nexts = (\<lambda>_. None)(1 \<mapsto> 2),
    pprevs = (\<lambda>_. Head (0, 0))(2 := Next 1)\<rparr>"

lemma demo_hlist: "hlist demo_heap (0, 0) [1, 2]"
  by (simp add: hlist_def demo_heap_def)

lemma rcu_demo_run:
  "\<exists>t. rcu_run (0, 0) (rcu_read (0, 0) (rcu_init demo_heap [1, 2])) t \<and> pos t = None \<and> seen t = [1, 2] \<and>
    heads (mem t) (0, 0) = Some 2"
proof -
  let ?r = "rcu_step (0, 0)"
  define s where "s = rcu_read (0, 0) (rcu_init demo_heap [1, 2])"
  have e: "list_elements (0, 0) (mem s) = {1, 2}"
    using rview_elements [OF rview_init [OF demo_hlist]] by (simp add: s_def rcu_read_def rcu_init_def)
  define s1 where "s1 = s\<lparr>pend := erase 1 (mem s)\<rparr>"
  have 1: "?r s s1" unfolding s1_def by (rule w_erase) (use e in \<open>auto simp: s_def rcu_read_def rcu_init_def\<close>)
  have p1: "pend s1 = [WCell (Head (0, 0)) (Some 2), WPprev 2 (Head (0, 0))]"
    by (simp add: s1_def s_def rcu_read_def rcu_init_def erase_def demo_heap_def Let_def)
  define s2 where "s2 = s1\<lparr>mem := store1 (WCell (Head (0, 0)) (Some 2)) (mem s1), pend := [WPprev 2 (Head (0, 0))],
    ghost := linked (0, 0) (WCell (Head (0, 0)) (Some 2)) (ghost s1)\<rparr>"
  have 2: "?r s1 s2" unfolding s2_def by (rule w_store) (rule p1)
  define s3 where "s3 = s2\<lparr>pos := nexts (mem s2) 1, seen := seen s2 @ [1]\<rparr>"
  have 3: "?r s2 s3" unfolding s3_def
    by (rule r_next) (simp add: s2_def s1_def s_def rcu_read_def rcu_init_def demo_heap_def)
  define s4 where "s4 = s3\<lparr>pos := nexts (mem s3) 2, seen := seen s3 @ [2]\<rparr>"
  have 4: "?r s3 s4" unfolding s4_def
    by (rule r_next) (simp add: s3_def s2_def s1_def s_def rcu_read_def rcu_init_def demo_heap_def)
  have "rcu_run (0, 0) s s4" using 1 2 3 4 by (meson rtranclp.rtrancl_into_rtrancl rtranclp.rtrancl_refl)
  moreover have "pos s4 = None \<and> seen s4 = [1, 2] \<and> heads (mem s4) (0, 0) = Some 2"
    by (simp add: s4_def s3_def s2_def s1_def s_def rcu_read_def rcu_init_def demo_heap_def)
  ultimately show ?thesis unfolding s_def by blast
qed

theorem rcu_reader_complete_witness:
  "\<exists>t. rcu_run (0, 0) (rcu_read (0, 0) (rcu_init demo_heap [1, 2])) t \<and> seen t = [1, 2] \<and>
    list_elements (0, 0) demo_heap \<inter> list_elements (0, 0) (mem t) \<subseteq> {1, 2}"
proof -
  obtain t where t: "rcu_run (0, 0) (rcu_read (0, 0) (rcu_init demo_heap [1, 2])) t" "pos t = None" "seen t = [1, 2]"
    using rcu_demo_run by blast
  have "list_elements (0, 0) demo_heap \<inter> list_elements (0, 0) (mem t) \<subseteq> {1, 2}"
    using rcu_reader_complete [OF demo_hlist rtranclp.rtrancl_refl t(1)] t(2,3) by (simp add: rcu_init_def)
  then show ?thesis using t by blast
qed

end
