(* ===== verification/RcuTable.thy ===== *)
theory RcuTable
  imports RcuList
begin

text \<open>
  The RCU hash table of \<open>src/src/native/RcuTable.h\<close>: an array of bucket lists and the operations of
  \<open>RcuHashTable\<close> on it.  A bucket is a list head named by its array and its index; the node's key and
  the hash are parameters, as the template has them.  \<open>keyed_table\<close> is the contract the network
  stack relies on: a table of nodes that finds the latest node inserted under a key and not erased.
\<close>

section \<open>The contract of a keyed table\<close>

datatype 'n table_op = TIns 'n | TDel 'n

text \<open>
  A history of insertions and erasures with the nodes of the table kept beside it, the latest
  first.  A node is inserted only while it is outside the table, and erased only while it is in it.
\<close>

fun table_run :: "('n \<Rightarrow> 's \<Rightarrow> 's result) \<Rightarrow> ('n \<Rightarrow> 's \<Rightarrow> 's) \<Rightarrow> 'n table_op list \<Rightarrow> 's \<Rightarrow> 'n list \<Rightarrow> ('s \<times> 'n list) result" where
  "table_run ins del [] s L = Inr (s, L)"
| "table_run ins del (TIns x # ops) s L =
     (if x \<in> set L then table_run ins del ops s L
      else bindr (ins x s) (\<lambda>s'. table_run ins del ops s' (x # L)))"
| "table_run ins del (TDel x # ops) s L =
     (if x \<in> set L then table_run ins del ops (del x s) (removeAll x L)
      else table_run ins del ops s L)"

locale keyed_table =
  fixes find :: "'k \<Rightarrow> 's \<Rightarrow> 'n option result option"
    and ins :: "'n \<Rightarrow> 's \<Rightarrow> 's result"
    and del :: "'n \<Rightarrow> 's \<Rightarrow> 's"
    and key :: "'n \<Rightarrow> 'k"
    and inv :: "'s \<Rightarrow> bool"
    and bag :: "'s \<Rightarrow> 'k \<Rightarrow> 'n list"
  assumes find_ok: "inv s \<Longrightarrow> find k s = Some (Inr (List.find (\<lambda>x. True) (bag s k)))"
    and ins_ok: "inv s \<Longrightarrow> \<forall>k. x \<notin> set (bag s k) \<Longrightarrow>
      \<exists>s'. ins x s = Inr s' \<and> inv s' \<and> bag s' = (bag s)(key x := x # bag s (key x))"
    and del_ok: "inv s \<Longrightarrow> x \<in> set (bag s (key x)) \<Longrightarrow>
      inv (del x s) \<and> bag (del x s) = (bag s)(key x := removeAll x (bag s (key x)))"
begin

lemma run_ok:
  assumes "inv s" "\<forall>k. bag s k = filter (\<lambda>x. key x = k) L"
  shows "\<exists>s' L'. table_run ins del ops s L = Inr (s', L') \<and> inv s' \<and> (\<forall>k. bag s' k = filter (\<lambda>x. key x = k) L')"
  using assms
proof (induction ops arbitrary: s L)
  case (Cons op ops)
  show ?case
  proof (cases op)
    case (TIns x)
    show ?thesis
    proof (cases "x \<in> set L")
      case False
      then obtain s' where "ins x s = Inr s'" "inv s'" "bag s' = (bag s)(key x := x # bag s (key x))"
        using ins_ok [OF Cons.prems(1), of x] Cons.prems(2) by auto
      then show ?thesis using Cons.IH [of s' "x # L"] Cons.prems(2) False by (simp add: TIns)
    qed (use Cons TIns in simp)
  next
    case (TDel x)
    show ?thesis
    proof (cases "x \<in> set L")
      case True
      then have "inv (del x s) \<and> bag (del x s) = (bag s)(key x := removeAll x (bag s (key x)))"
        using del_ok [OF Cons.prems(1), of x] Cons.prems(2) by simp
      moreover have "filter (\<lambda>y. key y = k) (removeAll x L) = filter (\<lambda>y. key y = k) L" if "k \<noteq> key x" for k
        using that by (induction L) auto
      moreover have "removeAll x (filter (\<lambda>y. key y = k) L) = filter (\<lambda>y. key y = k) (removeAll x L)" for k
        by (induction L) auto
      ultimately show ?thesis using Cons.IH [of "del x s" "removeAll x L"] Cons.prems(2) True by (simp add: TDel)
    qed (use Cons TDel in simp)
  qed
qed simp

lemma find_filter: "List.find (\<lambda>x. True) (filter P L) = List.find P L"
  by (induction L) auto

lemma run_finds:
  assumes "inv s" "\<forall>k. bag s k = filter (\<lambda>x. key x = k) L"
  shows "\<exists>s' L'. table_run ins del ops s L = Inr (s', L') \<and> (\<forall>k. find k s' = Some (Inr (List.find (\<lambda>x. key x = k) L')))"
  using run_ok [OF assms, of ops] find_ok by (metis find_filter)

end

section \<open>The table\<close>

record rtable =
  theap :: rheap
  bsize :: "nat \<Rightarrow> nat"
  cur :: nat

definition buckets_clear :: "nat \<Rightarrow> nat \<Rightarrow> rheap \<Rightarrow> rheap" where
  "buckets_clear b n h = fold (\<lambda>i h. exec (clear (b, i) h) h) [0..<n] h"

definition buckets_create :: "nat \<Rightarrow> nat \<Rightarrow> rtable \<Rightarrow> rtable" where
  "buckets_create b n t = t\<lparr>theap := buckets_clear b n (theap t), bsize := (bsize t)(b := n)\<rparr>"

text \<open>The copying constructor copies the heads and leaves \<open>size_\<close> as \<open>malloc\<close> returned it.\<close>

definition buckets_copy :: "nat \<Rightarrow> nat \<Rightarrow> nat \<Rightarrow> nat \<Rightarrow> rtable \<Rightarrow> rtable" where
  "buckets_copy junk old b n t =
    t\<lparr>theap := fold (\<lambda>i h. store1 (WCell (Head (b, i)) (heads h (old, i))) h) [0..<n] (theap t),
      bsize := (bsize t)(b := junk)\<rparr>"

definition get_bucket :: "rtable \<Rightarrow> nat \<Rightarrow> nat \<Rightarrow> lst result" where
  "get_bucket t b i = (if i < bsize t b then Inr (b, i) else Inl (KAssert ''index < size_''))"

definition key_bucket :: "('k \<Rightarrow> nat) \<Rightarrow> 'k \<Rightarrow> rtable \<Rightarrow> lst result" where
  "key_bucket hash k t =
    (if bsize t (cur t) = 0 then Inl (Undefined ''hash % 0'')
     else get_bucket t (cur t) (hash k mod bsize t (cur t)))"

text \<open>The first node from a position that satisfies a condition.\<close>

partial_function (option) bucket_walk :: "rheap \<Rightarrow> (nat \<Rightarrow> bool) \<Rightarrow> nat option \<Rightarrow> nat option option" where
  "bucket_walk h P p = (case p of None \<Rightarrow> Some None | Some x \<Rightarrow> if P x then Some (Some x) else bucket_walk h P (nexts h x))"

text \<open>A table of \<open>1 << shift\<close> buckets.  The shift is made in \<open>int\<close> and the buckets are allocated or
  \<open>bad_alloc\<close> is thrown: the tables that can be constructed are those of shifts below 31.\<close>

definition rtable_new :: "nat \<Rightarrow> rtable" where
  "rtable_new shift = buckets_create 0 (2 ^ shift)
    \<lparr>theap = \<lparr>heads = \<lambda>_. None, nexts = \<lambda>_. None, pprevs = \<lambda>_. Head (0, 0)\<rparr>, bsize = \<lambda>_. 0, cur = 0\<rparr>"

definition rfind :: "(nat \<Rightarrow> 'k) \<Rightarrow> ('k \<Rightarrow> nat) \<Rightarrow> 'k \<Rightarrow> rtable \<Rightarrow> nat option result option" where
  "rfind key hash k t =
    (case key_bucket hash k t of Inl e \<Rightarrow> Some (Inl e)
     | Inr l \<Rightarrow> Option.bind (bucket_walk (theap t) (\<lambda>x. key x = k) (heads (theap t) l)) (\<lambda>r. Some (Inr r)))"

definition rclear :: "rtable \<Rightarrow> rtable" where
  "rclear t = t\<lparr>theap := buckets_clear (cur t) (bsize t (cur t)) (theap t)\<rparr>"

definition rinsert :: "(nat \<Rightarrow> 'k) \<Rightarrow> ('k \<Rightarrow> nat) \<Rightarrow> nat \<Rightarrow> rtable \<Rightarrow> rtable result" where
  "rinsert key hash x t =
    bindr (key_bucket hash (key x) t) (\<lambda>l. Inr (t\<lparr>theap := exec (push_front l x (theap t)) (theap t)\<rparr>))"

definition rerase :: "nat \<Rightarrow> rtable \<Rightarrow> rtable" where
  "rerase x t = t\<lparr>theap := exec (erase x (theap t)) (theap t)\<rparr>"

section \<open>Resizing\<close>

text \<open>Growing points each new bucket at the first of its nodes in the old chain.\<close>

fun grow_loop :: "(nat \<Rightarrow> 'k) \<Rightarrow> ('k \<Rightarrow> nat) \<Rightarrow> nat \<Rightarrow> nat \<Rightarrow> nat \<Rightarrow> nat \<Rightarrow> nat list \<Rightarrow> rheap \<Rightarrow> rheap option" where
  "grow_loop key hash old old_sz new new_sz [] h = Some h"
| "grow_loop key hash old old_sz new new_sz (i # is) h =
    Option.bind (bucket_walk h (\<lambda>x. hash (key x) mod new_sz = i) (heads h (old, i mod old_sz)))
      (\<lambda>r. grow_loop key hash old old_sz new new_sz is
        (case r of None \<Rightarrow> h | Some x \<Rightarrow> exec (set_head (new, i) x h) h))"

definition resize_grow :: "(nat \<Rightarrow> 'k) \<Rightarrow> ('k \<Rightarrow> nat) \<Rightarrow> nat \<Rightarrow> nat \<Rightarrow> rtable \<Rightarrow> rtable option" where
  "resize_grow key hash new new_sz t =
    (let t1 = buckets_create new new_sz t in
     Option.bind (grow_loop key hash (cur t) (bsize t (cur t)) new new_sz [0..<new_sz] (theap t1))
       (\<lambda>h. Some (t1\<lparr>theap := h, cur := new\<rparr>)))"

text \<open>Shrinking chains the old buckets that fall into one new bucket.\<close>

fun chain_loop :: "nat \<Rightarrow> nat \<Rightarrow> nat list \<Rightarrow> rheap \<Rightarrow> rheap result option" where
  "chain_loop old last_bucket [] h = Some (Inr h)"
| "chain_loop old last_bucket (j # js) h =
    (case heads h (old, j) of None \<Rightarrow> chain_loop old last_bucket js h
     | Some x \<Rightarrow> Option.bind (splice_end (old, last_bucket) x h)
        (\<lambda>r. case r of Inl e \<Rightarrow> Some (Inl e) | Inr ws \<Rightarrow> chain_loop old j js (exec ws h)))"

fun shrink_loop :: "nat \<Rightarrow> nat \<Rightarrow> nat \<Rightarrow> nat list \<Rightarrow> rheap \<Rightarrow> rheap result option" where
  "shrink_loop old old_sz new_sz [] h = Some (Inr h)"
| "shrink_loop old old_sz new_sz (i # is) h =
    Option.bind (chain_loop old i (filter (\<lambda>j. i < j \<and> j mod new_sz = i mod new_sz) [0..<old_sz]) h)
      (\<lambda>r. case r of Inl e \<Rightarrow> Some (Inl e) | Inr h' \<Rightarrow> shrink_loop old old_sz new_sz is h')"

definition resize_shrink :: "nat \<Rightarrow> nat \<Rightarrow> nat \<Rightarrow> rtable \<Rightarrow> rtable result option" where
  "resize_shrink junk new new_sz t =
    (let t1 = buckets_copy junk (cur t) new new_sz t in
     Option.bind (shrink_loop (cur t) (bsize t (cur t)) new_sz [0..<new_sz] (theap t1))
       (\<lambda>r. Some (bindr r (\<lambda>h. Inr (t1\<lparr>theap := h, cur := new\<rparr>)))))"

definition resize :: "(nat \<Rightarrow> 'k) \<Rightarrow> ('k \<Rightarrow> nat) \<Rightarrow> nat \<Rightarrow> nat \<Rightarrow> nat \<Rightarrow> rtable \<Rightarrow> rtable result option" where
  "resize key hash junk new shift t =
    (let new_sz = 2 ^ shift; old_sz = bsize t (cur t) in
     if new_sz < old_sz then resize_shrink junk new new_sz t
     else if new_sz > old_sz then Option.bind (resize_grow key hash new new_sz t) (\<lambda>t'. Some (Inr t'))
     else Some (Inr t))"

text \<open>
  One pass of \<open>Unzipper::unzip\<close>.  The test of \<open>diff_entry\<close> takes the branch that dereferences it
  exactly when it is \<open>end()\<close>, and leaves the iteration otherwise; the code below the test is reached
  only through that dereference.
\<close>

partial_function (option) diff_loop ::
    "(nat \<Rightarrow> nat) \<Rightarrow> rheap \<Rightarrow> nat \<Rightarrow> nat option \<Rightarrow> (nat \<times> nat option) option" where
  "diff_loop hk h prev it =
    (if it = None then Some (prev, None)
     else if hk (the it) \<noteq> hk prev then Some (prev, it)
     else diff_loop hk h (the it) (nexts h (the it)))"

fun unzip_loop :: "(nat \<Rightarrow> nat) \<Rightarrow> nat \<Rightarrow> nat list \<Rightarrow> rheap \<Rightarrow> bool \<Rightarrow> (rheap \<times> bool) result option" where
  "unzip_loop hk old [] h moved_one = Some (Inr (h, moved_one))"
| "unzip_loop hk old (i # is) h moved_one =
    (case heads h (old, i) of None \<Rightarrow> unzip_loop hk old is h moved_one
     | Some x \<Rightarrow> Option.bind (diff_loop hk h x (nexts h x))
        (\<lambda>(prev, diff). case diff of
            None \<Rightarrow> Some (Inl (Undefined ''*end()''))
          | Some d \<Rightarrow> unzip_loop hk old is (exec (clear (old, i) h) h) moved_one))"

definition unzip :: "(nat \<Rightarrow> 'k) \<Rightarrow> ('k \<Rightarrow> nat) \<Rightarrow> nat \<Rightarrow> rtable \<Rightarrow> (rheap \<times> bool) result option" where
  "unzip key hash old t = unzip_loop (hash \<circ> key) old [0..<bsize t old] (theap t) False"


section \<open>The table keeps its contract\<close>

lemma bucket_walk_lseg: "lseg h p xs \<Longrightarrow> bucket_walk h P p = Some (List.find P xs)"
  by (induction xs arbitrary: p) (subst bucket_walk.simps, simp)+

definition rt_inv :: "(nat \<Rightarrow> 'k) \<Rightarrow> ('k \<Rightarrow> nat) \<Rightarrow> rtable \<Rightarrow> bool" where
  "rt_inv key hash t \<longleftrightarrow> 0 < bsize t (cur t) \<and>
    (\<forall>i < bsize t (cur t). \<exists>xs. hlist (theap t) (cur t, i) xs \<and> (\<forall>x \<in> set xs. hash (key x) mod bsize t (cur t) = i))"

definition rt_bucket :: "('k \<Rightarrow> nat) \<Rightarrow> 'k \<Rightarrow> rtable \<Rightarrow> lst" where
  "rt_bucket hash k t = (cur t, hash k mod bsize t (cur t))"

definition rt_bag :: "(nat \<Rightarrow> 'k) \<Rightarrow> ('k \<Rightarrow> nat) \<Rightarrow> rtable \<Rightarrow> 'k \<Rightarrow> nat list" where
  "rt_bag key hash t k = filter (\<lambda>x. key x = k) (the (iter (theap t) (heads (theap t) (rt_bucket hash k t))))"

lemma rt_bucket_list:
  assumes "rt_inv key hash t"
  obtains xs where "hlist (theap t) (rt_bucket hash k t) xs" "\<forall>x \<in> set xs. hash (key x) mod bsize t (cur t) = hash k mod bsize t (cur t)"
    "rt_bag key hash t k = filter (\<lambda>x. key x = k) xs" "key_bucket hash k t = Inr (rt_bucket hash k t)"
proof -
  have "hash k mod bsize t (cur t) < bsize t (cur t)" using assms by (simp add: rt_inv_def)
  then obtain xs where xs: "hlist (theap t) (rt_bucket hash k t) xs"
    "\<forall>x \<in> set xs. hash (key x) mod bsize t (cur t) = hash k mod bsize t (cur t)"
    using assms unfolding rt_inv_def rt_bucket_def by blast
  have "iter (theap t) (heads (theap t) (rt_bucket hash k t)) = Some xs" using xs(1) by (simp add: hlist_def iter_lseg)
  then show ?thesis using that [of xs] xs assms by (simp add: rt_bag_def key_bucket_def get_bucket_def rt_bucket_def rt_inv_def)
qed

lemma bag_list: "hlist (theap t) (rt_bucket hash k t) xs \<Longrightarrow> rt_bag key hash t k = filter (\<lambda>x. key x = k) xs"
  by (auto simp: rt_bag_def hlist_def dest!: iter_lseg)

lemma rfind_ok:
  assumes "rt_inv key hash t"
  shows "rfind key hash k t = Some (Inr (List.find (\<lambda>x. True) (rt_bag key hash t k)))"
proof -
  obtain xs where xs: "hlist (theap t) (rt_bucket hash k t) xs" "rt_bag key hash t k = filter (\<lambda>x. key x = k) xs"
    "key_bucket hash k t = Inr (rt_bucket hash k t)"
    using rt_bucket_list [OF assms] .
  have "List.find (\<lambda>x. True) (filter P xs) = List.find P xs" for P :: "nat \<Rightarrow> bool" by (induction xs) auto
  moreover have "lseg (theap t) (heads (theap t) (rt_bucket hash k t)) xs" using xs(1) by (simp add: hlist_def)
  ultimately show ?thesis using xs by (simp add: rfind_def bucket_walk_lseg)
qed

lemma hlist_frame:
  "hlist h l xs \<Longrightarrow> heads h' l = heads h l \<Longrightarrow> \<forall>x \<in> set xs. nexts h' x = nexts h x \<and> pprevs h' x = pprevs h x \<Longrightarrow> hlist h' l xs"
  by (auto simp: hlist_def intro: lseg_frame backs_frame)

lemma push_front_touches:
  assumes "hlist h l xs" "l' \<noteq> l" "y \<notin> set (x # xs)"
  shows "heads (exec (push_front l x h) h) l' = heads h l'" "nexts (exec (push_front l x h) h) y = nexts h y"
    "pprevs (exec (push_front l x h) h) y = pprevs h y"
  using assms by (cases xs; auto simp: push_front_def hlist_def Let_def)+

lemma erase_touches:
  assumes "hlist h l xs" "x \<in> set xs" "l' \<noteq> l" "y \<notin> set xs"
  shows "heads (exec (erase x h) h) l' = heads h l'" "nexts (exec (erase x h) h) y = nexts h y"
    "pprevs (exec (erase x h) h) y = pprevs h y"
proof -
  obtain us ys where xs: "xs = us @ x # ys" using assms(2) by (meson split_list)
  then have h: "hlist h l (us @ x # ys)" using assms(1) by simp
  have "pprevs h x = before l us" using hlist_backs [OF h] by simp
  moreover have "before l us = Head l \<or> (\<exists>z \<in> set xs. before l us = Next z)" using xs by (auto simp: before_def)
  moreover have "nexts h x = None \<or> (\<exists>z \<in> set xs. nexts h x = Some z)"
    using hlist_reader [OF h] xs by (cases ys) auto
  ultimately show "heads (exec (erase x h) h) l' = heads h l'" "nexts (exec (erase x h) h) y = nexts h y"
    "pprevs (exec (erase x h) h) y = pprevs h y"
    using assms(3,4) by (auto simp: erase_def Let_def)
qed

text \<open>Changing one bucket leaves the others as they are.\<close>

lemma rt_inv_change:
  assumes "rt_inv key hash t" "hlist h (rt_bucket hash k t) ys"
    "\<forall>y \<in> set ys. hash (key y) mod bsize t (cur t) = hash k mod bsize t (cur t)"
    "\<And>i zs. i \<noteq> hash k mod bsize t (cur t) \<Longrightarrow> hlist (theap t) (cur t, i) zs \<Longrightarrow>
      \<forall>z \<in> set zs. hash (key z) mod bsize t (cur t) = i \<Longrightarrow> hlist h (cur t, i) zs"
  shows "rt_inv key hash (t\<lparr>theap := h\<rparr>)"
    and "rt_bag key hash (t\<lparr>theap := h\<rparr>) k' =
      (if rt_bucket hash k' t = rt_bucket hash k t then filter (\<lambda>x. key x = k') ys else rt_bag key hash t k')"
proof -
  show "rt_inv key hash (t\<lparr>theap := h\<rparr>)" unfolding rt_inv_def
  proof (intro conjI allI impI)
    fix i assume i: "i < bsize (t\<lparr>theap := h\<rparr>) (cur (t\<lparr>theap := h\<rparr>))"
    show "\<exists>xs. hlist (theap (t\<lparr>theap := h\<rparr>)) (cur (t\<lparr>theap := h\<rparr>), i) xs \<and>
        (\<forall>x \<in> set xs. hash (key x) mod bsize (t\<lparr>theap := h\<rparr>) (cur (t\<lparr>theap := h\<rparr>)) = i)"
    proof (cases "i = hash k mod bsize t (cur t)")
      case True
      then show ?thesis using assms(2,3) by (auto simp: rt_bucket_def)
    next
      case False
      then obtain xs where "hlist (theap t) (cur t, i) xs" "\<forall>x \<in> set xs. hash (key x) mod bsize t (cur t) = i"
        using assms(1) i by (auto simp: rt_inv_def)
      then show ?thesis using assms(4) [OF False] by auto
    qed
  qed (use assms(1) in \<open>simp add: rt_inv_def\<close>)
  have b: "rt_bucket hash k' (t\<lparr>theap := h\<rparr>) = rt_bucket hash k' t" by (simp add: rt_bucket_def)
  show "rt_bag key hash (t\<lparr>theap := h\<rparr>) k' =
      (if rt_bucket hash k' t = rt_bucket hash k t then filter (\<lambda>x. key x = k') ys else rt_bag key hash t k')"
  proof (cases "rt_bucket hash k' t = rt_bucket hash k t")
    case True
    then show ?thesis using bag_list [of "t\<lparr>theap := h\<rparr>" hash k' ys key] b assms(2) by simp
  next
    case False
    obtain xs where xs: "hlist (theap t) (rt_bucket hash k' t) xs"
      "\<forall>x \<in> set xs. hash (key x) mod bsize t (cur t) = hash k' mod bsize t (cur t)"
      "rt_bag key hash t k' = filter (\<lambda>x. key x = k') xs"
      using rt_bucket_list [OF assms(1)] .
    have "hlist h (rt_bucket hash k' t) xs"
      using assms(4) [of "hash k' mod bsize t (cur t)" xs] xs(1,2) False by (simp add: rt_bucket_def)
    then show ?thesis using bag_list [of "t\<lparr>theap := h\<rparr>" hash k' xs key] b xs(3) False by simp
  qed
qed

lemma rinsert_ok:
  assumes "rt_inv key hash t" "\<forall>k. x \<notin> set (rt_bag key hash t k)"
  shows "\<exists>t'. rinsert key hash x t = Inr t' \<and> rt_inv key hash t' \<and>
    rt_bag key hash t' = (rt_bag key hash t)(key x := x # rt_bag key hash t (key x))"
proof -
  obtain xs where xs: "hlist (theap t) (rt_bucket hash (key x) t) xs"
    "\<forall>y \<in> set xs. hash (key y) mod bsize t (cur t) = hash (key x) mod bsize t (cur t)"
    "rt_bag key hash t (key x) = filter (\<lambda>y. key y = key x) xs" "key_bucket hash (key x) t = Inr (rt_bucket hash (key x) t)"
    using rt_bucket_list [OF assms(1)] .
  have nx: "x \<notin> set xs" using assms(2) [rule_format, of "key x"] xs(3) by simp
  let ?h = "exec (push_front (rt_bucket hash (key x) t) x (theap t)) (theap t)"
  have h: "hlist ?h (rt_bucket hash (key x) t) (x # xs)" using push_front_hlist [OF xs(1) nx] .
  have o: "hlist ?h (cur t, i) zs"
    if i: "i \<noteq> hash (key x) mod bsize t (cur t)" "hlist (theap t) (cur t, i) zs" "\<forall>z \<in> set zs. hash (key z) mod bsize t (cur t) = i" for i zs
  proof (rule hlist_frame [OF i(2)])
    have l: "(cur t, i) \<noteq> rt_bucket hash (key x) t" using i(1) by (simp add: rt_bucket_def)
    have n: "z \<notin> set (x # xs)" if "z \<in> set zs" for z using i(1,3) xs(2) that by auto
    show "heads ?h (cur t, i) = heads (theap t) (cur t, i)" by (rule push_front_touches(1) [OF xs(1) l, of "Suc (Max (set (x # xs)))"]) (metis List.finite_set Max_ge Suc_n_not_le_n)
    show "\<forall>z \<in> set zs. nexts ?h z = nexts (theap t) z \<and> pprevs ?h z = pprevs (theap t) z"
      using push_front_touches(2,3) [OF xs(1) l n] by blast
  qed
  have hs: "\<forall>y \<in> set (x # xs). hash (key y) mod bsize t (cur t) = hash (key x) mod bsize t (cur t)" using xs(2) by simp
  note c = rt_inv_change [OF assms(1) h hs o]
  have "rt_bag key hash (t\<lparr>theap := ?h\<rparr>) k' = ((rt_bag key hash t)(key x := x # rt_bag key hash t (key x))) k'" for k'
  proof (cases "rt_bucket hash k' t = rt_bucket hash (key x) t")
    case True
    then have "rt_bag key hash t k' = filter (\<lambda>y. key y = k') xs" using bag_list xs(1) by metis
    then show ?thesis using True by (simp add: c(2) xs(3))
  next
    case False
    then have "k' \<noteq> key x" by auto
    then show ?thesis using False by (simp add: c(2))
  qed
  then have "rt_bag key hash (t\<lparr>theap := ?h\<rparr>) = (rt_bag key hash t)(key x := x # rt_bag key hash t (key x))" by (rule ext)
  then show ?thesis unfolding rinsert_def xs(4) bindr_Inr using c(1) by blast
qed

lemma rerase_ok:
  assumes "rt_inv key hash t" "x \<in> set (rt_bag key hash t (key x))"
  shows "rt_inv key hash (rerase x t) \<and>
    rt_bag key hash (rerase x t) = (rt_bag key hash t)(key x := removeAll x (rt_bag key hash t (key x)))"
proof -
  obtain xs where xs: "hlist (theap t) (rt_bucket hash (key x) t) xs"
    "\<forall>y \<in> set xs. hash (key y) mod bsize t (cur t) = hash (key x) mod bsize t (cur t)"
    "rt_bag key hash t (key x) = filter (\<lambda>y. key y = key x) xs"
    using rt_bucket_list [OF assms(1)] .
  have x: "x \<in> set xs" using assms(2) xs(3) by auto
  then obtain us ys where u: "xs = us @ x # ys" by (meson split_list)
  then have r: "removeAll x xs = us @ ys" using xs(1) by (auto simp: hlist_def)
  let ?h = "exec (erase x (theap t)) (theap t)"
  have h: "hlist ?h (rt_bucket hash (key x) t) (us @ ys)" using erase_hlist xs(1) u by blast
  have o: "hlist ?h (cur t, i) zs"
    if i: "i \<noteq> hash (key x) mod bsize t (cur t)" "hlist (theap t) (cur t, i) zs" "\<forall>z \<in> set zs. hash (key z) mod bsize t (cur t) = i" for i zs
  proof (rule hlist_frame [OF i(2)])
    have l: "(cur t, i) \<noteq> rt_bucket hash (key x) t" using i(1) by (simp add: rt_bucket_def)
    have n: "z \<notin> set xs" if "z \<in> set zs" for z using i(1,3) xs(2) that by auto
    show "heads ?h (cur t, i) = heads (theap t) (cur t, i)" using erase_touches(1) [OF xs(1) x l] by (metis List.finite_set Max_ge Suc_n_not_le_n)
    show "\<forall>z \<in> set zs. nexts ?h z = nexts (theap t) z \<and> pprevs ?h z = pprevs (theap t) z"
      using erase_touches(2,3) [OF xs(1) x l n] by blast
  qed
  have hs: "\<forall>y \<in> set (us @ ys). hash (key y) mod bsize t (cur t) = hash (key x) mod bsize t (cur t)" using xs(2) u by simp
  note c = rt_inv_change [OF assms(1) h hs o]
  have f: "filter (\<lambda>y. key y = k') (us @ ys) = (if k' = key x then removeAll x (filter (\<lambda>y. key y = k') xs) else filter (\<lambda>y. key y = k') xs)" for k'
    using xs(1) u by (auto simp: hlist_def)
  have "rt_bag key hash (t\<lparr>theap := ?h\<rparr>) k' = ((rt_bag key hash t)(key x := removeAll x (rt_bag key hash t (key x)))) k'" for k'
  proof (cases "rt_bucket hash k' t = rt_bucket hash (key x) t")
    case True
    then have "rt_bag key hash t k' = filter (\<lambda>y. key y = k') xs" using bag_list xs(1) by metis
    then show ?thesis using True f [of k'] by (simp add: c(2) xs(3))
  next
    case False
    then have "k' \<noteq> key x" by auto
    then show ?thesis using False by (simp add: c(2))
  qed
  then have "rt_bag key hash (t\<lparr>theap := ?h\<rparr>) = (rt_bag key hash t)(key x := removeAll x (rt_bag key hash t (key x)))" by (rule ext)
  then show ?thesis unfolding rerase_def using c(1) by blast
qed

interpretation rt: keyed_table "rfind key hash" "rinsert key hash" rerase key "rt_inv key hash" "rt_bag key hash"
  for key :: "nat \<Rightarrow> 'k" and hash :: "'k \<Rightarrow> nat"
  by unfold_locales (auto simp: rfind_ok rinsert_ok rerase_ok)

section \<open>A new table\<close>

lemma buckets_clear_heads: "heads (buckets_clear b n h) = (\<lambda>l. if fst l = b \<and> snd l < n then None else heads h l)"
  by (induction n) (auto simp: buckets_clear_def clear_def fun_eq_iff)

lemma buckets_clear_same: "nexts (buckets_clear b n h) = nexts h" "pprevs (buckets_clear b n h) = pprevs h"
  by (induction n) (auto simp: buckets_clear_def clear_def)

lemma rt_inv_empty: "0 < bsize t (cur t) \<Longrightarrow> \<forall>i < bsize t (cur t). heads (theap t) (cur t, i) = None \<Longrightarrow>
    rt_inv key hash t \<and> (\<forall>k. rt_bag key hash t k = [])"
proof (intro conjI allI)
  assume *: "0 < bsize t (cur t)" "\<forall>i < bsize t (cur t). heads (theap t) (cur t, i) = None"
  then show "rt_inv key hash t" unfolding rt_inv_def by (auto intro!: exI [of _ "[]"] simp: hlist_def)
  fix k have "hlist (theap t) (rt_bucket hash k t) []" using * by (simp add: hlist_def rt_bucket_def)
  then show "rt_bag key hash t k = []" using bag_list by force
qed

lemma rtable_new_ok: "rt_inv key hash (rtable_new shift) \<and> (\<forall>k. rt_bag key hash (rtable_new shift) k = [])"
  by (rule rt_inv_empty) (simp_all add: rtable_new_def buckets_create_def buckets_clear_heads)

lemma rclear_ok: "rt_inv key hash t \<Longrightarrow> rt_inv key hash (rclear t) \<and> (\<forall>k. rt_bag key hash (rclear t) k = [])"
  by (rule rt_inv_empty) (simp_all add: rclear_def buckets_clear_heads rt_inv_def)

text \<open>C10: The hash table refines a list of its nodes: after any history of insertions and erasures
  on a new table, no operation has failed and every \<open>find\<close> returns, whatever the keys and the hash
  function, the node inserted last under the key and not erased, and null when there is none.\<close>

theorem table_histories:
  "\<exists>t L. table_run (rinsert key hash) rerase ops (rtable_new shift) [] = Inr (t, L) \<and>
    (\<forall>k. rfind key hash k t = Some (Inr (List.find (\<lambda>x. key x = k) L)))"
  using rt.run_finds [of key hash "rtable_new shift" "[]" ops] rtable_new_ok [of key hash shift] by simp

section \<open>Growing\<close>

lemma grow_walk:
  assumes "hlist h l xs" "\<forall>x \<in> set xs. key x = k \<longrightarrow> Q x" "bucket_walk h Q (heads h l) = Some r"
  shows "bucket_walk h (\<lambda>x. key x = k) r = bucket_walk h (\<lambda>x. key x = k) (heads h l)"
proof -
  have l: "lseg h (heads h l) xs" using assms(1) by (simp add: hlist_def)
  have r: "r = List.find Q xs" using assms(3) bucket_walk_lseg [OF l, of Q] by simp
  have k: "bucket_walk h (\<lambda>x. key x = k) (heads h l) = Some (List.find (\<lambda>x. key x = k) xs)" using bucket_walk_lseg [OF l] .
  show ?thesis
  proof (cases r)
    case None
    then have "\<forall>x \<in> set xs. key x \<noteq> k" using r assms(2) by (metis find_None_iff)
    then have "List.find (\<lambda>x. key x = k) xs = None" by (simp add: find_None_iff)
    then show ?thesis using k None by (simp add: bucket_walk.simps [of h _ None])
  next
    case (Some y)
    then obtain us ys where y: "xs = us @ y # ys" "\<forall>u \<in> set us. \<not> Q u"
      using r by (metis find_Some_iff id_take_nth_drop in_set_conv_nth length_take less_imp_le_nat min.absorb4 nth_take)
    then have nk: "\<forall>u \<in> set us. key u \<noteq> k" using assms(2) by auto
    have "List.find (\<lambda>x. key x = k) xs = List.find (\<lambda>x. key x = k) (y # ys)"
      unfolding y(1) using nk by (induction us) auto
    moreover have "lseg h (Some y) (y # ys)" using lseg_split [of h "heads h l" us "y # ys"] l y(1) by (auto split: if_splits)
    ultimately show ?thesis using k Some bucket_walk_lseg by metis
  qed
qed


lemma walk_nexts: "lseg h p xs \<Longrightarrow> nexts h' = nexts h \<Longrightarrow> bucket_walk h' P p = bucket_walk h P p"
  using lseg_frame [of h p xs h'] bucket_walk_lseg by metis

lemma lseg_find: "lseg h p xs \<Longrightarrow> \<exists>ys. lseg h (List.find Q xs) ys"
proof (induction xs arbitrary: p)
  case (Cons x xs)
  then have "lseg h (Some x) (x # xs)" by simp
  then show ?case using Cons by (cases "Q x") (auto intro: exI [of _ "x # xs"])
qed (auto intro: exI [of _ "[]"])

definition grow_head :: "(nat \<Rightarrow> 'k) \<Rightarrow> ('k \<Rightarrow> nat) \<Rightarrow> (nat \<Rightarrow> nat list) \<Rightarrow> nat \<Rightarrow> nat \<Rightarrow> nat \<Rightarrow> nat option" where
  "grow_head key hash B old_sz new_sz i = List.find (\<lambda>x. hash (key x) mod new_sz = i) (B (i mod old_sz))"

lemma grow_loop_ok:
  assumes "\<forall>i < old_sz. lseg h (heads h (old, i)) (B i)" "0 < old_sz" "new \<noteq> old" "distinct is"
  shows "\<exists>h'. grow_loop key hash old old_sz new new_sz is h = Some h' \<and> nexts h' = nexts h \<and> pprevs h' = pprevs h \<and>
    (\<forall>l. fst l \<noteq> new \<longrightarrow> heads h' l = heads h l) \<and>
    (\<forall>i. heads h' (new, i) = (if i \<in> set is \<and> grow_head key hash B old_sz new_sz i \<noteq> None
      then grow_head key hash B old_sz new_sz i else heads h (new, i)))"
  using assms(1,4)
proof (induction "is" arbitrary: h)
  case (Cons i "is")
  let ?g = "grow_head key hash B old_sz new_sz"
  let ?h = "case ?g i of None \<Rightarrow> h | Some x \<Rightarrow> exec (set_head (new, i) x h) h"
  have w: "bucket_walk h (\<lambda>x. hash (key x) mod new_sz = i) (heads h (old, i mod old_sz)) = Some (?g i)"
    using bucket_walk_lseg Cons.prems(1) assms(2) by (simp add: grow_head_def)
  have n: "nexts ?h = nexts h" "pprevs ?h = pprevs h" "\<forall>l. fst l \<noteq> new \<longrightarrow> heads ?h l = heads h l"
    "\<forall>j. heads ?h (new, j) = (if j = i \<and> ?g i \<noteq> None then ?g i else heads h (new, j))"
    by (auto simp: set_head_def split: option.splits)
  have "\<forall>i < old_sz. lseg ?h (heads ?h (old, i)) (B i)"
    using Cons.prems(1) n(1,3) assms(3) lseg_frame [of h _ _ ?h] by auto
  from Cons.IH [OF this] Cons.prems(2) obtain h' where
    h': "grow_loop key hash old old_sz new new_sz is ?h = Some h'" "nexts h' = nexts ?h" "pprevs h' = pprevs ?h"
      "\<forall>l. fst l \<noteq> new \<longrightarrow> heads h' l = heads ?h l"
      "\<forall>j. heads h' (new, j) = (if j \<in> set is \<and> ?g j \<noteq> None then ?g j else heads ?h (new, j))" by auto
  show ?case using h' n w by (intro exI [of _ h']) auto
qed simp

text \<open>The buckets as lists of nodes.\<close>

lemma rt_inv_lists:
  assumes "rt_inv key hash t"
  obtains B where "\<And>i. i < bsize t (cur t) \<Longrightarrow> hlist (theap t) (cur t, i) (B i)"
    "\<And>i x. i < bsize t (cur t) \<Longrightarrow> x \<in> set (B i) \<Longrightarrow> hash (key x) mod bsize t (cur t) = i"
proof -
  have "\<forall>i. \<exists>xs. i < bsize t (cur t) \<longrightarrow> hlist (theap t) (cur t, i) xs \<and> (\<forall>x \<in> set xs. hash (key x) mod bsize t (cur t) = i)"
    using assms by (auto simp: rt_inv_def)
  then obtain B where "\<forall>i. i < bsize t (cur t) \<longrightarrow> hlist (theap t) (cur t, i) (B i) \<and>
      (\<forall>x \<in> set (B i). hash (key x) mod bsize t (cur t) = i)" by (metis choice)
  then show ?thesis using that by blast
qed

lemma resize_grow_ok:
  assumes "\<And>i. i < bsize t (cur t) \<Longrightarrow> hlist (theap t) (cur t, i) (B i)" "0 < bsize t (cur t)" "new \<noteq> cur t"
  obtains h where "resize_grow key hash new new_sz t = Some (t\<lparr>theap := h, bsize := (bsize t)(new := new_sz), cur := new\<rparr>)"
    "nexts h = nexts (theap t)" "pprevs h = pprevs (theap t)" "\<And>i. heads h (cur t, i) = heads (theap t) (cur t, i)"
    "\<And>i. i < new_sz \<Longrightarrow> heads h (new, i) = grow_head key hash B (bsize t (cur t)) new_sz i"
proof -
  let ?h = "buckets_clear new new_sz (theap t)"
  have n: "nexts ?h = nexts (theap t)" "pprevs ?h = pprevs (theap t)" "\<And>i. heads ?h (cur t, i) = heads (theap t) (cur t, i)"
    "\<And>i. i < new_sz \<Longrightarrow> heads ?h (new, i) = None"
    using assms(3) by (simp_all add: buckets_clear_heads buckets_clear_same)
  have "\<forall>i < bsize t (cur t). lseg ?h (heads ?h (cur t, i)) (B i)"
    using assms(1) n lseg_frame [of "theap t" _ _ ?h] by (auto simp: hlist_def)
  from grow_loop_ok [OF this assms(2,3), of "[0..<new_sz]" key hash new_sz] obtain h' where
    h': "grow_loop key hash (cur t) (bsize t (cur t)) new new_sz [0..<new_sz] ?h = Some h'" "nexts h' = nexts ?h"
      "pprevs h' = pprevs ?h" "\<forall>l. fst l \<noteq> new \<longrightarrow> heads h' l = heads ?h l"
      "\<forall>i. heads h' (new, i) = (if i \<in> set [0..<new_sz] \<and> grow_head key hash B (bsize t (cur t)) new_sz i \<noteq> None
        then grow_head key hash B (bsize t (cur t)) new_sz i else heads ?h (new, i))" by auto
  show ?thesis
  proof (rule that [of h'])
    show "resize_grow key hash new new_sz t = Some (t\<lparr>theap := h', bsize := (bsize t)(new := new_sz), cur := new\<rparr>)"
      using h'(1) by (simp add: resize_grow_def buckets_create_def Let_def)
  qed (use h' n assms(3) in auto)
qed

text \<open>C33: Growing the table loses nothing: when the new size is a multiple of the old one, as powers of
  two are, every key is found in the new buckets exactly as it was in the old ones, before any chain
  has been unzipped.\<close>

theorem grow_keeps_finds:
  assumes "rt_inv key hash t" "new \<noteq> cur t" "0 < new_sz" "bsize t (cur t) dvd new_sz"
  shows "\<exists>t'. resize_grow key hash new new_sz t = Some t' \<and> (\<forall>k. rfind key hash k t' = rfind key hash k t)"
proof -
  obtain B where B: "\<And>i. i < bsize t (cur t) \<Longrightarrow> hlist (theap t) (cur t, i) (B i)"
    using rt_inv_lists [OF assms(1)] by metis
  let ?n = "bsize t (cur t)"
  have n0: "0 < ?n" using assms(1) by (simp add: rt_inv_def)
  obtain h where h: "resize_grow key hash new new_sz t = Some (t\<lparr>theap := h, bsize := (bsize t)(new := new_sz), cur := new\<rparr>)"
    "nexts h = nexts (theap t)" "\<And>i. i < new_sz \<Longrightarrow> heads h (new, i) = grow_head key hash B ?n new_sz i"
    using resize_grow_ok [OF B n0 assms(2)] by metis
  have "rfind key hash k (t\<lparr>theap := h, bsize := (bsize t)(new := new_sz), cur := new\<rparr>) = rfind key hash k t" for k
  proof -
    let ?i = "hash k mod new_sz" and ?j = "hash k mod ?n"
    have i: "?i < new_sz" "?i mod ?n = ?j" "?j < ?n" using assms(3,4) n0 by (simp_all add: mod_mod_cancel)
    have l: "lseg (theap t) (heads (theap t) (cur t, ?j)) (B ?j)" using B [OF i(3)] by (simp add: hlist_def)
    have w: "bucket_walk (theap t) (\<lambda>x. hash (key x) mod new_sz = ?i) (heads (theap t) (cur t, ?j)) = Some (heads h (new, ?i))"
      using bucket_walk_lseg [OF l] h(3) [OF i(1)] i(2) by (simp add: grow_head_def)
    have g: "bucket_walk (theap t) (\<lambda>x. key x = k) (heads h (new, ?i)) = bucket_walk (theap t) (\<lambda>x. key x = k) (heads (theap t) (cur t, ?j))"
      by (rule grow_walk [OF B [OF i(3)] _ w]) simp
    obtain ys where "lseg (theap t) (heads h (new, ?i)) ys" using lseg_find [OF l] w bucket_walk_lseg [OF l] by (metis option.inject)
    from walk_nexts [OF this h(2), of "\<lambda>x. key x = k"] show ?thesis
      using g n0 assms(3) i by (simp add: rfind_def key_bucket_def get_bucket_def)
  qed
  then show ?thesis using h(1) by blast
qed


theorem grow_keeps_finds_witness:
  "\<exists>t t'. rinsert id id 5 (rtable_new 0) = Inr t \<and> resize_grow id id 1 4 t = Some t' \<and> rfind id id 5 t' = Some (Inr (Some 5))"
proof -
  obtain t where t: "rinsert id id 5 (rtable_new 0) = Inr t" "rt_inv id id t" "rt_bag id id t 5 = [5]"
    using rinsert_ok [of id id "rtable_new 0" 5] rtable_new_ok [of id id 0] by auto
  have c: "cur t = 0" "bsize t 0 = 1"
    using t(1) by (auto simp: rinsert_def rtable_new_def buckets_create_def key_bucket_def get_bucket_def)
  obtain t' where "resize_grow id id 1 4 t = Some t'" "rfind id id 5 t' = rfind id id 5 t"
    using grow_keeps_finds [OF t(2), of 1 4] c by auto
  moreover have "rfind id id 5 t = Some (Inr (Some 5))" using rfind_ok [OF t(2)] t(3) by simp
  ultimately show ?thesis using t(1) by auto
qed

text \<open>C34: A node at the front of a grown bucket cannot be erased: growing points the new bucket at the
  node but leaves the node's \<open>pprev\<close> in the old chain, so \<open>erase\<close> unlinks the node there and \<open>find\<close>
  still returns it.\<close>

theorem grow_erase_stays:
  assumes "rt_inv key hash t" "new \<noteq> cur t" "resize_grow key hash new new_sz t = Some t'" "i < new_sz"
    "heads (theap t') (new, i) = Some x"
  shows "rfind key hash (key x) (rerase x t') = Some (Inr (Some x))"
proof -
  obtain B where B: "\<And>i. i < bsize t (cur t) \<Longrightarrow> hlist (theap t) (cur t, i) (B i)"
    using rt_inv_lists [OF assms(1)] by metis
  let ?n = "bsize t (cur t)"
  have n0: "0 < ?n" using assms(1) by (simp add: rt_inv_def)
  obtain h where h: "t' = t\<lparr>theap := h, bsize := (bsize t)(new := new_sz), cur := new\<rparr>"
    "pprevs h = pprevs (theap t)" "heads h (new, i) = grow_head key hash B ?n new_sz i"
    using resize_grow_ok [OF B n0 assms(2), of key hash new_sz] assms(3,4) by (metis option.inject)
  then have g: "List.find (\<lambda>x. hash (key x) mod new_sz = i) (B (i mod ?n)) = Some x"
    using assms(5) by (simp add: grow_head_def)
  then have x: "x \<in> set (B (i mod ?n))" "hash (key x) mod new_sz = i" by (auto simp: find_Some_iff)
  obtain us ys where u: "B (i mod ?n) = us @ x # ys" using x(1) by (meson split_list)
  have "pprevs (theap t) x = before (cur t, i mod ?n) us"
    using hlist_backs [of "theap t" "(cur t, i mod ?n)" us "x # ys"] B [of "i mod ?n"] u n0 by simp
  then have "heads (exec (erase x h) h) (new, i) = Some x"
    using assms(2,5) h(1,2) by (auto simp: erase_def Let_def before_def split: option.splits)
  then show ?thesis using x(2) assms(4) h(1)
    by (simp add: rfind_def rerase_def key_bucket_def get_bucket_def) (subst bucket_walk.simps, simp)
qed

theorem grow_erase_stays_witness:
  "\<exists>t t'. rinsert id id 5 (rtable_new 0) = Inr t \<and> resize_grow id id 1 4 t = Some t' \<and>
    rfind id id 5 (rerase 5 t') = Some (Inr (Some 5))"
proof -
  obtain t where t: "rinsert id id 5 (rtable_new 0) = Inr t" "rt_inv id id t"
    using rinsert_ok [of id id "rtable_new 0" 5] rtable_new_ok [of id id 0] by auto
  have e: "t = \<lparr>theap = exec (push_front (0, 0) 5 (theap (rtable_new 0))) (theap (rtable_new 0)), bsize = (\<lambda>_. 0)(0 := 1), cur = 0\<rparr>"
    using t(1) by (auto simp: rinsert_def rtable_new_def buckets_create_def key_bucket_def get_bucket_def)
  have B: "hlist (theap t) (cur t, i) ((\<lambda>_. [5]) i)" if "i < bsize t (cur t)" for i
    using that push_front_hlist [of "theap (rtable_new 0)" "(0, 0)" "[]" 5] unfolding e
    by (simp add: hlist_def rtable_new_def buckets_create_def buckets_clear_heads)
  have n: "0 < bsize t (cur t)" "1 \<noteq> cur t" by (simp_all add: e)
  obtain h where h: "resize_grow id id 1 4 t = Some (t\<lparr>theap := h, bsize := (bsize t)(1 := 4), cur := 1\<rparr>)"
    "\<And>i. i < 4 \<Longrightarrow> heads h (1, i) = grow_head id id (\<lambda>_. [5]) (bsize t (cur t)) 4 i"
    using resize_grow_ok [OF B n, of id id 4] by metis
  have "heads h (1, 1) = Some 5" using h(2) [of 1] by (simp add: grow_head_def)
  then have "rfind id id (id 5) (rerase 5 (t\<lparr>theap := h, bsize := (bsize t)(1 := 4), cur := 1\<rparr>)) = Some (Inr (Some 5))"
    using grow_erase_stays [OF t(2) _ h(1), of 1 5] by (simp add: e)
  then show ?thesis using t(1) h(1) by auto
qed

section \<open>Unzipping\<close>

lemma diff_loop_lseg:
  "lseg h it ys \<Longrightarrow> \<exists>p d. diff_loop hk h prev it = Some (p, d) \<and> (d = None \<longleftrightarrow> (\<forall>y \<in> set ys. hk y = hk prev))"
proof (induction ys arbitrary: it prev)
  case (Cons y ys)
  then have y: "it = Some y" "lseg h (nexts h y) ys" by auto
  obtain p d where "diff_loop hk h y (nexts h y) = Some (p, d)" "d = None \<longleftrightarrow> (\<forall>z \<in> set ys. hk z = hk y)"
    using Cons.IH [OF y(2), of y] by blast
  then show ?case using y(1) by (subst diff_loop.simps) auto
qed (subst diff_loop.simps, simp)

lemma unzip_loop_ok:
  assumes "\<forall>i \<in> set is. lseg h (heads h (old, i)) (B i)" "distinct is"
  shows "if \<exists>i \<in> set is. B i \<noteq> [] \<and> (\<forall>y \<in> set (B i). hk y = hk (hd (B i)))
    then unzip_loop hk old is h m = Some (Inl (Undefined ''*end()''))
    else unzip_loop hk old is h m = Some (Inr (h\<lparr>heads := \<lambda>l. if fst l = old \<and> snd l \<in> set is then None else heads h l\<rparr>, m))"
  using assms
proof (induction "is" arbitrary: h)
  case (Cons i "is")
  let ?c = "h\<lparr>heads := (heads h)((old, i) := None)\<rparr>"
  have l: "lseg h (heads h (old, i)) (B i)" using Cons.prems(1) by simp
  have f: "(\<lambda>l. if fst l = old \<and> snd l \<in> set is then None else heads ?c l) =
      (\<lambda>l. if fst l = old \<and> snd l \<in> set (i # is) then None else heads h l)" by (auto simp: fun_eq_iff)
  have IH: "if \<exists>i \<in> set is. B i \<noteq> [] \<and> (\<forall>y \<in> set (B i). hk y = hk (hd (B i)))
    then unzip_loop hk old is ?c m = Some (Inl (Undefined ''*end()''))
    else unzip_loop hk old is ?c m = Some (Inr (h\<lparr>heads := \<lambda>l. if fst l = old \<and> snd l \<in> set (i # is) then None else heads h l\<rparr>, m))"
    using Cons.IH [of ?c] Cons.prems unfolding f by auto
  show ?case
  proof (cases "B i")
    case Nil
    then have "heads h (old, i) = None" using l by simp
    moreover from this have "?c = h" by (metis fun_upd_triv rheap.surjective rheap.update_convs(1))
    ultimately show ?thesis using IH Nil by (auto split: if_splits)
  next
    case (Cons x xs)
    then have hx: "heads h (old, i) = Some x" "lseg h (nexts h x) xs" using l by auto
    obtain p d where "diff_loop hk h x (nexts h x) = Some (p, d)" "d = None \<longleftrightarrow> (\<forall>y \<in> set xs. hk y = hk x)"
      using diff_loop_lseg [OF hx(2)] by metis
    then show ?thesis using IH Cons hx(1) by (cases d) (auto simp: clear_def split: if_splits)
  qed
qed simp

text \<open>Unzipping never separates the chains of a grown table.  A pass over old buckets that hold
  proper lists dereferences the null iterator as soon as a bucket is not empty and its nodes share
  one hash; otherwise it empties the old buckets, reports that nothing moved and leaves every \<open>next\<close>
  pointer as it was.\<close>

theorem unzip_never_chains:
  assumes "\<forall>i < bsize t old. hlist (theap t) (old, i) (B i)"
  shows "(if \<exists>i < bsize t old. B i \<noteq> [] \<and> (\<forall>y \<in> set (B i). hash (key y) = hash (key (hd (B i))))
      then unzip key hash old t = Some (Inl (Undefined ''*end()''))
      else \<exists>h. unzip key hash old t = Some (Inr (h, False)) \<and> nexts h = nexts (theap t) \<and>
        (\<forall>i < bsize t old. heads h (old, i) = None))"
  using unzip_loop_ok [of "[0..<bsize t old]" "theap t" old B "hash \<circ> key" False] assms
  by (auto simp: unzip_def hlist_def split: if_splits)

theorem unzip_never_chains_witness:
  "\<exists>t. rinsert id id 5 (rtable_new 0) = Inr t \<and> unzip id id 0 t = Some (Inl (Undefined ''*end()''))"
proof -
  obtain t where t: "rinsert id id 5 (rtable_new 0) = Inr t"
    using rinsert_ok [of id id "rtable_new 0" 5] rtable_new_ok [of id id 0] by auto
  have e: "t = \<lparr>theap = exec (push_front (0, 0) 5 (theap (rtable_new 0))) (theap (rtable_new 0)), bsize = (\<lambda>_. 0)(0 := 1), cur = 0\<rparr>"
    using t by (auto simp: rinsert_def rtable_new_def buckets_create_def key_bucket_def get_bucket_def)
  have "\<forall>i < bsize t 0. hlist (theap t) (0, i) ((\<lambda>_. [5]) i)"
    using push_front_hlist [of "theap (rtable_new 0)" "(0, 0)" "[]" 5] unfolding e
    by (simp add: hlist_def rtable_new_def buckets_create_def buckets_clear_heads)
  from unzip_never_chains [OF this, of id id] show ?thesis using t by (simp add: e)
qed


section \<open>Shrinking\<close>

lemma heads_splice_after [simp]: "heads (exec (splice_after x y h) h) = heads h"
  by (simp add: splice_after_def)

lemma chain_loop_total:
  assumes "lseg h (heads h (old, l)) (B l)" "\<forall>j \<in> set js. lseg h (heads h (old, j)) (B j)" "distinct (l # js)"
    "\<forall>i \<in> set (l # js). \<forall>j \<in> set (l # js). i \<noteq> j \<longrightarrow> set (B i) \<inter> set (B j) = {}"
  shows "chain_loop old l js h = Some (Inl (KAssert ''!empty()'')) \<or>
    (\<exists>h'. chain_loop old l js h = Some (Inr h') \<and> heads h' = heads h \<and>
      (\<forall>y. (\<forall>j \<in> set (l # js). y \<notin> set (B j)) \<longrightarrow> nexts h' y = nexts h y))"
  using assms
proof (induction js arbitrary: h l)
  case (Cons j js)
  show ?case
  proof (cases "heads h (old, j)")
    case None
    then show ?thesis using Cons.IH [of h l] Cons.prems by auto
  next
    case (Some x)
    show ?thesis
    proof (cases "B l")
      case Nil
      then show ?thesis using Some Cons.prems(1) by (simp add: splice_end_def hempty_def)
    next
      case (Cons z zs)
      let ?z = "last (B l)" and ?h = "exec (splice_after x (last (B l)) h) h"
      have w: "splice_end (old, l) x h = Some (Inr (splice_after x ?z h))"
        using iter_lseg [OF Cons.prems(1)] Cons Cons.prems(1) by (simp add: splice_end_def splice_after_def hempty_def)
      have nz: "\<forall>y. y \<noteq> ?z \<longrightarrow> nexts ?h y = nexts h y" by (simp add: splice_after_def)
      have z: "?z \<in> set (B l)" using Cons by simp
      have fr: "lseg ?h (heads ?h (old, i)) (B i)" if "i \<in> set (j # js)" for i
      proof -
        have "?z \<notin> set (B i)" using Cons.prems(3,4) that z by (metis disjoint_iff distinct.simps(2) list.set_intros)
        moreover have "lseg h (heads h (old, i)) (B i)" using Cons.prems(2) that by auto
        moreover from calculation(1) have "\<forall>y \<in> set (B i). nexts ?h y = nexts h y" using nz by metis
        ultimately show ?thesis using lseg_frame heads_splice_after by metis
      qed
      have "chain_loop old j js ?h = Some (Inl (KAssert ''!empty()'')) \<or>
        (\<exists>h'. chain_loop old j js ?h = Some (Inr h') \<and> heads h' = heads ?h \<and>
          (\<forall>y. (\<forall>i \<in> set (j # js). y \<notin> set (B i)) \<longrightarrow> nexts h' y = nexts ?h y))"
        by (rule Cons.IH) (use fr Cons.prems(3,4) in auto)
      moreover have "\<forall>y. y \<notin> set (B l) \<longrightarrow> nexts ?h y = nexts h y" using nz z by metis
      ultimately show ?thesis using Some w by auto
    qed
  qed
qed simp

lemma chain_empty: "heads h (old, l) = None \<Longrightarrow> \<exists>j \<in> set js. heads h (old, j) \<noteq> None \<Longrightarrow>
    chain_loop old l js h = Some (Inl (KAssert ''!empty()''))"
  by (induction js) (auto simp: splice_end_def hempty_def split: option.splits)

lemma shrink_loop_asserts:
  assumes "\<forall>j < old_sz. lseg h (heads h (old, j)) (B j)" "\<forall>i < old_sz. \<forall>j < old_sz. i \<noteq> j \<longrightarrow> set (B i) \<inter> set (B j) = {}"
    "\<exists>i \<in> set is. heads h (old, i) = None \<and> (\<exists>j < old_sz. i < j \<and> j mod new_sz = i \<and> heads h (old, j) \<noteq> None)"
    "\<forall>i \<in> set is. i < new_sz" "new_sz \<le> old_sz" "distinct is"
  shows "shrink_loop old old_sz new_sz is h = Some (Inl (KAssert ''!empty()''))"
proof -
  have "\<forall>j < old_sz. j mod new_sz \<in> set is \<longrightarrow> lseg h (heads h (old, j)) (B j)" using assms(1) by simp
  with assms(2-) show ?thesis
  proof (induction "is" arbitrary: h)
    case (Cons i "is")
    let ?js = "filter (\<lambda>j. i < j \<and> j mod new_sz = i mod new_sz) [0..<old_sz]"
    have i: "i < new_sz" "i < old_sz" "i mod new_sz = i" using Cons.prems(3,4) by auto
    have "chain_loop old i ?js h = Some (Inl (KAssert ''!empty()'')) \<or>
      (\<exists>h'. chain_loop old i ?js h = Some (Inr h') \<and> heads h' = heads h \<and>
        (\<forall>y. (\<forall>j \<in> set (i # ?js). y \<notin> set (B j)) \<longrightarrow> nexts h' y = nexts h y))"
      by (rule chain_loop_total) (use Cons.prems(1,6) i in \<open>auto simp: Ball_def\<close>)
    then show ?case
    proof (elim disjE exE conjE)
      fix h' assume h': "chain_loop old i ?js h = Some (Inr h')" "heads h' = heads h"
        "\<forall>y. (\<forall>j \<in> set (i # ?js). y \<notin> set (B j)) \<longrightarrow> nexts h' y = nexts h y"
      have ne: "\<not> (heads h (old, i) = None \<and> (\<exists>j < old_sz. i < j \<and> j mod new_sz = i \<and> heads h (old, j) \<noteq> None))"
      proof
        assume a: "heads h (old, i) = None \<and> (\<exists>j < old_sz. i < j \<and> j mod new_sz = i \<and> heads h (old, j) \<noteq> None)"
        then have "\<exists>j \<in> set ?js. heads h (old, j) \<noteq> None" using i(3) by (auto intro!: bexI)
        from chain_empty [OF _ this] show False using a h'(1) by simp
      qed
      have fr: "lseg h' (heads h' (old, j)) (B j)" if j: "j < old_sz" "j mod new_sz \<in> set is" for j
      proof -
        have "j mod new_sz \<noteq> i" using Cons.prems(5) j(2) by auto
        then have "\<forall>k \<in> set (i # ?js). k \<noteq> j \<and> k < old_sz" using i by auto
        then have "\<forall>y \<in> set (B j). \<forall>k \<in> set (i # ?js). y \<notin> set (B k)"
          using Cons.prems(1) j(1) by (metis disjoint_iff)
        then have "\<forall>y \<in> set (B j). nexts h' y = nexts h y" using h'(3) by blast
        moreover have "lseg h (heads h (old, j)) (B j)" using Cons.prems(6) j by simp
        ultimately show ?thesis using lseg_frame h'(2) by metis
      qed
      have "shrink_loop old old_sz new_sz is h' = Some (Inl (KAssert ''!empty()''))"
        by (rule Cons.IH) (use Cons.prems ne fr h'(2) in auto)
      then show ?thesis using h'(1) by simp
    qed simp
  qed simp
qed

lemma buckets_copy_heads:
  assumes "new \<noteq> old"
  shows "theap (buckets_copy junk old new n t) =
    (theap t)\<lparr>heads := \<lambda>l. if fst l = new \<and> snd l < n then heads (theap t) (old, snd l) else heads (theap t) l\<rparr>"
  using assms by (induction n) (auto simp: buckets_copy_def fun_eq_iff less_Suc_eq intro!: arg_cong2 [of _ _ _ _ heads_update])

text \<open>Shrinking a table stops at an assertion whenever a bucket that stays is empty while a bucket
  folded into it is not: the chaining appends to the end of a list that has no end.\<close>

theorem shrink_asserts:
  assumes "rt_inv key hash t" "new \<noteq> cur t" "new_sz < bsize t (cur t)" "i < new_sz" "heads (theap t) (cur t, i) = None"
    "j < bsize t (cur t)" "j mod new_sz = i" "heads (theap t) (cur t, j) \<noteq> None"
  shows "resize_shrink junk new new_sz t = Some (Inl (KAssert ''!empty()''))"
proof -
  obtain B where B: "\<And>i. i < bsize t (cur t) \<Longrightarrow> hlist (theap t) (cur t, i) (B i)"
    "\<And>i x. i < bsize t (cur t) \<Longrightarrow> x \<in> set (B i) \<Longrightarrow> hash (key x) mod bsize t (cur t) = i"
    using rt_inv_lists [OF assms(1)] by metis
  let ?h = "theap (buckets_copy junk (cur t) new new_sz t)"
  have hd: "heads ?h (cur t, k) = heads (theap t) (cur t, k)" for k
    using assms(2) by (simp add: buckets_copy_heads [OF assms(2)])
  have "i < j" using assms(4-8) by (metis mod_less_eq_dividend nat_less_le)
  then have ex: "\<exists>i \<in> set [0..<new_sz]. heads ?h (cur t, i) = None \<and>
      (\<exists>j < bsize t (cur t). i < j \<and> j mod new_sz = i \<and> heads ?h (cur t, j) \<noteq> None)"
    using assms(4-8) unfolding hd by (intro bexI [of _ i]) auto
  have l: "\<forall>j < bsize t (cur t). lseg ?h (heads ?h (cur t, j)) (B j)"
    using B(1) hd by (auto simp: buckets_copy_heads [OF assms(2)] hlist_def)
  have d: "\<forall>i < bsize t (cur t). \<forall>j < bsize t (cur t). i \<noteq> j \<longrightarrow> set (B i) \<inter> set (B j) = {}" using B(2) by blast
  have "shrink_loop (cur t) (bsize t (cur t)) new_sz [0..<new_sz] ?h = Some (Inl (KAssert ''!empty()''))"
    by (rule shrink_loop_asserts [OF l d ex]) (use assms(3) in auto)
  then show ?thesis by (simp add: resize_shrink_def Let_def)
qed

theorem shrink_asserts_witness:
  "\<exists>t. rinsert id id 3 (rtable_new 2) = Inr t \<and> resize_shrink 0 1 2 t = Some (Inl (KAssert ''!empty()''))"
proof -
  obtain t where t: "rinsert id id 3 (rtable_new 2) = Inr t" "rt_inv id id t"
    using rinsert_ok [of id id "rtable_new 2" 3] rtable_new_ok [of id id 2] by auto
  have e: "t = \<lparr>theap = exec (push_front (0, 3) 3 (theap (rtable_new 2))) (theap (rtable_new 2)), bsize = (\<lambda>_. 0)(0 := 4), cur = 0\<rparr>"
    using t(1) by (auto simp: rinsert_def rtable_new_def buckets_create_def key_bucket_def get_bucket_def)
  have "heads (theap t) (0, 1) = None" "heads (theap t) (0, 3) \<noteq> None"
    by (simp_all add: e push_front_def Let_def rtable_new_def buckets_create_def buckets_clear_heads)
  then show ?thesis using shrink_asserts [OF t(2), of 1 2 1 3 0] t(1) by (simp add: e)
qed

end
