(* ===== verification/NetIp.thy ===== *)
theory NetIp
  imports NetTcp
begin

text \<open>
  IPv4: the addresses of \<open>src/src/native/NetIpAddress.h\<close>, the header of \<open>NetIp.h\<close> with the assembly of
  its checksum, and the input half of \<open>ReceiveIp\<close> in \<open>NetIp.cc\<close>.  A header is read and written in the
  buffer it lies in, at the byte offsets of the packed structure; 16-bit fields are little-endian
  loads followed by \<open>ntohs\<close>.
\<close>

section \<open>Bytes of packed structures\<close>

definition htons :: "nat \<Rightarrow> nat" where
  "htons v = bswap16 v"

definition ntohs :: "nat \<Rightarrow> nat" where
  "ntohs v = htons v"

definition htonl :: "nat \<Rightarrow> nat" where
  "htonl v = bswap16 (v mod u16) * u16 + bswap16 (v div u16 mod u16)"

definition ntohl :: "nat \<Rightarrow> nat" where
  "ntohl v = htonl v"

definition rd :: "nat \<Rightarrow> nat \<Rightarrow> byte list \<Rightarrow> nat" where
  "rd off n bs = load n (drop off bs)"

fun le_bytes :: "nat \<Rightarrow> nat \<Rightarrow> byte list" where
  "le_bytes 0 v = []"
| "le_bytes (Suc n) v = of_nat v # le_bytes n (v div 256)"

definition wr :: "nat \<Rightarrow> byte list \<Rightarrow> byte list \<Rightarrow> byte list" where
  "wr off v bs = take off bs @ v @ drop (off + length v) bs"

section \<open>Packet buffers\<close>

text \<open>
  A chain with the bytes before the view of its first buffer, which \<open>Retreat\<close> gives back.
\<close>

record pkt =
  b_front :: "byte list"
  b_head :: "byte list"
  b_rest :: "byte list list"

definition pkt_bytes :: "pkt \<Rightarrow> byte list" where
  "pkt_bytes p = b_head p @ concat (b_rest p)"

definition buf_Advance :: "nat \<Rightarrow> pkt \<Rightarrow> pkt result" where
  "buf_Advance n p =
    (if length (b_head p) < n then Inl (KAssert ''length_ >= amount'')
     else Inr (p\<lparr>b_front := b_front p @ take n (b_head p), b_head := drop n (b_head p)\<rparr>))"

definition buf_Retreat :: "nat \<Rightarrow> pkt \<Rightarrow> pkt result" where
  "buf_Retreat n p =
    (if length (b_front p) < n then Inl (KAssert ''(data_ - amount) >= Buffer()'')
     else let k = length (b_front p) - n in
       Inr (p\<lparr>b_front := take k (b_front p), b_head := drop k (b_front p) @ b_head p\<rparr>))"

definition buf_TrimEnd :: "nat \<Rightarrow> pkt \<Rightarrow> pkt result" where
  "buf_TrimEnd n p =
    (if length (b_head p) < n then Inl (Undefined ''length_ wraps around'')
     else Inr (p\<lparr>b_head := take (length (b_head p) - n) (b_head p)\<rparr>))"

text \<open>A mutable data pointer skips empty buffers and gives a header that lies in one buffer.\<close>

definition header_view :: "pkt \<Rightarrow> byte list result" where
  "header_view p = (case dropWhile (\<lambda>v. v = []) (b_head p # b_rest p) of
     [] \<Rightarrow> Inl (KAssert ''p->ComputeChainDataLength() > 0'')
   | v # vs \<Rightarrow> Inr v)"

definition get_header :: "nat \<Rightarrow> pkt \<Rightarrow> byte list result" where
  "get_header n p = bindr (header_view p) (\<lambda>v.
     if length v < n then Inl (Throw ''MutDataPointer::Get(): request straddles buffer'') else Inr v)"

definition mk_buf :: "(nat \<Rightarrow> byte) \<Rightarrow> nat \<Rightarrow> pkt" where
  "mk_buf junk n = \<lparr>b_front = [], b_head = map junk [0..<n], b_rest = []\<rparr>"

definition put :: "nat \<Rightarrow> byte list \<Rightarrow> pkt \<Rightarrow> pkt" where
  "put off v p = p\<lparr>b_head := wr off v (b_head p)\<rparr>"

section \<open>Addresses\<close>

definition Ip_Broadcast :: ipv4 where "Ip_Broadcast = [0xff, 0xff, 0xff, 0xff]"

definition Ip_Any :: ipv4 where "Ip_Any = [0, 0, 0, 0]"

definition Ip_Mask :: "ipv4 \<Rightarrow> ipv4 \<Rightarrow> ipv4" where
  "Ip_Mask a m = map2 (AND) a m"

definition Ip_Not :: "ipv4 \<Rightarrow> ipv4" where
  "Ip_Not a = map NOT a"

definition isAny :: "ipv4 \<Rightarrow> bool" where
  "isAny a \<longleftrightarrow> a ! 0 = 0 \<and> a ! 1 = 0 \<and> a ! 2 = 0 \<and> a ! 3 = 0"

definition isBroadcast :: "ipv4 \<Rightarrow> bool" where
  "isBroadcast a \<longleftrightarrow> isAny a \<or> (a ! 0 = 0xff \<and> a ! 1 = 0xff \<and> a ! 2 = 0xff \<and> a ! 3 = 0xff)"

definition isMulticast :: "ipv4 \<Rightarrow> bool" where
  "isMulticast a \<longleftrightarrow> a ! 0 AND 0xf0 = 0xe0"

definition isLinkLocal :: "ipv4 \<Rightarrow> bool" where
  "isLinkLocal a \<longleftrightarrow> a ! 0 = 169 \<and> a ! 1 = 254"

record itf_address =
  ia_address :: ipv4
  ia_netmask :: ipv4
  ia_gateway :: ipv4

definition isLocalNetwork :: "itf_address \<Rightarrow> ipv4 \<Rightarrow> bool" where
  "isLocalNetwork ia a \<longleftrightarrow> Ip_Mask a (ia_netmask ia) = Ip_Mask (ia_address ia) (ia_netmask ia)"

definition itf_isBroadcast :: "itf_address \<Rightarrow> ipv4 \<Rightarrow> bool" where
  "itf_isBroadcast ia a \<longleftrightarrow>
    (if isBroadcast a then True
     else if a = ia_address ia then False
     else isLocalNetwork ia a \<and> Ip_Mask a (Ip_Not (ia_netmask ia)) = Ip_Mask Ip_Broadcast (Ip_Not (ia_netmask ia)))"

section \<open>The header\<close>

definition sizeof_Ipv4Header :: nat where "sizeof_Ipv4Header = 20"

definition kIpDefaultTtl :: nat where "kIpDefaultTtl = 255"

definition kIpProtoICMP :: nat where "kIpProtoICMP = 1"

definition kIpProtoTCP :: nat where "kIpProtoTCP = 6"

definition kIpProtoUDP :: nat where "kIpProtoUDP = 17"

definition ip_Version :: "byte list \<Rightarrow> nat" where
  "ip_Version h = unat (drop_bit 4 (h ! 0))"

definition ip_HeaderLength :: "byte list \<Rightarrow> nat" where
  "ip_HeaderLength h = unat (h ! 0 AND 0xf) * 4"

definition ip_TotalLength :: "byte list \<Rightarrow> nat" where
  "ip_TotalLength h = ntohs (rd 2 2 h)"

definition ip_MoreFragments :: "byte list \<Rightarrow> bool" where
  "ip_MoreFragments h \<longleftrightarrow> ntohs (rd 6 2 h) AND 0x2000 \<noteq> 0"

definition ip_FragmentOffset :: "byte list \<Rightarrow> nat" where
  "ip_FragmentOffset h = ntohs (rd 6 2 h) AND 0x1fff"

definition ip_Fragmented :: "byte list \<Rightarrow> bool" where
  "ip_Fragmented h \<longleftrightarrow> ip_MoreFragments h \<or> ip_FragmentOffset h \<noteq> 0"

definition ip_proto :: "byte list \<Rightarrow> nat" where "ip_proto h = rd 9 1 h"

definition ip_src :: "byte list \<Rightarrow> ipv4" where "ip_src h = take 4 (drop 12 h)"

definition ip_dst :: "byte list \<Rightarrow> ipv4" where "ip_dst h = take 4 (drop 16 h)"

text \<open>
  The assembly: a chain of 32-bit additions with carry over the words of the header, the carry, the
  addition of the two halves and its carry, and the complement.  The loop is entered with at least
  one word left only if the header has five words or more, which every caller ensures.
\<close>

definition ComputeChecksum :: "byte list \<Rightarrow> nat" where
  "ComputeChecksum h =
    (let header_words = unat (h ! 0 AND 0xf);
         dc = fold (\<lambda>i. adc 32 (load 4 (drop (4 * i) h))) [1..<header_words] (load 4 h, 0);
         sum = fst (adc 32 0 dc);
         s = adc 16 (sum mod 2 ^ 16) (sum div 2 ^ 16, 0)
     in 65535 - (fst s + snd s) mod 65536)"

section \<open>Input\<close>

text \<open>
  The length of the header is not compared with the view before the checksum reads the options:
  the loads go on behind the view, where the memory holds \<open>junk\<close>.
\<close>

definition ip_input :: "(nat \<Rightarrow> byte) \<Rightarrow> itf_address option \<Rightarrow> pkt \<Rightarrow> (byte list \<times> pkt) option result" where
  "ip_input junk addr p =
    (let packet_len = length (pkt_bytes p) in
     if packet_len < sizeof_Ipv4Header then Inr None
     else bindr (get_header sizeof_Ipv4Header p) (\<lambda>h.
       if ip_Version h \<noteq> 4 then Inr None
       else if ip_HeaderLength h < sizeof_Ipv4Header then Inr None
       else if packet_len < ip_TotalLength h then Inr None
       else bindr (buf_TrimEnd (packet_len - ip_TotalLength h) p) (\<lambda>p1.
         if ComputeChecksum (h @ map junk [0..<ip_HeaderLength h - length h]) \<noteq> 0 then Inr None
         else if ip_proto h \<noteq> kIpProtoUDP \<and>
           (case addr of None \<Rightarrow> True | Some ia \<Rightarrow> \<not> itf_isBroadcast ia (ip_dst h) \<and> ia_address ia \<noteq> ip_dst h) then Inr None
         else if isBroadcast (ip_src h) \<or> isMulticast (ip_src h) then Inr None
         else if ip_Fragmented h then Inr None
         else bindr (buf_Advance (ip_HeaderLength h) p1) (\<lambda>p2. Inr (Some (take (ip_HeaderLength h) h, p2))))))"

text \<open>Output: \<open>Interface::SendIp\<close> up to the call of \<open>EthArpSend\<close>.\<close>

definition ip_output :: "ipv4 \<Rightarrow> ipv4 \<Rightarrow> nat \<Rightarrow> pkt \<Rightarrow> pkt result" where
  "ip_output src dst proto buf =
    bindr (buf_Retreat sizeof_Ipv4Header buf) (\<lambda>b.
    bindr (get_header sizeof_Ipv4Header b) (\<lambda>_.
      let b1 = put 0 ([0x45, 0] @ le_bytes 2 (ntohs (length (pkt_bytes b))) @ [0, 0, 0, 0, of_nat kIpDefaultTtl, of_nat proto, 0, 0] @ src @ dst) b;
          b2 = put 10 (le_bytes 2 (ComputeChecksum (b_head b1))) b1
      in if ComputeChecksum (b_head b2) \<noteq> 0 then Inl (KAssert ''ih.ComputeChecksum() == 0'') else Inr b2))"

section \<open>Bytes written and read back\<close>

lemma length_le_bytes [simp]: "length (le_bytes n v) = n"
  by (induction n arbitrary: v) auto

lemma unat_of_nat_byte: "unat (of_nat v :: byte) = v mod 256"
  by (simp add: unat_of_nat)

lemma le_val_le_bytes [simp]: "le_val (le_bytes n v) = v mod 256 ^ n"
proof (induction n arbitrary: v)
  case (Suc n)
  have "v mod 256 + 256 * (v div 256 mod 256 ^ n) = v mod (256 * 256 ^ n)" by (simp add: mod_mult2_eq)
  then show ?case using Suc by (simp add: unat_of_nat_byte)
qed simp

lemma bswap16_less [simp]: "bswap16 v < 65536"
proof -
  have "v div 256 mod 256 < 256" "v mod 256 < 256" by simp_all
  then show ?thesis unfolding bswap16_def by linarith
qed

lemma bswap16_twice: "bswap16 (bswap16 v) = v mod 65536"
proof -
  have "v mod 65536 = v div 256 mod 256 * 256 + v mod 256" using mod_mult2_eq [of v 256 256] by simp
  moreover have "bswap16 v mod 256 = v div 256 mod 256" "bswap16 v div 256 mod 256 = v mod 256" by (simp_all add: bswap16_def)
  ultimately show ?thesis unfolding bswap16_def [of "bswap16 v"] by simp
qed

lemma length_wr [simp]: "off + length v \<le> length bs \<Longrightarrow> length (wr off v bs) = length bs"
  by (simp add: wr_def)

lemma take_wr: "k \<le> off \<Longrightarrow> off + length v \<le> length bs \<Longrightarrow> take k (wr off v bs) = take k bs"
  by (simp add: wr_def min_def)

lemma drop_wr: "off + length v \<le> k \<Longrightarrow> off + length v \<le> length bs \<Longrightarrow> drop k (wr off v bs) = drop k bs"
  by (simp add: wr_def)

lemma rd_wr: "off + length v \<le> length bs \<Longrightarrow> n = length v \<Longrightarrow> rd off n (wr off v bs) = le_val v"
  by (simp add: rd_def wr_def load_def)

lemma rd_wr_other:
  assumes "off + length v \<le> length bs" "off' + n \<le> off \<or> off + length v \<le> off'"
  shows "rd off' n (wr off v bs) = rd off' n bs"
proof (cases "off' + n \<le> off")
  case True
  then show ?thesis using take_wr [of "n + off'" off v bs] assms(1) by (simp add: rd_def load_def take_drop add.commute)
next
  case False
  then show ?thesis using drop_wr [of off v off' bs] assms by (simp add: rd_def)
qed

section \<open>The checksum of the header\<close>

lemma ComputeChecksum_ok:
  assumes "n = unat (h ! 0 AND 0xf)" "0 < n" "4 * n \<le> length h"
  shows "ComputeChecksum h = 65535 - canon (le_sum (take (4 * n) h))"
proof -
  let ?f = "\<lambda>k. fold (\<lambda>i. adc 32 (load 4 (drop (4 * i) h))) [1..<k] (load 4 h, 0)"
  have "carry_ok 32 (?f k) \<and> ocong (fst (?f k) + snd (?f k)) (le_sum (take (4 * k) h))" if "1 \<le> k" "k \<le> n" for k
    using that
  proof (induction k rule: dec_induct)
    case base
    then show ?case using carry_ok_start [of "load 4 h" 32] load_less [of 4 h] load_ocong [of 4 h] assms(3) by simp
  next
    case (step k)
    have ih: "carry_ok 32 (?f k)" "ocong (fst (?f k) + snd (?f k)) (le_sum (take (4 * k) h))" using step by auto
    let ?w = "load 4 (drop (4 * k) h)"
    have w: "ocong ?w (le_sum (take 4 (drop (4 * k) h)))" using load_ocong [of 4 "drop (4 * k) h"] step assms(3) by simp
    have "ocong (fst (adc 32 ?w (?f k)) + snd (adc 32 ?w (?f k))) (fst (?f k) + snd (?f k) + ?w)" by (rule adc_ocong_32)
    also have "ocong \<dots> (le_sum (take (4 * k) h) + le_sum (take 4 (drop (4 * k) h)))" using ih(2) w by (rule ocong_add)
    also have "\<dots> = le_sum (take (4 * Suc k) h)"
      using le_sum_even [of "take (4 * k) h" "take 4 (drop (4 * k) h)"] step assms(3)
      by (simp add: take_add [symmetric] add.commute)
    finally show ?case using carry_ok_adc [OF ih(1), of ?w] load_less [of 4 "drop (4 * k) h"] step(1) by simp
  qed
  from this [of n] have c: "carry_ok 32 (?f n)" "ocong (fst (?f n) + snd (?f n)) (le_sum (take (4 * n) h))" using assms(2) by auto
  define sum where "sum = fst (adc 32 0 (?f n))"
  have s: "sum < 2 ^ 32" "ocong sum (le_sum (take (4 * n) h))"
    using adc_final [OF c(1)] c by (simp_all add: sum_def carry_ok_def)
  let ?s = "adc 16 (sum mod 2 ^ 16) (sum div 2 ^ 16, 0)"
  have hl: "sum div 2 ^ 16 < 2 ^ 16" using s(1) by (simp add: less_mult_imp_div_less)
  have "carry_ok 16 ?s" by (rule carry_ok_adc) (use carry_ok_start [OF hl] in auto)
  then have lt: "fst ?s + snd ?s < 65536" by (simp add: carry_ok_def)
  have "ocong (fst ?s + snd ?s) (sum div 2 ^ 16 + sum mod 2 ^ 16)" using adc_ocong_16 [of "sum mod 2 ^ 16" "(sum div 2 ^ 16, 0)"] by simp
  also have "ocong \<dots> (sum div 2 ^ 16 * 2 ^ (16 * 1) + sum mod 2 ^ 16)" by (intro ocong_add ocong_refl ocong_sym [OF ocong_pow])
  also have "\<dots> = sum" using div_mult_mod_eq [of sum "2 ^ 16"] by simp
  also have "ocong \<dots> (le_sum (take (4 * n) h))" by (rule s(2))
  finally have "canon (fst ?s + snd ?s) = canon (le_sum (take (4 * n) h))" by (rule canon_ocong)
  then have "fst ?s + snd ?s = canon (le_sum (take (4 * n) h))" unfolding canon_self [OF lt] .
  then show ?thesis using lt unfolding ComputeChecksum_def Let_def assms(1) [symmetric] sum_def [symmetric] by simp
qed

text \<open>Storing the checksum makes the header verify.\<close>

lemma le_sum_wr:
  assumes "even off" "off + 2 \<le> length h" "v < 65536"
  shows "le_sum (wr off (le_bytes 2 v) h) = le_sum (take off h) + v + le_sum (drop (off + 2) h)"
proof -
  have "le_sum (le_bytes 2 v) = v" using assms(3) by (simp add: numeral_2_eq_2 unat_of_nat_byte less_mult_imp_div_less)
  then show ?thesis using assms(1,2) by (simp add: wr_def le_sum_even)
qed

lemma stored_checksum:
  assumes "even off" "off + 2 \<le> length h" "rd off 2 h = 0" "c = 65535 - canon (le_sum h)"
  shows "65535 - canon (le_sum (wr off (le_bytes 2 c) h)) = 0"
proof -
  have z: "le_sum (take 2 (drop off h)) = 0"
  proof -
    have "ocong (load 2 (drop off h)) (le_sum (take 2 (drop off h)))" using load_ocong [of 2 "drop off h"] assms(2) by simp
    then show ?thesis using assms(3) by (simp add: rd_def ocong_def)
  qed
  have h: "le_sum h = le_sum (take off h) + le_sum (drop (off + 2) h)"
    using le_sum_take_drop [OF assms(1), of h] le_sum_take_drop [of 2 "drop off h"] z assms(2) by (simp add: add.commute)
  have "le_sum (wr off (le_bytes 2 c) h) = le_sum h + c" using le_sum_wr [OF assms(1,2), of c] assms(4) h by simp
  also have "ocong \<dots> (canon (le_sum h) + c)" by (intro ocong_add ocong_refl ocong_sym [OF ocong_canon])
  also have "canon (le_sum h) + c = 65535" using assms(4) canon_less [of "le_sum h"] by simp
  finally show ?thesis using canon_ocong [of _ 65535] canon_self [of 65535] by simp
qed


section \<open>Output and input\<close>

definition ip_base :: "ipv4 \<Rightarrow> ipv4 \<Rightarrow> nat \<Rightarrow> nat \<Rightarrow> byte list" where
  "ip_base src dst proto tlen =
    [0x45, 0] @ le_bytes 2 (ntohs tlen) @ [0, 0, 0, 0, of_nat kIpDefaultTtl, of_nat proto, 0, 0] @ src @ dst"

definition ip_hdr :: "ipv4 \<Rightarrow> ipv4 \<Rightarrow> nat \<Rightarrow> nat \<Rightarrow> byte list" where
  "ip_hdr src dst proto tlen =
    wr 10 (le_bytes 2 (65535 - canon (le_sum (ip_base src dst proto tlen)))) (ip_base src dst proto tlen)"

lemma ihl_45 [simp]: "unat ((0x45 :: byte) AND 0xf) = 5" "drop_bit 4 (0x45 :: byte) = 4"
  by code_simp+

lemma wr_append: "off + length v \<le> length a \<Longrightarrow> wr off v (a @ b) = wr off v a @ b"
  by (simp add: wr_def)

lemma wr_all: "length v = length a \<Longrightarrow> wr 0 v (a @ b) = v @ b"
  by (simp add: wr_def)

lemma nth_wr: "i < off \<Longrightarrow> off + length v \<le> length bs \<Longrightarrow> wr off v bs ! i = bs ! i"
  by (simp add: wr_def nth_append)

lemma checksum_20:
  assumes "length h = 20" "h ! 0 = 0x45"
  shows "ComputeChecksum (h @ x) = 65535 - canon (le_sum h)"
  using ComputeChecksum_ok [of 5 "h @ x"] assms by (simp add: nth_append)

lemma ip_base_props:
  assumes "length src = 4" "length dst = 4"
  shows "length (ip_base src dst proto tlen) = 20" "ip_base src dst proto tlen ! 0 = 0x45"
    "rd 10 2 (ip_base src dst proto tlen) = 0"
  using assms by (simp_all add: ip_base_def rd_def load_def numeral_2_eq_2)

lemma ip_hdr_props:
  assumes "length src = 4" "length dst = 4"
  shows "length (ip_hdr src dst proto tlen) = 20" "ip_hdr src dst proto tlen ! 0 = 0x45"
    "ComputeChecksum (ip_hdr src dst proto tlen @ x) = 0"
proof -
  note b = ip_base_props [OF assms]
  show l: "length (ip_hdr src dst proto tlen) = 20" "ip_hdr src dst proto tlen ! 0 = 0x45"
    using b by (simp_all add: ip_hdr_def nth_wr)
  show "ComputeChecksum (ip_hdr src dst proto tlen @ x) = 0"
    using checksum_20 [OF l] stored_checksum [of 10 "ip_base src dst proto tlen"] b by (simp add: ip_hdr_def)
qed

lemma ip_hdr_fields:
  assumes "length src = 4" "length dst = 4" "proto < 256" "tlen < 65536"
  shows "ip_Version (ip_hdr src dst proto tlen @ x) = 4" "ip_HeaderLength (ip_hdr src dst proto tlen @ x) = 20"
    "ip_TotalLength (ip_hdr src dst proto tlen @ x) = tlen" "ip_proto (ip_hdr src dst proto tlen @ x) = proto"
    "ip_src (ip_hdr src dst proto tlen @ x) = src" "ip_dst (ip_hdr src dst proto tlen @ x) = dst"
    "\<not> ip_Fragmented (ip_hdr src dst proto tlen @ x)"
proof -
  let ?b = "ip_base src dst proto tlen" and ?c = "le_bytes 2 (65535 - canon (le_sum (ip_base src dst proto tlen)))"
  note b = ip_base_props [OF assms(1,2)] and h = ip_hdr_props [OF assms(1,2)]
  have e: "ip_hdr src dst proto tlen @ x = wr 10 ?c (?b @ x)" using b by (simp add: ip_hdr_def wr_append)
  have rd: "rd off n (ip_hdr src dst proto tlen @ x) = rd off n ?b" if "off + n \<le> 10" for off n
    unfolding e using rd_wr_other [of 10 ?c "?b @ x" off n] that b by (simp add: rd_def load_def)
  show "ip_Version (ip_hdr src dst proto tlen @ x) = 4" "ip_HeaderLength (ip_hdr src dst proto tlen @ x) = 20"
    using h by (simp_all add: ip_Version_def ip_HeaderLength_def nth_append)
  have "rd 2 2 ?b = bswap16 tlen" by (simp add: rd_def load_def ip_base_def ntohs_def htons_def)
  then show "ip_TotalLength (ip_hdr src dst proto tlen @ x) = tlen"
    using rd [of 2 2] bswap16_twice [of tlen] assms(4) by (simp add: ip_TotalLength_def ntohs_def htons_def)
  have "rd 9 1 ?b = proto" using assms(3) by (simp add: rd_def load_def ip_base_def unat_of_nat_byte numeral_2_eq_2)
  then show "ip_proto (ip_hdr src dst proto tlen @ x) = proto" using rd [of 9 1] by (simp add: ip_proto_def)
  have "rd 6 2 ?b = 0" by (simp add: rd_def load_def ip_base_def numeral_2_eq_2)
  then show "\<not> ip_Fragmented (ip_hdr src dst proto tlen @ x)"
    using rd [of 6 2] by (simp add: ip_Fragmented_def ip_MoreFragments_def ip_FragmentOffset_def ntohs_def htons_def bswap16_def)
  have d: "drop 12 (ip_hdr src dst proto tlen @ x) = src @ dst @ x"
    unfolding e using drop_wr [of 10 ?c 12 "?b @ x"] b by (simp add: ip_base_def numeral_2_eq_2)
  then show "ip_src (ip_hdr src dst proto tlen @ x) = src" using assms(1) by (simp add: ip_src_def)
  have "drop 16 (ip_hdr src dst proto tlen @ x) = dst @ x"
    using arg_cong [OF d, of "drop 4"] assms(1) h(1) by simp
  then show "ip_dst (ip_hdr src dst proto tlen @ x) = dst" using assms(2) by (simp add: ip_dst_def)
qed

lemma ip_output_ok:
  assumes "length src = 4" "length dst = 4" "20 \<le> length (b_front p)"
  shows "ip_output src dst proto p = Inr (p\<lparr>b_front := take (length (b_front p) - 20) (b_front p),
    b_head := ip_hdr src dst proto (20 + length (pkt_bytes p)) @ b_head p\<rparr>)"
proof -
  let ?k = "length (b_front p) - 20" and ?n = "20 + length (pkt_bytes p)"
  define b where "b = p\<lparr>b_front := take ?k (b_front p), b_head := drop ?k (b_front p) @ b_head p\<rparr>"
  have l: "length (drop ?k (b_front p)) = 20" using assms(3) by simp
  have n: "length (pkt_bytes b) = ?n" using l by (simp add: b_def pkt_bytes_def)
  have r: "buf_Retreat sizeof_Ipv4Header p = Inr b" using assms(3) by (simp add: buf_Retreat_def sizeof_Ipv4Header_def b_def Let_def)
  have g: "get_header sizeof_Ipv4Header b = Inr (b_head b)"
    using l by (auto simp: get_header_def header_view_def sizeof_Ipv4Header_def b_def)
  note ib = ip_base_props [OF assms(1,2), of proto ?n]
  have h1: "b_head (put 0 (ip_base src dst proto ?n) b) = ip_base src dst proto ?n @ b_head p"
    using ib(1) l by (simp add: put_def b_def wr_all)
  have c: "ComputeChecksum (ip_base src dst proto ?n @ b_head p) = 65535 - canon (le_sum (ip_base src dst proto ?n))"
    using checksum_20 ib by blast
  have h2: "b_head (put 10 (le_bytes 2 (65535 - canon (le_sum (ip_base src dst proto ?n)))) (put 0 (ip_base src dst proto ?n) b)) =
      ip_hdr src dst proto ?n @ b_head p"
    using h1 ib(1) unfolding put_def by (simp add: ip_hdr_def wr_append)
  show ?thesis unfolding ip_output_def r bindr_Inr g Let_def n ip_base_def [symmetric] h1 c h2 ip_hdr_props(3) [OF assms(1,2)]
    using h2 by (simp add: put_def b_def)
qed

lemma ip_input_ok:
  assumes "length src = 4" "length dst = 4" "proto < 256" "20 + length body < 65536" "\<not> isBroadcast src" "\<not> isMulticast src"
    "proto = kIpProtoUDP \<or> (\<exists>ia. addr = Some ia \<and> (itf_isBroadcast ia dst \<or> ia_address ia = dst))"
  shows "ip_input junk addr \<lparr>b_front = f, b_head = ip_hdr src dst proto (20 + length body) @ body, b_rest = []\<rparr> =
    Inr (Some (ip_hdr src dst proto (20 + length body), \<lparr>b_front = f @ ip_hdr src dst proto (20 + length body), b_head = body, b_rest = []\<rparr>))"
proof -
  let ?h = "ip_hdr src dst proto (20 + length body)"
  note l = ip_hdr_props [OF assms(1,2), of proto "20 + length body"] and fl = ip_hdr_fields [OF assms(1-4), of body]
  have "?h \<noteq> []" using l(1) by auto
  then show ?thesis
    using l fl assms(5-7)
    by (auto simp: ip_input_def Let_def pkt_bytes_def sizeof_Ipv4Header_def get_header_def header_view_def buf_TrimEnd_def
        buf_Advance_def split: option.splits)
qed

end
