(* ===== verification/NetStack.thy ===== *)
theory NetStack
  imports NetIp IdPool
begin

text \<open>
  The network manager: \<open>Interface::Receive\<close> and \<open>Send\<close> (\<open>src/src/native/Net.cc\<close>), ARP and Ethernet
  output (\<open>NetEth.cc\<close>, \<open>NetEth.h\<close>), IP output and routing (\<open>NetIp.cc\<close>), ICMP echo (\<open>NetIcmp.cc\<close>),
  UDP (\<open>NetUdp.cc\<close>) and the demultiplexing, binding and listening of TCP (\<open>NetTcp.cc\<close>).  The hash
  tables of the manager are lists of their entries, the latest insertion first: what the RCU hash
  table implements (\<open>table_histories\<close>).  The effects are appended to \<open>n_out\<close>: the frames handed to
  the Ethernet device and the upcalls to the application.  \<open>rcu_calls\<close> holds the closures that
  \<open>SetAddr\<close> has given to \<open>DoRcu\<close> and that have not run yet.
\<close>

section \<open>State\<close>

record packet_info =
  pi_flags :: nat
  pi_gso_type :: nat
  pi_hdr_len :: nat
  pi_gso_size :: nat
  pi_csum_start :: nat
  pi_csum_offset :: nat

definition pinfo0 :: packet_info where
  "pinfo0 = \<lparr>pi_flags = 0, pi_gso_type = 0, pi_hdr_len = 0, pi_gso_size = 0, pi_csum_start = 0, pi_csum_offset = 0\<rparr>"

datatype itf_id = MainItf | LoopbackItf

text \<open>A packet that waits for an address: the closure \<open>send_func\<close> of \<open>EthArpSend\<close> with what it captures.\<close>

record deferred =
  d_itf :: itf_id
  d_proto :: nat
  d_pinfo :: packet_info
  d_buf :: pkt

text \<open>
  An \<open>OperationQueue\<close>, from its head.  \<open>InvokeAndClear\<close> deletes the operations and leaves the head
  pointer as it was: \<open>Freed ds\<close> is a queue whose operations \<open>ds\<close> end at a deleted one.
\<close>

datatype op_queue = Ops "deferred list" | Freed "deferred list"

text \<open>
  An entry owns its address: \<open>exchange\<close> returns the old one as a \<open>unique_ptr\<close>, so that it is deleted
  at the end of \<open>SetAddr\<close>.  \<open>ae_gen\<close> counts the exchanges; a pointer taken when the count was \<open>g\<close>
  is alive as long as the count is \<open>g\<close>.
\<close>

record arp_entry =
  ae_paddr :: ipv4
  ae_hwaddr :: "byte list option"
  ae_gen :: nat
  ae_queue :: op_queue

record interface =
  i_mac :: "byte list"
  i_address :: "itf_address option"

record tcp_conn =
  c_entry :: tcp_entry
  c_accepted :: bool
  c_cpu :: nat

datatype net_event = EthSend itf_id "byte list" packet_info
  | UdpUp nat ipv4 nat "byte list"
  | TcpUp upcall
  | SpawnRemote nat tcp_packet
  | SpawnReady nat "ipv4 \<times> 16 word \<times> 16 word"
  | TcpTimer tcp_event

record 'b net =
  interfaces :: "itf_id \<Rightarrow> interface option"
  arp_cache :: "arp_entry list"
  udp_port :: "nat \<Rightarrow> nat"
  udp_pcbs :: "nat list"
  listening_tcp_pcbs :: "(nat \<times> nat) list"
  tcp_pcbs :: "tcp_conn list"
  udp_pool :: 'b
  tcp_pool :: 'b
  rcu_calls :: "(ipv4 \<times> nat \<times> byte list) list"
  n_out :: "net_event list"

definition emit_net :: "net_event \<Rightarrow> 'b net \<Rightarrow> 'b net" where
  "emit_net ev n = n\<lparr>n_out := n_out n @ [ev]\<rparr>"

section \<open>Ethernet output and ARP\<close>

definition sizeof_EthernetHeader :: nat where "sizeof_EthernetHeader = 14"

definition sizeof_ArpPacket :: nat where "sizeof_ArpPacket = 28"

definition kEthTypeIp :: nat where "kEthTypeIp = 0x800"

definition kEthTypeArp :: nat where "kEthTypeArp = 0x806"

definition kHTypeEth :: nat where "kHTypeEth = 1"

definition kPTypeIp :: nat where "kPTypeIp = 0x800"

definition kArpRequest :: nat where "kArpRequest = 1"

definition kArpReply :: nat where "kArpReply = 2"

definition BroadcastMAC :: "byte list" where "BroadcastMAC = replicate 6 0xff"

definition itf_Send :: "itf_id \<Rightarrow> pkt \<Rightarrow> packet_info \<Rightarrow> 'b net \<Rightarrow> 'b net" where
  "itf_Send i b pinfo n = emit_net (EthSend i (pkt_bytes b) pinfo) n"

definition mac_of :: "itf_id \<Rightarrow> 'b net \<Rightarrow> byte list" where
  "mac_of i n = (case interfaces n i of None \<Rightarrow> [] | Some itf \<Rightarrow> i_mac itf)"

definition addr_of :: "itf_id \<Rightarrow> 'b net \<Rightarrow> itf_address option" where
  "addr_of i n = (case interfaces n i of None \<Rightarrow> None | Some itf \<Rightarrow> i_address itf)"

text \<open>\<open>send_func\<close>: the Ethernet header is written when the address is known.\<close>

definition send_func :: "deferred \<Rightarrow> byte list \<Rightarrow> 'b net \<Rightarrow> 'b net result" where
  "send_func d hw n =
    bindr (get_header sizeof_EthernetHeader (d_buf d)) (\<lambda>_.
      Inr (itf_Send (d_itf d) (put 0 (hw @ mac_of (d_itf d) n @ le_bytes 2 (htons (d_proto d))) (d_buf d)) (d_pinfo d) n))"

definition arp_find :: "ipv4 \<Rightarrow> 'b net \<Rightarrow> arp_entry option" where
  "arp_find a n = List.find (\<lambda>e. ae_paddr e = a) (arp_cache n)"

fun arp_update :: "ipv4 \<Rightarrow> (arp_entry \<Rightarrow> arp_entry) \<Rightarrow> arp_entry list \<Rightarrow> arp_entry list" where
  "arp_update a f [] = []"
| "arp_update a f (e # es) = (if ae_paddr e = a then f e # es else e # arp_update a f es)"

text \<open>\<open>OperationQueue\<close>: \<open>Push\<close> links at the head, \<open>InvokeAndClear\<close> runs from the head, deletes what it
  has run, and does not store to \<open>queue_\<close>.\<close>

fun queue_Push :: "deferred \<Rightarrow> op_queue \<Rightarrow> op_queue" where
  "queue_Push d (Ops q) = Ops (d # q)"
| "queue_Push d (Freed q) = Freed (d # q)"

fun invoke_loop :: "byte list \<Rightarrow> deferred list \<Rightarrow> 'b net \<Rightarrow> 'b net result" where
  "invoke_loop hw [] n = Inr n"
| "invoke_loop hw (d # ds) n = bindr (send_func d hw n) (invoke_loop hw ds)"

definition InvokeAndClear :: "byte list \<Rightarrow> op_queue \<Rightarrow> 'b net \<Rightarrow> (op_queue \<times> 'b net) result" where
  "InvokeAndClear hw q n = (case q of
     Ops ds \<Rightarrow> bindr (invoke_loop hw ds n) (\<lambda>n1. Inr (if ds = [] then Ops [] else Freed [], n1))
   | Freed ds \<Rightarrow> bindr (invoke_loop hw ds n) (\<lambda>_. Inl (Undefined ''operation used after delete'')))"

text \<open>
  \<open>SetAddr\<close> in its three parts: the exchange of the address (and whether there was none before), the
  move of the queue, and the run of the moved queue with the registration of the second flush.
  \<open>arp_flush\<close> is the closure given to \<open>DoRcu\<close>, which reads the address through the pointer it has
  captured when it invokes an operation.
\<close>

definition SetAddr_exchange :: "ipv4 \<Rightarrow> byte list \<Rightarrow> 'b net \<Rightarrow> bool \<times> 'b net" where
  "SetAddr_exchange a hw n = (case arp_find a n of
     None \<Rightarrow> (False, n)
   | Some e \<Rightarrow> (ae_hwaddr e = None,
       n\<lparr>arp_cache := arp_update a (\<lambda>e. e\<lparr>ae_hwaddr := Some hw, ae_gen := ae_gen e + 1\<rparr>) (arp_cache n)\<rparr>))"

definition SetAddr_move :: "ipv4 \<Rightarrow> 'b net \<Rightarrow> op_queue \<times> 'b net" where
  "SetAddr_move a n = (case arp_find a n of
     None \<Rightarrow> (Ops [], n)
   | Some e \<Rightarrow> (ae_queue e, n\<lparr>arp_cache := arp_update a (\<lambda>e. e\<lparr>ae_queue := Ops []\<rparr>) (arp_cache n)\<rparr>))"

definition SetAddr_run :: "ipv4 \<Rightarrow> nat \<Rightarrow> byte list \<Rightarrow> op_queue \<Rightarrow> 'b net \<Rightarrow> 'b net result" where
  "SetAddr_run a g hw q n =
    bindr (InvokeAndClear hw q n) (\<lambda>(_, n1). Inr (n1\<lparr>rcu_calls := rcu_calls n1 @ [(a, g, hw)]\<rparr>))"

definition addr_gen :: "ipv4 \<Rightarrow> 'b net \<Rightarrow> nat" where
  "addr_gen a n = (case arp_find a n of None \<Rightarrow> 0 | Some e \<Rightarrow> ae_gen e)"

definition SetAddr :: "ipv4 \<Rightarrow> byte list \<Rightarrow> 'b net \<Rightarrow> 'b net result" where
  "SetAddr a hw n =
    (let (fresh, n1) = SetAddr_exchange a hw n in
     if fresh then let (q, n2) = SetAddr_move a n1 in SetAddr_run a (addr_gen a n1) hw q n2 else Inr n1)"

definition arp_flush :: "ipv4 \<Rightarrow> nat \<Rightarrow> byte list \<Rightarrow> 'b net \<Rightarrow> 'b net result" where
  "arp_flush a g hw n = (case arp_find a n of
     None \<Rightarrow> Inr n
   | Some e \<Rightarrow>
       if ae_gen e \<noteq> g \<and> ae_queue e \<noteq> Ops [] then Inl (Undefined ''address used after delete'')
       else bindr (InvokeAndClear hw (ae_queue e) n) (\<lambda>(q, n1).
         Inr (n1\<lparr>arp_cache := arp_update a (\<lambda>e. e\<lparr>ae_queue := q\<rparr>) (arp_cache n1)\<rparr>)))"

definition EthArpRequest :: "(nat \<Rightarrow> byte) \<Rightarrow> itf_id \<Rightarrow> ipv4 \<Rightarrow> 'b net \<Rightarrow> 'b net" where
  "EthArpRequest junk i paddr n =
    (let b = mk_buf junk (sizeof_EthernetHeader + sizeof_ArpPacket);
         b1 = put 0 (BroadcastMAC @ mac_of i n @ le_bytes 2 (htons kEthTypeArp)) b;
         b2 = put 14 (le_bytes 2 (htons kHTypeEth) @ le_bytes 2 (htons kPTypeIp) @ [6, 4] @ le_bytes 2 (htons kArpRequest) @ mac_of i n) b1;
         b3 = (case addr_of i n of None \<Rightarrow> b2 | Some ia \<Rightarrow> put 28 (ia_address ia) b2);
         b4 = put 32 ([0, 0, 0, 0, 0, 0] @ paddr) b3
     in itf_Send i b4 pinfo0 n)"

text \<open>
  The two halves of sending through an entry: look the entry up, or create it and request its
  address, and load the address; then, if there was none, push the packet.  The first half tells
  whether the packet is still to be pushed.
\<close>

definition arp_begin :: "(nat \<Rightarrow> byte) \<Rightarrow> ipv4 \<Rightarrow> deferred \<Rightarrow> 'b net \<Rightarrow> (bool \<times> 'b net) result" where
  "arp_begin junk a d n = (case arp_find a n of
     None \<Rightarrow>
       let n1 = n\<lparr>arp_cache := \<lparr>ae_paddr = a, ae_hwaddr = None, ae_gen = 0, ae_queue = Ops []\<rparr> # arp_cache n\<rparr>
       in Inr (True, EthArpRequest junk (d_itf d) a n1)
   | Some e \<Rightarrow> (case ae_hwaddr e of
       None \<Rightarrow> Inr (True, n)
     | Some hw \<Rightarrow> bindr (send_func d hw n) (\<lambda>n1. Inr (False, n1))))"

definition arp_push :: "ipv4 \<Rightarrow> deferred \<Rightarrow> 'b net \<Rightarrow> 'b net" where
  "arp_push a d n = n\<lparr>arp_cache := arp_update a (\<lambda>e. e\<lparr>ae_queue := queue_Push d (ae_queue e)\<rparr>) (arp_cache n)\<rparr>"

definition EthArpSend :: "(nat \<Rightarrow> byte) \<Rightarrow> itf_id \<Rightarrow> nat \<Rightarrow> ipv4 \<Rightarrow> pkt \<Rightarrow> packet_info \<Rightarrow> 'b net \<Rightarrow> 'b net result" where
  "EthArpSend junk i proto dst buf pin n =
    (let pinfo = pin\<lparr>pi_csum_start := (pi_csum_start pin + sizeof_EthernetHeader) mod u16,
                       pi_hdr_len := (pi_hdr_len pin + sizeof_EthernetHeader) mod u16\<rparr> in
     bindr (buf_Retreat sizeof_EthernetHeader buf) (\<lambda>b.
     bindr (get_header sizeof_EthernetHeader b) (\<lambda>_.
       if dst = Ip_Broadcast \<or> (case addr_of i n of None \<Rightarrow> False | Some ia \<Rightarrow> itf_isBroadcast ia dst)
       then Inr (itf_Send i (put 0 (BroadcastMAC @ mac_of i n @ le_bytes 2 (htons proto)) b) pinfo n)
       else if isMulticast dst then Inl (KAbort ''UNIMPLEMENTED: Multicast send'')
       else case addr_of i n of None \<Rightarrow> Inr n
         | Some ia \<Rightarrow>
             let local_dest = (if \<not> isLocalNetwork ia dst \<and> \<not> isLinkLocal dst then ia_gateway ia else dst);
                 d = \<lparr>d_itf = i, d_proto = proto, d_pinfo = pinfo, d_buf = b\<rparr> in
             bindr (arp_begin junk local_dest d n) (\<lambda>(later, n1). Inr (if later then arp_push local_dest d n1 else n1)))))"

text \<open>An entry for the sender of a request to us, made with its address.\<close>

definition arp_learn :: "ipv4 \<Rightarrow> byte list \<Rightarrow> 'b net \<Rightarrow> 'b net" where
  "arp_learn a hw n = n\<lparr>arp_cache := \<lparr>ae_paddr = a, ae_hwaddr = Some hw, ae_gen = 0, ae_queue = Ops []\<rparr> # arp_cache n\<rparr>"

definition arp_spa :: "byte list \<Rightarrow> ipv4" where "arp_spa h = take 4 (drop 14 h)"

definition arp_sha :: "byte list \<Rightarrow> byte list" where "arp_sha h = take 6 (drop 8 h)"

definition arp_tpa :: "byte list \<Rightarrow> ipv4" where "arp_tpa h = take 4 (drop 24 h)"

definition ReceiveArp :: "itf_id \<Rightarrow> pkt \<Rightarrow> 'b net \<Rightarrow> 'b net result" where
  "ReceiveArp i buf n =
    (if length (pkt_bytes buf) < sizeof_ArpPacket then Inr n
     else bindr (get_header sizeof_ArpPacket buf) (\<lambda>h.
       if ntohs (rd 0 2 h) \<noteq> kHTypeEth \<or> ntohs (rd 2 2 h) \<noteq> kEthTypeIp then Inr n
       else let spa = arp_spa h; sha = arp_sha h; found = arp_find spa n in
         bindr (if found \<noteq> None then SetAddr spa sha n else Inr n) (\<lambda>n1.
           case addr_of i n1 of None \<Rightarrow> Inr n1
           | Some ia \<Rightarrow>
             if ia_address ia \<noteq> arp_tpa h then Inr n1
             else let n2 = (if found = None then arp_learn spa sha n1 else n1) in
               if ntohs (rd 6 2 h) = kArpRequest then
                 let b1 = put 8 (mac_of i n2 @ ia_address ia @ sha @ spa) (put 6 (le_bytes 2 (htons kArpReply)) buf) in
                 bindr (buf_Retreat sizeof_EthernetHeader b1) (\<lambda>b2.
                   Inr (itf_Send i (put 0 (take 6 (drop 6 (b_head b2)) @ mac_of i n2) b2) pinfo0 n2))
               else Inr n2)))"

section \<open>IP output and ICMP\<close>

definition itf_SendIp :: "(nat \<Rightarrow> byte) \<Rightarrow> itf_id \<Rightarrow> pkt \<Rightarrow> ipv4 \<Rightarrow> ipv4 \<Rightarrow> nat \<Rightarrow> packet_info \<Rightarrow> 'b net \<Rightarrow> 'b net result" where
  "itf_SendIp junk i buf src dst proto pinfo n =
    bindr (ip_output src dst proto buf) (\<lambda>b.
      EthArpSend junk i kEthTypeIp dst b
        (pinfo\<lparr>pi_csum_start := (pi_csum_start pinfo + sizeof_Ipv4Header) mod u16,
               pi_hdr_len := (pi_hdr_len pinfo + sizeof_Ipv4Header) mod u16\<rparr>) n)"

definition IpRoute :: "ipv4 \<Rightarrow> 'b net \<Rightarrow> itf_id option" where
  "IpRoute dest n =
    (if isLinkLocal dest then (if interfaces n LoopbackItf = None then None else Some LoopbackItf)
     else if interfaces n MainItf = None then None else Some MainItf)"

definition net_SendIp :: "(nat \<Rightarrow> byte) \<Rightarrow> pkt \<Rightarrow> ipv4 \<Rightarrow> ipv4 \<Rightarrow> nat \<Rightarrow> packet_info \<Rightarrow> 'b net \<Rightarrow> 'b net result" where
  "net_SendIp junk buf src dst proto pinfo n =
    (case IpRoute dst n of None \<Rightarrow> Inr n | Some i \<Rightarrow> itf_SendIp junk i buf src dst proto pinfo n)"

definition net_IpAddress :: "'b net \<Rightarrow> ipv4 result" where
  "net_IpAddress n = (case interfaces n MainItf of None \<Rightarrow> Inr Ip_Any
     | Some itf \<Rightarrow> (case i_address itf of None \<Rightarrow> Inl (Undefined ''Address()->address'') | Some ia \<Rightarrow> Inr (ia_address ia)))"

definition kIcmpEchoReply :: nat where "kIcmpEchoReply = 0"

definition kIcmpEchoRequest :: nat where "kIcmpEchoRequest = 8"

definition sizeof_IcmpHeader :: nat where "sizeof_IcmpHeader = 8"

text \<open>The adjusted checksum of an echo reply, in memory order.\<close>

definition icmp_adjust :: "nat \<Rightarrow> nat" where
  "icmp_adjust checksum =
    (let addend = kIcmpEchoRequest * 2 ^ 8 in
     if checksum \<ge> htons (0xffff - addend) then (checksum + (htons addend + 1)) mod u16
     else (checksum + htons addend) mod u16)"

text \<open>
  The buffer holds the IP header in front of the view.  The reply is written in place: the addresses
  are exchanged, the time to live and the header checksum are set anew.
\<close>

definition ReceiveIcmp :: "(nat \<Rightarrow> byte) \<Rightarrow> itf_id \<Rightarrow> byte list \<Rightarrow> pkt \<Rightarrow> 'b net \<Rightarrow> 'b net result" where
  "ReceiveIcmp junk i ih buf n =
    (if length (pkt_bytes buf) < sizeof_IcmpHeader then Inr n
     else bindr (get_header sizeof_IcmpHeader buf) (\<lambda>h.
       if IpCsum_chain (map (\<lambda>v. (0, v)) (b_head buf # b_rest buf)) \<noteq> 0 then Inr n
       else if rd 0 1 h = kIcmpEchoRequest then
         let b1 = put 2 (le_bytes 2 (icmp_adjust (rd 2 2 h))) (put 0 (le_bytes 1 kIcmpEchoReply) buf);
             ih1 = wr 8 (le_bytes 1 kIpDefaultTtl) (wr 12 (ip_dst ih @ ip_src ih) ih);
             ih2 = wr 10 (le_bytes 2 0) ih1;
             ih3 = wr 10 (le_bytes 2 (ComputeChecksum ih2)) ih2;
             b2 = b1\<lparr>b_front := wr (length (b_front b1) - length ih) ih3 (b_front b1)\<rparr>
         in bindr (buf_Retreat (ip_HeaderLength ih) b2) (\<lambda>b3. EthArpSend junk i kEthTypeIp (ip_src ih) b3 pinfo0 n)
       else Inr n))"


section \<open>UDP\<close>

definition sizeof_UdpHeader :: nat where "sizeof_UdpHeader = 8"

text \<open>A pcb is the identity of its entry; an unbound entry has port 0.\<close>

definition udp_Bind :: "'b icl \<Rightarrow> nat \<Rightarrow> nat \<Rightarrow> 'b net \<Rightarrow> (nat \<times> 'b net) result" where
  "udp_Bind b pcb port n =
    bindr
      (if port = 0 then
         (let (ret, pool) = Pool_Allocate b (udp_pool n) in
          case ret of None \<Rightarrow> Inl (Throw ''Failed to allocate ephemeral port'') | Some v \<Rightarrow> Inr (v, pool))
       else if 49162 \<le> port then
         (let (ok, pool) = Pool_Reserve b port (udp_pool n) in
          if ok then Inr (port, pool) else Inl (Throw ''Failed to reserve specified port''))
       else Inr (port, udp_pool n))
      (\<lambda>(v, pool). Inr (v, n\<lparr>udp_pool := pool, udp_port := (udp_port n)(pcb := v), udp_pcbs := pcb # udp_pcbs n\<rparr>))"

definition udp_Close :: "'b icl \<Rightarrow> nat \<Rightarrow> 'b net \<Rightarrow> 'b net" where
  "udp_Close b pcb n =
    (if udp_port n pcb \<noteq> 0 then
       n\<lparr>udp_pool := Pool_Free b (udp_port n pcb) (udp_pool n), udp_pcbs := remove1 pcb (udp_pcbs n),
         udp_port := (udp_port n)(pcb := 0)\<rparr>
     else n)"

definition udp_Delete :: "nat \<Rightarrow> 'b net \<Rightarrow> 'b net result" where
  "udp_Delete pcb n = (if udp_port n pcb \<noteq> 0 then Inl (KAssert ''e->port == 0'') else Inr n)"

definition udp_find :: "nat \<Rightarrow> 'b net \<Rightarrow> nat option" where
  "udp_find port n = List.find (\<lambda>pcb. udp_port n pcb = port) (udp_pcbs n)"

definition ReceiveUdp :: "byte list \<Rightarrow> pkt \<Rightarrow> 'b net \<Rightarrow> 'b net result" where
  "ReceiveUdp ih buf n =
    (let packet_len = length (pkt_bytes buf); h = take sizeof_UdpHeader (pkt_bytes buf) in
     if packet_len < sizeof_UdpHeader then Inr n
     else if packet_len < ntohs (rd 4 2 h) then Inr n
     else bindr (buf_TrimEnd (packet_len - ntohs (rd 4 2 h)) buf) (\<lambda>b.
       case udp_find (ntohs (rd 2 2 h)) n of None \<Rightarrow> Inr n
       | Some pcb \<Rightarrow> bindr (buf_Advance sizeof_UdpHeader b) (\<lambda>b1.
           Inr (emit_net (UdpUp pcb (ip_src ih) (ntohs (rd 0 2 h)) (pkt_bytes b1)) n))))"

definition SendUdp :: "(nat \<Rightarrow> byte) \<Rightarrow> itf_id \<Rightarrow> nat \<Rightarrow> ipv4 \<Rightarrow> nat \<Rightarrow> byte list list \<Rightarrow> 'b net \<Rightarrow> 'b net result" where
  "SendUdp junk i pcb addr port bufs n =
    (let data_size = length (concat bufs) in
     if \<not> data_size \<le> 65535 - 8 - 60 then Inl (KAssert ''data_size <= max_udp_segment_size'')
     else let src_addr = (case addr_of i n of None \<Rightarrow> Ip_Any | Some ia \<Rightarrow> ia_address ia);
              src_port = udp_port n pcb in
       if src_port = 0 then Inl (Throw ''Send on unbound pcb'')
       else bindr (buf_Advance (sizeof_Ipv4Header + sizeof_EthernetHeader)
           (mk_buf junk (sizeof_UdpHeader + sizeof_Ipv4Header + sizeof_EthernetHeader))) (\<lambda>b.
         let b1 = put 0 (le_bytes 2 (htons src_port) @ le_bytes 2 (htons port) @ le_bytes 2 (htons (data_size + sizeof_UdpHeader)) @ le_bytes 2 0) b;
             b2 = b1\<lparr>b_rest := bufs\<rparr>;
             b3 = put 6 (le_bytes 2 (OffloadPseudoCsum (map (\<lambda>v. (0, v)) (b_head b2 # b_rest b2)) kIpProtoUDP src_addr addr)) b2;
             pinfo = pinfo0\<lparr>pi_flags := 1, pi_csum_start := 0, pi_csum_offset := 6\<rparr>;
             pinfo' = (if 1460 < data_size then pinfo\<lparr>pi_gso_type := 3, pi_hdr_len := 8, pi_gso_size := 1460\<rparr> else pinfo)
         in itf_SendIp junk i b3 src_addr addr kIpProtoUDP pinfo' n))"

definition udp_SendTo :: "(nat \<Rightarrow> byte) \<Rightarrow> nat \<Rightarrow> ipv4 \<Rightarrow> nat \<Rightarrow> byte list list \<Rightarrow> 'b net \<Rightarrow> 'b net result" where
  "udp_SendTo junk pcb addr port bufs n =
    (case IpRoute addr n of None \<Rightarrow> Inr n | Some i \<Rightarrow> SendUdp junk i pcb addr port bufs n)"

section \<open>TCP: connections and the wire\<close>

text \<open>A segment as the bytes of its header, options and data, with what the device is told of it.\<close>

definition tcp_bytes :: "wire_segment \<Rightarrow> byte list" where
  "tcp_bytes w =
    le_bytes 2 (htons (unat (w_src w))) @ le_bytes 2 (htons (unat (w_dst w))) @ le_bytes 4 (htonl (unat (w_seq w))) @
    le_bytes 4 (htonl (unat (w_ack w))) @ le_bytes 2 (htons (unat (w_hf w))) @ le_bytes 2 (htons (unat (w_wnd w))) @
    le_bytes 2 (w_csum w) @ le_bytes 2 0"

definition tcp_send :: "(nat \<Rightarrow> byte) \<Rightarrow> wire_segment \<Rightarrow> ipv4 \<Rightarrow> ipv4 \<Rightarrow> 'b net \<Rightarrow> 'b net result" where
  "tcp_send junk w src dst n =
    net_SendIp junk \<lparr>b_front = map junk [0..<34], b_head = tcp_bytes w @ w_body w, b_rest = []\<rparr> src dst kIpProtoTCP
      (pinfo0\<lparr>pi_flags := 1, pi_csum_start := 0, pi_csum_offset := 16,
        pi_gso_type := (if w_gso_size w = 0 then 0 else 1), pi_hdr_len := w_gso_hdr w, pi_gso_size := w_gso_size w\<rparr>) n"

text \<open>The events a connection has produced, carried out in order.\<close>

fun tcp_drain :: "(nat \<Rightarrow> byte) \<Rightarrow> tcp_event list \<Rightarrow> 'b net \<Rightarrow> 'b net result" where
  "tcp_drain junk [] n = Inr n"
| "tcp_drain junk (SendIp w src dst # evs) n = bindr (tcp_send junk w src dst n) (tcp_drain junk evs)"
| "tcp_drain junk (Upcall u # evs) n = tcp_drain junk evs (emit_net (TcpUp u) n)"
| "tcp_drain junk (ev # evs) n = tcp_drain junk evs (emit_net (TcpTimer ev) n)"

type_synonym tcp_key = "ipv4 \<times> 16 word \<times> 16 word"

definition conn_key :: "tcp_conn \<Rightarrow> tcp_key" where
  "conn_key c = (key_ip (c_entry c), key_rport (c_entry c), key_lport (c_entry c))"

definition tcp_find :: "tcp_key \<Rightarrow> 'b net \<Rightarrow> tcp_conn option" where
  "tcp_find k n = List.find (\<lambda>c. conn_key c = k) (tcp_pcbs n)"

fun conn_update :: "tcp_key \<Rightarrow> tcp_conn option \<Rightarrow> tcp_conn list \<Rightarrow> tcp_conn list" where
  "conn_update k c' [] = []"
| "conn_update k c' (c # cs) =
    (if conn_key c = k then (case c' of None \<Rightarrow> cs | Some d \<Rightarrow> d # cs) else c # conn_update k c' cs)"

text \<open>
  A step of a connection: its new events are carried out and the entry goes back into the table, or
  out of it when it was destroyed.
\<close>

definition conn_step :: "(nat \<Rightarrow> byte) \<Rightarrow> tcp_key \<Rightarrow> tcp_conn \<Rightarrow> tcp_entry \<Rightarrow> 'b net \<Rightarrow> 'b net result" where
  "conn_step junk k c e n =
    (let evs = out e;
         n1 = n\<lparr>tcp_pcbs := conn_update k (if Destroyed \<in> set evs then None else Some (c\<lparr>c_entry := e\<lparr>out := []\<rparr>\<rparr>)) (tcp_pcbs n)\<rparr>
     in tcp_drain junk evs n1)"

section \<open>TCP: demultiplexing, listening, connecting\<close>

text \<open>The fields of a received segment, \<open>TcpInfo\<close> included.\<close>

definition tcp_info :: "byte list \<Rightarrow> pkt \<Rightarrow> byte list \<Rightarrow> tcp_packet" where
  "tcp_info ih buf h =
    (let hf = of_nat (ntohs (rd 12 2 h)) in
     \<lparr>p_src = ip_src ih, p_dst = ip_dst ih, p_sport = of_nat (ntohs (rd 0 2 h)), p_dport = of_nat (ntohs (rd 2 2 h)),
      p_seq = of_nat (ntohl (rd 4 4 h)), p_ack = of_nat (ntohl (rd 8 4 h)),
      p_tcplen = (length (pkt_bytes buf) - HdrLen hf + (if has (Flags hf) (kTcpFin OR kTcpSyn) then 1 else 0)) mod u64,
      p_hf = hf, p_wnd = of_nat (ntohs (rd 14 2 h)), p_bufs = b_head buf # b_rest buf\<rparr>)"

text \<open>
  A SYN for a listening port.  \<open>accept\<close> is what the application does with the new connection
  inside its accept function, if it has set one.  \<open>conn_ready\<close> is the closure that sends the first segment, on the
  processor the application has bound the connection to.
\<close>

definition conn_ready :: "(nat \<Rightarrow> byte) \<Rightarrow> nat \<Rightarrow> tcp_key \<Rightarrow> tcp_conn \<Rightarrow> 'b net \<Rightarrow> 'b net result" where
  "conn_ready junk now k c n =
    bindr (Output now (c_entry c)) (\<lambda>e. conn_step junk k (c\<lparr>c_accepted := True\<rparr>) (NetTcp.SetTimer now e) n)"

definition Listen_Input :: "(nat \<Rightarrow> byte) \<Rightarrow> handler \<Rightarrow> (tcp_conn \<Rightarrow> tcp_conn) option \<Rightarrow> nat \<Rightarrow> nat \<Rightarrow> 32 word \<Rightarrow> tcp_packet \<Rightarrow> 'b net \<Rightarrow> 'b net result" where
  "Listen_Input junk up accept mycpu now start_seq p n =
    (let flags = Flags (p_hf p) in
     if has flags kTcpRst then Inr n
     else if has flags kTcpAck then
       tcp_drain junk [TcpReset False (p_ack p) 0 (p_dst p) (p_src p) (p_dport p) (p_sport p)] n
     else if flags = kTcpSyn then
       (let k = (p_src p, p_sport p, p_dport p) in
        case tcp_find k n of
          Some c \<Rightarrow> bindr (Input up now p (c_entry c)) (\<lambda>e. conn_step junk k c e n)
        | None \<Rightarrow>
            (case accept of None \<Rightarrow> Inl (KAssert ''accept_fn'')
            | Some accept_fn \<Rightarrow>
            let c = accept_fn \<lparr>c_entry = EnqueueSegment [] (kTcpSyn OR kTcpAck) syn_opts (listen_entry p start_seq), c_accepted = False, c_cpu = mycpu\<rparr> in
            if 1 < p_tcplen p then Inl (KAbort ''UNIMPLEMENTED: Data with SYN packet'')
            else let n1 = n\<lparr>tcp_pcbs := c # tcp_pcbs n\<rparr> in
              if c_cpu c = mycpu then
                conn_ready junk now k c n1
              else Inr (emit_net (SpawnReady (c_cpu c) k) n1)))
     else Inr n)"

definition ReceiveTcp :: "(nat \<Rightarrow> byte) \<Rightarrow> itf_id \<Rightarrow> handler \<Rightarrow> (tcp_conn \<Rightarrow> tcp_conn) option \<Rightarrow> nat \<Rightarrow> nat \<Rightarrow> 32 word \<Rightarrow> byte list \<Rightarrow> pkt \<Rightarrow> 'b net \<Rightarrow> 'b net result" where
  "ReceiveTcp junk i up accept mycpu now iss ih buf n =
    (let packet_len = length (pkt_bytes buf) in
     if packet_len < sizeof_TcpHeader then Inr n
     else bindr (get_header sizeof_TcpHeader buf) (\<lambda>h.
       case addr_of i n of None \<Rightarrow> Inl (Undefined ''addr->isBroadcast'')
       | Some ia \<Rightarrow>
         if itf_isBroadcast ia (ip_dst ih) \<or> isMulticast (ip_dst ih) then Inr n
         else let p = tcp_info ih buf h; hdr_len = HdrLen (p_hf p) in
           if hdr_len < sizeof_TcpHeader \<or> packet_len < hdr_len then Inr n
           else let k = (p_src p, p_sport p, p_dport p) in
             case tcp_find k n of
               Some c \<Rightarrow>
                 if \<not> c_accepted c then Inl (KAbort ''accept() has not completed before more data arrived'')
                 else if c_cpu c = mycpu then bindr (Input up now p (c_entry c)) (\<lambda>e. conn_step junk k c e n)
                 else Inr (emit_net (SpawnRemote (c_cpu c) p) n)
             | None \<Rightarrow>
                 if List.find (\<lambda>(port, _). port = unat (p_dport p)) (listening_tcp_pcbs n) \<noteq> None
                 then Listen_Input junk up accept mycpu now iss p n
                 else if \<not> has (Flags (p_hf p)) kTcpRst then
                   let ack = has (Flags (p_hf p)) kTcpAck in
                   tcp_drain junk [TcpReset (\<not> ack) (if ack then p_ack p else 0) (p_seq p + of_nat (p_tcplen p)) (p_dst p) (p_src p) (p_dport p) (p_sport p)] n
                 else Inr n))"

definition listen_Bind :: "'b icl \<Rightarrow> nat \<Rightarrow> nat \<Rightarrow> 'b net \<Rightarrow> (nat \<times> 'b net) result" where
  "listen_Bind b pcb port n =
    bindr
      (if port = 0 then
         (let (ret, pool) = Pool_Allocate b (tcp_pool n) in
          case ret of None \<Rightarrow> Inl (Throw ''Failed to allocate ephemeral port'') | Some v \<Rightarrow> Inr (v, pool))
       else if 49152 \<le> port then
         (let (ok, pool) = Pool_Reserve b port (tcp_pool n) in
          if ok then Inr (port, pool) else Inl (Throw ''Failed to reserve specified port''))
       else Inr (port, tcp_pool n))
      (\<lambda>(v, pool). Inr (v, n\<lparr>tcp_pool := pool, listening_tcp_pcbs := (v, pcb) # listening_tcp_pcbs n\<rparr>))"

definition listen_Delete :: "'b icl \<Rightarrow> nat \<Rightarrow> nat \<Rightarrow> 'b net \<Rightarrow> 'b net" where
  "listen_Delete b pcb port n =
    (if port \<noteq> 0 then n\<lparr>tcp_pool := Pool_Free b port (tcp_pool n), listening_tcp_pcbs := remove1 (port, pcb) (listening_tcp_pcbs n)\<rparr> else n)"

definition tcp_Connect :: "'b icl \<Rightarrow> (nat \<Rightarrow> byte) \<Rightarrow> nat \<Rightarrow> 32 word \<Rightarrow> tcp_conn \<Rightarrow> ipv4 \<Rightarrow> nat \<Rightarrow> nat \<Rightarrow> 'b net \<Rightarrow> (nat \<times> 'b net) result" where
  "tcp_Connect b junk now iss c addr port local_port n =
    (case IpRoute addr n of None \<Rightarrow> Inl (Throw ''No route to remote address for Connect'')
     | Some i \<Rightarrow>
       bindr
         (if local_port = 0 then
            (let (ret, pool) = Pool_Allocate b (tcp_pool n) in
             case ret of None \<Rightarrow> Inl (Throw ''Failed to allocate ephemeral port'') | Some v \<Rightarrow> Inr (v, pool))
          else if 49152 \<le> local_port then
            (let (ok, pool) = Pool_Reserve b local_port (tcp_pool n) in
             if ok then Inr (local_port, pool) else Inl (Throw ''Failed to reserve specified port''))
          else Inr (local_port, tcp_pool n))
         (\<lambda>(v, pool). case addr_of i n of None \<Rightarrow> Inl (Undefined ''itf->Address()->address'')
          | Some ia \<Rightarrow>
            let e = connect_entry (ia_address ia) addr (of_nat port) (of_nat v) iss (c_entry c);
                n1 = n\<lparr>tcp_pool := pool\<rparr>; k = (addr, of_nat port, of_nat v) in
            if tcp_find k n1 \<noteq> None then Inl (Throw ''Connection already created'')
            else let e1 = EnqueueSegment [] kTcpSyn syn_opts e;
                     c1 = c\<lparr>c_entry := e1, c_accepted := True\<rparr>;
                     n2 = n1\<lparr>tcp_pcbs := c1 # tcp_pcbs n1\<rparr> in
              bindr (Output now e1) (\<lambda>e2.
              bindr (conn_step junk k c1 (NetTcp.SetTimer now e2) n2) (\<lambda>n3. Inr (v, n3)))))"

section \<open>Input\<close>

definition ReceiveIp :: "(nat \<Rightarrow> byte) \<Rightarrow> itf_id \<Rightarrow> handler \<Rightarrow> (tcp_conn \<Rightarrow> tcp_conn) option \<Rightarrow> nat \<Rightarrow> nat \<Rightarrow> 32 word \<Rightarrow> pkt \<Rightarrow> 'b net \<Rightarrow> 'b net result" where
  "ReceiveIp junk i up accept mycpu now iss buf n =
    bindr (ip_input junk (addr_of i n) buf) (\<lambda>r. case r of None \<Rightarrow> Inr n
      | Some (ih, b) \<Rightarrow>
          if ip_proto ih = kIpProtoICMP then ReceiveIcmp junk i ih b n
          else if ip_proto ih = kIpProtoUDP then ReceiveUdp ih b n
          else if ip_proto ih = kIpProtoTCP then ReceiveTcp junk i up accept mycpu now iss ih b n
          else Inr n)"

definition net_Receive :: "(nat \<Rightarrow> byte) \<Rightarrow> itf_id \<Rightarrow> handler \<Rightarrow> (tcp_conn \<Rightarrow> tcp_conn) option \<Rightarrow> nat \<Rightarrow> nat \<Rightarrow> 32 word \<Rightarrow> pkt \<Rightarrow> 'b net \<Rightarrow> 'b net result" where
  "net_Receive junk i up accept mycpu now iss buf n =
    (if length (pkt_bytes buf) \<le> sizeof_EthernetHeader then Inr n
     else bindr (get_header sizeof_EthernetHeader buf) (\<lambda>h.
       bindr (buf_Advance sizeof_EthernetHeader buf) (\<lambda>b.
         if ntohs (rd 12 2 h) = kEthTypeIp then ReceiveIp junk i up accept mycpu now iss b n
         else if ntohs (rd 12 2 h) = kEthTypeArp then ReceiveArp i b n
         else Inr n)))"

end
