(* ===== verification/NetUdp.thy ===== *)
theory NetUdp
  imports NetStack "HOL-Library.Multiset"
begin

text \<open>
  What the datagram side of the stack guarantees: frames written by the output path are read back by
  the input path, datagrams reach the pcb bound to their port, and echo requests are answered.
\<close>

section \<open>Frames\<close>

lemma get_header_head: "0 < n \<Longrightarrow> n \<le> length (b_head p) \<Longrightarrow> get_header n p = Inr (b_head p)"
  by (auto simp: get_header_def header_view_def)

lemma put_head: "length v = length a \<Longrightarrow> b_head p = a @ x \<Longrightarrow> put 0 v p = p\<lparr>b_head := v @ x\<rparr>"
  by (simp add: put_def wr_all)

definition eth_frame :: "byte list \<Rightarrow> byte list \<Rightarrow> nat \<Rightarrow> byte list \<Rightarrow> byte list" where
  "eth_frame dst src type body = dst @ src @ le_bytes 2 (htons type) @ body"

definition next_hop :: "itf_address \<Rightarrow> ipv4 \<Rightarrow> ipv4" where
  "next_hop ia dst = (if \<not> isLocalNetwork ia dst \<and> \<not> isLinkLocal dst then ia_gateway ia else dst)"

text \<open>A unicast destination whose hardware address is known.\<close>

definition resolved :: "itf_id \<Rightarrow> ipv4 \<Rightarrow> byte list \<Rightarrow> 'b net \<Rightarrow> bool" where
  "resolved i dst hw n \<longleftrightarrow> (\<exists>ia e. addr_of i n = Some ia \<and> dst \<noteq> Ip_Broadcast \<and> \<not> itf_isBroadcast ia dst \<and> \<not> isMulticast dst \<and>
    arp_find (next_hop ia dst) n = Some e \<and> ae_hwaddr e = Some hw \<and> length hw = 6 \<and> length (mac_of i n) = 6)"

lemma EthArpSend_known:
  assumes "resolved i dst hw n" "14 \<le> length (b_front p)"
  shows "\<exists>pinfo'. EthArpSend junk i proto dst p pinfo n =
    Inr (emit_net (EthSend i (eth_frame hw (mac_of i n) proto (pkt_bytes p)) pinfo') n)"
proof -
  obtain ia e where r: "addr_of i n = Some ia" "dst \<noteq> Ip_Broadcast" "\<not> itf_isBroadcast ia dst" "\<not> isMulticast dst"
    "arp_find (next_hop ia dst) n = Some e" "ae_hwaddr e = Some hw" "length hw = 6" "length (mac_of i n) = 6"
    using assms(1) by (auto simp: resolved_def)
  let ?k = "length (b_front p) - 14"
  define b where "b = p\<lparr>b_front := take ?k (b_front p), b_head := drop ?k (b_front p) @ b_head p\<rparr>"
  have l: "length (drop ?k (b_front p)) = 14" using assms(2) by simp
  have b: "buf_Retreat sizeof_EthernetHeader p = Inr b" using assms(2)
    by (simp add: buf_Retreat_def sizeof_EthernetHeader_def b_def Let_def)
  have g: "get_header sizeof_EthernetHeader b = Inr (b_head b)"
    using l by (intro get_header_head) (simp_all add: sizeof_EthernetHeader_def b_def)
  let ?h = "hw @ mac_of i n @ le_bytes 2 (htons proto)"
  have "put 0 ?h b = b\<lparr>b_head := ?h @ b_head p\<rparr>"
    by (rule put_head [of _ "drop ?k (b_front p)"]) (use l r in \<open>simp_all add: b_def\<close>)
  then have f: "pkt_bytes (put 0 ?h b) = eth_frame hw (mac_of i n) proto (pkt_bytes p)"
    by (simp add: pkt_bytes_def eth_frame_def b_def)
  show ?thesis unfolding EthArpSend_def Let_def b bindr_Inr g using r f
    by (auto simp: arp_begin_def send_func_def g itf_Send_def next_hop_def [symmetric])
qed

lemma itf_SendIp_known:
  assumes "resolved i dst hw n" "34 \<le> length (b_front p)" "length src = 4" "length dst = 4"
  shows "\<exists>pinfo'. itf_SendIp junk i p src dst proto pinfo n =
    Inr (emit_net (EthSend i (eth_frame hw (mac_of i n) kEthTypeIp (ip_hdr src dst proto (20 + length (pkt_bytes p)) @ pkt_bytes p)) pinfo') n)"
proof -
  have "20 \<le> length (b_front p)" using assms(2) by simp
  note o = ip_output_ok [OF assms(3,4) this, of proto]
  let ?b = "p\<lparr>b_front := take (length (b_front p) - 20) (b_front p), b_head := ip_hdr src dst proto (20 + length (pkt_bytes p)) @ b_head p\<rparr>"
  have "14 \<le> length (b_front ?b)" "pkt_bytes ?b = ip_hdr src dst proto (20 + length (pkt_bytes p)) @ pkt_bytes p"
    using assms(2) by (simp_all add: pkt_bytes_def)
  then show ?thesis using EthArpSend_known [OF assms(1), of ?b junk kEthTypeIp] unfolding itf_SendIp_def o bindr_Inr by metis
qed

lemma net_Receive_ip:
  assumes "length hw = 6" "length mac = 6" "body \<noteq> []"
  shows "net_Receive junk i up accept mycpu now iss \<lparr>b_front = [], b_head = eth_frame hw mac kEthTypeIp body, b_rest = []\<rparr> n =
    ReceiveIp junk i up accept mycpu now iss \<lparr>b_front = hw @ mac @ le_bytes 2 (htons kEthTypeIp), b_head = body, b_rest = []\<rparr> n"
proof -
  have l: "length (hw @ mac @ le_bytes 2 (htons kEthTypeIp)) = 14" using assms(1,2) by simp
  let ?f = "eth_frame hw mac kEthTypeIp body"
  have f: "?f = (hw @ mac @ le_bytes 2 (htons kEthTypeIp)) @ body" by (simp add: eth_frame_def)
  have t: "take 14 ?f = hw @ mac @ le_bytes 2 (htons kEthTypeIp)" "drop 14 ?f = body" unfolding f using l by auto
  have r: "ntohs (rd 12 2 ?f) = kEthTypeIp"
    using assms(1,2) by (simp add: rd_def load_def eth_frame_def ntohs_def htons_def bswap16_twice kEthTypeIp_def)
  have len: "14 < length ?f" using l f assms(3) by (cases body) auto
  have "get_header sizeof_EthernetHeader \<lparr>b_front = [], b_head = ?f, b_rest = []\<rparr> = Inr ?f"
    using get_header_head [of 14 "\<lparr>b_front = [], b_head = ?f, b_rest = []\<rparr>"] len by (simp add: sizeof_EthernetHeader_def)
  moreover have "buf_Advance sizeof_EthernetHeader \<lparr>b_front = [], b_head = ?f, b_rest = []\<rparr> =
      Inr \<lparr>b_front = hw @ mac @ le_bytes 2 (htons kEthTypeIp), b_head = body, b_rest = []\<rparr>"
    using len t by (simp add: buf_Advance_def sizeof_EthernetHeader_def)
  ultimately show ?thesis using len r by (simp add: net_Receive_def pkt_bytes_def sizeof_EthernetHeader_def)
qed


section \<open>Datagrams\<close>

definition udp_hdr :: "nat \<Rightarrow> nat \<Rightarrow> nat \<Rightarrow> nat \<Rightarrow> byte list" where
  "udp_hdr sport dport n csum = le_bytes 2 (htons sport) @ le_bytes 2 (htons dport) @ le_bytes 2 (htons n) @ le_bytes 2 csum"

lemma ReceiveUdp_ok:
  assumes "sport < 65536" "dport < 65536" "8 + length dat < 65536" "udp_find dport m = Some q"
  shows "ReceiveUdp ih \<lparr>b_front = f, b_head = udp_hdr sport dport (8 + length dat) c @ dat, b_rest = []\<rparr> m =
    Inr (emit_net (UdpUp q (ip_src ih) sport dat) m)"
proof -
  let ?h = "udp_hdr sport dport (8 + length dat) c"
  have l: "length ?h = 8" by (simp add: udp_hdr_def)
  have sw: "ntohs (bswap16 v mod 65536) = v" if "v < 65536" for v using that bswap16_twice [of v] by (simp add: ntohs_def htons_def)
  have r: "ntohs (rd 0 2 ?h) = sport" "ntohs (rd 2 2 ?h) = dport" "ntohs (rd 4 2 ?h) = 8 + length dat"
    using assms(1-3) sw by (simp_all add: rd_def load_def udp_hdr_def htons_def)
  have "take 8 (?h @ dat) = ?h" using l by simp
  then show ?thesis using l r assms(4)
    by (simp add: ReceiveUdp_def pkt_bytes_def sizeof_UdpHeader_def buf_TrimEnd_def buf_Advance_def)
qed

text \<open>The buffer \<open>SendUdp\<close> hands to \<open>SendIp\<close>.\<close>

lemma SendUdp_ok:
  assumes "addr_of i n = Some ia" "udp_port n pcb = sp" "sp \<noteq> 0" "length (concat bufs) \<le> 65467"
  shows "\<exists>f c pinfo. length f = 34 \<and> SendUdp junk i pcb dst port bufs n =
    itf_SendIp junk i \<lparr>b_front = f, b_head = udp_hdr sp port (length (concat bufs) + 8) c, b_rest = bufs\<rparr>
      (ia_address ia) dst kIpProtoUDP pinfo n"
proof -
  have adv: "buf_Advance (sizeof_Ipv4Header + sizeof_EthernetHeader) (mk_buf junk (sizeof_UdpHeader + sizeof_Ipv4Header + sizeof_EthernetHeader)) =
      Inr \<lparr>b_front = map junk [0..<34], b_head = map junk [34..<42], b_rest = []\<rparr>"
    by (simp add: buf_Advance_def mk_buf_def sizeof_Ipv4Header_def sizeof_EthernetHeader_def sizeof_UdpHeader_def take_map drop_map)
  let ?d = "length (concat bufs)"
  let ?b1 = "put 0 (udp_hdr sp port (?d + sizeof_UdpHeader) 0) \<lparr>b_front = map junk [0..<34], b_head = map junk [34..<42], b_rest = []\<rparr>"
  have b1: "?b1 = \<lparr>b_front = map junk [0..<34], b_head = udp_hdr sp port (?d + 8) 0, b_rest = []\<rparr>"
    using put_head [of "udp_hdr sp port (?d + sizeof_UdpHeader) 0" "map junk [34..<42]" _ "[]"]
    by (simp add: udp_hdr_def sizeof_UdpHeader_def)
  have b3: "put 6 (le_bytes 2 c) (\<lparr>b_front = f, b_head = udp_hdr sp port (?d + 8) 0, b_rest = bufs\<rparr>) =
      \<lparr>b_front = f, b_head = udp_hdr sp port (?d + 8) c, b_rest = bufs\<rparr>" for f c
    by (simp add: put_def wr_def udp_hdr_def numeral_2_eq_2)
  show ?thesis
    unfolding SendUdp_def Let_def adv bindr_Inr udp_hdr_def [symmetric] b1 assms(1,2) pkt.update_convs b3
    using assms(3,4) by (intro exI [of _ "map junk [0..<34]"] exI conjI) (simp, simp)
qed

text \<open>C35: A datagram sent to a resolved destination comes out of the peer as it went in: \<open>SendTo\<close> puts one
  frame on the wire, and the peer that receives this frame, whatever else its state, hands the payload
  with the address and port of the sender to the pcb bound to the port, and does nothing else.\<close>

theorem udp_roundtrip:
  assumes "IpRoute dst n = Some i" "resolved i dst hw n" "addr_of i n = Some ia" "length (ia_address ia) = 4" "length dst = 4"
    "\<not> isBroadcast (ia_address ia)" "\<not> isMulticast (ia_address ia)"
    "udp_port n pcb = sp" "sp \<noteq> 0" "sp < 65536" "dp < 65536" "length (concat bufs) \<le> 65467" "udp_find dp m = Some q"
  shows "\<exists>frame pinfo. udp_SendTo junk pcb dst dp bufs n = Inr (emit_net (EthSend i frame pinfo) n) \<and>
    net_Receive junk' j up accept mycpu now iss \<lparr>b_front = [], b_head = frame, b_rest = []\<rparr> m =
      Inr (emit_net (UdpUp q (ia_address ia) sp (concat bufs)) m)"
proof -
  obtain f c pinfo where s: "length f = 34" "SendUdp junk i pcb dst dp bufs n =
      itf_SendIp junk i \<lparr>b_front = f, b_head = udp_hdr sp dp (length (concat bufs) + 8) c, b_rest = bufs\<rparr> (ia_address ia) dst kIpProtoUDP pinfo n"
    using SendUdp_ok [OF assms(3,8,9,12)] by metis
  let ?u = "udp_hdr sp dp (8 + length (concat bufs)) c @ concat bufs"
  let ?h = "ip_hdr (ia_address ia) dst kIpProtoUDP (20 + length ?u)"
  have l: "length (udp_hdr sp dp (8 + length (concat bufs)) c) = 8" by (simp add: udp_hdr_def)
  have pb: "pkt_bytes \<lparr>b_front = f, b_head = udp_hdr sp dp (length (concat bufs) + 8) c, b_rest = bufs\<rparr> = ?u"
    by (simp add: pkt_bytes_def add.commute)
  obtain pinfo' where snd: "udp_SendTo junk pcb dst dp bufs n = Inr (emit_net (EthSend i (eth_frame hw (mac_of i n) kEthTypeIp (?h @ ?u)) pinfo') n)"
    using itf_SendIp_known [OF assms(2), of "\<lparr>b_front = f, b_head = udp_hdr sp dp (length (concat bufs) + 8) c, b_rest = bufs\<rparr>"
        "ia_address ia" junk kIpProtoUDP pinfo] s assms(1,4,5) unfolding pb by (auto simp: udp_SendTo_def)
  have m6: "length hw = 6" "length (mac_of i n) = 6" using assms(2) by (auto simp: resolved_def)
  have ne: "?h @ ?u \<noteq> []" using ip_hdr_props(1) [OF assms(4,5)] by (metis append_is_Nil_conv length_0_conv zero_neq_numeral)
  have udp: "kIpProtoUDP < 256" "20 + length ?u < 65536" using assms(12) l by (simp_all add: kIpProtoUDP_def)
  note ip = ip_input_ok [OF assms(4,5) udp(1,2) assms(6,7), of "addr_of j m" junk' "hw @ mac_of i n @ le_bytes 2 (htons kEthTypeIp)"]
  note fl = ip_hdr_fields [OF assms(4,5) udp, of "[]"]
  have "8 + length (concat bufs) < 65536" using assms(12) by simp
  note ru = ReceiveUdp_ok [OF assms(10,11) this assms(13)]
  have "net_Receive junk' j up accept mycpu now iss \<lparr>b_front = [], b_head = eth_frame hw (mac_of i n) kEthTypeIp (?h @ ?u), b_rest = []\<rparr> m =
      Inr (emit_net (UdpUp q (ia_address ia) sp (concat bufs)) m)"
    unfolding net_Receive_ip [OF m6 ne] ReceiveIp_def using ip fl ru
    by (simp add: kIpProtoUDP_def kIpProtoICMP_def kIpProtoTCP_def)
  then show ?thesis using snd by blast
qed

definition demo_itf :: interface where
  "demo_itf = \<lparr>i_mac = [2, 0, 0, 0, 0, 1], i_address = Some \<lparr>ia_address = [10, 0, 0, 1], ia_netmask = [255, 255, 255, 0], ia_gateway = [10, 0, 0, 254]\<rparr>\<rparr>"

definition demo_net :: "unit net" where
  "demo_net = \<lparr>interfaces = (\<lambda>_. None)(MainItf := Some demo_itf),
    arp_cache = [\<lparr>ae_paddr = [10, 0, 0, 2], ae_hwaddr = Some [2, 0, 0, 0, 0, 2], ae_gen = 0, ae_queue = Ops []\<rparr>],
    udp_port = (\<lambda>_. 0)(7 := 5000, 9 := 53), udp_pcbs = [9, 7], listening_tcp_pcbs = [], tcp_pcbs = [],
    udp_pool = (), tcp_pool = (), rcu_calls = [], n_out = []\<rparr>"

lemmas demo_defs = demo_net_def demo_itf_def IpRoute_def isLinkLocal_def addr_of_def mac_of_def Ip_Broadcast_def itf_isBroadcast_def
  isBroadcast_def isAny_def isLocalNetwork_def Ip_Mask_def Ip_Not_def isMulticast_def arp_find_def next_hop_def udp_find_def

lemma demo_resolved: "resolved MainItf [10, 0, 0, 2] [2, 0, 0, 0, 0, 2] demo_net"
  by (simp add: resolved_def demo_defs)

theorem udp_roundtrip_witness:
  "\<exists>frame pinfo. udp_SendTo (\<lambda>_. 0) 7 [10, 0, 0, 2] 53 [[1, 2], [3]] demo_net = Inr (emit_net (EthSend MainItf frame pinfo) demo_net) \<and>
    net_Receive (\<lambda>_. 0) MainItf (\<lambda>_ e. e) (Some id) 0 0 0 \<lparr>b_front = [], b_head = frame, b_rest = []\<rparr> demo_net =
      Inr (emit_net (UdpUp 9 [10, 0, 0, 1] 5000 [1, 2, 3]) demo_net)"
  using udp_roundtrip [of "[10, 0, 0, 2]" demo_net MainItf "[2, 0, 0, 0, 0, 2]" _ 7 5000 53 "[[1, 2], [3]]" demo_net 9 "\<lambda>_. 0" "\<lambda>_. 0"
      MainItf "\<lambda>_ e. e" "Some id" 0 0 0, OF _ demo_resolved]
  by (simp add: demo_defs)

section \<open>Echo\<close>

lemma rd_1: "0 < length h \<Longrightarrow> rd 0 1 h = unat (h ! 0)"
  by (cases h) (simp_all add: rd_def load_def)

lemma le_bytes_1 [simp]: "le_bytes (Suc 0) v = [of_nat v]"
  by simp

lemma body_split: "8 \<le> length body \<Longrightarrow> \<exists>a b c d rest. body = a # b # c # d # rest \<and> length rest = length body - 4"
  by (cases body; cases "tl body"; cases "tl (tl body)"; cases "tl (tl (tl body))") auto

lemma icmp_adjust_mod: "c < 65536 \<Longrightarrow> icmp_adjust c < 65536 \<and> icmp_adjust c mod 65535 = (c + 8) mod 65535"
proof -
  assume c: "c < 65536"
  have v: "icmp_adjust c = (if 0xFFF7 \<le> c then (c + 9) mod 65536 else (c + 8) mod 65536)"
    by (simp add: icmp_adjust_def Let_def htons_def bswap16_def kIcmpEchoRequest_def)
  show ?thesis
  proof (cases "c \<ge> 0xFFF7")
    case True
    then have "(c + 9) mod 65536 = c + 9 - 65536" "(c + 8) mod 65535 = c + 8 - 65535" using c by (simp_all add: mod_if)
    then show ?thesis using True c unfolding v by simp
  next
    case False
    then show ?thesis unfolding v by simp
  qed
qed

lemma canon_full: "canon x = 65535 \<Longrightarrow> x mod 65535 = 0"
  by (cases x) (auto simp: canon_def mod_Suc)

lemma one_buffer_csum:
  assumes "length x < 2 ^ 38"
  shows "IpCsum_chain [(0, x)] = 65535 - canon (le_sum x)"
proof -
  have "IpCsumNoFold [(0, x)] < u32" "ocong (IpCsumNoFold [(0, x)]) (le_sum x)"
    using IpCsumNoFold_ok [of "[(0, x)]"] assms by simp_all
  then show ?thesis using CsumFold_canon canon_ocong by (simp add: IpCsum_chain_def)
qed

lemma icmp_reply_sum:
  assumes "body = 8 # b # c # d # rest" "IpCsum_chain [(0, body)] = 0" and small: "length body < 2 ^ 38"
    and "body' = 0 # b # le_bytes 2 (icmp_adjust (unat c + 256 * unat d)) @ rest"
  shows "IpCsum_chain [(0, body')] = (if body' = replicate (length body') 0 then 65535 else 0)"
proof -
  let ?c = "unat c + 256 * unat d"
  have "unat c < 256" "unat d < 256" using unsigned_less [of c] unsigned_less [of d] by simp_all
  then have c: "?c < 65536" by linarith
  note adj = icmp_adjust_mod [OF c]
  have le: "le_sum (le_bytes 2 v @ rest) = v + le_sum rest" if "v < 65536" for v
    using that by (simp add: numeral_2_eq_2 unat_of_nat_byte less_mult_imp_div_less)
  have s: "le_sum body = 8 + (256 * unat b + ?c + le_sum rest)" "le_sum body' = 256 * unat b + icmp_adjust ?c + le_sum rest"
    using assms(1,4) le [of "icmp_adjust ?c"] adj by simp_all
  have "length body' < 2 ^ 38" using small assms(1,4) by simp
  note v = one_buffer_csum [OF small] one_buffer_csum [OF this]
  have "canon (le_sum body) = 65535" using assms(2) v(1) canon_less [of "le_sum body"] by simp
  then have m0: "le_sum body mod 65535 = 0" by (rule canon_full)
  have "le_sum body' mod 65535 = (256 * unat b + le_sum rest + (?c + 8)) mod 65535"
    using s(2) adj mod_add_cong [of "icmp_adjust ?c" 65535 "?c + 8" "256 * unat b + le_sum rest" "256 * unat b + le_sum rest"]
    by (simp add: ac_simps)
  then have m1: "le_sum body' mod 65535 = 0" using m0 s(1) by (simp add: ac_simps)
  have z: "le_sum xs = 0 \<longleftrightarrow> xs = replicate (length xs) 0" for xs
    by (induction xs rule: le_sum.induct) (auto simp: unat_eq_zero)
  have "canon (le_sum body') = (if le_sum body' = 0 then 0 else 65535)"
    using m1 canon_ocong [of "le_sum body'" 65535] canon_self [of 65535] by (auto simp: ocong_def canon_def)
  then show ?thesis using v(2) z [of body'] by auto
qed

lemma icmp_header:
  assumes "ip_HeaderLength ih = length ih" "20 \<le> length ih"
  defines "ih2 \<equiv> wr 10 (le_bytes 2 0) (wr 8 (le_bytes 1 kIpDefaultTtl) (wr 12 (ip_dst ih @ ip_src ih) ih))"
  defines "ih' \<equiv> wr 10 (le_bytes 2 (ComputeChecksum ih2)) ih2"
  shows "length ih' = length ih" "ComputeChecksum ih' = 0" "ip_src ih' = ip_dst ih" "ip_dst ih' = ip_src ih"
proof -
  have ls: "length (ip_dst ih) = 4" "length (ip_src ih) = 4" using assms(2) by (simp_all add: ip_dst_def ip_src_def)
  have l: "length ih2 = length ih" "length ih' = length ih" using assms(2) ls by (simp_all add: ih2_def ih'_def)
  show "length ih' = length ih" by (rule l(2))
  have n0: "ih2 ! 0 = ih ! 0" "ih' ! 0 = ih ! 0" using assms(2) ls by (simp_all add: ih2_def ih'_def nth_wr)
  define w where "w = unat (ih ! 0 AND 0xf)"
  have w: "4 * w = length ih" "0 < w" using assms(1,2) by (simp_all add: w_def ip_HeaderLength_def)
  have c: "ComputeChecksum ih2 = 65535 - canon (le_sum ih2)" "ComputeChecksum ih' = 65535 - canon (le_sum ih')"
    using ComputeChecksum_ok [of w ih2] ComputeChecksum_ok [of w ih'] n0 l w by (simp_all add: w_def [symmetric])
  have "rd 10 2 ih2 = 0" unfolding ih2_def by (subst rd_wr) (use assms(2) ls in simp_all)
  then show "ComputeChecksum ih' = 0" using stored_checksum [of 10 ih2] c l assms(2) by (simp add: ih'_def)
  have d: "drop 12 ih' = ip_dst ih @ ip_src ih @ drop 20 ih"
  proof -
    have "drop 12 ih' = drop 12 (wr 12 (ip_dst ih @ ip_src ih) ih)"
      using assms(2) ls by (simp add: ih'_def ih2_def drop_wr)
    then show ?thesis using assms(2) ls by (simp add: wr_def)
  qed
  show "ip_src ih' = ip_dst ih" using d ls by (simp add: ip_src_def)
  have "drop 16 ih' = ip_src ih @ drop 20 ih" using arg_cong [OF d, of "drop 4"] ls by simp
  then show "ip_dst ih' = ip_src ih" using ls by (simp add: ip_dst_def)
qed

text \<open>C36: A valid echo request is answered with one frame: the addresses exchanged, a header whose checksum
  verifies, the type set to reply, and everything after the checksum as it came.  The adjusted ICMP
  checksum verifies too (the message is shorter than the 256 GiB the checksum can count), except on a reply whose bytes are all zero, where the code writes 0 and the
  checksum of the reply is 0xffff.\<close>

theorem icmp_echo_reply:
  assumes "ip_HeaderLength ih = length ih" "20 \<le> length ih" "14 \<le> length f" "resolved i (ip_src ih) hw n"
    "8 \<le> length body" "body ! 0 = 8" "IpCsum_chain [(0, body)] = 0"
  shows "\<exists>ih' body' pinfo. ReceiveIcmp junk i ih \<lparr>b_front = f @ ih, b_head = body, b_rest = []\<rparr> n =
      Inr (emit_net (EthSend i (eth_frame hw (mac_of i n) kEthTypeIp (ih' @ body')) pinfo) n) \<and>
    length ih' = length ih \<and> ComputeChecksum ih' = 0 \<and> ip_src ih' = ip_dst ih \<and> ip_dst ih' = ip_src ih \<and>
    length body' = length body \<and> body' ! 0 = 0 \<and> body' ! 1 = body ! 1 \<and> drop 4 body' = drop 4 body \<and>
    (length body < 2 ^ 38 \<longrightarrow> IpCsum_chain [(0, body')] = (if body' = replicate (length body') 0 then 65535 else 0))"
proof -
  obtain b c d rest where B: "body = 8 # b # c # d # rest" using body_split [OF assms(5)] assms(6) by auto
  define body' where "body' = 0 # b # le_bytes 2 (icmp_adjust (unat c + 256 * unat d)) @ rest"
  define ih2 where "ih2 = wr 10 (le_bytes 2 0) (wr 8 (le_bytes 1 kIpDefaultTtl) (wr 12 (ip_dst ih @ ip_src ih) ih))"
  define ih' where "ih' = wr 10 (le_bytes 2 (ComputeChecksum ih2)) ih2"
  note H = icmp_header [OF assms(1,2), folded ih2_def, folded ih'_def]
  have g: "get_header sizeof_IcmpHeader \<lparr>b_front = f @ ih, b_head = body, b_rest = []\<rparr> = Inr body"
    using get_header_head [of 8 "\<lparr>b_front = f @ ih, b_head = body, b_rest = []\<rparr>"] assms(5) by (simp add: sizeof_IcmpHeader_def)
  have r: "rd 0 1 body = kIcmpEchoRequest" by (simp add: B rd_def load_def kIcmpEchoRequest_def)
  have r2: "rd 2 2 body = unat c + 256 * unat d" by (simp add: B rd_def load_def numeral_2_eq_2)
  have p: "put 2 (le_bytes 2 (icmp_adjust (unat c + 256 * unat d))) (put 0 (le_bytes 1 kIcmpEchoReply) \<lparr>b_front = f @ ih, b_head = body, b_rest = []\<rparr>) =
      \<lparr>b_front = f @ ih, b_head = body', b_rest = []\<rparr>"
    by (simp add: put_def wr_def B body'_def kIcmpEchoReply_def numeral_2_eq_2)
  have w: "wr (length (f @ ih) - length ih) ih' (f @ ih) = f @ ih'" using H(1) by (simp add: wr_def)
  have t: "buf_Retreat (length ih) \<lparr>b_front = f @ ih', b_head = body', b_rest = []\<rparr> = Inr \<lparr>b_front = f, b_head = ih' @ body', b_rest = []\<rparr>"
    using H(1) by (simp add: buf_Retreat_def Let_def)
  obtain pinfo where "EthArpSend junk i kEthTypeIp (ip_src ih) \<lparr>b_front = f, b_head = ih' @ body', b_rest = []\<rparr> pinfo0 n =
      Inr (emit_net (EthSend i (eth_frame hw (mac_of i n) kEthTypeIp (ih' @ body')) pinfo) n)"
    using EthArpSend_known [OF assms(4), of "\<lparr>b_front = f, b_head = ih' @ body', b_rest = []\<rparr>" junk kEthTypeIp pinfo0] assms(3)
    by (auto simp: pkt_bytes_def)
  moreover have "ReceiveIcmp junk i ih \<lparr>b_front = f @ ih, b_head = body, b_rest = []\<rparr> n =
      EthArpSend junk i kEthTypeIp (ip_src ih) \<lparr>b_front = f, b_head = ih' @ body', b_rest = []\<rparr> pinfo0 n"
    unfolding ReceiveIcmp_def g bindr_Inr r r2 Let_def p ih2_def [symmetric] ih'_def [symmetric] assms(1)
    using assms(5,7) w t by (simp add: pkt_bytes_def sizeof_IcmpHeader_def)
  moreover have "length body' = length body" "body' ! 0 = 0" "body' ! 1 = body ! 1" "drop 4 body' = drop 4 body"
    by (simp_all add: body'_def B numeral_2_eq_2)
  ultimately show ?thesis using H icmp_reply_sum [OF B assms(7) _ body'_def]
    by (intro exI [of _ ih'] exI [of _ body'] exI [of _ pinfo]) simp
qed

theorem icmp_echo_reply_witness:
  "\<exists>ih' body' pinfo. ReceiveIcmp (\<lambda>_. 0) MainItf (ip_hdr [10, 0, 0, 2] [10, 0, 0, 1] 1 28)
      \<lparr>b_front = replicate 14 0 @ ip_hdr [10, 0, 0, 2] [10, 0, 0, 1] 1 28, b_head = [8, 0, 0xF7, 0xFE, 0, 0, 0, 1], b_rest = []\<rparr> demo_net =
      Inr (emit_net (EthSend MainItf (eth_frame [2, 0, 0, 0, 0, 2] [2, 0, 0, 0, 0, 1] kEthTypeIp (ih' @ body')) pinfo) demo_net) \<and>
    ComputeChecksum ih' = 0 \<and> ip_dst ih' = [10, 0, 0, 2] \<and> body' ! 0 = 0 \<and> IpCsum_chain [(0, body')] = 0"
proof -
  let ?ih = "ip_hdr [10, 0, 0, 2] [10, 0, 0, 1] 1 28"
  have f: "ip_HeaderLength ?ih = 20" "length ?ih = 20" "ip_src ?ih = [10, 0, 0, 2]" "ip_dst ?ih = [10, 0, 0, 1]"
    using ip_hdr_fields [of "[10, 0, 0, 2]" "[10, 0, 0, 1]" 1 28 "[]"] ip_hdr_props(1) [of "[10, 0, 0, 2]" "[10, 0, 0, 1]" 1 28] by simp_all
  have c: "IpCsum_chain [(0, [8, 0, 0xF7, 0xFE, 0, 0, 0, 1])] = 0" by (simp add: one_buffer_csum canon_def)
  have m: "mac_of MainItf demo_net = [2, 0, 0, 0, 0, 1]" by (simp add: demo_defs)
  have small: "length [8, 0, 0xF7, 0xFE, 0, 0, 0, 1 :: byte] < 2 ^ 38" by simp
  obtain ih' body' pinfo where R: "ReceiveIcmp (\<lambda>_. 0) MainItf ?ih
      \<lparr>b_front = replicate 14 0 @ ?ih, b_head = [8, 0, 0xF7, 0xFE, 0, 0, 0, 1], b_rest = []\<rparr> demo_net =
      Inr (emit_net (EthSend MainItf (eth_frame [2, 0, 0, 0, 0, 2] [2, 0, 0, 0, 0, 1] kEthTypeIp (ih' @ body')) pinfo) demo_net)"
    "ComputeChecksum ih' = 0" "ip_dst ih' = [10, 0, 0, 2]" "body' ! 0 = 0" "length body' = 8" "drop 4 body' = [0, 0, 0, 1]"
    "IpCsum_chain [(0, body')] = (if body' = replicate (length body') 0 then 65535 else 0)"
    using icmp_echo_reply [of ?ih "replicate 14 0" MainItf "[2, 0, 0, 0, 0, 2]" demo_net "[8, 0, 0xF7, 0xFE, 0, 0, 0, 1]" "\<lambda>_. 0",
        unfolded eqTrueI [OF small] simp_thms] demo_resolved c f m by (auto simp: eval_nat_numeral)
  have "body' \<noteq> replicate (length body') 0"
  proof
    assume "body' = replicate (length body') 0"
    then have "drop 4 body' = replicate 4 0" using R(5) by (metis drop_replicate add_diff_cancel_left' numeral_Bit0)
    then show False using R(6) by (simp add: eval_nat_numeral)
  qed
  then show ?thesis using R by auto
qed


section \<open>Ports\<close>

lemma Pool_Allocate_lowest:
  assumes "icl_laws b elems" "v \<in> elems pool" "\<forall>u \<in> elems pool. v \<le> u"
  shows "\<exists>pool'. Pool_Allocate b pool = (Some v, pool')"
proof -
  have l: "icl_lower b pool \<in> elems pool" "\<forall>u \<in> elems pool. icl_lower b pool \<le> u" "\<not> icl_is_empty b pool"
    using assms(1,2) unfolding icl_laws_def by blast+
  then have "icl_lower b pool = v" using assms(2,3) le_antisym by blast
  then show ?thesis using l(3) by (simp add: Pool_Allocate_def Let_def)
qed

text \<open>Two ways in which UDP ports clash.  A pcb bound to port 49152 does not take the port out of the
  pool of ephemeral ports, so the next pcb that asks for any port is given the same one and receives
  the datagrams of the first; and closing a pcb bound to a well-known port puts that port into the
  pool, so the next pcb that asks for any port is given it.\<close>

theorem udp_ports_clash:
  assumes "icl_laws b elems" "udp_pool n = Pool_new b 49152 65535" "p \<noteq> q"
  shows "(\<exists>n1 n2. udp_Bind b p 49152 n = Inr (49152, n1) \<and> udp_Bind b q 0 n1 = Inr (49152, n2) \<and>
      udp_port n2 p = 49152 \<and> udp_find 49152 n2 = Some q) \<and>
    (\<exists>n1 n2. udp_Bind b p 80 n = Inr (80, n1) \<and> udp_Bind b q 0 (udp_Close b p n1) = Inr (80, n2))"
proof
  have e: "elems (udp_pool n) = {49152..<65535}" using assms(1,2) by (simp add: icl_laws_def Pool_new_def)
  obtain pool' where a: "Pool_Allocate b (udp_pool n) = (Some 49152, pool')"
    using Pool_Allocate_lowest [OF assms(1), of 49152 "udp_pool n"] e by auto
  then show "\<exists>n1 n2. udp_Bind b p 49152 n = Inr (49152, n1) \<and> udp_Bind b q 0 n1 = Inr (49152, n2) \<and>
      udp_port n2 p = 49152 \<and> udp_find 49152 n2 = Some q"
    using assms(3) by (simp add: udp_Bind_def udp_find_def)
  have "elems (Pool_Free b 80 (udp_pool n)) = insert 80 {49152..<65535}" using assms(1) e by (simp add: icl_laws_def Pool_Free_def)
  then obtain pool2 where "Pool_Allocate b (Pool_Free b 80 (udp_pool n)) = (Some 80, pool2)"
    using Pool_Allocate_lowest [OF assms(1), of 80 "Pool_Free b 80 (udp_pool n)"] by auto
  then show "\<exists>n1 n2. udp_Bind b p 80 n = Inr (80, n1) \<and> udp_Bind b q 0 (udp_Close b p n1) = Inr (80, n2)"
    by (simp add: udp_Bind_def udp_Close_def)
qed

definition port_net :: "nat list net" where
  "port_net = \<lparr>interfaces = \<lambda>_. None, arp_cache = [], udp_port = \<lambda>_. 0, udp_pcbs = [], listening_tcp_pcbs = [], tcp_pcbs = [],
    udp_pool = Pool_new list_icl 49152 65535, tcp_pool = Pool_new list_icl 49152 65535, rcu_calls = [], n_out = []\<rparr>"

theorem udp_ports_clash_witness:
  "\<exists>n1 n2. udp_Bind list_icl 1 49152 port_net = Inr (49152, n1) \<and> udp_Bind list_icl 2 0 n1 = Inr (49152, n2) \<and> udp_find 49152 n2 = Some 2"
  using udp_ports_clash [OF list_icl_laws, of port_net 1 2] by (auto simp: port_net_def)

end
