(* ===== verification/NetConn.thy ===== *)
theory NetConn
  imports NetUdp
begin

text \<open>
  Segments on the wire and new connections: a segment that one machine sends is the packet that the
  other machine's connection gets (\<open>TcpEntry::SendSegment\<close>, \<open>Interface::SendIp\<close>, \<open>EthArpSend\<close>,
  \<open>Interface::Receive\<close>, \<open>ReceiveIp\<close>, \<open>ReceiveTcp\<close>), and what a listening port makes of a SYN
  (\<open>ListeningTcpEntry::Input\<close>).
\<close>

section \<open>Words in network order\<close>

lemma htonl_less: "htonl v < 2 ^ 32"
proof -
  have "bswap16 (v mod u16) \<le> 65535" "bswap16 (v div u16 mod u16) \<le> 65535"
    using bswap16_less [of "v mod u16"] bswap16_less [of "v div u16 mod u16"] by linarith+
  then show ?thesis unfolding htonl_def by simp
qed

lemma htonl_twice: "htonl (htonl v) = v mod 2 ^ 32"
proof -
  have d: "htonl v mod u16 = bswap16 (v div u16 mod u16)" "htonl v div u16 mod u16 = bswap16 (v mod u16)"
    by (simp_all add: htonl_def)
  show ?thesis unfolding htonl_def [of "htonl v"] d bswap16_twice using mod_mult2_eq [of v 65536 65536] by simp
qed

lemma word16_wire: "of_nat (ntohs (htons (unat x) mod 65536)) = (x :: 16 word)"
proof -
  have "unat x < 65536" using unsigned_less [of x] by simp
  then show ?thesis by (simp add: ntohs_def htons_def bswap16_twice)
qed

lemma word32_wire: "of_nat (ntohl (htonl (unat x) mod 4294967296)) = (x :: 32 word)"
proof -
  have "htonl (unat x) mod 4294967296 = htonl (unat x)" using htonl_less [of "unat x"] by simp
  moreover have "unat x < 4294967296" using unsigned_less [of x] by simp
  ultimately show ?thesis by (simp add: ntohl_def htonl_twice)
qed

lemma length_tcp_bytes [simp]: "length (tcp_bytes w) = 20"
  by (simp add: tcp_bytes_def)

section \<open>A segment and the packet it becomes\<close>

definition wire_packet :: "wire_segment \<Rightarrow> ipv4 \<Rightarrow> ipv4 \<Rightarrow> tcp_packet" where
  "wire_packet w src dst =
    \<lparr>p_src = src, p_dst = dst, p_sport = w_src w, p_dport = w_dst w, p_seq = w_seq w, p_ack = w_ack w,
     p_tcplen = (20 + length (w_body w) - HdrLen (w_hf w) + (if has (Flags (w_hf w)) (kTcpFin OR kTcpSyn) then 1 else 0)) mod u64,
     p_hf = w_hf w, p_wnd = w_wnd w, p_bufs = [tcp_bytes w @ w_body w]\<rparr>"

lemma rd_tcp_bytes:
  "of_nat (ntohs (rd 0 2 (tcp_bytes w @ x))) = w_src w" "of_nat (ntohs (rd 2 2 (tcp_bytes w @ x))) = w_dst w"
  "of_nat (ntohl (rd 4 4 (tcp_bytes w @ x))) = w_seq w" "of_nat (ntohl (rd 8 4 (tcp_bytes w @ x))) = w_ack w"
  "of_nat (ntohs (rd 12 2 (tcp_bytes w @ x))) = w_hf w" "of_nat (ntohs (rd 14 2 (tcp_bytes w @ x))) = w_wnd w"
  by (simp_all add: rd_def load_def tcp_bytes_def word16_wire word32_wire)

lemma tcp_info_wire:
  "tcp_info ih \<lparr>b_front = f, b_head = tcp_bytes w @ w_body w, b_rest = []\<rparr> (tcp_bytes w @ w_body w) =
    wire_packet w (ip_src ih) (ip_dst ih)"
  unfolding tcp_info_def Let_def rd_tcp_bytes by (simp add: wire_packet_def pkt_bytes_def)

definition well_sized :: "wire_segment \<Rightarrow> bool" where
  "well_sized w \<longleftrightarrow> 20 \<le> HdrLen (w_hf w) \<and> HdrLen (w_hf w) \<le> 20 + length (w_body w) \<and> 40 + length (w_body w) < 65536"

lemma ReceiveTcp_wire:
  assumes "addr_of j m = Some ja" "ip_src ih = src" "ip_dst ih = dst" "\<not> itf_isBroadcast ja dst" "\<not> isMulticast dst" "well_sized w"
  shows "ReceiveTcp junk j up accept mycpu now iss ih \<lparr>b_front = f, b_head = tcp_bytes w @ w_body w, b_rest = []\<rparr> m =
    (let p = wire_packet w src dst; k = (src, w_src w, w_dst w) in
     case tcp_find k m of
       Some c \<Rightarrow>
         if \<not> c_accepted c then Inl (KAbort ''accept() has not completed before more data arrived'')
         else if c_cpu c = mycpu then bindr (Input up now p (c_entry c)) (\<lambda>e. conn_step junk k c e m)
         else Inr (emit_net (SpawnRemote (c_cpu c) p) m)
     | None \<Rightarrow>
         if List.find (\<lambda>(port, _). port = unat (w_dst w)) (listening_tcp_pcbs m) \<noteq> None
         then Listen_Input junk up accept mycpu now iss p m
         else if \<not> has (Flags (w_hf w)) kTcpRst then
           let ack = has (Flags (w_hf w)) kTcpAck in
           tcp_drain junk [TcpReset (\<not> ack) (if ack then w_ack w else 0) (w_seq w + of_nat (p_tcplen p)) dst src (w_dst w) (w_src w)] m
         else Inr m)"
proof -
  let ?b = "\<lparr>b_front = f, b_head = tcp_bytes w @ w_body w, b_rest = []\<rparr>"
  have "tcp_bytes w @ w_body w \<noteq> []" using length_tcp_bytes [of w] by (metis append_is_Nil_conv length_0_conv zero_neq_numeral)
  then have g: "get_header sizeof_TcpHeader ?b = Inr (tcp_bytes w @ w_body w)"
    by (simp add: get_header_def header_view_def sizeof_TcpHeader_def)
  have l: "length (pkt_bytes ?b) = 20 + length (w_body w)" by (simp add: pkt_bytes_def)
  have w: "p_src (wire_packet w src dst) = src" "p_dst (wire_packet w src dst) = dst" "p_sport (wire_packet w src dst) = w_src w"
    "p_dport (wire_packet w src dst) = w_dst w" "p_hf (wire_packet w src dst) = w_hf w" "p_ack (wire_packet w src dst) = w_ack w"
    "p_seq (wire_packet w src dst) = w_seq w" by (simp_all add: wire_packet_def)
  show ?thesis
    unfolding ReceiveTcp_def Let_def g bindr_Inr l assms(1) option.case tcp_info_wire assms(2,3) w
    using assms(4-6) by (simp add: sizeof_TcpHeader_def well_sized_def)
qed


lemma tcp_frame:
  assumes "IpRoute dst n = Some i" "resolved i dst hw n" "length src = 4" "length dst = 4"
  shows "\<exists>pinfo. tcp_send junk w src dst n = Inr (emit_net (EthSend i (eth_frame hw (mac_of i n) kEthTypeIp
    (ip_hdr src dst kIpProtoTCP (40 + length (w_body w)) @ tcp_bytes w @ w_body w)) pinfo) n)"
proof -
  let ?p = "\<lparr>b_front = map junk [0..<34], b_head = tcp_bytes w @ w_body w, b_rest = []\<rparr>"
  have "34 \<le> length (b_front ?p)" "pkt_bytes ?p = tcp_bytes w @ w_body w" by (simp_all add: pkt_bytes_def)
  then show ?thesis using itf_SendIp_known [OF assms(2), of ?p src junk kIpProtoTCP] assms
    by (auto simp: tcp_send_def net_SendIp_def)
qed

lemma tcp_arrives:
  assumes "length hw = 6" "length mac = 6" "length src = 4" "length dst = 4" "\<not> isBroadcast src" "\<not> isMulticast src"
    "well_sized w" "addr_of j m = Some ja" "ia_address ja = dst"
  shows "\<exists>f. net_Receive junk j up accept mycpu now iss \<lparr>b_front = [], b_head = eth_frame hw mac kEthTypeIp
      (ip_hdr src dst kIpProtoTCP (40 + length (w_body w)) @ tcp_bytes w @ w_body w), b_rest = []\<rparr> m =
    ReceiveTcp junk j up accept mycpu now iss (ip_hdr src dst kIpProtoTCP (40 + length (w_body w)))
      \<lparr>b_front = f, b_head = tcp_bytes w @ w_body w, b_rest = []\<rparr> m"
proof -
  let ?u = "tcp_bytes w @ w_body w" and ?h = "ip_hdr src dst kIpProtoTCP (40 + length (w_body w))"
  have n: "?h @ ?u \<noteq> []" using ip_hdr_props(1) [OF assms(3,4)] by (metis append_is_Nil_conv length_0_conv zero_neq_numeral)
  have t: "kIpProtoTCP < 256" "20 + length ?u < 65536" "20 + length ?u = 40 + length (w_body w)"
    using assms(7) by (simp_all add: kIpProtoTCP_def well_sized_def)
  have a: "kIpProtoTCP = kIpProtoUDP \<or> (\<exists>ia. addr_of j m = Some ia \<and> (itf_isBroadcast ia dst \<or> ia_address ia = dst))"
    using assms(8,9) by simp
  note ip = ip_input_ok [OF assms(3,4) t(1,2) assms(5,6) a, unfolded t(3)]
  note fl = ip_hdr_fields [OF assms(3,4) t(1,2), of "[]", unfolded t(3)]
  show ?thesis unfolding net_Receive_ip [OF assms(1,2) n] ReceiveIp_def ip bindr_Inr using fl
    by (intro exI) (simp add: kIpProtoUDP_def kIpProtoICMP_def kIpProtoTCP_def)
qed

text \<open>C39: A segment travels unchanged: what a connection hands to \<open>SendIp\<close> for a resolved destination is one
  frame on the wire, and the machine that owns the destination address and receives this frame gives
  its connection exactly the sequence and acknowledgement numbers, flags, window, options and data of
  the segment.\<close>

theorem tcp_wire_roundtrip:
  assumes "IpRoute dst n = Some i" "resolved i dst hw n" "length src = 4" "length dst = 4" "\<not> isBroadcast src" "\<not> isMulticast src"
    "well_sized w" "addr_of j m = Some ja" "ia_address ja = dst" "\<not> isBroadcast dst" "\<not> isMulticast dst"
    "tcp_find (src, w_src w, w_dst w) m = Some c" "c_accepted c" "c_cpu c = mycpu"
  shows "\<exists>frame pinfo. tcp_send junk w src dst n = Inr (emit_net (EthSend i frame pinfo) n) \<and>
    net_Receive junk' j up accept mycpu now iss \<lparr>b_front = [], b_head = frame, b_rest = []\<rparr> m =
      bindr (Input up now (wire_packet w src dst) (c_entry c)) (\<lambda>e. conn_step junk' (src, w_src w, w_dst w) c e m)"
proof -
  have m6: "length hw = 6" "length (mac_of i n) = 6" using assms(2) by (auto simp: resolved_def)
  have t: "kIpProtoTCP < 256" "40 + length (w_body w) < 65536" using assms(7) by (simp_all add: kIpProtoTCP_def well_sized_def)
  have ih: "ip_src (ip_hdr src dst kIpProtoTCP (40 + length (w_body w))) = src" "ip_dst (ip_hdr src dst kIpProtoTCP (40 + length (w_body w))) = dst"
    using ip_hdr_fields [OF assms(3,4) t, of "[]"] by simp_all
  have nb: "\<not> itf_isBroadcast ja dst" using assms(9,10) by (simp add: itf_isBroadcast_def)
  note r = ReceiveTcp_wire [OF assms(8) ih nb assms(11,7)]
  show ?thesis
    using tcp_frame [OF assms(1-4), of junk w] tcp_arrives [OF m6 assms(3-9), of junk' up accept mycpu now iss] r assms(12-14)
    by (auto simp: Let_def)
qed


definition demo_w :: wire_segment where
  "demo_w = \<lparr>w_src = 50000, w_dst = 80, w_seq = 0xFFFFFFFF, w_ack = 1001, w_hf = SetHdrLenFlags 20 kTcpAck, w_wnd = 4,
    w_csum = 0, w_body = [1, 2, 3], w_gso_size = 0, w_gso_hdr = 0\<rparr>"

definition demo_peer :: "unit net" where
  "demo_peer = demo_net\<lparr>interfaces := (\<lambda>_. None)(MainItf := Some (demo_itf\<lparr>i_address := Some \<lparr>ia_address = [10, 0, 0, 2],
      ia_netmask = [255, 255, 255, 0], ia_gateway = [10, 0, 0, 254]\<rparr>\<rparr>)),
    tcp_pcbs := [\<lparr>c_entry = new_entry\<lparr>address := [10, 0, 0, 2], key_ip := [10, 0, 0, 1], key_rport := 50000, key_lport := 80,
      state := kEstablished, snd_una := 1001, snd_nxt := 1001, rcv_nxt := 0xFFFFFFFF, rcv_wnd := kTcpWnd\<rparr>,
      c_accepted = True, c_cpu = 0\<rparr>], listening_tcp_pcbs := [(22, 1)]\<rparr>"

lemma demo_sized: "well_sized demo_w"
  by (simp add: well_sized_def demo_w_def HdrLen_def SetHdrLenFlags_def kTcpAck_def)

theorem tcp_wire_roundtrip_witness:
  "\<exists>frame pinfo. tcp_send (\<lambda>_. 0) demo_w [10, 0, 0, 1] [10, 0, 0, 2] demo_net = Inr (emit_net (EthSend MainItf frame pinfo) demo_net) \<and>
    net_Receive (\<lambda>_. 0) MainItf (\<lambda>_ e. e) (Some id) 0 5 0 \<lparr>b_front = [], b_head = frame, b_rest = []\<rparr> demo_peer =
      bindr (Input (\<lambda>_ e. e) 5 (wire_packet demo_w [10, 0, 0, 1] [10, 0, 0, 2]) (c_entry (hd (tcp_pcbs demo_peer))))
        (\<lambda>e. conn_step (\<lambda>_. 0) ([10, 0, 0, 1], 50000, 80) (hd (tcp_pcbs demo_peer)) e demo_peer)"
  using tcp_wire_roundtrip [of "[10, 0, 0, 2]" demo_net MainItf "[2, 0, 0, 0, 0, 2]" "[10, 0, 0, 1]" demo_w MainItf demo_peer _
      "hd (tcp_pcbs demo_peer)" 0 "\<lambda>_. 0" "\<lambda>_. 0" "\<lambda>_ e. e" "Some id" 5 0, OF _ demo_resolved _ _ _ _ demo_sized]
  by (simp add: demo_defs demo_peer_def tcp_find_def conn_key_def demo_w_def)

section \<open>A SYN for a listening port\<close>

definition syn_ack :: "tcp_packet \<Rightarrow> 32 word \<Rightarrow> wire_segment" where
  "syn_ack p iss = \<lparr>w_src = p_dport p, w_dst = p_sport p, w_seq = iss, w_ack = p_seq p + 1,
    w_hf = SetHdrLenFlags 28 (kTcpSyn OR kTcpAck), w_wnd = TcpWindow16 kTcpWnd,
    w_csum = From32To16 (PseudoCsum 28 6 (p_dst p) (p_src p)), w_body = syn_opts, w_gso_size = 0, w_gso_hdr = 0\<rparr>"

definition syn_received :: "nat \<Rightarrow> tcp_packet \<Rightarrow> 32 word \<Rightarrow> tcp_entry" where
  "syn_received now p iss = (listen_entry p iss)\<lparr>snd_nxt := iss + 1, rcv_last_acked := p_seq p + 1,
    unacked_segments := [\<lparr>s_seq = iss, s_hf = SetHdrLenFlags 28 (kTcpSyn OR kTcpAck), s_len = 1, s_opts = syn_opts, s_data = []\<rparr>],
    retransmit := now + 250000000, timer_set := True\<rparr>"

lemma unat_wnd_of: "unat (wnd_of p) = unat (p_wnd p) * 2 ^ kWindowShift" "unat (wnd_of p) < 2 ^ 31"
proof -
  have w: "unat (p_wnd p) < 65536" using unsigned_less [of "p_wnd p"] by simp
  then show u: "unat (wnd_of p) = unat (p_wnd p) * 2 ^ kWindowShift"
    by (simp add: wnd_of_def kWindowShift_def unat_word_ariths unsigned_ucast_eq take_bit_eq_mod push_bit_eq_mult)
  show "unat (wnd_of p) < 2 ^ 31" using u w by (simp add: kWindowShift_def)
qed

lemma syn_fits: "TcpSeqLEQ (iss + 1) (iss + 1 + (wnd_of p - 1)) \<longleftrightarrow> p_wnd p \<noteq> 0"
proof -
  let ?k = "unat (wnd_of p)"
  have "(of_nat ?k :: 32 word) = wnd_of p" by simp
  then have "unat ((iss + 1) - (iss + 1 + (wnd_of p - 1))) = (if ?k \<le> 1 then 1 - ?k else 2 ^ 32 + 1 - ?k)"
    using unat_diff_offsets [of 1 ?k iss] unat_wnd_of(2) [of p] by simp
  moreover have "?k = 0 \<longleftrightarrow> p_wnd p = 0" using unat_wnd_of(1) [of p] by (simp add: unat_eq_zero)
  ultimately show ?thesis unfolding seq_leq using unat_wnd_of(2) [of p] by (auto split: if_splits)
qed

lemma listen_output:
  "Output now (EnqueueSegment [] (kTcpSyn OR kTcpAck) syn_opts (listen_entry p iss)) =
    (if p_wnd p = 0 then Inl (KAbort ''UNIMPLEMENTED: Window size probe needed'')
     else Inr ((syn_received now p iss)\<lparr>timer_set := False, out := [SendIp (syn_ack p iss) (p_dst p) (p_src p)]\<rparr>))"
proof -
  have l: "length syn_opts = 8" by (simp add: syn_opts_def)
  have f: "has (kTcpSyn OR kTcpAck) (kTcpSyn OR kTcpFin)" by (simp add: has_def kTcpSyn_def kTcpAck_def kTcpFin_def)
  have z: "p_wnd p = 0 \<Longrightarrow> wnd_of p = 0" by (simp add: wnd_of_def)
  note d = listen_entry_def new_entry_def
  show ?thesis using syn_fits [of iss p] z
    by (auto simp: Output_def EnqueueSegment_def l f sizeof_TcpHeader_def d seg_end_def SendWindowRemaining_def
        SendSegment_def emit_def syn_received_def syn_ack_def Let_def kTcpMss_def)
qed

lemma listen_ready:
  assumes "c_entry c = EnqueueSegment [] (kTcpSyn OR kTcpAck) syn_opts (listen_entry p iss)"
  shows "conn_ready junk now (p_src p, p_sport p, p_dport p) c (m\<lparr>tcp_pcbs := c # tcp_pcbs m\<rparr>) =
    (if p_wnd p = 0 then Inl (KAbort ''UNIMPLEMENTED: Window size probe needed'')
     else tcp_drain junk [SendIp (syn_ack p iss) (p_dst p) (p_src p), TimerStart 250000]
       (m\<lparr>tcp_pcbs := \<lparr>c_entry = syn_received now p iss, c_accepted = True, c_cpu = c_cpu c\<rparr> # tcp_pcbs m\<rparr>))"
proof (cases "p_wnd p = 0")
  case False
  have k: "conn_key c = (p_src p, p_sport p, p_dport p)"
    unfolding conn_key_def assms by (simp add: EnqueueSegment_def listen_entry_def Let_def)
  let ?e = "(syn_received now p iss)\<lparr>timer_set := False, out := [SendIp (syn_ack p iss) (p_dst p) (p_src p)]\<rparr>"
  have s: "NetTcp.SetTimer now ?e = (syn_received now p iss)\<lparr>out := [SendIp (syn_ack p iss) (p_dst p) (p_src p), TimerStart 250000]\<rparr>"
    by (simp add: SetTimer_def syn_received_def emit_def)
  have o: "(syn_received now p iss)\<lparr>out := []\<rparr> = syn_received now p iss"
    by (simp add: syn_received_def listen_entry_def new_entry_def)
  have r: "c\<lparr>c_accepted := True, c_entry := e\<rparr> = \<lparr>c_entry = e, c_accepted = True, c_cpu = c_cpu c\<rparr>" for e
    by simp
  show ?thesis using False unfolding conn_ready_def assms listen_output by (simp add: s conn_step_def k o r)
qed (simp add: conn_ready_def assms listen_output)

text \<open>C40: A frame with a SYN for a listening port and no other flag, from a peer without a connection, has one
  of three outcomes.  A SYN that carries data and a SYN that announces a window of zero stop the
  machine; every other one creates a connection in the SYN-RECEIVED state with the initial sequence
  number, answers with a SYN-ACK that acknowledges it, keeps the SYN-ACK for retransmission and starts
  the timer.\<close>

theorem listen_syn:
  assumes "length hw = 6" "length mac = 6" "length src = 4" "length dst = 4" "\<not> isBroadcast src" "\<not> isMulticast src"
    "well_sized w" "addr_of j m = Some ja" "ia_address ja = dst" "\<not> isBroadcast dst" "\<not> isMulticast dst"
    "Flags (w_hf w) = kTcpSyn" "tcp_find (src, w_src w, w_dst w) m = None"
    "List.find (\<lambda>(port, _). port = unat (w_dst w)) (listening_tcp_pcbs m) = Some (port, pcb)"
    "\<And>c. c_entry (accept c) = c_entry c" "\<And>c. c_cpu (accept c) = c_cpu c"
  defines "p \<equiv> wire_packet w src dst"
  shows "net_Receive junk j up (Some accept) mycpu now iss \<lparr>b_front = [], b_head = eth_frame hw mac kEthTypeIp
      (ip_hdr src dst kIpProtoTCP (40 + length (w_body w)) @ tcp_bytes w @ w_body w), b_rest = []\<rparr> m =
    (if HdrLen (w_hf w) < 20 + length (w_body w) then Inl (KAbort ''UNIMPLEMENTED: Data with SYN packet'')
     else if w_wnd w = 0 then Inl (KAbort ''UNIMPLEMENTED: Window size probe needed'')
     else tcp_drain junk [SendIp (syn_ack p iss) dst src, TimerStart 250000]
       (m\<lparr>tcp_pcbs := \<lparr>c_entry = syn_received now p iss, c_accepted = True, c_cpu = mycpu\<rparr> # tcp_pcbs m\<rparr>))"
proof -
  have t: "kIpProtoTCP < 256" "40 + length (w_body w) < 65536" using assms(7) by (simp_all add: kIpProtoTCP_def well_sized_def)
  have ih: "ip_src (ip_hdr src dst kIpProtoTCP (40 + length (w_body w))) = src" "ip_dst (ip_hdr src dst kIpProtoTCP (40 + length (w_body w))) = dst"
    using ip_hdr_fields [OF assms(3,4) t, of "[]"] by simp_all
  have nb: "\<not> itf_isBroadcast ja dst" using assms(9,10) by (simp add: itf_isBroadcast_def)
  have f: "\<not> has kTcpSyn kTcpRst" "\<not> has kTcpSyn kTcpAck" "has kTcpSyn (kTcpFin OR kTcpSyn)"
    by (simp_all add: has_def kTcpSyn_def kTcpAck_def kTcpRst_def kTcpFin_def)
  have p: "p_hf p = w_hf w" "p_src p = src" "p_dst p = dst" "p_sport p = w_src w" "p_dport p = w_dst w" "p_wnd p = w_wnd w"
    "1 < p_tcplen p \<longleftrightarrow> HdrLen (w_hf w) < 20 + length (w_body w)"
    using assms(7,12) f by (auto simp: p_def wire_packet_def well_sized_def)
  let ?c = "accept \<lparr>c_entry = EnqueueSegment [] (kTcpSyn OR kTcpAck) syn_opts (listen_entry p iss), c_accepted = False, c_cpu = mycpu\<rparr>"
  have c: "c_entry ?c = EnqueueSegment [] (kTcpSyn OR kTcpAck) syn_opts (listen_entry p iss)" "c_cpu ?c = mycpu"
    using assms(15,16) by simp_all
  obtain g where "net_Receive junk j up (Some accept) mycpu now iss \<lparr>b_front = [], b_head = eth_frame hw mac kEthTypeIp
      (ip_hdr src dst kIpProtoTCP (40 + length (w_body w)) @ tcp_bytes w @ w_body w), b_rest = []\<rparr> m =
    ReceiveTcp junk j up (Some accept) mycpu now iss (ip_hdr src dst kIpProtoTCP (40 + length (w_body w)))
      \<lparr>b_front = g, b_head = tcp_bytes w @ w_body w, b_rest = []\<rparr> m"
    using tcp_arrives [OF assms(1-9)] by blast
  also have "\<dots> = Listen_Input junk up (Some accept) mycpu now iss p m"
    unfolding ReceiveTcp_wire [OF assms(8) ih nb assms(11,7)] Let_def assms(13,14) option.case p_def by simp
  also have "\<dots> = (if HdrLen (w_hf w) < 20 + length (w_body w) then Inl (KAbort ''UNIMPLEMENTED: Data with SYN packet'')
      else conn_ready junk now (src, w_src w, w_dst w) ?c (m\<lparr>tcp_pcbs := ?c # tcp_pcbs m\<rparr>))"
    unfolding Listen_Input_def Let_def p assms(12,13) option.case c(2) using f by simp
  finally show ?thesis unfolding listen_ready [OF c(1), unfolded p c(2)] .
qed

definition demo_syn :: "byte list \<Rightarrow> wire_segment" where
  "demo_syn dat = \<lparr>w_src = 50000, w_dst = 22, w_seq = 7, w_ack = 0, w_hf = SetHdrLenFlags 24 kTcpSyn, w_wnd = 4,
    w_csum = 0, w_body = [2, 4, 5, 180] @ dat, w_gso_size = 0, w_gso_hdr = 0\<rparr>"

lemma demo_syn_sized: "length dat < 1000 \<Longrightarrow> well_sized (demo_syn dat)" "HdrLen (w_hf (demo_syn dat)) = 24" "Flags (w_hf (demo_syn dat)) = kTcpSyn"
  by (simp_all add: well_sized_def demo_syn_def HdrLen_def SetHdrLenFlags_def kTcpSyn_def Flags_def kTcpFlagMask_def)

theorem listen_syn_witness:
  "net_Receive (\<lambda>_. 0) MainItf (\<lambda>_ e. e) (Some id) 0 5 99 \<lparr>b_front = [], b_head = eth_frame [2, 0, 0, 0, 0, 2] [2, 0, 0, 0, 0, 1] kEthTypeIp
      (ip_hdr [10, 0, 0, 1] [10, 0, 0, 2] kIpProtoTCP 44 @ tcp_bytes (demo_syn []) @ [2, 4, 5, 180]), b_rest = []\<rparr> demo_peer =
    tcp_drain (\<lambda>_. 0) [SendIp (syn_ack (wire_packet (demo_syn []) [10, 0, 0, 1] [10, 0, 0, 2]) 99) [10, 0, 0, 2] [10, 0, 0, 1], TimerStart 250000]
      (demo_peer\<lparr>tcp_pcbs := \<lparr>c_entry = syn_received 5 (wire_packet (demo_syn []) [10, 0, 0, 1] [10, 0, 0, 2]) 99,
        c_accepted = True, c_cpu = 0\<rparr> # tcp_pcbs demo_peer\<rparr>) \<and>
   net_Receive (\<lambda>_. 0) MainItf (\<lambda>_ e. e) (Some id) 0 5 99 \<lparr>b_front = [], b_head = eth_frame [2, 0, 0, 0, 0, 2] [2, 0, 0, 0, 0, 1] kEthTypeIp
      (ip_hdr [10, 0, 0, 1] [10, 0, 0, 2] kIpProtoTCP 45 @ tcp_bytes (demo_syn [1]) @ [2, 4, 5, 180, 1]), b_rest = []\<rparr> demo_peer =
    Inl (KAbort ''UNIMPLEMENTED: Data with SYN packet'')"
proof -
  have b: "w_src (demo_syn dat) = 50000" "w_dst (demo_syn dat) = 22" "w_wnd (demo_syn dat) = 4" "w_body (demo_syn dat) = [2, 4, 5, 180] @ dat" for dat
    by (simp_all add: demo_syn_def)
  have d: "tcp_find ([10, 0, 0, 1], 50000, 22) demo_peer = None" "addr_of MainItf demo_peer = Some \<lparr>ia_address = [10, 0, 0, 2],
      ia_netmask = [255, 255, 255, 0], ia_gateway = [10, 0, 0, 254]\<rparr>"
    "List.find (\<lambda>(port, _). port = 22) (listening_tcp_pcbs demo_peer) = Some (22, 1)"
    by (simp_all add: demo_peer_def demo_defs tcp_find_def conn_key_def)
  note l = listen_syn [of "[2, 0, 0, 0, 0, 2]" "[2, 0, 0, 0, 0, 1]" "[10, 0, 0, 1]" "[10, 0, 0, 2]" "demo_syn _" MainItf demo_peer,
      OF _ _ _ _ _ _ demo_syn_sized(1) d(2) _ _ _ demo_syn_sized(3), of _ 22 1 id "\<lambda>_. 0" "\<lambda>_ e. e" 0 5 99, unfolded b demo_syn_sized(2)]
  show ?thesis using l [of "[]"] l [of "[1]"] d by (simp add: demo_defs)
qed

end
