(* ===== verification/NetArp.thy ===== *)
theory NetArp
  imports NetUdp
begin

text \<open>
  The race between the senders of packets to an address that is not resolved and the reception of
  its ARP reply (\<open>EthArpSend\<close> in \<open>src/src/native/NetEth.cc\<close>, \<open>ArpEntry::SetAddr\<close> and
  \<open>OperationQueue\<close> in \<open>NetEth.h\<close>).  The steps of the processors are the parts of the definitions of
  \<open>NetStack\<close>, in any order: a sender looks the entry up and, when it finds no address, pushes its packet
  in a later step; \<open>SetAddr\<close> exchanges the address, moves the queue and runs it, and the closure given
  to \<open>DoRcu\<close> runs what is left of the queue after a grace period.
\<close>

section \<open>Single steps\<close>

text \<open>\<open>EthArpSend\<close> makes room for the Ethernet header before it defers a packet.\<close>

definition sendable :: "deferred \<Rightarrow> bool" where
  "sendable d \<longleftrightarrow> sizeof_EthernetHeader \<le> length (b_head (d_buf d))"

text \<open>The event of a packet handed to the device with the address \<open>hw\<close>.\<close>

definition frame_of :: "'b net \<Rightarrow> deferred \<Rightarrow> byte list \<Rightarrow> net_event" where
  "frame_of n d hw = EthSend (d_itf d)
    (pkt_bytes (put 0 (hw @ mac_of (d_itf d) n @ le_bytes 2 (htons (d_proto d))) (d_buf d))) (d_pinfo d)"

fun ops :: "op_queue \<Rightarrow> deferred list" where
  "ops (Ops ds) = ds"
| "ops (Freed ds) = ds"


lemma Retreat_sendable:
  "buf_Retreat sizeof_EthernetHeader p = Inr b \<Longrightarrow> sendable \<lparr>d_itf = i, d_proto = pr, d_pinfo = pin, d_buf = b\<rparr>"
  by (auto simp: buf_Retreat_def sendable_def Let_def split: if_splits)

lemma frame_of_same: "interfaces n' = interfaces n \<Longrightarrow> frame_of n' d hw = frame_of n d hw"
  by (simp add: frame_of_def mac_of_def)

lemma send_func_ok: "sendable d \<Longrightarrow> send_func d hw n = Inr (n\<lparr>n_out := n_out n @ [frame_of n d hw]\<rparr>)"
proof -
  assume "sendable d"
  then have "get_header sizeof_EthernetHeader (d_buf d) = Inr (b_head (d_buf d))"
    by (intro get_header_head) (simp_all add: sendable_def sizeof_EthernetHeader_def)
  then show ?thesis by (simp add: send_func_def itf_Send_def emit_net_def frame_of_def)
qed

lemma invoke_loop_ok:
  "\<forall>d \<in> set ds. sendable d \<Longrightarrow> invoke_loop hw ds n = Inr (n\<lparr>n_out := n_out n @ map (\<lambda>d. frame_of n d hw) ds\<rparr>)"
proof (induction ds arbitrary: n)
  case (Cons d ds)
  then show ?case by (simp add: send_func_ok frame_of_same [of "n\<lparr>n_out := _\<rparr>" n])
qed simp

lemma arp_find_update:
  assumes "\<And>e. ae_paddr (f e) = ae_paddr e"
  shows "arp_find a (n\<lparr>arp_cache := arp_update a f (arp_cache n)\<rparr>) = map_option f (arp_find a n)"
proof -
  have "List.find (\<lambda>e. ae_paddr e = a) (arp_update a f es) = map_option f (List.find (\<lambda>e. ae_paddr e = a) es)" for es
    by (induction es) (auto simp: assms)
  then show ?thesis by (simp add: arp_find_def)
qed

lemma arp_find_out [simp]: "arp_find a (n\<lparr>n_out := x\<rparr>) = arp_find a n" "arp_find a (n\<lparr>rcu_calls := y\<rparr>) = arp_find a n"
  by (simp_all add: arp_find_def)




section \<open>The interleaved system\<close>

text \<open>
  The phase of the entry's resolution: no address yet; the address exchanged, with the count of the
  exchange; the queue moved; the second flush registered, with the senders that were in progress at
  that time; the second flush done.  An entry that is made with its address has nothing to flush.
\<close>

datatype arp_phase = Waiting | Exchanged nat "byte list" | Moved nat "byte list" op_queue
  | Registered nat "byte list" "nat set" | Flushed

text \<open>
  \<open>s_push\<close> holds the senders that have found no address and have not pushed yet, each with a number
  of its own; \<open>s_asked\<close> the packets that senders have started to send and \<open>s_addrs\<close> the addresses
  received.
\<close>

record 'b arp_sys =
  s_net :: "'b net"
  s_push :: "(nat \<times> deferred) list"
  s_phase :: arp_phase
  s_asked :: "deferred list"
  s_addrs :: "byte list list"

text \<open>
  The grace period of the flush: no sender that was in progress when the closure was given to
  \<open>DoRcu\<close> is in progress still.
\<close>

inductive arp_step :: "(nat \<Rightarrow> byte) \<Rightarrow> ipv4 \<Rightarrow> 'b arp_sys \<Rightarrow> 'b arp_sys \<Rightarrow> bool" for junk :: "nat \<Rightarrow> byte" and a :: ipv4 where
  st_begin: "sendable d \<Longrightarrow> arp_begin junk a d (s_net s) = Inr (later, n) \<Longrightarrow>
    arp_step junk a s (s\<lparr>s_net := n, s_asked := s_asked s @ [d],
      s_push := (if later then (length (s_asked s), d) # s_push s else s_push s)\<rparr>)"
| st_push: "(k, d) \<in> set (s_push s) \<Longrightarrow>
    arp_step junk a s (s\<lparr>s_net := arp_push a d (s_net s), s_push := remove1 (k, d) (s_push s)\<rparr>)"
| st_learn: "arp_find a (s_net s) = None \<Longrightarrow>
    arp_step junk a s (s\<lparr>s_net := arp_learn a hw (s_net s), s_addrs := hw # s_addrs s, s_phase := Flushed\<rparr>)"
| st_exchange: "arp_find a (s_net s) \<noteq> None \<Longrightarrow> SetAddr_exchange a hw (s_net s) = (fresh, n) \<Longrightarrow>
    arp_step junk a s (s\<lparr>s_net := n, s_addrs := hw # s_addrs s,
      s_phase := (if fresh then Exchanged (addr_gen a n) hw else s_phase s)\<rparr>)"
| st_move: "s_phase s = Exchanged g hw \<Longrightarrow> SetAddr_move a (s_net s) = (q, n) \<Longrightarrow>
    arp_step junk a s (s\<lparr>s_net := n, s_phase := Moved g hw q\<rparr>)"
| st_run: "s_phase s = Moved g hw q \<Longrightarrow> SetAddr_run a g hw q (s_net s) = Inr n \<Longrightarrow>
    arp_step junk a s (s\<lparr>s_net := n, s_phase := Registered g hw (fst ` set (s_push s))\<rparr>)"
| st_flush: "s_phase s = Registered g hw R \<Longrightarrow> R \<inter> fst ` set (s_push s) = {} \<Longrightarrow> arp_flush a g hw (s_net s) = Inr n \<Longrightarrow>
    arp_step junk a s (s\<lparr>s_net := n\<lparr>rcu_calls := remove1 (a, g, hw) (rcu_calls n)\<rparr>, s_phase := Flushed\<rparr>)"


text \<open>One thread of \<open>SetAddr\<close> run without interruption is the whole of \<open>SetAddr\<close>.\<close>

lemma SetAddr_steps:
  assumes "arp_find a (s_net s) = Some e" "ae_hwaddr e = None" "SetAddr a hw (s_net s) = Inr n"
  shows "\<exists>g. (arp_step junk a)\<^sup>*\<^sup>* s (s\<lparr>s_net := n, s_addrs := hw # s_addrs s, s_phase := Registered g hw (fst ` set (s_push s))\<rparr>)"
proof -
  obtain n1 where x: "SetAddr_exchange a hw (s_net s) = (True, n1)" using assms(1,2) by (auto simp: SetAddr_exchange_def)
  obtain q n2 where m: "SetAddr_move a n1 = (q, n2)" by (cases "SetAddr_move a n1")
  have r: "SetAddr_run a (addr_gen a n1) hw q n2 = Inr n" using assms(3) by (simp add: SetAddr_def x m)
  let ?s1 = "s\<lparr>s_net := n1, s_addrs := hw # s_addrs s, s_phase := Exchanged (addr_gen a n1) hw\<rparr>"
  let ?s2 = "?s1\<lparr>s_net := n2, s_phase := Moved (addr_gen a n1) hw q\<rparr>"
  have "arp_step junk a s ?s1" using st_exchange [OF _ x] assms(1) by simp
  moreover have "arp_step junk a ?s1 ?s2" using st_move [of ?s1 "addr_gen a n1" hw a q n2] m by simp
  moreover have "arp_step junk a ?s2 (?s2\<lparr>s_net := n, s_phase := Registered (addr_gen a n1) hw (fst ` set (s_push s))\<rparr>)"
    using st_run [of ?s2 "addr_gen a n1" hw q a n] r by simp
  ultimately have "(arp_step junk a)\<^sup>*\<^sup>* s (?s2\<lparr>s_net := n, s_phase := Registered (addr_gen a n1) hw (fst ` set (s_push s))\<rparr>)"
    by (meson converse_rtranclp_into_rtranclp rtranclp.rtrancl_refl)
  then show ?thesis by (intro exI [of _ "addr_gen a n1"]) (cases s, simp)
qed

section \<open>The invariant\<close>



definition is_ops :: "op_queue \<Rightarrow> bool" where
  "is_ops q \<longleftrightarrow> q = Ops (ops q)"






lemma SetAddr_run_ok:
  assumes "is_ops q" "\<forall>d \<in> set (ops q). sendable d"
  shows "SetAddr_run a g hw q n =
    Inr (n\<lparr>n_out := n_out n @ map (\<lambda>d. frame_of n d hw) (ops q), rcu_calls := rcu_calls n @ [(a, g, hw)]\<rparr>)"
proof -
  obtain ds where q: "q = Ops ds" using assms(1) by (auto simp: is_ops_def)
  then show ?thesis using assms(2) by (simp add: SetAddr_run_def InvokeAndClear_def invoke_loop_ok)
qed


lemma arp_flush_stale:
  assumes "arp_find a n = Some e" "ae_gen e \<noteq> g" "ae_queue e \<noteq> Ops []"
  shows "arp_flush a g hw n = Inl (Undefined ''address used after delete'')"
  using assms by (simp add: arp_flush_def)









section \<open>Properties\<close>



definition demo_packet :: "byte \<Rightarrow> deferred" where
  "demo_packet b = \<lparr>d_itf = MainItf, d_proto = kEthTypeIp, d_pinfo = pinfo0, d_buf = \<lparr>b_front = [], b_head = replicate 14 0 @ [b], b_rest = []\<rparr>\<rparr>"

lemma demo_sendable: "sendable (demo_packet b)"
  by (simp add: sendable_def demo_packet_def sizeof_EthernetHeader_def)


text \<open>C38: A second reply before the grace period of the first makes the second flush use a deleted address.
  When an entry has its first address, a sender that had found none pushes its packet, and another
  reply replaces the address, then the closure that \<open>SetAddr\<close> has registered reads the first address,
  which \<open>exchange\<close> handed to a \<open>unique_ptr\<close> that the second \<open>SetAddr\<close> has destroyed.\<close>

theorem arp_second_reply:
  assumes "arp_find a n = Some e" "ae_hwaddr e = None" "ae_queue e = Ops q" "\<forall>x \<in> set q. sendable x"
  shows "\<exists>n1 n2. SetAddr a hw1 n = Inr n1 \<and> (a, ae_gen e + 1, hw1) \<in> set (rcu_calls n1) \<and>
    SetAddr a hw2 (arp_push a d n1) = Inr n2 \<and>
    arp_flush a (ae_gen e + 1) hw1 n2 = Inl (Undefined ''address used after delete'')"
proof -
  let ?u = "\<lambda>e. e\<lparr>ae_hwaddr := Some hw1, ae_gen := ae_gen e + 1\<rparr>"
  let ?m = "n\<lparr>arp_cache := arp_update a ?u (arp_cache n)\<rparr>"
  let ?m2 = "?m\<lparr>arp_cache := arp_update a (\<lambda>e. e\<lparr>ae_queue := Ops []\<rparr>) (arp_cache ?m)\<rparr>"
  let ?e = "e\<lparr>ae_hwaddr := Some hw1, ae_gen := ae_gen e + 1, ae_queue := Ops []\<rparr>"
  have x: "SetAddr_exchange a hw1 n = (True, ?m)" using assms(1,2) by (simp add: SetAddr_exchange_def)
  have f1: "arp_find a ?m = Some (?u e)" using arp_find_update [of ?u a n] assms(1) by simp
  then have mv: "SetAddr_move a ?m = (Ops q, ?m2)" using assms(3) by (simp add: SetAddr_move_def)
  have f2: "arp_find a ?m2 = Some ?e" using arp_find_update [of "\<lambda>e. e\<lparr>ae_queue := Ops []\<rparr>" a ?m] f1 by simp
  define n1 where "n1 = ?m2\<lparr>n_out := n_out ?m2 @ map (\<lambda>d. frame_of ?m2 d hw1) q, rcu_calls := rcu_calls ?m2 @ [(a, ae_gen e + 1, hw1)]\<rparr>"
  have s1: "SetAddr a hw1 n = Inr n1"
    unfolding SetAddr_def x mv Let_def case_prod_conv n1_def
    using SetAddr_run_ok [of "Ops q" a "ae_gen e + 1" hw1 ?m2] assms(4) f1 by (simp add: is_ops_def addr_gen_def)
  have f3: "arp_find a n1 = Some ?e" using f2 unfolding n1_def by simp
  have f4: "arp_find a (arp_push a d n1) = Some (?e\<lparr>ae_queue := Ops [d]\<rparr>)"
    using arp_find_update [of "\<lambda>e. e\<lparr>ae_queue := queue_Push d (ae_queue e)\<rparr>" a n1] f3 by (simp add: arp_push_def)
  let ?v = "\<lambda>e. e\<lparr>ae_hwaddr := Some hw2, ae_gen := ae_gen e + 1\<rparr>"
  define n2 where "n2 = (arp_push a d n1)\<lparr>arp_cache := arp_update a ?v (arp_cache (arp_push a d n1))\<rparr>"
  have s2: "SetAddr a hw2 (arp_push a d n1) = Inr n2" using f4 by (simp add: SetAddr_def SetAddr_exchange_def n2_def)
  have f5: "arp_find a n2 = Some (?v (?e\<lparr>ae_queue := Ops [d]\<rparr>))"
    using arp_find_update [of ?v a "arp_push a d n1"] f4 by (simp add: n2_def)
  then have "arp_flush a (ae_gen e + 1) hw1 n2 = Inl (Undefined ''address used after delete'')"
    by (rule arp_flush_stale) (cases e, simp)+
  moreover have "(a, ae_gen e + 1, hw1) \<in> set (rcu_calls n1)" by (simp add: n1_def)
  ultimately show ?thesis using s1 s2 by blast
qed

theorem arp_second_reply_witness:
  "\<exists>(n :: unit net) n1 n2. SetAddr [10, 0, 0, 3] [2, 0, 0, 0, 0, 3] n = Inr n1 \<and> ([10, 0, 0, 3], 1, [2, 0, 0, 0, 0, 3]) \<in> set (rcu_calls n1) \<and>
    SetAddr [10, 0, 0, 3] [2, 0, 0, 0, 0, 4] (arp_push [10, 0, 0, 3] (demo_packet 2) n1) = Inr n2 \<and>
    arp_flush [10, 0, 0, 3] 1 [2, 0, 0, 0, 0, 3] n2 = Inl (Undefined ''address used after delete'')"
proof -
  let ?e = "\<lparr>ae_paddr = [10, 0, 0, 3], ae_hwaddr = None, ae_gen = 0, ae_queue = Ops [demo_packet 1]\<rparr>"
  have "arp_find [10, 0, 0, 3] (demo_net\<lparr>arp_cache := [?e]\<rparr>) = Some ?e" by (simp add: arp_find_def)
  from arp_second_reply [OF this, of "[demo_packet 1]" "[2, 0, 0, 0, 0, 3]" "[2, 0, 0, 0, 0, 4]" "demo_packet 2"]
  show ?thesis using demo_sendable [of 1] by - (rule exI [of _ "demo_net\<lparr>arp_cache := [?e]\<rparr>"], simp)
qed

end
