(* ===== verification/GracePeriod.thy ===== *)
theory GracePeriod
  imports EbbPrelude
begin

text \<open>
  What read-copy-update promises: a function registered on a processor runs only after every event
  that was in progress anywhere at the time of the registration has finished.  The abstract machine
  passes a token around the processors.  The processor that receives it separates the events in
  progress from those that begin later, and passes the token on once the former have finished; the
  functions registered before it last passed the token on are then ready.  Times count the events
  begun and the functions registered, and an event is identified by the time at which it began.
  \<open>EventManager\<close> implements this machine.
\<close>

record grace =
  g_old :: "nat \<Rightarrow> nat set"
  g_cur :: "nat \<Rightarrow> nat set"
  g_at :: nat
  g_held :: bool
  g_prev :: "nat \<Rightarrow> nat set"
  g_curr :: "nat \<Rightarrow> nat set"
  g_ready :: "nat set"
  g_recv :: "nat \<Rightarrow> nat"
  g_comp :: "nat \<Rightarrow> nat"
  g_now :: nat

definition g_init :: grace where
  "g_init = \<lparr>g_old = \<lambda>_. {}, g_cur = \<lambda>_. {}, g_at = 0, g_held = False, g_prev = \<lambda>_. {}, g_curr = \<lambda>_. {},
    g_ready = {}, g_recv = \<lambda>_. 0, g_comp = \<lambda>_. 0, g_now = 0\<rparr>"

inductive g_step :: "nat \<Rightarrow> grace \<Rightarrow> grace \<Rightarrow> bool" for n where
  g_begin: "d < n \<Longrightarrow> g_step n g (g\<lparr>g_cur := (g_cur g)(d := insert (g_now g) (g_cur g d)), g_now := g_now g + 1\<rparr>)"
| g_finish: "d < n \<Longrightarrow> C \<subseteq> g_cur g d \<Longrightarrow> D \<subseteq> g_old g d \<Longrightarrow>
    g_step n g (g\<lparr>g_cur := (g_cur g)(d := C), g_old := (g_old g)(d := D)\<rparr>)"
| g_register: "d < n \<Longrightarrow> g_step n g (g\<lparr>g_curr := (g_curr g)(d := insert (g_now g) (g_curr g d)), g_now := g_now g + 1\<rparr>)"
| g_receive: "\<not> g_held g \<Longrightarrow> d = g_at g \<Longrightarrow>
    g_step n g (g\<lparr>g_held := True, g_old := (g_old g)(d := g_old g d \<union> g_cur g d), g_cur := (g_cur g)(d := {}),
      g_recv := (g_recv g)(d := g_now g)\<rparr>)"
| g_complete: "g_held g \<Longrightarrow> d = g_at g \<Longrightarrow> g_old g d = {} \<Longrightarrow>
    g_step n g (g\<lparr>g_held := False, g_at := (d + 1) mod n, g_comp := (g_comp g)(d := g_now g),
      g_ready := g_ready g \<union> g_prev g d, g_prev := (g_prev g)(d := g_curr g d), g_curr := (g_curr g)(d := {})\<rparr>)"

text \<open>The distance of a processor from the token, in the direction the token travels.\<close>

definition rank :: "nat \<Rightarrow> nat \<Rightarrow> nat \<Rightarrow> nat" where
  "rank n h d = (if h \<le> d then d - h else d + n - h)"

lemma rank_self [simp]: "rank n h h = 0"
  by (simp add: rank_def)

lemma rank_eq_0: "d < n \<Longrightarrow> h < n \<Longrightarrow> rank n h d = 0 \<longleftrightarrow> d = h"
  by (auto simp: rank_def)

lemma rank_less: "d < n \<Longrightarrow> h < n \<Longrightarrow> rank n h d < n"
  by (auto simp: rank_def)

lemma rank_next:
  assumes "d < n" "h < n"
  shows "rank n ((h + 1) mod n) d = (if d = h then n - 1 else rank n h d - 1)"
proof (cases "h + 1 < n")
  case True
  then show ?thesis using assms by (auto simp: rank_def)
next
  case False
  then have "h + 1 = n" using assms(2) by simp
  then show ?thesis using assms by (auto simp: rank_def)
qed

text \<open>A processor that stands before another one on the token's way round has passed the token on before
  the other one last received it.\<close>

definition ring :: "nat \<Rightarrow> bool \<Rightarrow> nat \<Rightarrow> (nat \<Rightarrow> nat) \<Rightarrow> (nat \<Rightarrow> nat) \<Rightarrow> bool" where
  "ring n held h cmp recv \<longleftrightarrow> (\<forall>x < n. \<forall>y < n.
    (held \<and> (x = h \<or> y = h)) \<or> rank n h x < rank n h y \<longrightarrow> cmp x \<le> recv y)"

lemma ring_receive:
  assumes "ring n False h cmp recv" "h < n" "\<And>x. x < n \<Longrightarrow> cmp x \<le> t"
  shows "ring n True h cmp (recv(h := t))"
  unfolding ring_def
proof (intro allI impI)
  fix x y assume xy: "x < n" "y < n" and c: "True \<and> (x = h \<or> y = h) \<or> rank n h x < rank n h y"
  show "cmp x \<le> (recv(h := t)) y"
  proof (cases "y = h")
    case False
    then have "rank n h x < rank n h y" using c rank_eq_0 [OF xy(2) assms(2)] by auto
    then show ?thesis using assms(1) xy False by (simp add: ring_def)
  qed (use assms(3) xy in simp)
qed

lemma ring_complete:
  assumes "ring n True h cmp recv" "h < n"
  shows "ring n False ((h + 1) mod n) (cmp(h := t)) recv"
  unfolding ring_def
proof (intro allI impI)
  fix x y assume xy: "x < n" "y < n"
    and c: "False \<and> (x = (h + 1) mod n \<or> y = (h + 1) mod n) \<or> rank n ((h + 1) mod n) x < rank n ((h + 1) mod n) y"
  have r: "rank n h x < n" "rank n h y < n" using rank_less assms(2) xy by blast+
  have l: "(if x = h then n - 1 else rank n h x - 1) < (if y = h then n - 1 else rank n h y - 1)"
    using c rank_next [OF xy(1) assms(2)] rank_next [OF xy(2) assms(2)] by simp
  then have xh: "x \<noteq> h" using r by (auto split: if_splits)
  have "y = h \<or> rank n h x < rank n h y" using l xh by (auto split: if_splits)
  then show "(cmp(h := t)) x \<le> recv y" using assms(1) xy xh by (auto simp: ring_def)
qed

definition g_ok :: "grace \<Rightarrow> nat \<Rightarrow> bool" where
  "g_ok g d \<longleftrightarrow> g_recv g d \<le> g_now g \<and> g_comp g d \<le> g_now g \<and>
    (\<forall>i \<in> g_cur g d. g_recv g d \<le> i \<and> i < g_now g) \<and> (\<forall>i \<in> g_old g d. i < g_now g) \<and>
    (g_old g d \<noteq> {} \<longrightarrow> g_held g \<and> d = g_at g) \<and>
    (\<forall>t \<in> g_prev g d. t < g_comp g d) \<and> (\<forall>t \<in> g_curr g d. t < g_now g) \<and>
    (\<forall>i \<in> g_old g d \<union> g_cur g d. \<forall>t \<in> g_ready g. t < i)"

definition g_inv :: "nat \<Rightarrow> grace \<Rightarrow> bool" where
  "g_inv n g \<longleftrightarrow> g_at g < n \<and> ring n (g_held g) (g_at g) (g_comp g) (g_recv g) \<and> (\<forall>d < n. g_ok g d) \<and> (\<forall>t \<in> g_ready g. t < g_now g)"

lemma g_inv_init: "0 < n \<Longrightarrow> g_inv n g_init"
  by (simp add: g_inv_def g_ok_def g_init_def ring_def)

lemma g_okD:
  assumes "g_ok g d"
  shows "g_recv g d \<le> g_now g" "g_comp g d \<le> g_now g" "\<And>i. i \<in> g_cur g d \<Longrightarrow> g_recv g d \<le> i"
    "\<And>t. t \<in> g_prev g d \<Longrightarrow> t < g_comp g d" "\<And>i t. i \<in> g_old g d \<union> g_cur g d \<Longrightarrow> t \<in> g_ready g \<Longrightarrow> t < i"
    "g_old g d \<noteq> {} \<Longrightarrow> g_held g \<and> d = g_at g" "\<And>t. t \<in> g_curr g d \<Longrightarrow> t < g_now g"
  using assms by (simp_all add: g_ok_def)

lemma g_inv_step: "g_step n g g' \<Longrightarrow> g_inv n g \<Longrightarrow> g_inv n g'"
proof (induction rule: g_step.induct)
  case (g_begin d g)
  have "g_ok (g\<lparr>g_cur := (g_cur g)(d := insert (g_now g) (g_cur g d)), g_now := g_now g + 1\<rparr>) e" if "g_ok g e" "\<forall>t \<in> g_ready g. t < g_now g" for e
    using that by (auto simp: g_ok_def less_Suc_eq le_Suc_eq)
  then show ?case using g_begin by (auto simp: g_inv_def less_Suc_eq)
next
  case (g_finish d C g D)
  have "g_ok (g\<lparr>g_cur := (g_cur g)(d := C), g_old := (g_old g)(d := D)\<rparr>) e" if "g_ok g e" for e
  proof (cases "e = d")
    case True
    have "D \<noteq> {} \<longrightarrow> g_old g d \<noteq> {}" using g_finish(3) by blast
    then show ?thesis using that True by (simp add: g_ok_def) (use g_finish(2,3) in \<open>meson UnCI UnE subsetD\<close>)
  next
    case False
    then show ?thesis using that by (simp add: g_ok_def)
  qed
  then show ?case using g_finish by (simp add: g_inv_def)
next
  case (g_register d g)
  have "g_ok (g\<lparr>g_curr := (g_curr g)(d := insert (g_now g) (g_curr g d)), g_now := g_now g + 1\<rparr>) e" if "g_ok g e" for e
    using that by (auto simp: g_ok_def less_Suc_eq le_Suc_eq)
  then show ?case using g_register by (auto simp: g_inv_def less_Suc_eq)
next
  case (g_receive g d)
  have "ring n True (g_at g) (g_comp g) ((g_recv g)(g_at g := g_now g))"
    using g_receive by (intro ring_receive) (auto simp: g_inv_def g_ok_def)
  moreover have "g_ok (g\<lparr>g_held := True, g_old := (g_old g)(d := g_old g d \<union> g_cur g d), g_cur := (g_cur g)(d := {}),
      g_recv := (g_recv g)(d := g_now g)\<rparr>) e" if "g_ok g e" for e
    using that g_receive(1,2) by (auto simp: g_ok_def)
  ultimately show ?case using g_receive by (simp add: g_inv_def)
next
  case (g_complete g d)
  have dn: "d < n" and okd: "g_ok g d" using g_complete by (simp_all add: g_inv_def)
  have "g_ok (g\<lparr>g_held := False, g_at := (d + 1) mod n, g_comp := (g_comp g)(d := g_now g),
      g_ready := g_ready g \<union> g_prev g d, g_prev := (g_prev g)(d := g_curr g d), g_curr := (g_curr g)(d := {})\<rparr>) e"
    if e: "g_ok g e" "e < n" for e
  proof -
    have old: "g_old g e = {}" using g_okD(6) [OF e(1)] g_complete(2,3) by auto
    have "t < i" if "t \<in> g_prev g d" "i \<in> g_cur g e" for t i
    proof -
      have "g_comp g d \<le> g_recv g e" using g_complete(1,2,4) dn e(2) by (simp add: g_inv_def ring_def)
      then show ?thesis using g_okD(3) [OF e(1) that(2)] g_okD(4) [OF okd that(1)] by simp
    qed
    then show ?thesis using e(1) old by (auto simp: g_ok_def)
  qed
  moreover have "ring n False ((d + 1) mod n) ((g_comp g)(d := g_now g)) (g_recv g)"
    using g_complete dn by (intro ring_complete) (auto simp: g_inv_def)
  moreover have "t < g_now g" if "t \<in> g_prev g d" for t using g_okD(2,4) [OF okd] that by fastforce
  ultimately show ?case using g_complete dn by (auto simp: g_inv_def)
qed

lemma g_inv_reachable: "0 < n \<Longrightarrow> (g_step n)\<^sup>*\<^sup>* g_init g \<Longrightarrow> g_inv n g"
  by (erule rtranclp_induct) (use g_inv_init g_inv_step in blast)+

lemma g_started:
  assumes "0 < n" "(g_step n)\<^sup>*\<^sup>* g_init g" "d < n" "i \<in> g_old g d \<union> g_cur g d"
  shows "i < g_now g"
proof -
  have "g_ok g d" using g_inv_reachable [OF assms(1,2)] assms(3) by (simp add: g_inv_def)
  then show ?thesis using assms(4) unfolding g_ok_def by blast
qed

lemma g_safe:
  assumes "0 < n" "(g_step n)\<^sup>*\<^sup>* g_init g" "t \<in> g_ready g" "d < n" "i \<in> g_old g d \<union> g_cur g d"
  shows "t < i"
proof -
  have "g_ok g d" using g_inv_reachable [OF assms(1,2)] assms(4) by (simp add: g_inv_def)
  then show ?thesis using g_okD(5) assms(3,5) by blast
qed

end
