(* ===== verification/VMemRegions.thy ===== *)
theory VMemRegions
  imports PhysMem
begin

text \<open>
  The allocator of virtual page ranges, \<open>src/src/native/VMemAllocator.cc\<close> and
  \<open>VMemAllocator.h\<close>.  \<open>regions_\<close> is a map from the first frame of a region to the region, sorted in
  descending order: here the list of its entries in that order.  Frames are naturals with the 64-bit
  arithmetic of \<open>Pfn\<close> written out.  A page fault handler is a value of a type variable, and the
  absent handler is \<open>None\<close>.
\<close>

section \<open>Regions\<close>

record 'h region =
  r_end :: pfn
  r_handler :: "'h option"
  r_allocated :: bool

type_synonym 'h regions = "(pfn \<times> 'h region) list"

definition Region :: "pfn \<Rightarrow> 'h region" where
  "Region addr = \<lparr>r_end = addr, r_handler = None, r_allocated = False\<rparr>"

definition IsFree :: "'h region \<Rightarrow> bool" where
  "IsFree r \<longleftrightarrow> \<not> r_allocated r"

definition Region_HandleFault :: "'h region \<Rightarrow> 'h result" where
  "Region_HandleFault r =
    (if IsFree r then Inl (KAbort ''Fault on a free region!'')
     else case r_handler r of None \<Rightarrow> Inl (Undefined ''page_fault_handler_->HandleFault'') | Some h \<Rightarrow> Inr h)"

definition kVMemStart :: nat where "kVMemStart = 0xFFFFFFFF00000000"

definition kVMemRangeStart :: nat where "kVMemRangeStart = 0xFFFF800000000000"

definition kVMemRangeEnd :: nat where "kVMemRangeEnd = kVMemStart"

text \<open>The map: insertion of a new key, and the update of a present one.\<close>

fun emplace :: "pfn \<Rightarrow> 'h region \<Rightarrow> 'h regions \<Rightarrow> bool \<times> 'h regions" where
  "emplace k v [] = (True, [(k, v)])"
| "emplace k v ((s, r) # m) =
    (if k = s then (False, (s, r) # m)
     else if s < k then (True, (k, v) # (s, r) # m)
     else let (b, m') = emplace k v m in (b, (s, r) # m'))"

fun update_region :: "pfn \<Rightarrow> ('h region \<Rightarrow> 'h region) \<Rightarrow> 'h regions \<Rightarrow> 'h regions" where
  "update_region k f [] = []"
| "update_region k f ((s, r) # m) = (if s = k then (s, f r) # m else (s, r) # update_region k f m)"

definition pfn_minus :: "pfn \<Rightarrow> nat \<Rightarrow> nat" where
  "pfn_minus a b = (a + u64 - b mod u64) mod u64"

definition pfn_plus :: "pfn \<Rightarrow> nat \<Rightarrow> nat" where
  "pfn_plus a b = (a + b) mod u64"

definition claim_region :: "'h option \<Rightarrow> 'h region \<Rightarrow> 'h region" where
  "claim_region h r = r\<lparr>r_handler := h, r_allocated := True\<rparr>"

section \<open>The operations\<close>

definition vm_new :: "'h regions" where
  "vm_new = [(Pfn_Up kVMemRangeStart, Region (Pfn_Down kVMemRangeEnd))]"

definition VAlloc :: "nat \<Rightarrow> 'h option \<Rightarrow> 'h regions \<Rightarrow> (pfn \<times> 'h regions) result" where
  "VAlloc npages h m =
    (case List.find (\<lambda>(begin, r). IsFree r \<and> npages \<le> pfn_minus (r_end r) begin) m of
       None \<Rightarrow> Inl (KAbort ''unable to allocate virtual pages'')
     | Some (begin, r) \<Rightarrow>
         let ret = pfn_minus (r_end r) npages in
         if ret = begin then Inr (ret, update_region begin (claim_region h) m)
         else let (ok, m') = emplace ret (Region (pfn_plus ret npages)) (update_region begin (\<lambda>r. r\<lparr>r_end := ret\<rparr>) m) in
           if \<not> ok then Inl (KAssert ''p.second'') else Inr (ret, update_region ret (claim_region h) m'))"

definition align_pfn :: "nat \<Rightarrow> nat \<Rightarrow> pfn" where
  "align_pfn v alignment = unat (align_Down (of_nat v :: 64 word) (of_nat alignment))"

definition VAllocAligned :: "nat \<Rightarrow> nat \<Rightarrow> 'h option \<Rightarrow> 'h regions \<Rightarrow> (pfn \<times> 'h regions) result" where
  "VAllocAligned npages pages_align h m =
    (case List.find (\<lambda>(begin, r). IsFree r \<and> npages \<le> pfn_minus (r_end r) begin \<and>
        begin \<le> align_pfn (pfn_minus (r_end r) npages) pages_align) m of
       None \<Rightarrow> Inl (KAbort ''unable to allocate virtual pages'')
     | Some (begin, r) \<Rightarrow>
         let ret = align_pfn (pfn_minus (r_end r) npages) pages_align;
             endsize = pfn_minus (pfn_minus (r_end r) ret) npages in
         bindr
           (if ret = begin then Inr (update_region begin (claim_region h) m)
            else let (ok, m') = emplace ret (Region (pfn_plus ret npages)) (update_region begin (\<lambda>r. r\<lparr>r_end := ret\<rparr>) m) in
              if \<not> ok then Inl (KAssert ''p.second'') else Inr (update_region ret (claim_region h) m'))
           (\<lambda>m'. Inr (ret, if 0 < endsize then snd (emplace (pfn_plus ret npages) (Region (r_end r)) m') else m')))"

definition VAllocRange :: "nat \<Rightarrow> nat \<Rightarrow> 'h option \<Rightarrow> 'h regions \<Rightarrow> (pfn \<times> 'h regions) result" where
  "VAllocRange npages vmem_start h m =
    (let vmem_end = pfn_minus (pfn_plus vmem_start (kPageSize * npages mod u64)) 1 in
     if npages = 0 \<or> vmem_start = 0 \<or> h = None then Inr (Pfn_None, m)
     else if vmem_start < kVMemRangeStart \<or> vmem_end > kVMemRangeEnd \<or> vmem_start \<ge> vmem_end then Inr (Pfn_None, m)
     else if vmem_start AND (kPageSize - 1) \<noteq> 0 then Inr (Pfn_None, m)
     else case List.find (\<lambda>(begin, r). \<not> ToAddr begin > vmem_end \<and> ToAddr begin \<le> vmem_start \<and> ToAddr (r_end r) \<ge> vmem_end) m of
       None \<Rightarrow> Inr (Pfn_None, m)
     | Some (begin, r) \<Rightarrow>
         if \<not> IsFree r then Inr (Pfn_None, m)
         else let vmem_start_vfn = drop_bit kPageShift vmem_start;
                  vmem_end_vfn = pfn_plus (pfn_plus vmem_start_vfn npages) 1 in
           bindr
             (if ToAddr begin = vmem_start
              then Inr (update_region begin (\<lambda>r. claim_region h (r\<lparr>r_end := vmem_end_vfn\<rparr>)) m)
              else if \<not> ToAddr begin < vmem_start then Inl (KAssert ''begin.ToAddr() < vmem_start'')
              else let (ok, m') = emplace vmem_start_vfn (Region vmem_end_vfn)
                     (update_region begin (\<lambda>r. r\<lparr>r_end := Pfn_Down vmem_start\<rparr>) m) in
                if \<not> ok then Inl (KAssert ''p.second'') else Inr (update_region vmem_start_vfn (claim_region h) m'))
             (\<lambda>m'. Inr (vmem_start_vfn,
               if vmem_end_vfn < r_end r then snd (emplace vmem_end_vfn (Region (r_end r)) m') else m')))"

text \<open>
  The fault handler looks up the last region that starts at or below the page of the address;
  addresses of the translation area go to \<open>trans::HandleFault\<close>, here \<open>None\<close>.
\<close>

definition HandlePageFault :: "nat \<Rightarrow> 'h regions \<Rightarrow> 'h option result" where
  "HandlePageFault fault_addr m =
    (if fault_addr \<ge> kVMemStart then Inr None
     else case List.find (\<lambda>(begin, r). begin \<le> Pfn_Down fault_addr) m of
       None \<Rightarrow> Inl (KAbort ''no handler for it'')
     | Some (begin, r) \<Rightarrow>
         if r_end r < Pfn_Up fault_addr then Inl (KAbort ''no handler for it'')
         else bindr (Region_HandleFault r) (\<lambda>h. Inr (Some h)))"

section \<open>The invariant\<close>

text \<open>
  Regions descend below a limit; a free one ends at or before the region above it.  The end of an
  allocated region may lie beyond the start of the region above it, which is what \<open>AllocRange\<close> and the
  aligned \<open>Alloc\<close> leave behind; what a client holds is the part up to there.
\<close>

fun vm_ok :: "pfn \<Rightarrow> 'h regions \<Rightarrow> bool" where
  "vm_ok lim [] \<longleftrightarrow> True"
| "vm_ok lim ((s, r) # m) \<longleftrightarrow> s < lim \<and> s < r_end r \<and> (IsFree r \<longrightarrow> r_end r \<le> lim) \<and> vm_ok s m"

fun held :: "pfn \<Rightarrow> 'h regions \<Rightarrow> pfn \<times> nat \<times> 'h option \<Rightarrow> bool" where
  "held lim [] x \<longleftrightarrow> False"
| "held lim ((s, r) # m) (p, n, h) \<longleftrightarrow>
    (if s = p then r_allocated r \<and> r_handler r = h \<and> p + n \<le> r_end r \<and> p + n \<le> lim else held s m (p, n, h))"

definition low :: "pfn \<Rightarrow> 'h regions \<Rightarrow> pfn" where
  "low lim us = (if us = [] then lim else fst (last us))"

lemma vm_ok_append: "vm_ok lim (us @ ys) \<longleftrightarrow> vm_ok lim us \<and> vm_ok (low lim us) ys"
  by (induction us arbitrary: lim) (auto simp: low_def)

lemma low_append: "low lim (us @ ys) = low (low lim us) ys"
  by (simp add: low_def)

lemma low_le: "vm_ok lim us \<Longrightarrow> low lim us \<le> lim"
proof (induction us arbitrary: lim)
  case (Cons x us)
  then have "low (fst x) us \<le> fst x" by (cases x) auto
  then show ?case using Cons.prems by (cases x) (auto simp: low_def split: if_splits)
qed (simp add: low_def)

lemma vm_ok_keys: "vm_ok lim us \<Longrightarrow> x \<in> set us \<Longrightarrow> low lim us \<le> fst x \<and> fst x < lim"
proof (induction us arbitrary: lim)
  case (Cons y us)
  obtain s r where y: "y = (s, r)" by (cases y)
  have l: "low s us \<le> s" using low_le Cons.prems(1) y by auto
  have e: "low lim (y # us) = low s us" by (simp add: low_def y)
  show ?case
  proof (cases "x = y")
    case True
    then show ?thesis using l e Cons.prems(1) y by auto
  next
    case False
    then have "low s us \<le> fst x \<and> fst x < s" using Cons y by auto
    then show ?thesis using e Cons.prems(1) y by auto
  qed
qed simp

lemma update_region_at: "vm_ok lim (us @ (s, r) # m) \<Longrightarrow> update_region s f (us @ (s, r) # m) = us @ (s, f r) # m"
proof (induction us arbitrary: lim)
  case (Cons x us)
  then have "low (fst x) us \<le> fst x" "s < low (fst x) us" by (cases x, auto simp: vm_ok_append low_le)+
  then show ?case using Cons by (cases x) auto
qed simp

lemma emplace_at:
  "vm_ok lim us \<Longrightarrow> s < k \<Longrightarrow> k < low lim us \<Longrightarrow> emplace k v (us @ (s, r) # m) = (True, us @ (k, v) # (s, r) # m)"
proof (induction us arbitrary: lim)
  case (Cons x us)
  obtain s' r' where x: "x = (s', r')" by (cases x)
  have "low s' us \<le> s'" using low_le [of s' us] Cons.prems(1) x by simp
  moreover have "low lim (x # us) = low s' us" by (simp add: low_def x)
  ultimately show ?case using Cons x by auto
qed simp


lemma vm_ok_carve:
  "vm_ok lim (us @ (s, r) # m) \<Longrightarrow> vm_ok (low lim us) bs \<Longrightarrow> bs \<noteq> [] \<Longrightarrow> fst (last bs) = s \<Longrightarrow> vm_ok lim (us @ bs @ m)"
  by (auto simp: vm_ok_append low_def)

lemma held_skip: "\<forall>b \<in> set bs. fst b \<noteq> fst x \<Longrightarrow> held lim (bs @ m) x = held (low lim bs) m x"
proof (induction bs arbitrary: lim)
  case (Cons b bs)
  then show ?case by (cases b; cases x) (auto simp: low_def)
qed (simp add: low_def)

lemma held_append: "held lim bs x \<Longrightarrow> held lim (bs @ m) x"
proof (induction bs arbitrary: lim)
  case (Cons b bs)
  then show ?case by (cases b; cases x) (auto split: if_splits)
qed simp

lemma held_key: "held lim m (p, n, h) \<Longrightarrow> vm_ok lim m \<Longrightarrow> p < lim \<and> p + n \<le> lim \<and> p \<in> fst ` set m"
proof (induction m arbitrary: lim)
  case (Cons b m)
  then show ?case by (cases b) (fastforce split: if_splits)
qed simp

lemma held_keep:
  assumes "held lim (us @ (s, r) # m) (p, n, h)" "vm_ok lim (us @ (s, r) # m)" "IsFree r"
    "vm_ok (low lim us) bs" "bs \<noteq> []" "fst (last bs) = s"
  shows "held lim (us @ bs @ m) (p, n, h)"
proof (cases "p \<in> fst ` set us")
  case True
  have "held lim (us @ ys) (p, n, h) = held lim us (p, n, h)" for ys :: "'a regions"
    using True
  proof (induction us arbitrary: lim)
    case (Cons b us)
    then show ?case by (cases b) auto
  qed simp
  then show ?thesis using assms(1) by simp
next
  case False
  then have nu: "\<forall>b \<in> set us. fst b \<noteq> fst (p, n, h)" by auto
  have "held (low lim us) ((s, r) # m) (p, n, h)" using assms(1) held_skip [OF nu] by blast
  then have m: "held s m (p, n, h)" using assms(3) by (auto simp: IsFree_def split: if_splits)
  moreover have "vm_ok s m" using assms(2) by (simp add: vm_ok_append)
  ultimately have "p < s" using held_key by blast
  moreover have l: "low (low lim us) bs = s" using assms(5,6) by (simp add: low_def)
  ultimately have nb: "\<forall>b \<in> set bs. fst b \<noteq> fst (p, n, h)" using vm_ok_keys [OF assms(4)] by fastforce
  show ?thesis using m l held_skip [OF nu] held_skip [OF nb] by metis
qed

lemma held_new:
  assumes "held (low lim us) bs (p, n, h)" "vm_ok lim us" "vm_ok (low lim us) bs"
  shows "held lim (us @ bs @ m) (p, n, h)"
proof -
  have "p < low lim us" using held_key [OF assms(1,3)] by simp
  then have "\<forall>b \<in> set us. fst b \<noteq> p" using vm_ok_keys [OF assms(2)] by fastforce
  then show ?thesis using held_skip [of us "(p, n, h)"] held_append [OF assms(1)] by auto
qed

text \<open>
  What the three operations share: one free region is replaced by blocks that start where it
  started, one of them claimed for the client.
\<close>

definition carves :: "pfn \<Rightarrow> 'h regions \<Rightarrow> pfn \<times> nat \<times> 'h option \<Rightarrow> 'h regions \<Rightarrow> bool" where
  "carves lim m x m' \<longleftrightarrow> (\<exists>us s r rs bs. m = us @ (s, r) # rs \<and> IsFree r \<and> m' = us @ bs @ rs \<and>
    vm_ok (low lim us) bs \<and> bs \<noteq> [] \<and> fst (last bs) = s \<and> held (low lim us) bs x)"

lemma carves_ok:
  assumes "carves lim m x m'" "vm_ok lim m"
  shows "vm_ok lim m' \<and> held lim m' x \<and> (\<forall>y. held lim m y \<longrightarrow> held lim m' y \<and> fst y \<noteq> fst x)"
proof -
  obtain us s r rs bs where c: "m = us @ (s, r) # rs" "IsFree r" "m' = us @ bs @ rs"
    "vm_ok (low lim us) bs" "bs \<noteq> []" "fst (last bs) = s" "held (low lim us) bs x"
    using assms(1) by (auto simp: carves_def)
  obtain p n h where x: "x = (p, n, h)" by (cases x)
  have v: "vm_ok lim us" "vm_ok s rs" "s < low lim us" using assms(2) c(1) by (simp_all add: vm_ok_append)
  have p: "s \<le> p" "p < low lim us"
  proof -
    obtain b where "b \<in> set bs" "fst b = p" using held_key c(4,7) x by blast
    moreover have "low (low lim us) bs = s" using c(5,6) by (simp add: low_def)
    ultimately show "s \<le> p" "p < low lim us" using vm_ok_keys [OF c(4), of b] by auto
  qed
  have "held lim m' y \<and> fst y \<noteq> fst x" if "held lim m y" for y
  proof -
    obtain p' n' h' where y: "y = (p', n', h')" by (cases y)
    have "p' \<noteq> p"
    proof
      assume e: "p' = p"
      then have "\<forall>b \<in> set us. fst b \<noteq> p'" using vm_ok_keys [OF v(1)] p by fastforce
      then have "held (low lim us) ((s, r) # rs) (p', n', h')" using that y c(1) held_skip [of us y] by simp
      then have "held s rs (p', n', h')" using c(2) by (auto simp: IsFree_def split: if_splits)
      then show False using held_key [OF _ v(2)] p e by fastforce
    qed
    then show ?thesis using held_keep [of lim us s r rs p' n' h' bs] that assms(2) c x y by simp
  qed
  then show ?thesis using vm_ok_carve [of lim us s r rs bs] held_new [of lim us bs p n h rs] assms(2) c v x by simp
qed

lemma held_disjoint:
  assumes "vm_ok lim m" "held lim m (p, n, h)" "held lim m (p', n', h')" "p < p'"
  shows "p + n \<le> p'"
  using assms
proof (induction m arbitrary: lim)
  case (Cons b m)
  obtain s r where b: "b = (s, r)" by (cases b)
  have "p \<noteq> s"
  proof
    assume "p = s"
    then have "p' \<noteq> s" using Cons.prems(4) by simp
    then have "held s m (p', n', h')" using Cons.prems(3) b by simp
    then show False using held_key [of s m p' n' h'] Cons.prems b \<open>p = s\<close> by auto
  qed
  then have ps: "held s m (p, n, h)" using Cons.prems(2) b by simp
  show ?case
  proof (cases "p' = s")
    case True
    then show ?thesis using held_key [OF ps] Cons.prems(1) b by simp
  next
    case False
    then show ?thesis using Cons.IH [of s] Cons.prems ps b by auto
  qed
qed simp

section \<open>The operations carve\<close>

lemma pfn_minus_le: "b \<le> a \<Longrightarrow> a < u64 \<Longrightarrow> pfn_minus a b = a - b"
proof -
  assume *: "b \<le> a" "a < u64"
  then have "a + u64 - b mod u64 = (a - b) + u64" by simp
  then show ?thesis unfolding pfn_minus_def using * by (metis less_imp_diff_less mod_add_self2 mod_less)
qed

lemma pfn_plus_less: "a + b < u64 \<Longrightarrow> pfn_plus a b = a + b"
  by (simp add: pfn_plus_def)

lemma find_split: "List.find P m = Some x \<Longrightarrow> \<exists>us rs. m = us @ x # rs \<and> P x \<and> (\<forall>u \<in> set us. \<not> P u)"
proof (induction m)
  case (Cons a m)
  show ?case
  proof (cases "P a")
    case True
    then have "a # m = [] @ x # m \<and> P x \<and> (\<forall>u \<in> set []. \<not> P u)" using Cons.prems by simp
    then show ?thesis by blast
  next
    case False
    then obtain us rs where "m = us @ x # rs" "P x" "\<forall>u \<in> set us. \<not> P u" using Cons by auto
    then have "a # m = (a # us) @ x # rs \<and> P x \<and> (\<forall>u \<in> set (a # us). \<not> P u)" using False by simp
    then show ?thesis by blast
  qed
qed simp

lemma vm_ok_at:
  assumes "vm_ok lim (us @ (s, r) # rs)"
  shows "vm_ok lim us" "s < low lim us" "s < r_end r" "IsFree r \<Longrightarrow> r_end r \<le> low lim us" "low lim us \<le> lim" "vm_ok s rs"
  using assms low_le [of lim us] by (auto simp: vm_ok_append)

lemma low_Cons [simp]: "low lim (x # xs) = low (fst x) xs"
  by (simp add: low_def)

lemma low_Nil [simp]: "low lim [] = lim"
  by (simp add: low_def)

text \<open>Claiming the upper part of a free region.\<close>

lemma emplace_claim:
  assumes "vm_ok lim (us @ (s, r) # rs)" "s < p" "p < low lim us"
  shows "emplace p v (update_region s f (us @ (s, r) # rs)) = (True, us @ (p, v) # (s, f r) # rs)"
    "update_region p g (us @ (p, v) # (s, r') # rs) = us @ (p, g v) # (s, r') # rs"
proof -
  note v = vm_ok_at [OF assms(1)]
  show "emplace p v (update_region s f (us @ (s, r) # rs)) = (True, us @ (p, v) # (s, f r) # rs)"
    using update_region_at [OF assms(1), of f] emplace_at [OF v(1) assms(2,3)] by simp
  show "update_region p g (us @ (p, v) # (s, r') # rs) = us @ (p, g v) # (s, r') # rs"
    using v(1) assms(3)
  proof (induction us arbitrary: lim)
    case (Cons x us)
    then have "p < low (fst x) us" "low (fst x) us \<le> fst x" "vm_ok (fst x) us" by (cases x, auto simp: low_le)+
    then show ?case using Cons.IH [of "fst x"] by (cases x) auto
  qed simp
qed

lemma carvesI:
  assumes "IsFree r" "vm_ok (low lim us) bs" "bs \<noteq> []" "fst (last bs) = s" "held (low lim us) bs x"
  shows "carves lim (us @ (s, r) # rs) x (us @ bs @ rs)"
  using assms unfolding carves_def by blast

lemma region_simps [simp]:
  "r_end (claim_region h r) = r_end r" "r_handler (claim_region h r) = h" "r_allocated (claim_region h r)"
  "IsFree (claim_region h r) = False" "r_end (Region e) = e" "IsFree (Region e)" "IsFree (r\<lparr>r_end := e\<rparr>) = IsFree r"
  by (simp_all add: claim_region_def Region_def IsFree_def)

lemma VAlloc_carves:
  assumes "vm_ok lim m" "lim < u64" "0 < n"
  shows "VAlloc n h m = Inl (KAbort ''unable to allocate virtual pages'') \<or>
    (\<exists>p m'. VAlloc n h m = Inr (p, m') \<and> carves lim m (p, n, h) m')"
proof (cases "List.find (\<lambda>(begin, r). IsFree r \<and> n \<le> pfn_minus (r_end r) begin) m")
  case (Some x)
  obtain s r where x: "x = (s, r)" by (cases x)
  obtain us rs where m: "m = us @ (s, r) # rs" and f: "IsFree r" "n \<le> pfn_minus (r_end r) s"
    using find_split [OF Some] x by auto
  note v = vm_ok_at [OF assms(1) [unfolded m]]
  have e: "r_end r < u64" using v(4,5) f(1) assms(2) by linarith
  have n: "n \<le> r_end r - s" using f(2) pfn_minus_le [of s "r_end r"] v(3) e by simp
  define p where "p = r_end r - n"
  have p: "pfn_minus (r_end r) n = p" "pfn_plus p n = r_end r" "s \<le> p" "p < r_end r" "p + n = r_end r"
    using pfn_minus_le [of n "r_end r"] pfn_plus_less [of p n] n e assms(3) v(3) by (simp_all add: p_def)
  show ?thesis
  proof (cases "p = s")
    case True
    have "VAlloc n h m = Inr (p, us @ [(s, claim_region h r)] @ rs)"
      using Some x p(1) True update_region_at [OF assms(1) [unfolded m]] m by (simp add: VAlloc_def)
    moreover have "carves lim m (p, n, h) (us @ [(s, claim_region h r)] @ rs)" unfolding m
      by (rule carvesI) (use f v p True in auto)
    ultimately show ?thesis by blast
  next
    case False
    then have sp: "s < p" "p < low lim us" using p v(4) f(1) by auto
    note em = emplace_claim [OF assms(1) [unfolded m] sp]
    have "VAlloc n h m = Inr (p, us @ [(p, claim_region h (Region (r_end r))), (s, r\<lparr>r_end := p\<rparr>)] @ rs)"
      using Some x p(1,2) False em m by (simp add: VAlloc_def)
    moreover have "carves lim m (p, n, h) (us @ [(p, claim_region h (Region (r_end r))), (s, r\<lparr>r_end := p\<rparr>)] @ rs)" unfolding m
      by (rule carvesI) (use f v p sp in auto)
    ultimately show ?thesis by blast
  qed
qed (simp add: VAlloc_def)

lemma align_pfn_le: "v < u64 \<Longrightarrow> align_pfn v a \<le> v"
proof -
  assume v: "v < u64"
  have "align_Down (of_nat v :: 64 word) (of_nat a) \<le> of_nat v" by (simp add: align_Down_def word_and_le2)
  then show ?thesis using v by (simp add: align_pfn_def word_le_nat_alt unat_of_nat)
qed

lemma align_pfn_dvd: "2 ^ k dvd align_pfn v (2 ^ k)"
  using unat_align_Down [of "of_nat v :: 64 word" k] by (simp add: align_pfn_def)

lemma VAllocAligned_carves:
  assumes "vm_ok lim m" "lim < u64" "0 < n"
  shows "VAllocAligned n a h m = Inl (KAbort ''unable to allocate virtual pages'') \<or>
    (\<exists>p m' e. VAllocAligned n a h m = Inr (p, m') \<and> carves lim m (p, n, h) m' \<and> p = align_pfn e a)"
proof (cases "List.find (\<lambda>(begin, r). IsFree r \<and> n \<le> pfn_minus (r_end r) begin \<and>
        begin \<le> align_pfn (pfn_minus (r_end r) n) a) m")
  case (Some x)
  obtain s r where x: "x = (s, r)" by (cases x)
  define p where "p = align_pfn (pfn_minus (r_end r) n) a"
  obtain us rs where m: "m = us @ (s, r) # rs" and f: "IsFree r" "n \<le> pfn_minus (r_end r) s" "s \<le> p"
    using find_split [OF Some] x by (auto simp: p_def)
  note v = vm_ok_at [OF assms(1) [unfolded m]]
  have e: "r_end r < u64" using v(4,5) f(1) assms(2) by linarith
  have n: "n \<le> r_end r - s" using f(2) pfn_minus_le [of s "r_end r"] v(3) e by simp
  have "n \<le> r_end r" "r_end r - n < u64" using n e by linarith+
  then have p: "p + n \<le> r_end r"
    using align_pfn_le [of "r_end r - n" a] pfn_minus_le [of n "r_end r"] e unfolding p_def by simp
  have q: "pfn_plus p n = p + n" "pfn_minus (pfn_minus (r_end r) p) n = r_end r - p - n"
    using p e pfn_plus_less [of p n] pfn_minus_le [of p "r_end r"] pfn_minus_le [of n "r_end r - p"] by simp_all
  have R: "VAllocAligned n a h m = bindr
      (if p = s then Inr (update_region s (claim_region h) m)
       else let (ok, m') = emplace p (Region (pfn_plus p n)) (update_region s (\<lambda>r. r\<lparr>r_end := p\<rparr>) m) in
         if \<not> ok then Inl (KAssert ''p.second'') else Inr (update_region p (claim_region h) m'))
      (\<lambda>m'. Inr (p, if 0 < pfn_minus (pfn_minus (r_end r) p) n then snd (emplace (pfn_plus p n) (Region (r_end r)) m') else m'))"
    unfolding VAllocAligned_def Let_def p_def using Some x by simp
  let ?top = "if p + n < r_end r then [(p + n, Region (r_end r))] else []"
  let ?bs = "if p = s then [(s, claim_region h r)] else [(p, claim_region h (Region (p + n))), (s, r\<lparr>r_end := p\<rparr>)]"
  have low: "r_end r \<le> low lim us" "p < low lim us" using v(4) f(1) p assms(3) by auto
  have up: "update_region s (claim_region h) m = us @ (s, claim_region h r) # rs"
    using update_region_at [OF assms(1) [unfolded m]] m by simp
  have base: "(if p = s then Inr (update_region s (claim_region h) m)
      else let (ok, m') = emplace p (Region (pfn_plus p n)) (update_region s (\<lambda>r. r\<lparr>r_end := p\<rparr>) m) in
        if \<not> ok then Inl (KAssert ''p.second'') else Inr (update_region p (claim_region h) m')) = (Inr (us @ ?bs @ rs) :: 'a regions result)"
    using up emplace_claim [OF assms(1) [unfolded m], of p] low(2) f(3) q(1) m by auto
  have ex: "snd (emplace (p + n) (Region (r_end r)) (us @ ?bs @ rs)) = us @ (p + n, Region (r_end r)) # ?bs @ rs" if "p + n < r_end r"
    using that emplace_at [OF v(1), of _ "p + n" "Region (r_end r)"] low assms(3) by auto
  have r: "VAllocAligned n a h m = Inr (p, us @ (?top @ ?bs) @ rs)"
    unfolding R base using ex q p by auto
  have "carves lim m (p, n, h) (us @ (?top @ ?bs) @ rs)" unfolding m
    by (rule carvesI) (use f v p low assms(3) in auto)
  then show ?thesis using r unfolding p_def by blast
qed (simp add: VAllocAligned_def)

lemma range_end:
  assumes "a < u64" "n < 2 ^ 52" "0 < n" "a < pfn_minus (pfn_plus a (kPageSize * n mod u64)) 1"
    "pfn_minus (pfn_plus a (kPageSize * n mod u64)) 1 \<le> kVMemRangeEnd"
  shows "pfn_minus (pfn_plus a (kPageSize * n mod u64)) 1 = a + 4096 * n - 1 \<and> a + 4096 * n \<le> Suc kVMemRangeEnd"
proof -
  have k: "kPageSize * n mod u64 = 4096 * n" "4096 * n < u64" using assms(2) by (simp_all add: kPageSize_def kPageShift_def)
  have w: "pfn_plus a (4096 * n) = (if a + 4096 * n < u64 then a + 4096 * n else a + 4096 * n - u64)"
    using assms(1) k(2) by (simp add: pfn_plus_def mod_if)
  show ?thesis
  proof (cases "a + 4096 * n < u64")
    case True
    then have "pfn_minus (pfn_plus a (kPageSize * n mod u64)) 1 = a + 4096 * n - 1"
      using w k(1) pfn_minus_le [of 1 "a + 4096 * n"] assms(3) by simp
    then show ?thesis using assms(5) by simp
  next
    case False
    have big: "pfn_minus 0 1 = u64 - 1" by (simp add: pfn_minus_def)
    define b where "b = a + 4096 * n - u64"
    have b: "pfn_plus a (kPageSize * n mod u64) = b" "b < a" "b < u64" using w False k assms(1) by (simp_all add: b_def)
    then have "pfn_minus b 1 = (if b = 0 then u64 - 1 else b - 1)" using big pfn_minus_le [of 1 b] by auto
    then have False using assms(4,5) b by (auto simp: kVMemRangeEnd_def kVMemStart_def split: if_splits)
    then show ?thesis by simp
  qed
qed

lemma page_aligned: "a AND (kPageSize - 1) = 0 \<Longrightarrow> a = 4096 * drop_bit kPageShift a" for a :: nat
proof -
  assume "a AND (kPageSize - 1) = 0"
  moreover have "kPageSize - 1 = mask 12" by (simp add: kPageSize_def kPageShift_def mask_eq_exp_minus_1)
  ultimately have "take_bit 12 a = 0" by (simp add: take_bit_eq_mask)
  then have "a mod 4096 = 0" by (simp add: take_bit_eq_mod)
  then show ?thesis using mult_div_mod_eq [of 4096 a] by (simp add: kPageShift_def drop_bit_eq_div)
qed

lemma VAllocRange_carves:
  assumes "vm_ok lim m" "lim < 2 ^ 52" "a < u64" "n < 2 ^ 52"
  shows "VAllocRange n a h m = Inr (Pfn_None, m) \<or>
    (\<exists>m'. VAllocRange n a h m = Inr (a div 4096, m') \<and> carves lim m (a div 4096, n, h) m' \<and> a = 4096 * (a div 4096))"
proof -
  let ?e = "pfn_minus (pfn_plus a (kPageSize * n mod u64)) 1"
  let ?P = "\<lambda>(begin, r). \<not> ToAddr begin > ?e \<and> ToAddr begin \<le> a \<and> ToAddr (r_end r) \<ge> ?e"
  show ?thesis
  proof (cases "n = 0 \<or> a = 0 \<or> h = None \<or> a < kVMemRangeStart \<or> ?e > kVMemRangeEnd \<or> a \<ge> ?e \<or> a AND (kPageSize - 1) \<noteq> 0 \<or>
      List.find ?P m = None")
    case True
    then show ?thesis unfolding VAllocRange_def Let_def by (auto split: option.splits)
  next
    case False
    then obtain s r where F: "List.find ?P m = Some (s, r)" by fastforce
    obtain us rs where m: "m = us @ (s, r) # rs" and c: "ToAddr s \<le> a" "ToAddr (r_end r) \<ge> ?e"
      using find_split [OF F] by auto
    have n0: "0 < n" using False by simp
    have e: "?e = a + 4096 * n - 1" using range_end [OF assms(3,4) n0] False by auto
    define p where "p = a div 4096"
    have ap: "a = 4096 * p" "drop_bit kPageShift a = p" "Pfn_Down a = p"
      using page_aligned [of a] False by (simp_all add: p_def kPageShift_def drop_bit_eq_div Pfn_Down_def)
    note v = vm_ok_at [OF assms(1) [unfolded m]]
    have R: "VAllocRange n a h m = (if \<not> IsFree r then Inr (Pfn_None, m) else
        let vmem_end_vfn = pfn_plus (pfn_plus p n) 1 in
        bindr
          (if ToAddr s = a
           then Inr (update_region s (\<lambda>r. claim_region h (r\<lparr>r_end := vmem_end_vfn\<rparr>)) m)
           else if \<not> ToAddr s < a then Inl (KAssert ''begin.ToAddr() < vmem_start'')
           else let (ok, m') = emplace p (Region vmem_end_vfn) (update_region s (\<lambda>r. r\<lparr>r_end := p\<rparr>) m) in
             if \<not> ok then Inl (KAssert ''p.second'') else Inr (update_region p (claim_region h) m'))
          (\<lambda>m'. Inr (p, if vmem_end_vfn < r_end r then snd (emplace vmem_end_vfn (Region (r_end r)) m') else m')))"
      unfolding VAllocRange_def Let_def ap(2,3) using False F by (simp del: not_None_eq)
    show ?thesis
    proof (cases "IsFree r")
      case True
      have sz: "s < 2 ^ 52" "r_end r < 2 ^ 52" using v(2,4,5) True assms(2) by linarith+
      have sp: "s \<le> p" "p + n \<le> r_end r" "(ToAddr s = a) = (p = s)" "\<not> ToAddr s < a \<longleftrightarrow> p \<le> s"
        using c e ap(1) sz n0 by (auto simp: ToAddr_val)
      have q: "pfn_plus (pfn_plus p n) 1 = p + n + 1" using sp(2) sz(2) by (simp add: pfn_plus_def)
      let ?top = "if p + n + 1 < r_end r then [(p + n + 1, Region (r_end r))] else []"
      let ?bs = "if p = s then [(s, claim_region h (r\<lparr>r_end := p + n + 1\<rparr>))] else [(p, claim_region h (Region (p + n + 1))), (s, r\<lparr>r_end := p\<rparr>)]"
      have low: "r_end r \<le> low lim us" "p < low lim us" using v(4) True sp(2) n0 by auto
      have up: "update_region s f m = us @ (s, f r) # rs" for f
        using update_region_at [OF assms(1) [unfolded m]] m by simp
      have base: "(if p = s then Inr (update_region s (\<lambda>r. claim_region h (r\<lparr>r_end := p + n + 1\<rparr>)) m)
          else let (ok, m') = emplace p (Region (p + n + 1)) (update_region s (\<lambda>r. r\<lparr>r_end := p\<rparr>) m) in
            if \<not> ok then Inl (KAssert ''p.second'') else Inr (update_region p (claim_region h) m')) = (Inr (us @ ?bs @ rs) :: 'a regions result)"
        using up emplace_claim [OF assms(1) [unfolded m], of p] low(2) sp(1) m by auto
      have ex: "snd (emplace (p + n + 1) (Region (r_end r)) (us @ ?bs @ rs)) = us @ (p + n + 1, Region (r_end r)) # ?bs @ rs" if "p + n + 1 < r_end r"
        using that emplace_at [OF v(1), of _ "p + n + 1" "Region (r_end r)"] low by auto
      have "VAllocRange n a h m = Inr (p, us @ (?top @ ?bs) @ rs)"
        unfolding R q Let_def sp(3) using True base ex sp by auto
      moreover have "carves lim m (p, n, h) (us @ (?top @ ?bs) @ rs)" unfolding m
        by (rule carvesI) (use True v sp low n0 in auto)
      ultimately show ?thesis using ap(1) unfolding p_def by auto
    qed (simp add: R)
  qed
qed

section \<open>Histories\<close>

datatype 'h vm_req = RAlloc nat "'h option" | RAligned nat nat "'h option" | RRange nat nat "'h option"

fun vm_legal :: "'h vm_req \<Rightarrow> bool" where
  "vm_legal (RAlloc n h) \<longleftrightarrow> 0 < n"
| "vm_legal (RAligned n a h) \<longleftrightarrow> 0 < n"
| "vm_legal (RRange n a h) \<longleftrightarrow> n < 2 ^ 52 \<and> a < u64"

fun vm_request :: "'h vm_req \<Rightarrow> 'h regions \<Rightarrow> (pfn \<times> 'h regions) result" where
  "vm_request (RAlloc n h) m = VAlloc n h m"
| "vm_request (RAligned n a h) m = VAllocAligned n a h m"
| "vm_request (RRange n a h) m = VAllocRange n a h m"

fun vm_pages :: "'h vm_req \<Rightarrow> nat \<times> 'h option" where
  "vm_pages (RAlloc n h) = (n, h)"
| "vm_pages (RAligned n a h) = (n, h)"
| "vm_pages (RRange n a h) = (n, h)"

text \<open>A history, with the ranges handed out kept beside it.\<close>

fun vm_serve :: "'h vm_req list \<Rightarrow> 'h regions \<Rightarrow> (pfn \<times> nat \<times> 'h option) list \<Rightarrow>
    ('h regions \<times> (pfn \<times> nat \<times> 'h option) list) result" where
  "vm_serve [] m L = Inr (m, L)"
| "vm_serve (q # qs) m L =
    bindr (vm_request q m) (\<lambda>(p, m'). vm_serve qs m' (if p = Pfn_None then L else (p, vm_pages q) # L))"

definition vm_lim :: pfn where "vm_lim = Pfn_Down kVMemRangeEnd"

definition vm_start :: pfn where "vm_start = Pfn_Up kVMemRangeStart"

definition vm_inv :: "'h regions \<Rightarrow> (pfn \<times> nat \<times> 'h option) list \<Rightarrow> bool" where
  "vm_inv m L \<longleftrightarrow> vm_ok vm_lim m \<and> low vm_lim m = vm_start \<and> (\<forall>x \<in> set L. held vm_lim m x) \<and> distinct (map fst L)"

lemma vm_lim_val: "vm_lim = 0xFFFFFFFF00000" "vm_start = 0xFFFF800000000"
  by (simp_all add: vm_lim_def vm_start_def Pfn_Down_def Pfn_Up_def kVMemRangeEnd_def kVMemStart_def kVMemRangeStart_def
      kPageShift_def kPageSize_def drop_bit_eq_div)

lemma vm_inv_new: "vm_inv vm_new []"
  unfolding vm_inv_def vm_new_def vm_lim_def [symmetric] vm_start_def [symmetric] by (simp add: vm_lim_val)

lemma vm_inv_carve:
  assumes "vm_inv m L" "carves vm_lim m x m'"
  shows "vm_inv m' (x # L)"
proof -
  have "low vm_lim m' = low vm_lim m" using assms(2)
    unfolding carves_def by (elim exE conjE) (simp add: low_append, simp add: low_def)
  moreover have "vm_ok vm_lim m' \<and> held vm_lim m' x \<and> (\<forall>y. held vm_lim m y \<longrightarrow> held vm_lim m' y \<and> fst y \<noteq> fst x)"
    using carves_ok [OF assms(2)] assms(1) by (simp add: vm_inv_def)
  ultimately show ?thesis using assms(1) by (fastforce simp: vm_inv_def)
qed

lemma vm_request_ok:
  assumes "vm_inv m L" "vm_legal q"
  shows "vm_request q m = Inl (KAbort ''unable to allocate virtual pages'') \<or>
    (\<exists>p m'. vm_request q m = Inr (p, m') \<and> vm_inv m' (if p = Pfn_None then L else (p, vm_pages q) # L))"
proof -
  have v: "vm_ok vm_lim m" and l: "vm_lim < 2 ^ 52" "vm_lim < u64" using assms(1) by (simp_all add: vm_inv_def vm_lim_val)
  have np: "p \<noteq> Pfn_None" if "carves vm_lim m (p, n, h) m'" for p n h m'
  proof -
    have "p < vm_lim" using vm_inv_carve [OF assms(1) that] held_key by (fastforce simp: vm_inv_def)
    then show ?thesis by (simp add: Pfn_None_def vm_lim_val)
  qed
  show ?thesis
  proof (cases q)
    case (RAlloc n h)
    then show ?thesis using VAlloc_carves [OF v l(2), of n h] assms np vm_inv_carve by fastforce
  next
    case (RAligned n a h)
    then show ?thesis using VAllocAligned_carves [OF v l(2), of n a h] assms np vm_inv_carve by fastforce
  next
    case (RRange n a h)
    then show ?thesis using VAllocRange_carves [OF v l(1), of a n h] assms np vm_inv_carve by fastforce
  qed
qed

lemma vm_serve_ok:
  "vm_inv m L \<Longrightarrow> list_all vm_legal qs \<Longrightarrow> vm_serve qs m L = Inl (KAbort ''unable to allocate virtual pages'') \<or>
    (\<exists>m' L'. vm_serve qs m L = Inr (m', L') \<and> vm_inv m' L')"
proof (induction qs arbitrary: m L)
  case (Cons q qs)
  then show ?case using vm_request_ok [OF Cons.prems(1), of q] by fastforce
qed simp

lemma held_find:
  "held lim m (p, n, h) \<Longrightarrow> vm_ok lim m \<Longrightarrow> p \<le> a \<Longrightarrow> a < p + n \<Longrightarrow>
    \<exists>r. List.find (\<lambda>(begin, r). begin \<le> a) m = Some (p, r) \<and> r_allocated r \<and> r_handler r = h \<and> p + n \<le> r_end r"
proof (induction m arbitrary: lim)
  case (Cons b m)
  obtain s r where b: "b = (s, r)" by (cases b)
  show ?case
  proof (cases "s = p")
    case True
    then show ?thesis using Cons.prems b by auto
  next
    case False
    then have h: "held s m (p, n, h)" "vm_ok s m" using Cons.prems(1,2) b by auto
    then have "p + n \<le> s" using held_key by blast
    then show ?thesis using Cons.IH [OF h] Cons.prems(3,4) b by auto
  qed
qed simp

lemma held_fault:
  assumes "held vm_lim m (p, n, h)" "vm_ok vm_lim m" "4096 * p \<le> addr" "addr < 4096 * (p + n)"
  shows "HandlePageFault addr m =
    (case h of None \<Rightarrow> Inl (Undefined ''page_fault_handler_->HandleFault'') | Some f \<Rightarrow> Inr (Some f))"
proof -
  have pn: "p + n \<le> vm_lim" using held_key [OF assms(1,2)] by simp
  then have "p + n \<le> 0xFFFFFFFF00000" unfolding vm_lim_val .
  then have k: "\<not> addr \<ge> kVMemStart" "addr + 4096 \<le> u64" using assms(4) by (simp_all add: kVMemStart_def)
  have d: "Pfn_Down addr = addr div 4096" by (simp add: Pfn_Down_def kPageShift_def drop_bit_eq_div)
  then have pd: "p \<le> Pfn_Down addr" "Pfn_Down addr < p + n" using assms(3,4) by auto
  have "Pfn_Up addr \<le> addr div 4096 + 1"
    using k(2) by (auto simp: Pfn_Up_def kPageShift_def kPageSize_def drop_bit_eq_div)
  then have u: "Pfn_Up addr \<le> p + n" using pd(2) d by simp
  obtain r where r: "List.find (\<lambda>(begin, r). begin \<le> Pfn_Down addr) m = Some (p, r)" "r_allocated r" "r_handler r = h" "p + n \<le> r_end r"
    using held_find [OF assms(1,2) pd] by blast
  then show ?thesis using k(1) u by (cases h) (auto simp: HandlePageFault_def Region_HandleFault_def IsFree_def)
qed

text \<open>C11: Along every history of requests for virtual pages, by size, by size and alignment, or at a fixed
  address, no assertion fails: either the address space runs out, or the ranges handed out lie in the
  virtual range, are disjoint, and a fault at any address of a range goes to the handler given with it.\<close>

theorem vm_histories:
  assumes "list_all vm_legal qs"
  shows "vm_serve qs vm_new [] = Inl (KAbort ''unable to allocate virtual pages'') \<or>
    (\<exists>m L. vm_serve qs vm_new [] = Inr (m, L) \<and> distinct (map fst L) \<and>
      (\<forall>(p, n, h) \<in> set L. vm_start \<le> p \<and> p + n \<le> vm_lim \<and>
        (\<forall>(p', n', h') \<in> set L. p < p' \<longrightarrow> p + n \<le> p') \<and>
        (\<forall>addr. 4096 * p \<le> addr \<and> addr < 4096 * (p + n) \<longrightarrow>
          HandlePageFault addr m = (case h of None \<Rightarrow> Inl (Undefined ''page_fault_handler_->HandleFault'') | Some f \<Rightarrow> Inr (Some f)))))"
  using vm_serve_ok [OF vm_inv_new assms]
proof (elim disjE exE conjE)
  fix m L assume s: "vm_serve qs vm_new [] = Inr (m, L)" and i: "vm_inv m L"
  have v: "vm_ok vm_lim m" "low vm_lim m = vm_start" "distinct (map fst L)" using i by (simp_all add: vm_inv_def)
  have h: "held vm_lim m x" if "x \<in> set L" for x using i that by (simp add: vm_inv_def)
  have "vm_start \<le> p \<and> p + n \<le> vm_lim" if "(p, n, h) \<in> set L" for p n h
    using held_key [OF h [OF that] v(1)] vm_ok_keys [OF v(1)] v(2) by fastforce
  moreover have "p + n \<le> p'" if "(p, n, h) \<in> set L" "(p', n', h') \<in> set L" "p < p'" for p n h p' n' h'
    using held_disjoint [OF v(1) h [OF that(1)] h [OF that(2)] that(3)] .
  ultimately show ?thesis using s v(3) held_fault [OF h v(1)] by (intro disjI2 exI [of _ m] exI [of _ L]) fastforce
qed simp

lemmas vm_eval = Region_def IsFree_def claim_region_def kVMemRangeEnd_def kVMemRangeStart_def kVMemStart_def Pfn_Up_def
  Pfn_Down_def ToAddr_def pfn_minus_def pfn_plus_def Pfn_None_def kPageShift_def kPageSize_def drop_bit_eq_div push_bit_eq_mult

definition vm_demo1 :: "bool regions" where
  "vm_demo1 = [(0xFFFFFFFEFFFFC, \<lparr>r_end = 0xFFFFFFFF00000, r_handler = Some True, r_allocated = True\<rparr>),
    (0xFFFF800000000, \<lparr>r_end = 0xFFFFFFFEFFFFC, r_handler = None, r_allocated = False\<rparr>)]"

definition vm_demo2 :: "bool regions" where
  "vm_demo2 = [(0xFFFFFFFEFFFFC, \<lparr>r_end = 0xFFFFFFFF00000, r_handler = Some True, r_allocated = True\<rparr>),
    (0xFFFF900000003, \<lparr>r_end = 0xFFFFFFFEFFFFC, r_handler = None, r_allocated = False\<rparr>),
    (0xFFFF900000000, \<lparr>r_end = 0xFFFF900000003, r_handler = Some False, r_allocated = True\<rparr>),
    (0xFFFF800000000, \<lparr>r_end = 0xFFFF900000000, r_handler = None, r_allocated = False\<rparr>)]"

lemma vm_demo1_run: "VAlloc 4 (Some True) vm_new = Inr (0xFFFFFFFEFFFFC, vm_demo1)"
  by (simp add: VAlloc_def vm_new_def vm_demo1_def vm_eval)

lemma vm_demo2_run: "VAllocRange 2 0xFFFF900000000000 (Some False) vm_demo1 = Inr (0xFFFF900000000, vm_demo2)"
  by (simp add: VAllocRange_def vm_demo1_def vm_demo2_def vm_eval Let_def)

theorem vm_histories_witness:
  "vm_serve [RAlloc 4 (Some True), RRange 2 0xFFFF900000000000 (Some False)] vm_new [] =
      Inr (vm_demo2, [(0xFFFF900000000, 2, Some False), (0xFFFFFFFEFFFFC, 4, Some True)]) \<and>
    HandlePageFault 0xFFFF900000001FFF vm_demo2 = Inr (Some False)"
proof -
  let ?qs = "[RAlloc 4 (Some True), RRange 2 0xFFFF900000000000 (Some False)] :: bool vm_req list"
  let ?L = "[(0xFFFF900000000, 2, Some False), (0xFFFFFFFEFFFFC, 4, Some True)] :: (pfn \<times> nat \<times> bool option) list"
  have s: "vm_serve ?qs vm_new [] = Inr (vm_demo2, ?L)" by (simp add: vm_demo1_run vm_demo2_run Pfn_None_def)
  have l: "list_all vm_legal ?qs" by simp
  show ?thesis
    using vm_histories [OF l]
  proof (elim disjE exE conjE)
    fix m L
    assume a: "vm_serve ?qs vm_new [] = Inr (m, L)"
      and f: "\<forall>(p, n, h) \<in> set L. vm_start \<le> p \<and> p + n \<le> vm_lim \<and>
        (\<forall>(p', n', h') \<in> set L. p < p' \<longrightarrow> p + n \<le> p') \<and>
        (\<forall>addr. 4096 * p \<le> addr \<and> addr < 4096 * (p + n) \<longrightarrow> HandlePageFault addr m =
          (case h of None \<Rightarrow> Inl (Undefined ''page_fault_handler_->HandleFault'') | Some f \<Rightarrow> Inr (Some f)))"
    have e: "m = vm_demo2" "L = ?L" using a unfolding s by simp_all
    have "(0xFFFF900000000, 2, Some False) \<in> set L" unfolding e by simp
    from bspec [OF f this, unfolded prod.case] have "HandlePageFault 0xFFFF900000001FFF m = Inr (Some False)"
      by (elim conjE allE [of _ "0xFFFF900000001FFF"]) simp
    then show ?thesis using s unfolding e by blast
  qed (use s in simp)
qed

end
