(* ===== verification/EventManager.thy ===== *)
theory EventManager
  imports GracePeriod VMemRegions "HOL-Library.Multiset"
begin

text \<open>
  The event manager (\<open>src/src/native/EventManager.cc\<close>, \<open>EventManager.h\<close>): one representative per
  processor runs events to completion on stacks of its own, with synchronous and asynchronous spawns,
  contexts that block and are activated again, tasks from other processors, interrupts, and the token
  that drives read-copy-update.

  A processor runs the event loop \<open>Process\<close> or an event.  What the code keeps on a stack is the
  \<open>frame\<close> of the context: the call of \<open>InvokeFunction\<close> with its local \<open>generation\<close>, whether it was
  called by \<open>CallSync\<close>, and the local queue of \<open>Fire\<close>.  The saved registers stand for the frame and
  are not modelled.  \<open>f_start\<close>, \<open>clk\<close> and the times beside the functions registered by \<open>DoRcu\<close>
  are history variables: they tell events and registrations apart and no operation depends on them.
\<close>

section \<open>State\<close>

record frame =
  f_fn :: nat
  f_sync :: bool
  f_gen :: nat
  f_start :: nat
  f_todo :: "(nat \<times> nat) list"

record event_context =
  x_event_id :: nat
  x_stack :: pfn
  x_cpu :: nat
  x_generation :: nat
  x_frame :: "frame option"

text \<open>A queued function: one given to a spawn, or the closure of \<open>ActivateContext\<close>.\<close>

datatype task = Fn nat | Activate event_context

record em =
  free_stacks :: "pfn list"
  tasks :: "task list"
  next_event_id :: nat
  active :: event_context
  sync_contexts :: "event_context list"
  idle_callback :: "nat option"
  generation :: nat
  generation_count :: "nat \<Rightarrow> nat"
  pending_generation :: nat
  prev_rcu_tasks :: "(nat \<times> nat) list"
  curr_rcu_tasks :: "(nat \<times> nat) list"
  remote_tasks :: "task list"
  timer_started :: bool

text \<open>The machine: the representatives, the virtual memory the stacks come from, the interrupt
  handlers, the interprocessor interrupts under way, and the contexts that blocked events have saved.\<close>

record machine =
  reps :: "nat \<Rightarrow> em"
  vmem :: "unit regions"
  vec_idx :: nat
  vec_map :: "(nat \<times> nat) list"
  ipis :: "(nat \<times> nat) set"
  saved :: "event_context list"
  clk :: nat

definition upd :: "nat \<Rightarrow> (em \<Rightarrow> em) \<Rightarrow> machine \<Rightarrow> machine" where
  "upd c f s = s\<lparr>reps := (reps s)(c := f (reps s c))\<rparr>"

section \<open>Stacks and calls\<close>

definition kStackPages :: nat where "kStackPages = 2048"

definition AllocateStack :: "nat \<Rightarrow> machine \<Rightarrow> (pfn \<times> machine) result" where
  "AllocateStack c s = (case free_stacks (reps s c) of
     st # fs \<Rightarrow> Inr (st, upd c (\<lambda>e. e\<lparr>free_stacks := fs\<rparr>) s)
   | [] \<Rightarrow> bindr (VAlloc kStackPages (Some ()) (vmem s)) (\<lambda>(st, m). Inr (st, s\<lparr>vmem := m\<rparr>)))"

definition FreeStack :: "nat \<Rightarrow> pfn \<Rightarrow> machine \<Rightarrow> machine" where
  "FreeStack c st s = upd c (\<lambda>e. e\<lparr>free_stacks := st # free_stacks e\<rparr>) s"

definition new_context :: "nat \<Rightarrow> pfn \<Rightarrow> nat \<Rightarrow> event_context" where
  "new_context event_id st c = \<lparr>x_event_id = event_id, x_stack = st, x_cpu = c, x_generation = 0, x_frame = None\<rparr>"

definition fresh_context :: "nat \<Rightarrow> pfn \<Rightarrow> machine \<Rightarrow> machine" where
  "fresh_context c st s = upd c (\<lambda>e. e\<lparr>active := new_context (next_event_id e) st c, next_event_id := (next_event_id e + 1) mod u32\<rparr>) s"

text \<open>\<open>InvokeFunction\<close> up to the call of the function, and from its return on.\<close>

definition InvokeFunction :: "nat \<Rightarrow> bool \<Rightarrow> nat \<Rightarrow> machine \<Rightarrow> machine" where
  "InvokeFunction c sync f s =
    (let g = generation (reps s c) in
     (upd c (\<lambda>e. e\<lparr>active := (active e)\<lparr>x_generation := g,
          x_frame := Some \<lparr>f_fn = f, f_sync = sync, f_gen = g, f_start = clk s, f_todo = []\<rparr>\<rparr>,
        generation_count := (generation_count e)(g mod 2 := generation_count e (g mod 2) + 1)\<rparr>) s)\<lparr>clk := clk s + 1\<rparr>)"

definition InvokeFunction_return :: "nat \<Rightarrow> frame \<Rightarrow> machine \<Rightarrow> machine" where
  "InvokeFunction_return c f s = upd c (\<lambda>e. e\<lparr>active := (active e)\<lparr>x_frame := None\<rparr>,
     generation_count := (generation_count e)(f_gen f mod 2 := generation_count e (f_gen f mod 2) - 1)\<rparr>) s"

text \<open>What \<open>CallSync\<close> does after its call: it falls into the event loop, or returns to the context
  that spawned it.\<close>

definition CallSync_return :: "nat \<Rightarrow> machine \<Rightarrow> machine" where
  "CallSync_return c s = (case sync_contexts (reps s c) of
     [] \<Rightarrow> s
   | prev_context # rest \<Rightarrow>
       upd c (\<lambda>e. e\<lparr>active := prev_context, sync_contexts := rest\<rparr>) (FreeStack c (x_stack (active (reps s c))) s))"

text \<open>The running event returns.\<close>

definition event_return :: "nat \<Rightarrow> frame \<Rightarrow> machine \<Rightarrow> machine" where
  "event_return c f s = (let s1 = InvokeFunction_return c f s in if f_sync f then CallSync_return c s1 else s1)"

section \<open>Spawning and blocking\<close>

definition SpawnLocal :: "nat \<Rightarrow> nat \<Rightarrow> bool \<Rightarrow> machine \<Rightarrow> machine result" where
  "SpawnLocal c f force_async s =
    (if force_async then Inr (upd c (\<lambda>e. e\<lparr>tasks := tasks e @ [Fn f]\<rparr>) s)
     else let s1 = upd c (\<lambda>e. e\<lparr>sync_contexts := active e # sync_contexts e\<rparr>) s in
       bindr (AllocateStack c s1) (\<lambda>(st, s2). Inr (InvokeFunction c True f (fresh_context c st s2))))"

definition AddRemoteTask :: "nat \<Rightarrow> task \<Rightarrow> machine \<Rightarrow> machine" where
  "AddRemoteTask d t s = upd d (\<lambda>e. e\<lparr>remote_tasks := remote_tasks e @ [t]\<rparr>) s"

definition SpawnRemote :: "nat \<Rightarrow> task \<Rightarrow> nat \<Rightarrow> machine \<Rightarrow> machine result" where
  "SpawnRemote n t d s =
    (if \<not> d < n then Inl (KAssert ''rep != reps_.end()'')
     else let s1 = AddRemoteTask d t s in Inr (s1\<lparr>ipis := insert (d, 32) (ipis s1)\<rparr>))"

definition SaveContext :: "nat \<Rightarrow> machine \<Rightarrow> machine result" where
  "SaveContext c s =
    (let s1 = s\<lparr>saved := active (reps s c) # saved s\<rparr> in
     case sync_contexts (reps s c) of
       [] \<Rightarrow> bindr (AllocateStack c s1) (\<lambda>(st, s2). Inr (fresh_context c st s2))
     | prev_context # rest \<Rightarrow> Inr (upd c (\<lambda>e. e\<lparr>active := prev_context, sync_contexts := rest\<rparr>) s1))"

definition ActivateContext :: "nat \<Rightarrow> nat \<Rightarrow> event_context \<Rightarrow> machine \<Rightarrow> machine result" where
  "ActivateContext n c x s =
    (let s1 = s\<lparr>saved := remove1 x (saved s)\<rparr> in
     if x_cpu x = c then Inr (upd c (\<lambda>e. e\<lparr>tasks := tasks e @ [Activate x]\<rparr>) s1)
     else SpawnRemote n (Activate x) (x_cpu x) s1)"

definition ActivateContextSync :: "nat \<Rightarrow> event_context \<Rightarrow> machine \<Rightarrow> machine result" where
  "ActivateContextSync c x s =
    (if x_cpu x \<noteq> c then Inl (KAssert ''context.cpu == Cpu::GetMine()'')
     else Inr (upd c (\<lambda>e. e\<lparr>sync_contexts := active e # sync_contexts e, active := x\<rparr>) (s\<lparr>saved := remove1 x (saved s)\<rparr>)))"

section \<open>The event loop and interrupts\<close>

text \<open>The closure of \<open>ActivateContext\<close> frees the stack it runs on and jumps into the context: the call
  of \<open>InvokeFunction\<close> that started it never returns.\<close>

definition run_task :: "nat \<Rightarrow> task \<Rightarrow> machine \<Rightarrow> machine" where
  "run_task c t s = (case t of
     Fn f \<Rightarrow> InvokeFunction c False f s
   | Activate x \<Rightarrow>
       let s1 = InvokeFunction c False 0 s in
       upd c (\<lambda>e. e\<lparr>active := x\<rparr>) (FreeStack c (x_stack (active (reps s1 c))) s1))"

definition Process :: "nat \<Rightarrow> machine \<Rightarrow> machine" where
  "Process c s = (case tasks (reps s c) of
     t # ts \<Rightarrow> run_task c t (upd c (\<lambda>e. e\<lparr>tasks := ts\<rparr>) s)
   | [] \<Rightarrow> (case idle_callback (reps s c) of Some f \<Rightarrow> InvokeFunction c False f s | None \<Rightarrow> s))"

definition AllocateVector :: "nat \<Rightarrow> machine \<Rightarrow> nat \<times> machine" where
  "AllocateVector f s =
    (let vec = vec_idx s in (vec, s\<lparr>vec_idx := (vec + 1) mod 256, vec_map := (vec, f) # vec_map s\<rparr>))"

definition IdleStart :: "nat \<Rightarrow> nat \<Rightarrow> bool \<Rightarrow> machine \<Rightarrow> (bool \<times> machine) result" where
  "IdleStart c f started s =
    (if started then Inr (started, s)
     else if idle_callback (reps s c) \<noteq> None then Inl (KAbort ''Multiple idle callbacks!'')
     else Inr (True, upd c (\<lambda>e. e\<lparr>idle_callback := Some f\<rparr>) s))"

definition IdleStop :: "nat \<Rightarrow> bool \<Rightarrow> machine \<Rightarrow> bool \<times> machine" where
  "IdleStop c started s = (if started then (False, upd c (\<lambda>e. e\<lparr>idle_callback := None\<rparr>) s) else (started, s))"

section \<open>Grace periods\<close>

definition StartTimer :: "nat \<Rightarrow> machine \<Rightarrow> machine" where
  "StartTimer c s = upd c (\<lambda>e. e\<lparr>timer_started := True\<rparr>) s"

definition ReceiveToken :: "nat \<Rightarrow> machine \<Rightarrow> machine" where
  "ReceiveToken c s = StartTimer c (upd c (\<lambda>e. e\<lparr>pending_generation := generation e, generation := (generation e + 1) mod u64\<rparr>) s)"

definition PassToken :: "nat \<Rightarrow> nat \<Rightarrow> machine \<Rightarrow> machine" where
  "PassToken n c s = (if 1 < n then s\<lparr>ipis := insert ((c + 1) mod n, 33) (ipis s)\<rparr> else ReceiveToken c s)"

text \<open>The timer has taken the hook out of its set when it calls \<open>Fire\<close>.  The local queue of the call is
  worked off by \<open>Fire_next\<close>, one synchronous spawn after the other.\<close>

definition em_Fire :: "nat \<Rightarrow> nat \<Rightarrow> machine \<Rightarrow> machine" where
  "em_Fire n c s0 =
    (let s = upd c (\<lambda>e. e\<lparr>timer_started := False\<rparr>) s0 in
     if generation_count (reps s c) (pending_generation (reps s c) mod 2) = 0
     then upd c (\<lambda>e. e\<lparr>active := (active e)\<lparr>x_frame := map_option (\<lambda>f. f\<lparr>f_todo := prev_rcu_tasks e\<rparr>) (x_frame (active e))\<rparr>,
            prev_rcu_tasks := curr_rcu_tasks e, curr_rcu_tasks := []\<rparr>) (PassToken n c s)
     else StartTimer c s)"

definition Fire_next :: "nat \<Rightarrow> machine \<Rightarrow> machine result" where
  "Fire_next c s = (case x_frame (active (reps s c)) of
     Some f \<Rightarrow> (case f_todo f of
        (g, t) # ts \<Rightarrow> SpawnLocal c g False (upd c (\<lambda>e. e\<lparr>active := (active e)\<lparr>x_frame := Some (f\<lparr>f_todo := ts\<rparr>)\<rparr>\<rparr>) s)
      | [] \<Rightarrow> Inr s)
   | None \<Rightarrow> Inr s)"

definition DoRcu :: "nat \<Rightarrow> nat \<Rightarrow> machine \<Rightarrow> machine" where
  "DoRcu c f s = (upd c (\<lambda>e. e\<lparr>curr_rcu_tasks := curr_rcu_tasks e @ [(f, clk s)]\<rparr>) s)\<lparr>clk := clk s + 1\<rparr>"

definition ProcessInterrupt :: "nat \<Rightarrow> nat \<Rightarrow> machine \<Rightarrow> machine result" where
  "ProcessInterrupt c num s =
    (if num = 32 then Inr (upd c (\<lambda>e. e\<lparr>tasks := tasks e @ remote_tasks e, remote_tasks := []\<rparr>) s)
     else if num = 33 then Inr (ReceiveToken c s)
     else case map_of (vec_map s) num of
       None \<Rightarrow> Inl (KAssert ''ih != nullptr'')
     | Some f \<Rightarrow> Inr (InvokeFunction c False f s))"

section \<open>Start and steps\<close>

text \<open>The representatives are constructed one after the other; the first processor then runs the event
  that calls \<open>ReceiveToken\<close> (\<open>Main.cc\<close>).\<close>

definition new_em :: "nat \<Rightarrow> pfn \<Rightarrow> em" where
  "new_em c st = \<lparr>free_stacks = [], tasks = [], next_event_id = (c * 2 ^ 24 + 1) mod u32,
    active = new_context (c * 2 ^ 24 mod u32) st c, sync_contexts = [], idle_callback = None, generation = 0,
    generation_count = \<lambda>_. 0, pending_generation = 0, prev_rcu_tasks = [], curr_rcu_tasks = [], remote_tasks = [],
    timer_started = False\<rparr>"

fun boot :: "nat \<Rightarrow> machine result" where
  "boot 0 = Inr \<lparr>reps = \<lambda>c. new_em c 0, vmem = vm_new, vec_idx = 34, vec_map = [], ipis = {}, saved = [], clk = 0\<rparr>"
| "boot (Suc c) = bindr (boot c) (\<lambda>s. bindr (VAlloc kStackPages (Some ()) (vmem s))
     (\<lambda>(st, m). Inr (upd c (\<lambda>_. new_em c st) (s\<lparr>vmem := m\<rparr>))))"

definition em_init :: "nat \<Rightarrow> machine \<Rightarrow> bool" where
  "em_init n s \<longleftrightarrow> 0 < n \<and> (\<exists>s0. boot n = Inr s0 \<and> s = ReceiveToken 0 (InvokeFunction 0 False 0 s0))"

definition idle :: "nat \<Rightarrow> machine \<Rightarrow> bool" where
  "idle c s \<longleftrightarrow> x_frame (active (reps s c)) = None"

definition running :: "nat \<Rightarrow> machine \<Rightarrow> bool" where
  "running c s \<longleftrightarrow> (\<exists>f. x_frame (active (reps s c)) = Some f \<and> f_todo f = [])"

inductive em_step :: "nat \<Rightarrow> machine \<Rightarrow> machine \<Rightarrow> bool" for n where
  st_process: "c < n \<Longrightarrow> idle c s \<Longrightarrow> em_step n s (Process c s)"
| st_ipi: "c < n \<Longrightarrow> idle c s \<Longrightarrow> (c, v) \<in> ipis s \<Longrightarrow>
    ProcessInterrupt c v (s\<lparr>ipis := ipis s - {(c, v)}\<rparr>) = Inr s' \<Longrightarrow> em_step n s s'"
| st_device: "c < n \<Longrightarrow> idle c s \<Longrightarrow> 34 \<le> v \<Longrightarrow> ProcessInterrupt c v s = Inr s' \<Longrightarrow> em_step n s s'"
| st_return: "c < n \<Longrightarrow> running c s \<Longrightarrow> x_frame (active (reps s c)) = Some f \<Longrightarrow> em_step n s (event_return c f s)"
| st_spawn: "c < n \<Longrightarrow> running c s \<Longrightarrow> SpawnLocal c f a s = Inr s' \<Longrightarrow> em_step n s s'"
| st_remote: "c < n \<Longrightarrow> running c s \<Longrightarrow> SpawnRemote n (Fn f) d s = Inr s' \<Longrightarrow> em_step n s s'"
| st_save: "c < n \<Longrightarrow> running c s \<Longrightarrow> SaveContext c s = Inr s' \<Longrightarrow> em_step n s s'"
| st_activate: "c < n \<Longrightarrow> running c s \<Longrightarrow> x \<in> set (saved s) \<Longrightarrow> ActivateContext n c x s = Inr s' \<Longrightarrow> em_step n s s'"
| st_activate_sync: "c < n \<Longrightarrow> running c s \<Longrightarrow> x \<in> set (saved s) \<Longrightarrow> ActivateContextSync c x s = Inr s' \<Longrightarrow> em_step n s s'"
| st_vector: "c < n \<Longrightarrow> running c s \<Longrightarrow> em_step n s (snd (AllocateVector f s))"
| st_idle_start: "c < n \<Longrightarrow> running c s \<Longrightarrow> IdleStart c f b s = Inr (b', s') \<Longrightarrow> em_step n s s'"
| st_idle_stop: "c < n \<Longrightarrow> running c s \<Longrightarrow> em_step n s (snd (IdleStop c b s))"
| st_rcu: "c < n \<Longrightarrow> running c s \<Longrightarrow> em_step n s (DoRcu c f s)"
| st_fire: "c < n \<Longrightarrow> running c s \<Longrightarrow> timer_started (reps s c) \<Longrightarrow> em_step n s (em_Fire n c s)"
| st_fire_next: "c < n \<Longrightarrow> Fire_next c s = Inr s' \<Longrightarrow> em_step n s s'"


section \<open>Contexts and frames of a processor\<close>

fun acts :: "task list \<Rightarrow> event_context list" where
  "acts [] = []"
| "acts (Fn f # ts) = acts ts"
| "acts (Activate x # ts) = x # acts ts"

lemma acts_append [simp]: "acts (xs @ ys) = acts xs @ acts ys"
  by (induction xs rule: acts.induct) simp_all

definition em_ctxs :: "em \<Rightarrow> event_context multiset" where
  "em_ctxs e = add_mset (active e) (mset (sync_contexts e) + mset (acts (tasks e)) + mset (acts (remote_tasks e)))"

fun home :: "nat \<Rightarrow> event_context list \<Rightarrow> event_context multiset" where
  "home d [] = {#}"
| "home d (x # xs) = (if x_cpu x = d then add_mset x (home d xs) else home d xs)"

lemma home_remove1: "x \<in> set xs \<Longrightarrow> home d xs = (if x_cpu x = d then add_mset x (home d (remove1 x xs)) else home d (remove1 x xs))"
  by (induction xs) auto

definition ctxs :: "nat \<Rightarrow> machine \<Rightarrow> event_context multiset" where
  "ctxs d s = em_ctxs (reps s d) + home d (saved s)"

definition ctx_frames :: "event_context \<Rightarrow> frame multiset" where
  "ctx_frames x = (case x_frame x of None \<Rightarrow> {#} | Some f \<Rightarrow> {#f#})"

definition frames :: "nat \<Rightarrow> machine \<Rightarrow> frame multiset" where
  "frames d s = (\<Sum>x \<in># ctxs d s. ctx_frames x)"

lemma upd_sel [simp]:
  "reps (upd c f s) = (reps s)(c := f (reps s c))" "vmem (upd c f s) = vmem s" "vec_idx (upd c f s) = vec_idx s"
  "vec_map (upd c f s) = vec_map s" "ipis (upd c f s) = ipis s" "saved (upd c f s) = saved s" "clk (upd c f s) = clk s"
  by (simp_all add: upd_def)

definition em_homed :: "nat \<Rightarrow> em \<Rightarrow> bool" where
  "em_homed d e \<longleftrightarrow> x_cpu (active e) = d \<and> (\<forall>x \<in> set (sync_contexts e). x_cpu x = d) \<and>
    (\<forall>x \<in> set (acts (tasks e)). x_cpu x = d) \<and> (\<forall>x \<in> set (acts (remote_tasks e)). x_cpu x = d)"

definition homed :: "machine \<Rightarrow> bool" where
  "homed s \<longleftrightarrow> (\<forall>d. em_homed d (reps s d))"

section \<open>The counters of the events in progress\<close>

text \<open>What the grace periods depend on: per processor the frames, the generations with their counters, the
  timer and the registered functions; the time, and the processors the token is on its way to.\<close>

record rview =
  v_frames :: "frame multiset"
  v_gen :: nat
  v_pend :: nat
  v_count :: "nat \<Rightarrow> nat"
  v_timer :: bool
  v_prev :: "(nat \<times> nat) list"
  v_curr :: "(nat \<times> nat) list"

record rcu_state =
  rv :: "nat \<Rightarrow> rview"
  r_clk :: nat
  r_tok :: "nat set"

definition view :: "machine \<Rightarrow> rcu_state" where
  "view s = \<lparr>rv = \<lambda>d. \<lparr>v_frames = frames d s, v_gen = generation (reps s d), v_pend = pending_generation (reps s d),
      v_count = generation_count (reps s d), v_timer = timer_started (reps s d), v_prev = prev_rcu_tasks (reps s d),
      v_curr = curr_rcu_tasks (reps s d)\<rparr>,
    r_clk = clk s, r_tok = {d. (d, 33) \<in> ipis s}\<rparr>"

definition rupd :: "nat \<Rightarrow> (rview \<Rightarrow> rview) \<Rightarrow> rcu_state \<Rightarrow> rcu_state" where
  "rupd c f r = r\<lparr>rv := (rv r)(c := f (rv r c))\<rparr>"

definition bump :: "nat \<Rightarrow> rview \<Rightarrow> rview" where
  "bump g v = v\<lparr>v_count := (v_count v)(g mod 2 := v_count v (g mod 2) + 1)\<rparr>"

definition r_call :: "nat \<Rightarrow> bool \<Rightarrow> nat \<Rightarrow> rcu_state \<Rightarrow> rcu_state" where
  "r_call c sync f r = (rupd c (\<lambda>v. bump (v_gen v) (v\<lparr>v_frames := add_mset \<lparr>f_fn = f, f_sync = sync, f_gen = v_gen v,
     f_start = r_clk r, f_todo = []\<rparr> (v_frames v)\<rparr>)) r)\<lparr>r_clk := r_clk r + 1\<rparr>"

definition r_receive :: "nat \<Rightarrow> rcu_state \<Rightarrow> rcu_state" where
  "r_receive c r = rupd c (\<lambda>v. v\<lparr>v_pend := v_gen v, v_gen := (v_gen v + 1) mod u64, v_timer := True\<rparr>) r"

definition r_pass :: "nat \<Rightarrow> nat \<Rightarrow> frame \<Rightarrow> rcu_state \<Rightarrow> rcu_state" where
  "r_pass n c f r = (rupd c (\<lambda>v. v\<lparr>v_timer := False, v_frames := add_mset (f\<lparr>f_todo := v_prev v\<rparr>) (v_frames v - {#f#}),
     v_prev := v_curr v, v_curr := []\<rparr>) r)\<lparr>r_tok := insert ((c + 1) mod n) (r_tok r)\<rparr>"

inductive rcu_step :: "nat \<Rightarrow> rcu_state \<Rightarrow> rcu_state \<Rightarrow> bool" for n where
  r_call: "c < n \<Longrightarrow> rcu_step n r (r_call c sync f r)"
| r_lost: "c < n \<Longrightarrow> rcu_step n r ((rupd c (\<lambda>v. bump (v_gen v) v) r)\<lparr>r_clk := r_clk r + 1\<rparr>)"
| r_return: "c < n \<Longrightarrow> f \<in># v_frames (rv r c) \<Longrightarrow> rcu_step n r (rupd c (\<lambda>v. v\<lparr>v_frames := v_frames v - {#f#},
    v_count := (v_count v)(f_gen f mod 2 := v_count v (f_gen f mod 2) - 1)\<rparr>) r)"
| r_register: "c < n \<Longrightarrow> rcu_step n r ((rupd c (\<lambda>v. v\<lparr>v_curr := v_curr v @ [(f, r_clk r)]\<rparr>) r)\<lparr>r_clk := r_clk r + 1\<rparr>)"
| r_receive: "c < n \<Longrightarrow> c \<in> r_tok r \<Longrightarrow> rcu_step n r (r_receive c (r\<lparr>r_tok := r_tok r - {c}\<rparr>))"
| r_pass: "c < n \<Longrightarrow> f \<in># v_frames (rv r c) \<Longrightarrow> f_todo f = [] \<Longrightarrow> v_timer (rv r c) \<Longrightarrow>
    v_count (rv r c) (v_pend (rv r c) mod 2) = 0 \<Longrightarrow> rcu_step n r (r_pass n c f r)"
| r_todo: "c < n \<Longrightarrow> f \<in># v_frames (rv r c) \<Longrightarrow> set ts \<subseteq> set (f_todo f) \<Longrightarrow>
    rcu_step n r (rupd c (\<lambda>v. v\<lparr>v_frames := add_mset (f\<lparr>f_todo := ts\<rparr>) (v_frames v - {#f#})\<rparr>) r)"

lemmas view_defs = view_def frames_def ctxs_def em_ctxs_def ctx_frames_def rupd_def fun_eq_iff

lemma view_call: "idle c s \<Longrightarrow> view (InvokeFunction c sync f s) = r_call c sync f (view s)"
  by (simp add: view_defs InvokeFunction_def Let_def idle_def r_call_def bump_def)

lemma view_return: "x_frame (active (reps s c)) = Some f \<Longrightarrow>
    view (event_return c f s) = rupd c (\<lambda>v. v\<lparr>v_frames := v_frames v - {#f#},
      v_count := (v_count v)(f_gen f mod 2 := v_count v (f_gen f mod 2) - 1)\<rparr>) (view s)"
  by (simp add: view_defs event_return_def InvokeFunction_return_def CallSync_return_def FreeStack_def Let_def split: list.splits)

lemma view_receive: "view (ReceiveToken c s) = r_receive c (view s)"
  by (simp add: view_defs ReceiveToken_def StartTimer_def r_receive_def)

lemma view_rcu: "view (DoRcu c f s) = (rupd c (\<lambda>v. v\<lparr>v_curr := v_curr v @ [(f, clk s)]\<rparr>) (view s))\<lparr>r_clk := clk s + 1\<rparr>"
  by (simp add: view_defs DoRcu_def)

lemma AllocateStack_effect:
  assumes "AllocateStack c s = Inr (st, s')"
  shows "view s' = view s" "saved s' = saved s" "ipis s' = ipis s" "clk s' = clk s"
    "reps s' d = (reps s d)\<lparr>free_stacks := free_stacks (reps s' d)\<rparr>"
  using assms by (auto simp: AllocateStack_def bindr_eq_Inr_iff view_defs split: list.splits if_splits)

lemma view_fresh:
  assumes "AllocateStack c s = Inr (st, s')"
  shows "view (fresh_context c st s') = view (upd c (\<lambda>e. e\<lparr>active := new_context 0 st c\<rparr>) s)" "idle c (fresh_context c st s')"
  using assms by (auto simp: AllocateStack_def bindr_eq_Inr_iff view_defs fresh_context_def new_context_def idle_def split: list.splits if_splits)

lemma view_spawn_sync:
  assumes "SpawnLocal c f False s = Inr s'"
  shows "view s' = r_call c True f (view s)"
proof -
  let ?s1 = "upd c (\<lambda>e. e\<lparr>sync_contexts := active e # sync_contexts e\<rparr>) s"
  obtain st s2 where a: "AllocateStack c ?s1 = Inr (st, s2)" "s' = InvokeFunction c True f (fresh_context c st s2)"
    using assms by (auto simp: SpawnLocal_def bindr_eq_Inr_iff)
  have "view (upd c (\<lambda>e. e\<lparr>active := new_context 0 st c\<rparr>) ?s1) = view s"
    by (simp add: view_defs new_context_def)
  then show ?thesis using a(2) view_call [OF view_fresh(2) [OF a(1)]] view_fresh(1) [OF a(1)] by simp
qed

lemma view_spawn_async: "SpawnLocal c f True s = Inr s' \<Longrightarrow> view s' = view s"
  by (auto simp: SpawnLocal_def view_defs split: if_splits)

lemma view_remote: "SpawnRemote n (Fn f) d s = Inr s' \<Longrightarrow> view s' = view s"
  by (auto simp: SpawnRemote_def AddRemoteTask_def view_defs split: if_splits)

lemma view_save:
  assumes "homed s" "SaveContext c s = Inr s'"
  shows "view s' = view s"
proof -
  have h: "x_cpu (active (reps s c)) = c" using assms(1) by (simp add: homed_def em_homed_def)
  show ?thesis
  proof (cases "sync_contexts (reps s c)")
    case Nil
    let ?s1 = "s\<lparr>saved := active (reps s c) # saved s\<rparr>"
    obtain st s2 where a: "AllocateStack c ?s1 = Inr (st, s2)" "s' = fresh_context c st s2"
      using assms(2) Nil by (auto simp: SaveContext_def bindr_eq_Inr_iff)
    have "view (upd c (\<lambda>e. e\<lparr>active := new_context 0 st c\<rparr>) ?s1) = view s"
      using h Nil by (auto simp: view_defs new_context_def split: if_splits)
    then show ?thesis using a(2) view_fresh(1) [OF a(1)] by simp
  next
    case (Cons x xs)
    then show ?thesis using assms(2) h by (auto simp: SaveContext_def view_defs split: if_splits)
  qed
qed

lemma view_activate:
  assumes "x \<in> set (saved s)" "ActivateContext n c x s = Inr s'"
  shows "view s' = view s"
  using assms(2) home_remove1 [OF assms(1)]
  by (auto simp: ActivateContext_def SpawnRemote_def AddRemoteTask_def view_defs Let_def split: if_splits)

lemma view_activate_sync:
  assumes "x \<in> set (saved s)" "ActivateContextSync c x s = Inr s'"
  shows "view s' = view s"
  using assms(2) home_remove1 [OF assms(1)]
  by (auto simp: ActivateContextSync_def view_defs split: if_splits)

lemma view_other:
  "view (snd (AllocateVector f s)) = view s" "IdleStart c f b s = Inr (b', s') \<Longrightarrow> view s' = view s"
  "view (snd (IdleStop c b s)) = view s"
  by (auto simp: AllocateVector_def IdleStart_def IdleStop_def view_defs Let_def split: if_splits)

lemma view_process:
  assumes "c < n" "idle c s"
  shows "(rcu_step n)\<^sup>*\<^sup>* (view s) (view (Process c s))"
proof (cases "tasks (reps s c)")
  case Nil
  then show ?thesis using view_call [OF assms(2)] r_call [OF assms(1)] by (auto simp: Process_def split: option.splits)
next
  case (Cons t ts)
  let ?s1 = "upd c (\<lambda>e. e\<lparr>tasks := ts\<rparr>) s"
  show ?thesis
  proof (cases t)
    case (Fn f)
    have i: "idle c ?s1" using assms(2) by (simp add: idle_def)
    have "view ?s1 = view s" using Cons Fn by (simp add: view_defs)
    then have "view (Process c s) = r_call c False f (view s)" using Cons Fn view_call [OF i] by (simp add: Process_def run_task_def)
    then show ?thesis using r_call [OF assms(1)] by auto
  next
    case (Activate x)
    have "view (Process c s) = (rupd c (\<lambda>v. bump (v_gen v) v) (view s))\<lparr>r_clk := r_clk (view s) + 1\<rparr>"
      using Cons Activate assms(2)
      by (simp add: Process_def run_task_def InvokeFunction_def FreeStack_def Let_def view_defs bump_def idle_def)
    then show ?thesis using r_lost [OF assms(1), of "view s"] by auto
  qed
qed


lemma view_fire:
  assumes "c < n" "x_frame (active (reps s c)) = Some f" "f_todo f = []" "timer_started (reps s c)" "c \<notin> r_tok (view s)"
  shows "(rcu_step n)\<^sup>*\<^sup>* (view s) (view (em_Fire n c s))"
proof (cases "generation_count (reps s c) (pending_generation (reps s c) mod 2) = 0")
  case False
  have "view (em_Fire n c s) = view s" using False assms(4) by (simp add: em_Fire_def StartTimer_def view_defs)
  then show ?thesis by simp
next
  case True
  have p: "rcu_step n (view s) (r_pass n c f (view s))"
    by (rule r_pass) (use assms(1-4) True in \<open>simp_all add: view_defs\<close>)
  show ?thesis
  proof (cases "1 < n")
    case True
    have "view (em_Fire n c s) = r_pass n c f (view s)"
      using True \<open>generation_count _ _ = 0\<close> assms(2) by (auto simp: em_Fire_def PassToken_def r_pass_def view_defs)
    then show ?thesis using p by auto
  next
    case False
    then have n: "n = 1" "c = 0" using assms(1) by simp_all
    let ?r = "r_pass n c f (view s)"
    have "view (em_Fire n c s) = r_receive c (?r\<lparr>r_tok := r_tok ?r - {c}\<rparr>)"
      using n \<open>generation_count _ _ = 0\<close> assms(2,5)
      by (auto simp: em_Fire_def PassToken_def ReceiveToken_def StartTimer_def r_pass_def r_receive_def view_defs)
    moreover have "rcu_step n ?r (r_receive c (?r\<lparr>r_tok := r_tok ?r - {c}\<rparr>))"
      by (rule r_receive) (simp_all add: n r_pass_def)
    ultimately show ?thesis using p by auto
  qed
qed

lemma view_fire_next:
  assumes "c < n" "Fire_next c s = Inr s'"
  shows "(rcu_step n)\<^sup>*\<^sup>* (view s) (view s')"
proof (cases "\<exists>f g t ts. x_frame (active (reps s c)) = Some f \<and> f_todo f = (g, t) # ts")
  case True
  then obtain f g t ts where f: "x_frame (active (reps s c)) = Some f" "f_todo f = (g, t) # ts" by blast
  let ?s1 = "upd c (\<lambda>e. e\<lparr>active := (active e)\<lparr>x_frame := Some (f\<lparr>f_todo := ts\<rparr>)\<rparr>\<rparr>) s"
  have "SpawnLocal c g False ?s1 = Inr s'" using assms(2) f by (simp add: Fire_next_def)
  then have "view s' = r_call c True g (view ?s1)" by (rule view_spawn_sync)
  then have b: "rcu_step n (view ?s1) (view s')" using r_call [OF assms(1)] by simp
  have v: "view ?s1 = rupd c (\<lambda>v. v\<lparr>v_frames := add_mset (f\<lparr>f_todo := ts\<rparr>) (v_frames v - {#f#})\<rparr>) (view s)"
    using f(1) by (simp add: view_defs)
  have "f \<in># v_frames (rv (view s) c)" "set ts \<subseteq> set (f_todo f)" using f by (auto simp: view_defs)
  then have "rcu_step n (view s) (view ?s1)" unfolding v by (rule r_todo [OF assms(1)])
  then show ?thesis using b by (rule rtranclp.rtrancl_into_rtrancl [OF r_into_rtranclp])
next
  case False
  then have "s' = s" using assms(2) by (auto simp: Fire_next_def split: option.splits list.splits)
  then show ?thesis by simp
qed

lemma view_interrupt:
  assumes "c < n" "idle c s" "num = 33 \<Longrightarrow> (c, num) \<in> ipis s" "ProcessInterrupt c num (s\<lparr>ipis := ipis s - {(c, num)}\<rparr>) = Inr s'"
  shows "(rcu_step n)\<^sup>*\<^sup>* (view s) (view s')"
proof -
  let ?s1 = "s\<lparr>ipis := ipis s - {(c, num)}\<rparr>"
  consider "num = 32" | "num = 33" | "num \<noteq> 32" "num \<noteq> 33" by blast
  then show ?thesis
  proof cases
    case 1
    then have "view s' = view s" using assms(4) by (auto simp: ProcessInterrupt_def view_defs split: if_splits)
    then show ?thesis by simp
  next
    case 2
    have "view ?s1 = (view s)\<lparr>r_tok := r_tok (view s) - {c}\<rparr>" using 2 by (auto simp: view_defs)
    then have "view s' = r_receive c ((view s)\<lparr>r_tok := r_tok (view s) - {c}\<rparr>)"
      using 2 assms(4) view_receive [of c ?s1] by (simp add: ProcessInterrupt_def)
    moreover have "c \<in> r_tok (view s)" using 2 assms(3) by (simp add: view_def)
    ultimately show ?thesis using r_receive [OF assms(1)] by auto
  next
    case 3
    then obtain f where "s' = InvokeFunction c False f ?s1" using assms(4) by (auto simp: ProcessInterrupt_def split: option.splits)
    moreover have "idle c ?s1" "view ?s1 = view s" using assms(2) 3 by (auto simp: idle_def view_defs)
    ultimately show ?thesis using view_call [of c ?s1] r_call [OF assms(1), of "view s"] by auto
  qed
qed

end
