(* ===== verification/EventRcu.thy ===== *)
theory EventRcu
  imports EventManager
begin

text \<open>
  The grace periods of the event manager: its generations and counters implement the abstract machine of
  \<open>GracePeriod\<close>.
\<close>

section \<open>The counters implement the abstract machine\<close>

text \<open>The frames of the current generation are the events begun since the token last came; those of the
  pending generation are the ones it waits for.  A counter may exceed the number of its frames: a call
  that never returns is counted for ever.\<close>

definition starts :: "(frame \<Rightarrow> bool) \<Rightarrow> frame multiset \<Rightarrow> nat set" where
  "starts P F = f_start ` {f. f \<in># F \<and> P f}"

lemma starts_simps [simp]:
  "starts P {#} = {}" "starts P (add_mset f F) = (if P f then insert (f_start f) (starts P F) else starts P F)"
  by (auto simp: starts_def)

definition counted :: "(nat \<Rightarrow> nat) \<Rightarrow> rview \<Rightarrow> bool" where
  "counted k v \<longleftrightarrow> (\<forall>b. size (filter_mset (\<lambda>f. f_gen f mod 2 = b) (v_frames v)) + k b \<le> v_count v b)"

definition gens_ok :: "rview \<Rightarrow> bool" where
  "gens_ok v \<longleftrightarrow> (\<forall>f \<in># v_frames v. f_gen f = v_gen v \<or> v_timer v \<and> f_gen f = v_pend v) \<and>
    (v_timer v \<longrightarrow> v_gen v = (v_pend v + 1) mod u64)"

definition cpu_rel :: "rview \<Rightarrow> bool \<Rightarrow> grace \<Rightarrow> nat \<Rightarrow> bool" where
  "cpu_rel v tok g d \<longleftrightarrow> g_cur g d = starts (\<lambda>f. f_gen f = v_gen v) (v_frames v) \<and>
    g_old g d = starts (\<lambda>f. f_gen f \<noteq> v_gen v) (v_frames v) \<and>
    g_prev g d = snd ` set (v_prev v) \<and> g_curr g d = snd ` set (v_curr v) \<and>
    (v_timer v \<longleftrightarrow> g_held g \<and> d = g_at g) \<and> (tok \<longleftrightarrow> \<not> g_held g \<and> d = g_at g) \<and>
    (\<forall>f \<in># v_frames v. snd ` set (f_todo f) \<subseteq> g_ready g)"

definition rel :: "nat \<Rightarrow> rcu_state \<Rightarrow> grace \<Rightarrow> bool" where
  "rel n r g \<longleftrightarrow> g_now g = r_clk r \<and> (\<forall>d < n. cpu_rel (rv r d) (d \<in> r_tok r) g d)"

definition r_ok :: "nat \<Rightarrow> rcu_state \<Rightarrow> bool" where
  "r_ok n r \<longleftrightarrow> (\<forall>d < n. gens_ok (rv r d) \<and> counted (\<lambda>_. 0) (rv r d))"

lemma counted_call: "counted k v \<Longrightarrow> f_gen f = v_gen v \<Longrightarrow> counted k (bump (v_gen v) (v\<lparr>v_frames := add_mset f (v_frames v)\<rparr>))"
  by (auto simp: counted_def bump_def)

lemma counted_lost: "counted k v \<Longrightarrow> counted k (bump g v)"
  by (auto simp: counted_def bump_def le_Suc_eq)

lemma counted_return:
  assumes "counted k v" "f \<in># v_frames v"
  shows "counted k (v\<lparr>v_frames := v_frames v - {#f#}, v_count := (v_count v)(f_gen f mod 2 := v_count v (f_gen f mod 2) - 1)\<rparr>)"
proof -
  obtain F where F: "v_frames v = add_mset f F" using assms(2) by (metis multi_member_split)
  have "size (filter_mset (\<lambda>f. f_gen f mod 2 = b) F) + k b \<le>
      ((v_count v)(f_gen f mod 2 := v_count v (f_gen f mod 2) - 1)) b" for b
    using assms(1) [unfolded counted_def F, rule_format, of b] by (auto split: if_splits)
  then show ?thesis unfolding counted_def F by simp
qed

lemma counted_frames:
  assumes "counted k v" "f \<in># v_frames v" "f_gen f' = f_gen f"
  shows "counted k (v\<lparr>v_frames := add_mset f' (v_frames v - {#f#})\<rparr>)"
proof -
  obtain F where F: "v_frames v = add_mset f F" using assms(2) by (metis multi_member_split)
  have "size (filter_mset (\<lambda>f. f_gen f mod 2 = b) (add_mset f' F)) + k b \<le> v_count v b" for b
    using assms(1) [unfolded counted_def F, rule_format, of b] assms(3) by (auto split: if_splits)
  then show ?thesis unfolding counted_def F by simp
qed

lemma counted_more [simp]: "counted k (v\<lparr>v_curr := x\<rparr>) = counted k v" "counted k (v\<lparr>v_pend := p, v_gen := q, v_timer := t\<rparr>) = counted k v"
  by (simp_all add: counted_def)

lemma counted_cong: "v_frames v' = v_frames v \<Longrightarrow> v_count v' = v_count v \<Longrightarrow> counted k v' = counted k v"
  by (simp add: counted_def)


lemma bump_sel [simp]:
  "v_frames (bump g v) = v_frames v" "v_gen (bump g v) = v_gen v" "v_pend (bump g v) = v_pend v" "v_timer (bump g v) = v_timer v"
  "v_prev (bump g v) = v_prev v" "v_curr (bump g v) = v_curr v"
  by (simp_all add: bump_def)

lemma rupd_sel [simp]: "rv (rupd c h r) = (rv r)(c := h (rv r c))" "r_clk (rupd c h r) = r_clk r" "r_tok (rupd c h r) = r_tok r"
  by (simp_all add: rupd_def)

lemma r_okI:
  assumes "r_ok n r" "\<And>d. d \<noteq> c \<Longrightarrow> rv r' d = rv r d"
    "gens_ok (rv r c) \<Longrightarrow> gens_ok (rv r' c)" "counted (\<lambda>_. 0) (rv r c) \<Longrightarrow> counted (\<lambda>_. 0) (rv r' c)"
  shows "r_ok n r'"
  using assms unfolding r_ok_def by metis

lemma pending_done:
  assumes "c < n" "r_ok n r" "v_count (rv r c) (v_pend (rv r c) mod 2) = 0" "h \<in># v_frames (rv r c)"
  shows "f_gen h = v_gen (rv r c)"
proof -
  have ok: "gens_ok (rv r c)" "counted (\<lambda>_. 0) (rv r c)" using assms(1,2) by (auto simp: r_ok_def)
  have "filter_mset (\<lambda>f. f_gen f mod 2 = v_pend (rv r c) mod 2) (v_frames (rv r c)) = {#}"
    using ok(2) assms(3) unfolding counted_def by (metis add_eq_0_iff_both_eq_0 le_zero_eq size_eq_0_iff_empty)
  then have "f_gen h \<noteq> v_pend (rv r c)" using assms(4) by (auto simp: filter_mset_eq_conv)
  then show ?thesis using ok(1) assms(4) by (auto simp: gens_ok_def)
qed

lemma r_ok_step:
  assumes "rcu_step n r r'" "r_ok n r" "\<And>d. d < n \<Longrightarrow> d \<in> r_tok r \<Longrightarrow> \<not> v_timer (rv r d)"
  shows "r_ok n r'"
  using assms
proof (induction rule: rcu_step.induct)
  case (r_call c r sync f)
  show ?case by (rule r_okI [OF r_call(2), of c]) (auto simp: r_call_def gens_ok_def intro!: counted_call)
next
  case (r_lost c r)
  show ?case by (rule r_okI [OF r_lost(2), of c]) (auto simp: gens_ok_def intro!: counted_lost)
next
  case (r_return c f r)
  show ?case by (rule r_okI [OF r_return(3), of c]) (auto simp: gens_ok_def simp del: One_nat_def intro!: counted_return r_return dest: in_diffD)
next
  case (r_register c r f)
  show ?case by (rule r_okI [OF r_register(2), of c]) (auto simp: gens_ok_def counted_def)
next
  case (r_receive c r)
  show ?case by (rule r_okI [OF r_receive(3), of c]) (use r_receive in \<open>auto simp: r_receive_def gens_ok_def counted_def\<close>)
next
  case (r_pass c f r)
  note z = pending_done [OF r_pass(1,6,5)]
  have "counted (\<lambda>_. 0) (rv (r_pass n c f r) c) = counted (\<lambda>_. 0) ((rv r c)\<lparr>v_frames := add_mset (f\<lparr>f_todo := v_prev (rv r c)\<rparr>) (v_frames (rv r c) - {#f#})\<rparr>)"
    by (rule counted_cong) (simp_all add: r_pass_def)
  then show ?case
    by (intro r_okI [OF r_pass(6), of c])
      (use r_pass z in \<open>auto simp: r_pass_def gens_ok_def intro!: counted_frames dest: in_diffD\<close>)
next
  case (r_todo c f r ts)
  show ?case by (rule r_okI [OF r_todo(4), of c]) (use r_todo in \<open>auto simp: gens_ok_def intro!: counted_frames dest: in_diffD\<close>)
qed


lemma starts_mono: "starts P (F - {#f#}) \<subseteq> starts P F"
  by (auto simp: starts_def dest: in_diffD)

lemma starts_cong: "(\<And>f. f \<in># F \<Longrightarrow> P f = Q f) \<Longrightarrow> starts P F = starts Q F"
  by (auto simp: starts_def)

lemma starts_replace:
  assumes "f \<in># F" "f_start f' = f_start f" "P f' = P f"
  shows "starts P (add_mset f' (F - {#f#})) = starts P F"
proof -
  obtain G where "F = add_mset f G" using assms(1) by (metis multi_member_split)
  then show ?thesis using assms(2,3) by simp
qed

lemma next_gen: "(g + 1) mod u64 \<noteq> g"
proof (cases "g < u64")
  case True
  then show ?thesis by (cases "g + 1 = u64") auto
next
  case False
  moreover have "(g + 1) mod u64 < u64" by simp
  ultimately show ?thesis by linarith
qed

lemma cpu_rel_todo: "cpu_rel v t g d \<Longrightarrow> h \<in># v_frames v - {#f#} \<Longrightarrow> snd ` set (f_todo h) \<subseteq> g_ready g"
  unfolding cpu_rel_def by (blast dest: in_diffD)

text \<open>A change at one processor that keeps the place of the token.\<close>

lemma relI:
  assumes "rel n r g" "g_now g' = r_clk r'" "\<And>d. d \<noteq> c \<Longrightarrow> rv r' d = rv r d" "r_tok r' = r_tok r"
    "\<And>d. d \<noteq> c \<Longrightarrow> g_cur g' d = g_cur g d" "\<And>d. d \<noteq> c \<Longrightarrow> g_old g' d = g_old g d"
    "\<And>d. d \<noteq> c \<Longrightarrow> g_prev g' d = g_prev g d" "\<And>d. d \<noteq> c \<Longrightarrow> g_curr g' d = g_curr g d"
    "g_at g' = g_at g" "g_held g' = g_held g" "g_ready g' = g_ready g"
    "c < n \<Longrightarrow> cpu_rel (rv r c) (c \<in> r_tok r) g c \<Longrightarrow> cpu_rel (rv r' c) (c \<in> r_tok r) g' c"
  shows "rel n r' g'"
proof -
  have "cpu_rel (rv r' d) (d \<in> r_tok r') g' d" if "d < n" for d
  proof (cases "d = c")
    case False
    then show ?thesis using assms(1,3-11) that by (simp add: rel_def cpu_rel_def)
  qed (use assms(1,4,12) that in \<open>simp add: rel_def\<close>)
  then show ?thesis using assms(2) by (simp add: rel_def)
qed

lemma rel_step:
  assumes "rcu_step n r r'" "rel n r g" "r_ok n r"
  shows "\<exists>g'. (g_step n)\<^sup>*\<^sup>* g g' \<and> rel n r' g'"
  using assms
proof (induction rule: rcu_step.induct)
  case (r_call c r sync f)
  have now: "g_now g = r_clk r" using r_call(2) by (simp add: rel_def)
  have "rel n (r_call c sync f r) (g\<lparr>g_cur := (g_cur g)(c := insert (g_now g) (g_cur g c)), g_now := g_now g + 1\<rparr>)"
    by (rule relI [OF r_call(2), of _ _ c]) (auto simp: r_call_def cpu_rel_def now)
  then show ?case using g_begin [OF r_call(1)] by blast
next
  case (r_lost c r)
  have now: "g_now g = r_clk r" using r_lost(2) by (simp add: rel_def)
  let ?g1 = "g\<lparr>g_cur := (g_cur g)(c := insert (g_now g) (g_cur g c)), g_now := g_now g + 1\<rparr>"
  let ?g2 = "?g1\<lparr>g_cur := (g_cur ?g1)(c := g_cur g c), g_old := (g_old ?g1)(c := g_old g c)\<rparr>"
  have "rel n ((rupd c (\<lambda>v. bump (v_gen v) v) r)\<lparr>r_clk := r_clk r + 1\<rparr>) ?g2"
    by (rule relI [OF r_lost(2), of _ _ c]) (auto simp: cpu_rel_def now)
  moreover have "g_step n g ?g1" by (rule g_begin [OF r_lost(1)])
  moreover have "g_step n ?g1 ?g2" by (rule g_finish [OF r_lost(1)]) auto
  ultimately show ?case by (meson r_into_rtranclp rtranclp.rtrancl_into_rtrancl)
next
  case (r_return c f r)
  let ?v = "rv r c"
  let ?C = "starts (\<lambda>f. f_gen f = v_gen ?v) (v_frames ?v - {#f#})" and ?D = "starts (\<lambda>f. f_gen f \<noteq> v_gen ?v) (v_frames ?v - {#f#})"
  have cur: "g_cur g c = starts (\<lambda>f. f_gen f = v_gen ?v) (v_frames ?v)" "g_old g c = starts (\<lambda>f. f_gen f \<noteq> v_gen ?v) (v_frames ?v)"
    using r_return(1,3) by (simp_all add: rel_def cpu_rel_def)
  have todo: "\<forall>h \<in># v_frames ?v - {#f#}. snd ` set (f_todo h) \<subseteq> g_ready g"
    using cpu_rel_todo [of ?v "c \<in> r_tok r" g c] r_return(1,3) unfolding rel_def by blast
  have now: "g_now g = r_clk r" using r_return(3) by (simp add: rel_def)
  have "rel n (rupd c (\<lambda>v. v\<lparr>v_frames := v_frames v - {#f#}, v_count := (v_count v)(f_gen f mod 2 := v_count v (f_gen f mod 2) - 1)\<rparr>) r)
      (g\<lparr>g_cur := (g_cur g)(c := ?C), g_old := (g_old g)(c := ?D)\<rparr>)"
    by (rule relI [OF r_return(3), of _ _ c]) (use todo now in \<open>simp_all add: cpu_rel_def\<close>)
  moreover have "g_step n g (g\<lparr>g_cur := (g_cur g)(c := ?C), g_old := (g_old g)(c := ?D)\<rparr>)"
    by (rule g_finish [OF r_return(1)]) (simp_all add: cur starts_mono)
  ultimately show ?case by blast
next
  case (r_register c r f)
  have now: "g_now g = r_clk r" using r_register(2) by (simp add: rel_def)
  have "rel n ((rupd c (\<lambda>v. v\<lparr>v_curr := v_curr v @ [(f, r_clk r)]\<rparr>) r)\<lparr>r_clk := r_clk r + 1\<rparr>)
      (g\<lparr>g_curr := (g_curr g)(c := insert (g_now g) (g_curr g c)), g_now := g_now g + 1\<rparr>)"
    by (rule relI [OF r_register(2), of _ _ c]) (auto simp: cpu_rel_def now)
  then show ?case using g_register [OF r_register(1)] by blast
next
  case (r_receive c r)
  let ?v = "rv r c" and ?r = "r_receive c (r\<lparr>r_tok := r_tok r - {c}\<rparr>)"
  let ?g = "g\<lparr>g_held := True, g_old := (g_old g)(c := g_old g c \<union> g_cur g c), g_cur := (g_cur g)(c := {}), g_recv := (g_recv g)(c := g_now g)\<rparr>"
  have at: "\<not> g_held g" "c = g_at g" "cpu_rel ?v True g c" "\<And>d. d < n \<Longrightarrow> cpu_rel (rv r d) (d \<in> r_tok r) g d"
    using r_receive(1-3) by (auto simp: rel_def cpu_rel_def)
  have "f_gen f = v_gen ?v" if "f \<in># v_frames ?v" for f
    using r_receive(1,4) at(1,3) that by (auto simp: r_ok_def gens_ok_def cpu_rel_def)
  moreover have "(v_gen ?v + 1) mod u64 \<noteq> v_gen ?v" by (rule next_gen)
  ultimately have st: "starts (\<lambda>f. f_gen f = (v_gen ?v + 1) mod u64) (v_frames ?v) = {}"
    "starts (\<lambda>f. f_gen f \<noteq> (v_gen ?v + 1) mod u64) (v_frames ?v) = g_old g c \<union> g_cur g c"
    using at(3) by (auto simp: starts_def cpu_rel_def simp del: One_nat_def)
  have "cpu_rel (rv ?r d) (d \<in> r_tok ?r) ?g d" if "d < n" for d
    using at(4) [OF that] at(1-3) st by (cases "d = c") (auto simp: cpu_rel_def r_receive_def)
  then have "rel n ?r ?g" using r_receive(3) by (simp add: rel_def r_receive_def)
  moreover have "g_step n g ?g" by (rule g_receive) (use at in simp_all)
  ultimately show ?case by blast
next
  case (r_pass c f r)
  let ?v = "rv r c" and ?r = "r_pass n c f r"
  let ?g = "g\<lparr>g_held := False, g_at := (c + 1) mod n, g_comp := (g_comp g)(c := g_now g), g_ready := g_ready g \<union> g_prev g c,
    g_prev := (g_prev g)(c := g_curr g c), g_curr := (g_curr g)(c := {})\<rparr>"
  have at: "g_held g" "c = g_at g" "\<And>d. d < n \<Longrightarrow> cpu_rel (rv r d) (d \<in> r_tok r) g d"
    using r_pass(1,4,6) by (auto simp: rel_def cpu_rel_def)
  have c: "cpu_rel ?v (c \<in> r_tok r) g c" using at(3) r_pass(1) by simp
  have old: "g_old g c = {}" using c pending_done [OF r_pass(1,7,5)] by (auto simp: cpu_rel_def starts_def)
  have "cpu_rel (rv ?r d) (d \<in> r_tok ?r) ?g d" if "d < n" for d
  proof (cases "d = c")
    case True
    have "\<forall>h \<in># v_frames ?v - {#f#}. snd ` set (f_todo h) \<subseteq> g_ready g \<union> g_prev g c" using cpu_rel_todo [OF c] by blast
    then show ?thesis using True c at(1,2) r_pass(2)
      by (simp add: cpu_rel_def r_pass_def starts_replace del: starts_simps)
  next
    case False
    then show ?thesis using at(3) [OF that] at(1,2) unfolding cpu_rel_def r_pass_def by simp blast
  qed
  then have "rel n ?r ?g" using r_pass(6) by (simp add: rel_def r_pass_def)
  moreover have "g_step n g ?g" by (rule g_complete) (use at old in simp_all)
  ultimately show ?case by blast
next
  case (r_todo c f r ts)
  let ?r = "rupd c (\<lambda>v. v\<lparr>v_frames := add_mset (f\<lparr>f_todo := ts\<rparr>) (v_frames v - {#f#})\<rparr>) r"
  have c: "cpu_rel (rv r c) (c \<in> r_tok r) g c" using r_todo(1,4) by (simp add: rel_def)
  have "\<forall>h \<in># v_frames (rv r c) - {#f#}. snd ` set (f_todo h) \<subseteq> g_ready g" using cpu_rel_todo [OF c] by blast
  moreover have "snd ` set (f_todo f) \<subseteq> g_ready g" using c r_todo(2) by (simp add: cpu_rel_def)
  then have "snd ` set ts \<subseteq> g_ready g" using image_mono [OF r_todo(3), of snd] by simp
  moreover have "g_now g = r_clk r" using r_todo(4) by (simp add: rel_def)
  ultimately have "rel n ?r g"
    by (intro relI [OF r_todo(4), of _ _ c]) (use r_todo(2) in \<open>simp_all add: cpu_rel_def starts_replace del: starts_simps\<close>)
  then show ?case by blast
qed


lemma rel_steps:
  assumes "(rcu_step n)\<^sup>*\<^sup>* r r'" "rel n r g" "r_ok n r"
  shows "\<exists>g'. (g_step n)\<^sup>*\<^sup>* g g' \<and> rel n r' g' \<and> r_ok n r'"
  using assms(1)
proof (induction rule: rtranclp_induct)
  case base
  then show ?case using assms by blast
next
  case (step y z)
  then obtain g' where g: "(g_step n)\<^sup>*\<^sup>* g g'" "rel n y g'" "r_ok n y" by blast
  obtain g'' where "(g_step n)\<^sup>*\<^sup>* g' g''" "rel n z g''" using rel_step [OF step(2) g(2,3)] by blast
  moreover have "r_ok n z"
    by (rule r_ok_step [OF step(2) g(3)]) (use g(2) in \<open>auto simp: rel_def cpu_rel_def\<close>)
  ultimately show ?case using g(1) by (meson rtranclp_trans)
qed

section \<open>The event manager implements the counters\<close>

lemma homed_upd: "homed s \<Longrightarrow> (em_homed c (reps s c) \<Longrightarrow> em_homed c (f (reps s c))) \<Longrightarrow> homed (upd c f s)"
  by (simp add: homed_def)

lemma homed_more [simp]: "homed (s\<lparr>vmem := m\<rparr>) = homed s" "homed (s\<lparr>saved := xs\<rparr>) = homed s" "homed (s\<lparr>ipis := I\<rparr>) = homed s"
  "homed (s\<lparr>clk := t\<rparr>) = homed s" "homed (s\<lparr>vec_idx := i, vec_map := vm\<rparr>) = homed s"
  by (simp_all add: homed_def)

lemma homedD: "homed s \<Longrightarrow> em_homed d (reps s d)"
  by (simp add: homed_def)

lemma homed_invoke: "homed s \<Longrightarrow> homed (InvokeFunction c sync f s)"
  by (auto simp: em_homed_def InvokeFunction_def Let_def intro!: homed_upd)

lemma homed_alloc: "homed s \<Longrightarrow> AllocateStack c s = Inr (st, s') \<Longrightarrow> homed s'"
  by (auto simp: em_homed_def AllocateStack_def bindr_eq_Inr_iff intro!: homed_upd split: list.splits)

lemma homed_fresh: "homed s \<Longrightarrow> homed (fresh_context c st s)"
  by (auto simp: em_homed_def fresh_context_def new_context_def intro!: homed_upd)

lemma homed_free: "homed s \<Longrightarrow> homed (FreeStack c st s)"
  by (auto simp: em_homed_def FreeStack_def intro!: homed_upd)

lemma homed_return:
  assumes "homed s"
  shows "homed (event_return c f s)"
proof -
  have h: "homed (InvokeFunction_return c f s)" using assms by (auto simp: em_homed_def InvokeFunction_return_def intro!: homed_upd)
  have "homed (CallSync_return c t)" if "homed t" for t
    using that homedD [OF that, of c] by (auto simp: CallSync_return_def em_homed_def intro!: homed_upd homed_free split: list.splits)
  then show ?thesis using h by (simp add: event_return_def Let_def)
qed

lemma homed_spawn:
  assumes "homed s" "SpawnLocal c f a s = Inr s'"
  shows "homed s'"
proof (cases a)
  case True
  then show ?thesis using assms by (auto simp: em_homed_def SpawnLocal_def intro!: homed_upd)
next
  case False
  have "homed (upd c (\<lambda>e. e\<lparr>sync_contexts := active e # sync_contexts e\<rparr>) s)" using assms(1) by (auto simp: em_homed_def intro!: homed_upd)
  then show ?thesis using assms(2) False by (auto simp: SpawnLocal_def bindr_eq_Inr_iff intro!: homed_invoke homed_fresh dest: homed_alloc)
qed

lemma homed_save:
  assumes "homed s" "SaveContext c s = Inr s'"
  shows "homed s'"
proof (cases "sync_contexts (reps s c)")
  case Nil
  let ?s1 = "s\<lparr>saved := active (reps s c) # saved s\<rparr>"
  obtain st s2 where a: "AllocateStack c ?s1 = Inr (st, s2)" "s' = fresh_context c st s2"
    using assms(2) Nil by (auto simp: SaveContext_def bindr_eq_Inr_iff)
  then show ?thesis using homed_fresh homed_alloc [OF _ a(1)] assms(1) by simp
next
  case (Cons x xs)
  then have "s' = upd c (\<lambda>e. e\<lparr>active := x, sync_contexts := xs\<rparr>) (s\<lparr>saved := active (reps s c) # saved s\<rparr>)"
    using assms(2) by (simp add: SaveContext_def)
  then show ?thesis using homed_upd [of "s\<lparr>saved := active (reps s c) # saved s\<rparr>"] assms(1) Cons by (simp add: em_homed_def)
qed

lemma homed_remote:
  assumes "homed s" "SpawnRemote n t d s = Inr s'" "\<And>x. t = Activate x \<Longrightarrow> x_cpu x = d"
  shows "homed s'"
proof -
  have "homed (AddRemoteTask d t s)" unfolding AddRemoteTask_def
    by (rule homed_upd [OF assms(1)]) (cases t; use assms(3) in \<open>auto simp: em_homed_def\<close>)
  then show ?thesis using assms(2) by (auto simp: SpawnRemote_def Let_def split: if_splits)
qed

lemma homed_activate:
  assumes "homed s" "ActivateContext n c x s = Inr s'"
  shows "homed s'"
proof -
  let ?s1 = "s\<lparr>saved := remove1 x (saved s)\<rparr>"
  have h: "homed ?s1" using assms(1) by simp
  show ?thesis
  proof (cases "x_cpu x = c")
    case True
    then have "s' = upd c (\<lambda>e. e\<lparr>tasks := tasks e @ [Activate x]\<rparr>) ?s1" using assms(2) by (simp add: ActivateContext_def Let_def)
    then show ?thesis using homed_upd [OF h] True by (simp add: em_homed_def)
  next
    case False
    then have "SpawnRemote n (Activate x) (x_cpu x) ?s1 = Inr s'" using assms(2) by (simp add: ActivateContext_def Let_def)
    then show ?thesis by (rule homed_remote [OF h]) simp
  qed
qed

lemma homed_process:
  assumes "homed s"
  shows "homed (Process c s)"
proof -
  have "homed (run_task c t (upd c (\<lambda>e. e\<lparr>tasks := ts\<rparr>) s))" if "tasks (reps s c) = t # ts" for t ts
  proof -
    have t: "em_homed c (reps s c)" using assms by (rule homedD)
    have "homed (upd c (\<lambda>e. e\<lparr>tasks := ts\<rparr>) s)" by (rule homed_upd [OF assms]) (use that in \<open>cases t; auto simp: em_homed_def\<close>)
    moreover have "x_cpu x = c" if "t = Activate x" for x using t that \<open>tasks (reps s c) = t # ts\<close> by (simp add: em_homed_def)
    moreover have "homed (upd c (\<lambda>e. e\<lparr>active := x\<rparr>) u)" if "homed u" "x_cpu x = c" for u x
      by (rule homed_upd [OF that(1)]) (use that(2) in \<open>simp add: em_homed_def\<close>)
    ultimately show ?thesis by (cases t) (simp_all add: run_task_def Let_def homed_free homed_invoke)
  qed
  then show ?thesis using assms homed_invoke by (auto simp: Process_def split: list.splits option.splits)
qed

lemma homed_receive: "homed s \<Longrightarrow> homed (ReceiveToken c s)"
  by (auto simp: ReceiveToken_def StartTimer_def em_homed_def intro!: homed_upd)

lemma homed_interrupt: "homed s \<Longrightarrow> ProcessInterrupt c v s = Inr s' \<Longrightarrow> homed s'"
  by (auto simp: ProcessInterrupt_def em_homed_def intro!: homed_upd homed_receive homed_invoke split: if_splits option.splits)

lemma homed_fire: "homed s \<Longrightarrow> homed (em_Fire n c s)"
  by (auto simp: em_Fire_def PassToken_def StartTimer_def Let_def em_homed_def intro!: homed_upd homed_receive)

lemma homed_fire_next:
  assumes "homed s" "Fire_next c s = Inr s'"
  shows "homed s'"
proof -
  have "homed (upd c (\<lambda>e. e\<lparr>active := (active e)\<lparr>x_frame := f\<rparr>\<rparr>) s)" for f using assms(1) by (auto simp: em_homed_def intro!: homed_upd)
  then show ?thesis using assms by (auto simp: Fire_next_def split: option.splits list.splits dest: homed_spawn)
qed

lemma homed_step: "em_step n s s' \<Longrightarrow> homed s \<Longrightarrow> homed s'"
proof (induction rule: em_step.induct)
  case (st_ipi c s v s')
  then show ?case using homed_interrupt [of "s\<lparr>ipis := ipis s - {(c, v)}\<rparr>"] by simp
next
  case (st_remote c s f d s')
  then show ?case using homed_remote by blast
next
  case (st_activate_sync c s x s')
  then have "s' = upd c (\<lambda>e. e\<lparr>sync_contexts := active e # sync_contexts e, active := x\<rparr>) (s\<lparr>saved := remove1 x (saved s)\<rparr>)" "x_cpu x = c"
    by (auto simp: ActivateContextSync_def split: if_splits)
  then show ?case using homed_upd [of "s\<lparr>saved := remove1 x (saved s)\<rparr>"] st_activate_sync by (simp add: em_homed_def)
next
  case (st_idle_start c s f b b' s')
  then show ?case by (auto simp: IdleStart_def em_homed_def intro!: homed_upd split: if_splits)
next
  case (st_idle_stop c s b)
  then show ?case by (auto simp: IdleStop_def em_homed_def intro!: homed_upd split: if_splits)
next
  case (st_rcu c s f)
  then show ?case by (auto simp: DoRcu_def em_homed_def intro!: homed_upd)
next
  case (st_process c s)
  then show ?case using homed_process by blast
next
  case (st_device c s v s')
  then show ?case using homed_interrupt by blast
next
  case (st_return c s f)
  then show ?case using homed_return by blast
next
  case (st_spawn c s f a s')
  then show ?case using homed_spawn by blast
next
  case (st_save c s s')
  then show ?case using homed_save by blast
next
  case (st_activate c s x s')
  then show ?case using homed_activate by blast
next
  case (st_vector c s f)
  then show ?case by (simp add: AllocateVector_def Let_def)
next
  case (st_fire c s)
  then show ?case using homed_fire by blast
next
  case (st_fire_next c s s')
  then show ?case using homed_fire_next by blast
qed


lemma view_step:
  assumes "em_step n s s'" "homed s" "\<And>c. c < n \<Longrightarrow> timer_started (reps s c) \<Longrightarrow> c \<notin> r_tok (view s)"
  shows "(rcu_step n)\<^sup>*\<^sup>* (view s) (view s')"
  using assms
proof (induction rule: em_step.induct)
  case (st_process c s)
  then show ?case using view_process by blast
next
  case (st_ipi c s v s')
  then show ?case using view_interrupt by blast
next
  case (st_device c s v s')
  have a: "ProcessInterrupt c v (s\<lparr>ipis := ipis s - {(c, v)}\<rparr>) = Inr (s'\<lparr>ipis := ipis s - {(c, v)}\<rparr>)" and "ipis s' = ipis s"
    using st_device(3,4) by (auto simp: ProcessInterrupt_def InvokeFunction_def Let_def upd_def split: option.splits)
  have "view (s'\<lparr>ipis := ipis s - {(c, v)}\<rparr>) = view s'"
    using st_device(3) \<open>ipis s' = ipis s\<close> by (simp add: view_defs)
  moreover have "(rcu_step n)\<^sup>*\<^sup>* (view s) (view (s'\<lparr>ipis := ipis s - {(c, v)}\<rparr>))"
    by (rule view_interrupt [OF st_device(1,2) _ a]) (use st_device(3) in simp)
  ultimately show ?case by simp
next
  case (st_return c s f)
  have "f \<in># v_frames (rv (view s) c)" using st_return(3) by (simp add: view_defs)
  then show ?case unfolding view_return [OF st_return(3)] by (intro r_into_rtranclp r_return [OF st_return(1)])
next
  case (st_spawn c s f a s')
  show ?case
  proof (cases a)
    case True
    then have "view s' = view s" using view_spawn_async [of c f s s'] st_spawn(3) by simp
    then show ?thesis by simp
  next
    case False
    then have "view s' = r_call c True f (view s)" using view_spawn_sync [of c f s s'] st_spawn(3) by simp
    then show ?thesis using r_call [OF st_spawn(1), of "view s" True f] by simp
  qed
next
  case (st_remote c s f d s')
  then have "view s' = view s" using view_remote by blast
  then show ?case by simp
next
  case (st_save c s s')
  then have "view s' = view s" using view_save by blast
  then show ?case by simp
next
  case (st_activate c s x s')
  then have "view s' = view s" using view_activate by blast
  then show ?case by simp
next
  case (st_activate_sync c s x s')
  then have "view s' = view s" using view_activate_sync by blast
  then show ?case by simp
next
  case (st_vector c s f)
  then show ?case by (simp add: view_other)
next
  case (st_idle_start c s f b b' s')
  then have "view s' = view s" using view_other(2) by blast
  then show ?case by simp
next
  case (st_idle_stop c s b)
  then show ?case by (simp add: view_other)
next
  case (st_rcu c s f)
  have "r_clk (view s) = clk s" by (simp add: view_def)
  then show ?case using r_register [OF st_rcu(1), of "view s" f] view_rcu [of c f s] by auto
next
  case (st_fire c s)
  then obtain f where "x_frame (active (reps s c)) = Some f" "f_todo f = []" by (auto simp: running_def)
  then show ?case using view_fire st_fire by blast
next
  case (st_fire_next c s s')
  then show ?case using view_fire_next by blast
qed

text \<open>The invariant: the view is related to a reachable state of the abstract machine.\<close>

definition em_inv :: "nat \<Rightarrow> machine \<Rightarrow> grace \<Rightarrow> bool" where
  "em_inv n s g \<longleftrightarrow> homed s \<and> rel n (view s) g \<and> r_ok n (view s)"

lemma em_inv_step:
  assumes "em_step n s s'" "em_inv n s g"
  shows "\<exists>g'. (g_step n)\<^sup>*\<^sup>* g g' \<and> em_inv n s' g'"
proof -
  have "c \<notin> r_tok (view s)" if "c < n" "timer_started (reps s c)" for c
  proof -
    have "v_timer (rv (view s) c)" using that(2) by (simp add: view_def)
    then show ?thesis using assms(2) that(1) by (auto simp: em_inv_def rel_def cpu_rel_def)
  qed
  then have "(rcu_step n)\<^sup>*\<^sup>* (view s) (view s')" using view_step [OF assms(1)] assms(2) by (simp add: em_inv_def)
  then show ?thesis using rel_steps homed_step [OF assms(1)] assms(2) unfolding em_inv_def by blast
qed

lemma em_inv_steps:
  assumes "(em_step n)\<^sup>*\<^sup>* s s'" "em_inv n s g"
  shows "\<exists>g'. (g_step n)\<^sup>*\<^sup>* g g' \<and> em_inv n s' g'"
  using assms(1)
proof (induction rule: rtranclp_induct)
  case base
  then show ?case using assms(2) by blast
next
  case (step y z)
  then show ?case using em_inv_step by (meson rtranclp_trans)
qed

lemma boot_reps: "boot k = Inr s \<Longrightarrow> (\<forall>c. \<exists>st. reps s c = new_em c st) \<and> saved s = [] \<and> clk s = 0 \<and> ipis s = {}"
proof (induction k arbitrary: s)
  case (Suc k)
  then show ?case by (auto simp: bindr_eq_Inr_iff)
qed auto

lemma em_inv_init:
  assumes "em_init n s"
  shows "\<exists>g. (g_step n)\<^sup>*\<^sup>* g_init g \<and> em_inv n s g"
proof -
  obtain s0 where n: "0 < n" and s0: "boot n = Inr s0" "s = ReceiveToken 0 (InvokeFunction 0 False 0 s0)"
    using assms by (auto simp: em_init_def)
  note b = boot_reps [OF s0(1)]
  obtain stk where e: "\<And>c. reps s0 c = new_em c (stk c)" using b by metis
  have h: "homed s0" by (simp add: homed_def em_homed_def e new_em_def new_context_def)
  have f: "frames d s0 = {#}" "timer_started (reps s0 d) = False" "generation (reps s0 d) = 0" "generation_count (reps s0 d) = (\<lambda>_. 0)"
    "prev_rcu_tasks (reps s0 d) = []" "curr_rcu_tasks (reps s0 d) = []" "idle d s0" for d
    using b by (simp_all add: e frames_def ctxs_def em_ctxs_def ctx_frames_def new_em_def new_context_def idle_def)
  let ?r = "(view s0)\<lparr>r_tok := {0}\<rparr>"
  have "rel n ?r g_init" using n b f by (auto simp: rel_def cpu_rel_def view_def g_init_def)
  moreover have "r_ok n ?r" using f by (simp add: r_ok_def gens_ok_def counted_def view_def)
  moreover have "(rcu_step n)\<^sup>*\<^sup>* ?r (view s)"
  proof -
    let ?c = "r_call 0 False 0 ?r"
    have "view s = r_receive 0 (?c\<lparr>r_tok := r_tok ?c - {0}\<rparr>)"
      unfolding s0(2) view_receive view_call [OF f(7)] using b by (simp add: r_receive_def r_call_def rupd_def view_def)
    moreover have "rcu_step n ?r ?c" by (rule r_call [OF n])
    moreover have "rcu_step n ?c (r_receive 0 (?c\<lparr>r_tok := r_tok ?c - {0}\<rparr>))"
      by (rule r_receive [OF n]) (simp add: r_call_def)
    ultimately show ?thesis by simp
  qed
  ultimately show ?thesis using rel_steps homed_receive [OF homed_invoke [OF h]] s0(2) unfolding em_inv_def by blast
qed


section \<open>Grace periods\<close>

text \<open>The events in progress, named by the time they began, and the registered functions whose turn has
  come.\<close>

definition live :: "nat \<Rightarrow> machine \<Rightarrow> nat set" where
  "live n s = (\<Union>d < n. f_start ` set_mset (frames d s))"

definition ready :: "nat \<Rightarrow> machine \<Rightarrow> (nat \<times> nat) set" where
  "ready n s = (\<Union>d < n. \<Union>f \<in> set_mset (frames d s). set (f_todo f))"

lemma live_grace:
  assumes "em_inv n s g" "i \<in> live n s"
  shows "\<exists>d < n. i \<in> g_old g d \<union> g_cur g d"
proof -
  obtain d f where d: "d < n" "f \<in># frames d s" "i = f_start f" using assms(2) by (auto simp: live_def)
  have "cpu_rel (rv (view s) d) (d \<in> r_tok (view s)) g d" using assms(1) d(1) by (simp add: em_inv_def rel_def)
  then have "i \<in> g_old g d \<union> g_cur g d" using d(2,3) by (auto simp: cpu_rel_def starts_def view_def)
  then show ?thesis using d(1) by blast
qed

lemma ready_grace:
  assumes "em_inv n s g" "(f, t) \<in> ready n s"
  shows "t \<in> g_ready g"
proof -
  obtain d h where d: "d < n" "h \<in># frames d s" "(f, t) \<in> set (f_todo h)" using assms(2) by (auto simp: ready_def)
  have "cpu_rel (rv (view s) d) (d \<in> r_tok (view s)) g d" using assms(1) d(1) by (simp add: em_inv_def rel_def)
  then have "snd ` set (f_todo h) \<subseteq> g_ready g" using d(2) by (simp add: cpu_rel_def view_def)
  then show ?thesis using d(3) by force
qed

text \<open>C3: Read-copy-update is safe.  When the event manager runs a function that an event registered with
  \<open>DoRcu\<close>, no event that was in progress on any processor at the registration is still in progress,
  whether it runs, has spawned another event, is blocked, or waits in a queue to be activated.  This
  holds for every number of processors, every interleaving of events, interrupts and timers, and across
  the wrap of the generation counter.\<close>

theorem rcu_grace_period:
  assumes "em_init n s0" "(em_step n)\<^sup>*\<^sup>* s0 s" "c < n" "running c s" "(em_step n)\<^sup>*\<^sup>* (DoRcu c f s) s'" "(f, clk s) \<in> ready n s'"
  shows "live n (DoRcu c f s) \<inter> live n s' = {}"
proof -
  obtain g where g: "(g_step n)\<^sup>*\<^sup>* g_init g" "em_inv n s0 g" using em_inv_init [OF assms(1)] by blast
  have n: "0 < n" using assms(3) by simp
  obtain g1 where g1: "(g_step n)\<^sup>*\<^sup>* g g1" "em_inv n s g1" using em_inv_steps [OF assms(2) g(2)] by blast
  obtain g2 where g2: "(g_step n)\<^sup>*\<^sup>* g1 g2" "em_inv n (DoRcu c f s) g2"
    using em_inv_step [OF st_rcu [OF assms(3,4)] g1(2)] by blast
  obtain g3 where g3: "(g_step n)\<^sup>*\<^sup>* g2 g3" "em_inv n s' g3" using em_inv_steps [OF assms(5) g2(2)] by blast
  have r1: "(g_step n)\<^sup>*\<^sup>* g_init g1" using g(1) g1(1) by (rule rtranclp_trans)
  have r3: "(g_step n)\<^sup>*\<^sup>* g_init g3" using rtranclp_trans [OF rtranclp_trans [OF r1 g2(1)] g3(1)] .
  have "frames d (DoRcu c f s) = frames d s" for d by (simp add: DoRcu_def frames_def ctxs_def em_ctxs_def)
  then have "live n (DoRcu c f s) = live n s" by (simp add: live_def)
  moreover have "i < clk s" if "i \<in> live n s" for i
  proof -
    have "g_now g1 = clk s" using g1(2) by (simp add: em_inv_def rel_def view_def)
    then show ?thesis using g_started [OF n r1] live_grace [OF g1(2) that] by auto
  qed
  moreover have "clk s < i" if "i \<in> live n s'" for i
    using g_safe [OF n r3 ready_grace [OF g3(2) assms(6)]] live_grace [OF g3(2) that] by blast
  ultimately show ?thesis by fastforce
qed


section \<open>Activated contexts\<close>

text \<open>One call of generation \<open>g\<close> is counted for ever.\<close>

definition stuck :: "nat \<Rightarrow> rview \<Rightarrow> bool" where
  "stuck g v \<longleftrightarrow> counted (\<lambda>b. if b = g mod 2 then 1 else 0) v \<and>
    (v_gen v = g \<or> v_gen v = (g + 1) mod u64 \<and> v_timer v \<and> v_pend v = g)"

lemma stuck_count: "stuck g v \<Longrightarrow> v_count v (g mod 2) \<noteq> 0"
proof -
  assume "stuck g v"
  then have "\<forall>b. size (filter_mset (\<lambda>f. f_gen f mod 2 = b) (v_frames v)) + (if b = g mod 2 then 1 else 0) \<le> v_count v b"
    by (simp add: stuck_def counted_def)
  from spec [OF this, of "g mod 2"] show ?thesis by simp
qed

lemma stuck_step:
  assumes "rcu_step n r r'" "stuck g (rv r c)" "c \<in> r_tok r \<Longrightarrow> \<not> v_timer (rv r c)"
  shows "stuck g (rv r' c)"
  using assms
proof (induction rule: rcu_step.induct)
  case (r_call d r sync f)
  then show ?case by (auto simp: stuck_def r_call_def intro!: counted_call)
next
  case (r_lost d r)
  then show ?case by (auto simp: stuck_def intro!: counted_lost)
next
  case (r_return d f r)
  then show ?case by (auto simp: stuck_def simp del: One_nat_def intro!: counted_return)
next
  case (r_register d r f)
  then show ?case by (auto simp: stuck_def)
next
  case (r_receive d r)
  then show ?case by (auto simp: stuck_def r_receive_def)
next
  case (r_pass d f r)
  show ?case
  proof (cases "d = c")
    case True
    have gen: "v_gen (rv r c) = g" using r_pass(5,6) stuck_count [OF r_pass(6)] True by (auto simp: stuck_def)
    have "counted k (rv (r_pass n c f r) c) = counted k ((rv r c)\<lparr>v_frames := add_mset (f\<lparr>f_todo := v_prev (rv r c)\<rparr>) (v_frames (rv r c) - {#f#})\<rparr>)" for k
      by (rule counted_cong) (simp_all add: r_pass_def)
    then show ?thesis using r_pass(2,6) True gen counted_frames [OF _ r_pass(2)] by (simp add: stuck_def r_pass_def)
  next
    case False
    then show ?thesis using r_pass(6) by (simp add: r_pass_def)
  qed
next
  case (r_todo d f r ts)
  then show ?case by (auto simp: stuck_def intro!: counted_frames)
qed

lemma stuck_steps:
  assumes "(rcu_step n)\<^sup>*\<^sup>* r r'" "rel n r g" "r_ok n r" "c < n" "stuck k (rv r c)"
  shows "stuck k (rv r' c)"
  using assms(1)
proof (induction rule: rtranclp_induct)
  case base
  then show ?case using assms(5) by simp
next
  case (step y z)
  obtain g' where g: "rel n y g'" using rel_steps [OF step(1) assms(2,3)] by blast
  have "\<not> v_timer (rv y c)" if "c \<in> r_tok y" using g assms(4) that by (auto simp: rel_def cpu_rel_def)
  then show ?case using stuck_step [OF step(2,3)] by blast
qed

lemma stuck_em_steps:
  assumes "(em_step n)\<^sup>*\<^sup>* s s'" "em_inv n s g" "c < n" "stuck k (rv (view s) c)"
  shows "stuck k (rv (view s') c)"
  using assms(1)
proof (induction rule: rtranclp_induct)
  case base
  then show ?case using assms(4) by simp
next
  case (step y z)
  obtain g' where g: "em_inv n y g'" using em_inv_steps [OF step(1) assms(2)] by blast
  have "d \<notin> r_tok (view y)" if "d < n" "timer_started (reps y d)" for d
  proof -
    have "v_timer (rv (view y) d)" using that(2) by (simp add: view_def)
    then show ?thesis using g that(1) by (auto simp: em_inv_def rel_def cpu_rel_def)
  qed
  then have "(rcu_step n)\<^sup>*\<^sup>* (view y) (view z)" using view_step [OF step(2)] g by (simp add: em_inv_def)
  then show ?case using stuck_steps g assms(3) step(3) unfolding em_inv_def by blast
qed

text \<open>C23: The first activation of a blocked context stops read-copy-update for good.  The closure of
  \<open>ActivateContext\<close> is called through \<open>InvokeFunction\<close> and never returns to it, so the counter of the
  generation keeps one call for ever.  In every later state the processor is still in that generation, or
  holds the token and waits for a counter that never becomes zero.\<close>

theorem activation_stalls_rcu:
  assumes "em_init n s0" "(em_step n)\<^sup>*\<^sup>* s0 s" "c < n" "idle c s" "tasks (reps s c) = Activate x # ts"
    "(em_step n)\<^sup>*\<^sup>* (Process c s) s'"
  shows "generation (reps s' c) = generation (reps s c) \<or>
    timer_started (reps s' c) \<and> pending_generation (reps s' c) = generation (reps s c) \<and>
    generation_count (reps s' c) (pending_generation (reps s' c) mod 2) \<noteq> 0"
proof -
  let ?g = "generation (reps s c)"
  obtain g0 where g0: "em_inv n s0 g0" using em_inv_init [OF assms(1)] by blast
  obtain g where g: "em_inv n s g" using em_inv_steps [OF assms(2) g0] by blast
  obtain g1 where g1: "em_inv n (Process c s) g1" using em_inv_step [OF st_process [OF assms(3,4)] g] by blast
  have "rv (view (Process c s)) c = bump ?g (rv (view s) c)"
    using assms(4,5) by (simp add: Process_def run_task_def InvokeFunction_def FreeStack_def Let_def view_defs bump_def idle_def)
  moreover have "counted (\<lambda>_. 0) (rv (view s) c)" using g assms(3) by (simp add: em_inv_def r_ok_def)
  ultimately have "stuck ?g (rv (view (Process c s)) c)" by (auto simp: stuck_def counted_def bump_def view_def)
  then have "stuck ?g (rv (view s') c)" using stuck_em_steps [OF assms(6) g1 assms(3)] by blast
  then show ?thesis using stuck_count by (fastforce simp: stuck_def view_def)
qed

text \<open>C22: Contexts keep their processor.  In every reachable state, every context that runs on a processor,
  waits there for a synchronous event or is queued there to be activated, was created on that
  processor: events that other processors activate come back to the one whose generation counted them.\<close>

theorem contexts_homed:
  assumes "em_init n s0" "(em_step n)\<^sup>*\<^sup>* s0 s"
  shows "homed s"
  using em_inv_init [OF assms(1)] em_inv_steps [OF assms(2)] unfolding em_inv_def by blast

section \<open>A run on one processor\<close>

definition ret :: "machine \<Rightarrow> machine" where
  "ret s = (case x_frame (active (reps s 0)) of Some f \<Rightarrow> event_return 0 f s | None \<Rightarrow> s)"

definition vm_run1 :: "unit regions" where
  "vm_run1 = [(0xFFFFFFFEFF800, \<lparr>r_end = 0xFFFFFFFF00000, r_handler = Some (), r_allocated = True\<rparr>),
    (0xFFFF800000000, \<lparr>r_end = 0xFFFFFFFEFF800, r_handler = None, r_allocated = False\<rparr>)]"

lemma vm_run1: "VAlloc 2048 (Some ()) vm_new = Inr (0xFFFFFFFEFF800, vm_run1)"
  by (simp add: VAlloc_def vm_new_def vm_run1_def vm_eval)

definition boot1 :: machine where
  "boot1 = \<lparr>reps = (\<lambda>c. new_em c 0)(0 := new_em 0 0xFFFFFFFEFF800), vmem = vm_run1, vec_idx = 34, vec_map = [], ipis = {}, saved = [], clk = 0\<rparr>"

lemma boot1: "boot 1 = Inr boot1"
  by (simp add: kStackPages_def vm_run1 boot1_def upd_def)

definition init1 :: machine where "init1 = ReceiveToken 0 (InvokeFunction 0 False 0 boot1)"
definition run0 :: machine where "run0 = snd (AllocateVector 5 init1)"
definition run1 :: machine where "run1 = InvokeFunction 0 False 5 (ret (DoRcu 0 7 run0))"
definition run2 :: machine where "run2 = InvokeFunction 0 False 5 (ret (em_Fire 1 0 run1))"
definition run3 :: machine where "run3 = em_Fire 1 0 run2"

lemmas run_defs = init1_def run0_def run1_def run2_def run3_def boot1_def ret_def AllocateVector_def ReceiveToken_def StartTimer_def InvokeFunction_def DoRcu_def
  event_return_def InvokeFunction_return_def em_Fire_def PassToken_def new_em_def new_context_def upd_def Let_def


lemma init1: "em_init 1 init1"
  by (simp add: em_init_def init1_def boot1 del: boot.simps One_nat_def)

lemma run0: "(em_step 1)\<^sup>*\<^sup>* init1 run0"
proof -
  have "running 0 init1" by (simp add: running_def init1_def run_defs)
  then have "em_step 1 init1 (snd (AllocateVector 5 init1))" by (simp add: st_vector)
  then show ?thesis by (auto simp: run0_def)
qed

lemma ret_step: "running 0 s \<Longrightarrow> em_step 1 s (ret s)"
  by (auto simp: running_def ret_def intro!: st_return simp del: One_nat_def)

lemma device_step: "idle 0 s \<Longrightarrow> vec_map s = [(34, f)] \<Longrightarrow> em_step 1 s (InvokeFunction 0 False f s)"
  by (rule st_device [of 0 _ _ 34]) (simp_all add: ProcessInterrupt_def)

lemma run1: "(em_step 1)\<^sup>*\<^sup>* (DoRcu 0 7 run0) run1" "running 0 run0"
proof -
  have "running 0 (DoRcu 0 7 run0)" by (simp add: running_def run_defs)
  then have "em_step 1 (DoRcu 0 7 run0) (ret (DoRcu 0 7 run0))" by (rule ret_step)
  moreover have "idle 0 (ret (DoRcu 0 7 run0))" "vec_map (ret (DoRcu 0 7 run0)) = [(34, 5)]"
    by (simp_all add: idle_def run_defs)
  ultimately show "(em_step 1)\<^sup>*\<^sup>* (DoRcu 0 7 run0) run1" unfolding run1_def
    using device_step by (meson converse_rtranclp_into_rtranclp r_into_rtranclp)
qed (simp add: running_def run_defs)

lemma run2: "(em_step 1)\<^sup>*\<^sup>* run1 run2"
proof -
  have "running 0 run1" "timer_started (reps run1 0)"
    by (simp_all add: running_def run_defs)
  then have "em_step 1 run1 (em_Fire 1 0 run1)" by (simp add: st_fire)
  moreover have "running 0 (em_Fire 1 0 run1)" by (simp add: running_def run_defs)
  then have "em_step 1 (em_Fire 1 0 run1) (ret (em_Fire 1 0 run1))" by (rule ret_step)
  moreover have "idle 0 (ret (em_Fire 1 0 run1))" "vec_map (ret (em_Fire 1 0 run1)) = [(34, 5)]"
    by (simp_all add: idle_def run_defs)
  ultimately show ?thesis unfolding run2_def using device_step by (meson converse_rtranclp_into_rtranclp r_into_rtranclp)
qed

lemma run3: "em_step 1 run2 run3"
proof -
  have "running 0 run2" "timer_started (reps run2 0)"
    by (simp_all add: running_def run_defs)
  then show ?thesis unfolding run3_def by (simp add: st_fire)
qed

lemma run3_ready: "ready 1 run3 = {(7, 1)}" "live 1 run3 = {3}" "live 1 (DoRcu 0 7 run0) = {0}" "clk run0 = 1"
  by (simp_all add: ready_def live_def frames_def ctxs_def em_ctxs_def ctx_frames_def
    run_defs lessThan_Suc)

theorem rcu_grace_period_witness:
  "(em_step 1)\<^sup>*\<^sup>* (DoRcu 0 7 run0) run3 \<and> (7, clk run0) \<in> ready 1 run3 \<and>
    live 1 (DoRcu 0 7 run0) = {0} \<and> live 1 (DoRcu 0 7 run0) \<inter> live 1 run3 = {}"
proof -
  have s: "(em_step 1)\<^sup>*\<^sup>* (DoRcu 0 7 run0) run3"
    using rtranclp_trans [OF run1(1) run2] run3 by (rule rtranclp.rtrancl_into_rtrancl)
  have r: "(7, clk run0) \<in> ready 1 run3" by (simp add: run3_ready del: One_nat_def)
  show ?thesis using rcu_grace_period [OF init1 run0 _ run1(2) s r] s r run3_ready(3) by simp
qed

section \<open>A blocked event that is activated again\<close>

definition vm_run2 :: "unit regions" where
  "vm_run2 = [(0xFFFFFFFEFF800, \<lparr>r_end = 0xFFFFFFFF00000, r_handler = Some (), r_allocated = True\<rparr>),
    (0xFFFFFFFEFF000, \<lparr>r_end = 0xFFFFFFFEFF800, r_handler = Some (), r_allocated = True\<rparr>),
    (0xFFFF800000000, \<lparr>r_end = 0xFFFFFFFEFF000, r_handler = None, r_allocated = False\<rparr>)]"

lemma vm_run2: "VAlloc 2048 (Some ()) vm_run1 = Inr (0xFFFFFFFEFF000, vm_run2)"
  by (simp add: VAlloc_def vm_run1_def vm_run2_def vm_eval)

definition block1 :: machine where "block1 = (case SaveContext 0 run0 of Inr s \<Rightarrow> s)"
definition block2 :: machine where
  "block2 = ret (case ActivateContext 1 0 (hd (saved block1)) (InvokeFunction 0 False 5 block1) of Inr s \<Rightarrow> s)"

lemmas block_defs = SaveContext_def AllocateStack_def ActivateContext_def fresh_context_def kStackPages_def

lemma block1: "SaveContext 0 run0 = Inr block1" "saved block1 = [active (reps run0 0)]" "idle 0 block1" "vec_map block1 = [(34, 5)]"
  "vmem run0 = vm_run1"
  "running 0 (InvokeFunction 0 False 5 block1)"
  by (simp_all add: idle_def running_def block1_def run_defs block_defs vm_run2)


lemma block2_eq:
  "ActivateContext 1 0 (hd (saved block1)) (InvokeFunction 0 False 5 block1) =
    Inr (case ActivateContext 1 0 (hd (saved block1)) (InvokeFunction 0 False 5 block1) of Inr s \<Rightarrow> s)"
  "running 0 (case ActivateContext 1 0 (hd (saved block1)) (InvokeFunction 0 False 5 block1) of Inr s \<Rightarrow> s)"
  "idle 0 block2" "tasks (reps block2 0) = [Activate (active (reps run0 0))]" "generation (reps block2 0) = 1"
  "generation_count (reps (Process 0 block2) 0) 1 = 1"
  by (simp_all add: idle_def running_def block1_def block2_def run_defs block_defs vm_run2 Process_def run_task_def FreeStack_def)

lemma block2: "(em_step 1)\<^sup>*\<^sup>* init1 block2"
proof -
  have "em_step 1 run0 block1" by (rule st_save [OF _ run1(2) block1(1)]) simp
  moreover have "em_step 1 block1 (InvokeFunction 0 False 5 block1)" by (rule device_step [OF block1(3,4)])
  moreover have "em_step 1 (InvokeFunction 0 False 5 block1)
      (case ActivateContext 1 0 (hd (saved block1)) (InvokeFunction 0 False 5 block1) of Inr s \<Rightarrow> s)"
    by (rule st_activate [OF _ block1(6) _ block2_eq(1)]) (simp_all add: block1(2) InvokeFunction_def Let_def)
  moreover have "em_step 1 (case ActivateContext 1 0 (hd (saved block1)) (InvokeFunction 0 False 5 block1) of Inr s \<Rightarrow> s) block2"
    unfolding block2_def by (rule ret_step [OF block2_eq(2)])
  ultimately show ?thesis using run0 by (meson rtranclp.rtrancl_into_rtrancl)
qed

theorem activation_stalls_rcu_witness:
  "(em_step 1)\<^sup>*\<^sup>* init1 block2 \<and> tasks (reps block2 0) = [Activate (active (reps run0 0))] \<and>
    (generation (reps (Process 0 block2) 0) = generation (reps block2 0) \<or>
     timer_started (reps (Process 0 block2) 0) \<and> pending_generation (reps (Process 0 block2) 0) = generation (reps block2 0) \<and>
     generation_count (reps (Process 0 block2) 0) (pending_generation (reps (Process 0 block2) 0) mod 2) \<noteq> 0)"
  using activation_stalls_rcu [OF init1 block2 _ block2_eq(3,4), of "Process 0 block2"] block2 block2_eq(4) by simp

theorem contexts_homed_witness:
  "(em_step 1)\<^sup>*\<^sup>* init1 block2 \<and> homed block2 \<and> acts (tasks (reps block2 0)) = [active (reps run0 0)]"
  using contexts_homed [OF init1 block2] block2 block2_eq(4) by simp

end
