(* ===== verification/EventStacks.thy ===== *)
theory EventStacks
  imports EventRcu
begin

text \<open>
  The stacks of the event manager: every context, running, waiting for a synchronous event, blocked or
  queued for activation, owns a stack of its own, and free stacks belong to none.  The stacks come from a
  source of fresh ranges; the virtual memory allocator is one.
\<close>

section \<open>A source of fresh stacks\<close>

locale stack_source =
  fixes alloc :: "'m \<Rightarrow> (pfn \<times> 'm) result"
    and given :: "'m \<Rightarrow> pfn set \<Rightarrow> bool"
  assumes alloc_fresh: "given m H \<Longrightarrow> alloc m = Inr (p, m') \<Longrightarrow> p \<notin> H \<and> given m' (insert p H)"
begin

definition owned :: "'m \<Rightarrow> pfn multiset \<Rightarrow> bool" where
  "owned m S \<longleftrightarrow> (\<exists>H. given m H \<and> set_mset S \<subseteq> H) \<and> (\<forall>p. count S p \<le> 1)"

lemma owned_add:
  assumes "owned m S" "alloc m = Inr (p, m')"
  shows "owned m' (add_mset p S)"
proof -
  obtain H where H: "given m H" "set_mset S \<subseteq> H" using assms(1) by (auto simp: owned_def)
  note f = alloc_fresh [OF H(1) assms(2)]
  have "count S p = 0" using f H(2) by (auto simp: count_eq_zero_iff)
  then show ?thesis using assms(1) f H(2) by (auto simp: owned_def intro!: exI [of _ "insert p H"])
qed

lemma owned_empty: "given m H \<Longrightarrow> owned m {#}"
  by (auto simp: owned_def)

end

definition vm_given :: "unit regions \<Rightarrow> pfn set \<Rightarrow> bool" where
  "vm_given m H \<longleftrightarrow> (\<exists>L. vm_inv m L \<and> H = fst ` set L)"

interpretation vm_stacks: stack_source "VAlloc kStackPages (Some ())" vm_given
proof
  fix m H p m'
  assume "vm_given m H" and a: "VAlloc kStackPages (Some ()) m = Inr (p, m')"
  then obtain L where L: "vm_inv m L" "H = fst ` set L" by (auto simp: vm_given_def)
  have "carves vm_lim m (p, kStackPages, Some ()) m'"
    using VAlloc_carves [of vm_lim m kStackPages "Some ()"] L(1) a by (auto simp: vm_inv_def vm_lim_val kStackPages_def)
  then have v: "vm_inv m' ((p, kStackPages, Some ()) # L)" by (rule vm_inv_carve [OF L(1)])
  then have "p \<notin> H" using L(2) by (auto simp: vm_inv_def)
  moreover have "vm_given m' (insert p H)" using v L(2) unfolding vm_given_def by (intro exI [of _ "(p, kStackPages, Some ()) # L"]) simp
  ultimately show "p \<notin> H \<and> vm_given m' (insert p H)" by blast
qed

section \<open>The stacks of a machine\<close>

definition stacks :: "nat \<Rightarrow> machine \<Rightarrow> pfn multiset" where
  "stacks d s = image_mset x_stack (ctxs d s) + mset (free_stacks (reps s d))"

definition all_stacks :: "nat \<Rightarrow> machine \<Rightarrow> pfn multiset" where
  "all_stacks n s = (\<Sum>d < n. stacks d s)"

text \<open>A step keeps the stacks, or one processor gets a fresh one.\<close>

definition stack_eff :: "nat \<Rightarrow> machine \<Rightarrow> machine \<Rightarrow> bool" where
  "stack_eff c s s' \<longleftrightarrow> (\<forall>d. stacks d s' = stacks d s) \<and> vmem s' = vmem s \<or>
    (\<exists>p. VAlloc kStackPages (Some ()) (vmem s) = Inr (p, vmem s') \<and> (\<forall>d. stacks d s' = (if d = c then add_mset p (stacks d s) else stacks d s)))"

lemmas stacks_defs = stacks_def ctxs_def em_ctxs_def

lemma stack_keep: "(\<And>d. stacks d s' = stacks d s) \<Longrightarrow> vmem s' = vmem s \<Longrightarrow> stack_eff c s s'"
  by (simp add: stack_eff_def)

lemma stack_trans:
  assumes "stack_eff c s t" "\<And>d. stacks d u = stacks d t" "vmem u = vmem t"
  shows "stack_eff c s u"
  using assms by (simp add: stack_eff_def)

lemma stack_pre:
  assumes "\<And>d. stacks d t = stacks d s" "vmem t = vmem s" "stack_eff c t u"
  shows "stack_eff c s u"
  using assms(3) unfolding stack_eff_def assms(1,2) .

lemma stacks_invoke: "stacks d (InvokeFunction c sync f s) = stacks d s" "vmem (InvokeFunction c sync f s) = vmem s"
  by (simp_all add: stacks_defs InvokeFunction_def Let_def)

text \<open>A fresh context replaces one that has been put elsewhere: \<open>x\<close> is the context that the active one was
  before.\<close>

lemma stacks_fresh:
  assumes "AllocateStack c s = Inr (st, s')"
  shows "\<And>d. d \<noteq> c \<Longrightarrow> stacks d (fresh_context c st s') = stacks d s"
    "stacks c (fresh_context c st s') + {#x_stack (active (reps s c))#} = stacks c s \<and> vmem s' = vmem s \<or>
     VAlloc kStackPages (Some ()) (vmem s) = Inr (st, vmem s') \<and>
       stacks c (fresh_context c st s') + {#x_stack (active (reps s c))#} = add_mset st (stacks c s)"
  using assms by (auto simp: AllocateStack_def bindr_eq_Inr_iff stacks_defs fresh_context_def new_context_def split: list.splits)


lemma stack_fresh:
  assumes "AllocateStack c t = Inr (st, u)" "stacks c t = add_mset (x_stack (active (reps t c))) (stacks c s)"
    "\<And>d. d \<noteq> c \<Longrightarrow> stacks d t = stacks d s" "vmem t = vmem s"
  shows "stack_eff c s (fresh_context c st u)"
proof -
  let ?f = "fresh_context c st u"
  note f = stacks_fresh [OF assms(1), unfolded assms(2,4)]
  have m: "vmem ?f = vmem u" by (simp add: fresh_context_def)
  have o: "stacks d ?f = stacks d s" if "d \<noteq> c" for d using f(1) assms(3) that by simp
  from f(2) show ?thesis
  proof
    assume a: "stacks c ?f + {#x_stack (active (reps t c))#} = add_mset (x_stack (active (reps t c))) (stacks c s) \<and> vmem u = vmem s"
    then have "stacks d ?f = stacks d s" for d using o by (cases "d = c") simp_all
    then show ?thesis using a m by (simp add: stack_eff_def)
  next
    assume a: "VAlloc kStackPages (Some ()) (vmem s) = Inr (st, vmem u) \<and>
      stacks c ?f + {#x_stack (active (reps t c))#} = add_mset st (add_mset (x_stack (active (reps t c))) (stacks c s))"
    then have "stacks d ?f = (if d = c then add_mset st (stacks d s) else stacks d s)" for d
      using o by (cases "d = c") (simp_all add: add_mset_commute)
    then show ?thesis using a m by (auto simp: stack_eff_def)
  qed
qed

lemma stack_spawn:
  assumes "SpawnLocal c f a s = Inr s'"
  shows "stack_eff c s s'"
proof (cases a)
  case True
  then show ?thesis using assms by (intro stack_keep) (auto simp: SpawnLocal_def stacks_defs)
next
  case False
  let ?s1 = "upd c (\<lambda>e. e\<lparr>sync_contexts := active e # sync_contexts e\<rparr>) s"
  obtain st s2 where a: "AllocateStack c ?s1 = Inr (st, s2)" "s' = InvokeFunction c True f (fresh_context c st s2)"
    using assms False by (auto simp: SpawnLocal_def bindr_eq_Inr_iff)
  have s1: "stacks c ?s1 = add_mset (x_stack (active (reps s c))) (stacks c s)" "\<And>d. d \<noteq> c \<Longrightarrow> stacks d ?s1 = stacks d s"
    by (simp_all add: stacks_defs)
  have "stack_eff c s (fresh_context c st s2)"
    by (rule stack_fresh [OF a(1)]) (use s1 in simp_all)
  then show ?thesis unfolding a(2) by (rule stack_trans) (simp_all add: stacks_invoke)
qed

lemma stack_save:
  assumes "homed s" "SaveContext c s = Inr s'"
  shows "stack_eff c s s'"
proof -
  have h: "x_cpu (active (reps s c)) = c" using assms(1) by (simp add: homed_def em_homed_def)
  show ?thesis
  proof (cases "sync_contexts (reps s c)")
    case Nil
    let ?s1 = "s\<lparr>saved := active (reps s c) # saved s\<rparr>"
    obtain st s2 where a: "AllocateStack c ?s1 = Inr (st, s2)" "s' = fresh_context c st s2"
      using assms(2) Nil by (auto simp: SaveContext_def bindr_eq_Inr_iff)
    have s1: "stacks c ?s1 = add_mset (x_stack (active (reps s c))) (stacks c s)" "\<And>d. d \<noteq> c \<Longrightarrow> stacks d ?s1 = stacks d s"
      using h by (simp_all add: stacks_defs)
    show ?thesis unfolding a(2) by (rule stack_fresh [OF a(1)]) (use s1 in simp_all)
  next
    case (Cons x xs)
    then show ?thesis using assms(2) h by (intro stack_keep) (auto simp: SaveContext_def stacks_defs)
  qed
qed

lemma stack_process: "idle c s \<Longrightarrow> stack_eff c s (Process c s)"
  by (intro stack_keep) (auto simp: Process_def run_task_def InvokeFunction_def FreeStack_def Let_def stacks_defs
      split: list.splits task.splits option.splits)

lemma stack_step:
  assumes "em_step n s s'" "homed s"
  shows "\<exists>c < n. stack_eff c s s'"
  using assms
proof (induction rule: em_step.induct)
  case (st_process c s)
  then show ?case using stack_process by blast
next
  case (st_ipi c s v s')
  then have "stack_eff c s s'"
    by (intro stack_keep) (auto simp: ProcessInterrupt_def InvokeFunction_def ReceiveToken_def StartTimer_def Let_def stacks_defs
        split: if_splits option.splits)
  then show ?case using st_ipi by blast
next
  case (st_device c s v s')
  then have "stack_eff c s s'"
    by (intro stack_keep) (auto simp: ProcessInterrupt_def InvokeFunction_def Let_def stacks_defs split: if_splits option.splits)
  then show ?case using st_device by blast
next
  case (st_return c s f)
  have "stack_eff c s (event_return c f s)"
    by (intro stack_keep) (auto simp: event_return_def InvokeFunction_return_def CallSync_return_def FreeStack_def Let_def stacks_defs
        split: list.splits)
  then show ?case using st_return by blast
next
  case (st_spawn c s f a s')
  then show ?case using stack_spawn by blast
next
  case (st_remote c s f d s')
  then have "stack_eff c s s'" by (intro stack_keep) (auto simp: SpawnRemote_def AddRemoteTask_def stacks_defs split: if_splits)
  then show ?case using st_remote by blast
next
  case (st_save c s s')
  then show ?case using stack_save by blast
next
  case (st_activate c s x s')
  then have "stack_eff c s s'" using home_remove1 [OF st_activate(3)]
    by (intro stack_keep) (auto simp: ActivateContext_def SpawnRemote_def AddRemoteTask_def stacks_defs Let_def split: if_splits)
  then show ?case using st_activate by blast
next
  case (st_activate_sync c s x s')
  then have "stack_eff c s s'" using home_remove1 [OF st_activate_sync(3)]
    by (intro stack_keep) (auto simp: ActivateContextSync_def stacks_defs split: if_splits)
  then show ?case using st_activate_sync by blast
next
  case (st_vector c s f)
  have "stack_eff c s (snd (AllocateVector f s))" by (intro stack_keep) (simp_all add: AllocateVector_def Let_def stacks_defs)
  then show ?case using st_vector by blast
next
  case (st_idle_start c s f b b' s')
  then have "stack_eff c s s'" by (intro stack_keep) (auto simp: IdleStart_def stacks_defs split: if_splits)
  then show ?case using st_idle_start by blast
next
  case (st_idle_stop c s b)
  have "stack_eff c s (snd (IdleStop c b s))" by (intro stack_keep) (auto simp: IdleStop_def stacks_defs split: if_splits)
  then show ?case using st_idle_stop by blast
next
  case (st_rcu c s f)
  have "stack_eff c s (DoRcu c f s)" by (intro stack_keep) (simp_all add: DoRcu_def stacks_defs)
  then show ?case using st_rcu by blast
next
  case (st_fire c s)
  have "stack_eff c s (em_Fire n c s)"
    by (intro stack_keep) (simp_all add: em_Fire_def PassToken_def ReceiveToken_def StartTimer_def Let_def stacks_defs)
  then show ?case using st_fire by blast
next
  case (st_fire_next c s s')
  show ?case
  proof (cases "\<exists>f g t ts. x_frame (active (reps s c)) = Some f \<and> f_todo f = (g, t) # ts")
    case True
    then obtain f g t ts where f: "x_frame (active (reps s c)) = Some f" "f_todo f = (g, t) # ts" by blast
    let ?s1 = "upd c (\<lambda>e. e\<lparr>active := (active e)\<lparr>x_frame := Some (f\<lparr>f_todo := ts\<rparr>)\<rparr>\<rparr>) s"
    have "stack_eff c ?s1 s'" using st_fire_next(2) f by (intro stack_spawn) (simp add: Fire_next_def)
    then have "stack_eff c s s'" by (rule stack_pre [rotated 2]) (simp_all add: stacks_defs)
    then show ?thesis using st_fire_next by blast
  next
    case False
    then have "s' = s" using st_fire_next(2) by (auto simp: Fire_next_def split: option.splits list.splits)
    then show ?thesis using st_fire_next(1) stack_keep [of s s c] by auto
  qed
qed


lemma owned_eff:
  assumes "stack_eff c s s'" "c < n" "vm_stacks.owned (vmem s) (all_stacks n s)"
  shows "vm_stacks.owned (vmem s') (all_stacks n s')"
proof -
  consider "\<And>d. stacks d s' = stacks d s" "vmem s' = vmem s"
    | p where "VAlloc kStackPages (Some ()) (vmem s) = Inr (p, vmem s')" "\<And>d. stacks d s' = (if d = c then add_mset p (stacks d s) else stacks d s)"
    using assms(1) unfolding stack_eff_def by blast
  then show ?thesis
  proof cases
    case 1
    then show ?thesis using assms(3) by (simp add: all_stacks_def)
  next
    case 2
    have "all_stacks n s' = add_mset p (stacks c s) + (\<Sum>d \<in> {..<n} - {c}. stacks d s)"
      unfolding all_stacks_def using 2(2) assms(2) by (subst sum.remove [of _ c]) auto
    also have "\<dots> = add_mset p (all_stacks n s)" unfolding all_stacks_def using assms(2) by (subst (2) sum.remove [of _ c]) auto
    finally show ?thesis using vm_stacks.owned_add [OF assms(3) 2(1)] by simp
  qed
qed

lemma owned_boot: "boot k = Inr s \<Longrightarrow> vm_stacks.owned (vmem s) (all_stacks k s)"
proof (induction k arbitrary: s)
  case 0
  have "vm_given vm_new {}" unfolding vm_given_def using vm_inv_new by (intro exI [of _ "[]"]) simp
  then show ?case using 0 vm_stacks.owned_empty by (auto simp: all_stacks_def)
next
  case (Suc k)
  then obtain t st m where t: "boot k = Inr t" "VAlloc kStackPages (Some ()) (vmem t) = Inr (st, m)"
      "s = upd k (\<lambda>_. new_em k st) (t\<lparr>vmem := m\<rparr>)" by (auto simp: bindr_eq_Inr_iff)
  have "saved t = []" using boot_reps [OF t(1)] by blast
  then have "stacks k s = {#st#}" "\<And>d. d < k \<Longrightarrow> stacks d s = stacks d t"
    unfolding t(3) by (simp_all add: stacks_defs new_em_def new_context_def)
  then have "all_stacks (Suc k) s = add_mset st (all_stacks k t)" by (simp add: all_stacks_def)
  then show ?case using vm_stacks.owned_add [OF Suc.IH [OF t(1)] t(2)] t(3) by simp
qed

text \<open>C21: Stacks are never shared.  In every reachable state of the machine, the stacks of all contexts on
  all processors, whether they run, wait for a synchronous event, are blocked or are queued for
  activation, and the free stacks are pairwise different ranges of virtual memory.\<close>

theorem event_stacks:
  assumes "em_init n s0" "(em_step n)\<^sup>*\<^sup>* s0 s"
  shows "count (all_stacks n s) p \<le> 1"
proof -
  obtain t where t: "boot n = Inr t" "s0 = ReceiveToken 0 (InvokeFunction 0 False 0 t)" "0 < n"
    using assms(1) by (auto simp: em_init_def)
  obtain g where g: "em_inv n s0 g" using em_inv_init [OF assms(1)] by blast
  have "stack_eff 0 t s0" unfolding t(2)
    by (rule stack_keep) (simp_all add: ReceiveToken_def StartTimer_def InvokeFunction_def Let_def stacks_defs)
  then have "vm_stacks.owned (vmem s0) (all_stacks n s0)" using owned_eff [OF _ t(3) owned_boot [OF t(1)]] by blast
  from assms(2) this have "vm_stacks.owned (vmem s) (all_stacks n s)"
  proof (induction rule: rtranclp_induct)
    case (step y z)
    obtain g' where "em_inv n y g'" using em_inv_steps [OF step(1) g] by blast
    then obtain c where "c < n" "stack_eff c y z" using stack_step [OF step(2)] by (auto simp: em_inv_def)
    then show ?case using owned_eff step by blast
  qed simp
  then show ?thesis by (simp add: vm_stacks.owned_def)
qed

theorem event_stacks_witness:
  "(em_step 1)\<^sup>*\<^sup>* init1 block2 \<and> 0xFFFFFFFEFF000 \<in># all_stacks 1 block2 \<and> count (all_stacks 1 block2) 0xFFFFFFFEFF000 \<le> 1"
proof -
  have "0xFFFFFFFEFF000 \<in># all_stacks 1 block2"
    by (simp add: all_stacks_def stacks_defs block1_def block2_def run_defs block_defs vm_run2 lessThan_Suc)
  then show ?thesis using event_stacks [OF init1 block2] block2 by blast
qed

end
