(* ===== verification/EarlyPages.thy ===== *)
theory EarlyPages
  imports MemMap
begin

text \<open>
  The early page allocator (\<open>src/src/native/EarlyPageAllocator.cc\<close>, \<open>EarlyPageAllocator.h\<close>), the
  memory map of the firmware (\<open>E820.h\<close>) and the assignment of frames to nodes (\<open>Numa.cc\<close>).

  A \<open>PageRange\<close> is constructed in the first page it describes; the intrusive set that orders the ranges
  by address is the list \<open>prange list\<close>.  The half-open intervals of the interval library are pairs;
  its operations are the fields of \<open>icl_interval\<close>, with the documented laws in \<open>interval_laws\<close>.
\<close>

section \<open>Ranges of free pages\<close>

type_synonym nid = int

definition Nid_None :: nid where "Nid_None = -1"

definition Nid_Any :: nid where "Nid_Any = -2"

record prange =
  pr_start :: pfn
  pr_npages :: nat
  pr_nid :: nid

definition PageRange :: "pfn \<Rightarrow> nat \<Rightarrow> nid \<Rightarrow> prange" where
  "PageRange start npages n = \<lparr>pr_start = start, pr_npages = npages, pr_nid = n\<rparr>"

definition pr_end :: "prange \<Rightarrow> pfn" where
  "pr_end r = (pr_start r + pr_npages r) mod u64"

fun set_insert :: "prange \<Rightarrow> prange list \<Rightarrow> prange list" where
  "set_insert r [] = [r]"
| "set_insert r (x # xs) =
    (if pr_start r < pr_start x then r # x # xs
     else if pr_start r = pr_start x then x # xs
     else x # set_insert r xs)"

text \<open>The flag tells whether the two ranges were merged into the first.\<close>

definition coalesce :: "prange \<Rightarrow> prange \<Rightarrow> bool \<times> prange" where
  "coalesce a b = (if pr_end a \<noteq> pr_start b then (False, b)
    else (True, a\<lparr>pr_npages := (pr_npages a + pr_npages b) mod u64\<rparr>))"

text \<open>The part of \<open>FreePageRange\<close> after the insertion, on the ranges before and after the iterator.\<close>

definition coalesce_around :: "prange list \<Rightarrow> prange \<Rightarrow> prange list \<Rightarrow> prange list" where
  "coalesce_around bs it cs =
    (let (bs, it) = (if bs = [] then (bs, it) else
           case coalesce (last bs) it of (merged, a) \<Rightarrow> if merged then (butlast bs, a) else (bs, it))
     in if cs = [] then bs @ [it]
        else case coalesce it (hd cs) of (merged, a) \<Rightarrow> if merged then bs @ a # tl cs else bs @ it # cs)"

text \<open>Constructing a range over the node of a range that is in the set destroys its links.\<close>

definition FreePageRange :: "pfn \<Rightarrow> pfn \<Rightarrow> nid \<Rightarrow> prange list \<Rightarrow> prange list result" where
  "FreePageRange start fin n fp =
    (if \<exists>x \<in> set fp. pr_start x = start then Inl (Undefined ''placement new over a linked node'')
     else
       let fp1 = set_insert (PageRange start (fin - start) n) fp;
           bs = takeWhile (\<lambda>x. pr_start x < start) fp1;
           rest = dropWhile (\<lambda>x. pr_start x < start) fp1
       in Inr (coalesce_around bs (hd rest) (tl rest)))"

definition FreePage :: "pfn \<Rightarrow> pfn \<Rightarrow> nid \<Rightarrow> prange list \<Rightarrow> prange list result" where
  "FreePage = FreePageRange"

fun AllocatePage :: "nat \<Rightarrow> nid \<Rightarrow> prange list \<Rightarrow> (pfn \<times> prange list) result" where
  "AllocatePage npages n [] = Inl (KAbort ''unable to allocate pages'')"
| "AllocatePage npages n (r # rs) =
    (let ret = (pr_end r + u64 - npages) mod u64 in
     if n \<noteq> Nid_Any \<and> pr_nid r \<noteq> n \<or> ret < pr_start r then
       bindr (AllocatePage npages n rs) (\<lambda>(p, rs'). Inr (p, r # rs'))
     else if ret = pr_start r then Inr (ret, rs)
     else Inr (ret, r\<lparr>pr_npages := (pr_npages r + u64 - npages) mod u64\<rparr> # rs))"

function SetNidRange :: "pfn \<Rightarrow> pfn \<Rightarrow> nid \<Rightarrow> prange list \<Rightarrow> prange list" where
  "SetNidRange start fin n [] = []"
| "SetNidRange start fin n (r # rs) =
    (if pr_end r \<le> start then r # SetNidRange start fin n rs
     else if fin \<le> pr_start r then r # rs
     else if pr_start r < start \<and> start < pr_end r then
       let new_end = min fin (pr_end r) in
       r\<lparr>pr_npages := start - pr_start r\<rparr> #
         SetNidRange start fin n (set_insert (PageRange start ((new_end + u64 - start) mod u64) n) rs)
     else if pr_start r < fin \<and> fin < pr_end r then
       r\<lparr>pr_npages := fin - pr_start r, pr_nid := n\<rparr> #
         SetNidRange start fin n (set_insert (PageRange fin (pr_end r - fin) Nid_Any) rs)
     else r\<lparr>pr_nid := n\<rparr> # SetNidRange start fin n rs)"
  by pat_completeness auto

definition visit_weight :: "pfn \<Rightarrow> pfn \<Rightarrow> prange \<Rightarrow> nat" where
  "visit_weight start fin r = (if pr_start r < start then 2 else if pr_start r < fin then 1 else 0)"

lemma visit_weight_insert:
  "sum_list (map (visit_weight s e) (set_insert r rs)) \<le> visit_weight s e r + sum_list (map (visit_weight s e) rs)"
  by (induction rs) auto

termination SetNidRange
proof (relation "measures [\<lambda>(s, e, n, rs). sum_list (map (visit_weight s e) rs), \<lambda>(s, e, n, rs). length rs]", goal_cases)
  case (3 start fin n r rs x)
  have "visit_weight start fin (PageRange start ((x + u64 - start) mod u64) n) < visit_weight start fin r"
    using 3 by (auto simp: visit_weight_def PageRange_def)
  then show ?case using visit_weight_insert [of start fin "PageRange start ((x + u64 - start) mod u64) n" rs] by simp
next
  case (4 start fin n r rs)
  have "visit_weight start fin (PageRange fin (pr_end r - fin) Nid_Any) < visit_weight start fin r"
    using 4 by (auto simp: visit_weight_def PageRange_def)
  then show ?case using visit_weight_insert [of start fin "PageRange fin (pr_end r - fin) Nid_Any" rs] by simp
qed auto

text \<open>\<open>ReleaseFreePages\<close> takes every range out of the set before it hands it to the callback.\<close>

fun ReleaseFreePages :: "(pfn \<Rightarrow> pfn \<Rightarrow> nid \<Rightarrow> 's \<Rightarrow> 's result) \<Rightarrow> prange list \<Rightarrow> 's \<Rightarrow> (prange list \<times> 's) result" where
  "ReleaseFreePages f [] s = Inr ([], s)"
| "ReleaseFreePages f (r # rs) s = bindr (f (pr_start r) (pr_end r) (pr_nid r) s) (ReleaseFreePages f rs)"

section \<open>Memory ranges\<close>

type_synonym interval = "nat \<times> nat"

record icl_interval =
  intersects :: "interval \<Rightarrow> interval \<Rightarrow> bool"
  left_subtract :: "interval \<Rightarrow> interval \<Rightarrow> interval"
  right_subtract :: "interval \<Rightarrow> interval \<Rightarrow> interval"

definition ivl :: "interval \<Rightarrow> nat set" where "ivl i = {fst i..<snd i}"

definition interval_laws :: "icl_interval \<Rightarrow> bool" where
  "interval_laws b \<longleftrightarrow> (\<forall>i j. (intersects b i j \<longleftrightarrow> ivl i \<inter> ivl j \<noteq> {}) \<and>
     (ivl i \<inter> ivl j \<noteq> {} \<longrightarrow> ivl (left_subtract b i j) = {x \<in> ivl i. snd j \<le> x} \<and>
       ivl (right_subtract b i j) = {x \<in> ivl i. x < fst j}))"

definition interval_empty :: "interval \<Rightarrow> bool" where "interval_empty i \<longleftrightarrow> snd i \<le> fst i"

text \<open>The recursion is at most as deep as there are reserved ranges; the first argument counts it.\<close>

function FreeMemoryRange ::
    "nat \<Rightarrow> icl_interval \<Rightarrow> interval list \<Rightarrow> nat \<Rightarrow> nat \<Rightarrow> nid \<Rightarrow> prange list \<Rightarrow> prange list result"
  and reserved_loop ::
    "nat \<Rightarrow> icl_interval \<Rightarrow> interval list \<Rightarrow> interval list \<Rightarrow> interval \<Rightarrow> nid \<Rightarrow> prange list \<Rightarrow> prange list result" where
  "FreeMemoryRange 0 b R begin len n fp = Inl (Undefined ''recursion depth'')"
| "FreeMemoryRange (Suc k) b R begin len n fp = reserved_loop k b R R (begin, (begin + len) mod u64) n fp"
| "reserved_loop k b R [] interval n fp =
    (if snd interval - fst interval < kPageSize then Inr fp
     else let pfn_start = Pfn_Up (fst interval); pfn_end = Pfn_Down (snd interval) in
       if pfn_end \<le> pfn_start then Inr fp else FreePageRange pfn_start pfn_end n fp)"
| "reserved_loop k b R (it # rs) interval n fp =
    (if \<not> intersects b interval it then reserved_loop k b R rs interval n fp
     else let left_over = left_subtract b interval it; right_over = right_subtract b interval it in
       if interval_empty left_over \<and> interval_empty right_over then Inr fp
       else if interval_empty left_over then reserved_loop k b R rs right_over n fp
       else if interval_empty right_over then reserved_loop k b R rs left_over n fp
       else bindr (FreeMemoryRange k b R (fst right_over) (snd right_over - fst right_over) n fp)
         (reserved_loop k b R rs left_over n))"
  by pat_completeness auto
termination
  by (relation "measures [\<lambda>x. case x of Inl (k, _) \<Rightarrow> 2 * k | Inr (k, _) \<Rightarrow> 2 * k + 1,
      \<lambda>x. case x of Inl _ \<Rightarrow> 0 | Inr (k, b, R, rs, _) \<Rightarrow> length rs]") auto

definition ReserveRange :: "nat \<Rightarrow> nat \<Rightarrow> interval list \<Rightarrow> interval list" where
  "ReserveRange begin fin R = R @ [(begin, fin)]"

section \<open>The memory map of the firmware\<close>

record e820 =
  e_addr :: nat
  e_length :: nat
  e_type :: nat

definition TrimBelow :: "nat \<Rightarrow> e820 \<Rightarrow> e820" where
  "TrimBelow a e = (if a < e_addr e \<or> (e_addr e + e_length e) mod u64 < a then e
    else e\<lparr>e_length := e_length e - (a - e_addr e), e_addr := a\<rparr>)"

definition TrimAbove :: "nat \<Rightarrow> e820 \<Rightarrow> e820" where
  "TrimAbove a e = (if a < e_addr e \<or> (e_addr e + e_length e) mod u64 < a then e
    else e\<lparr>e_length := e_length e - (e_addr e + e_length e - a)\<rparr>)"

text \<open>What \<open>Main\<close> frees of a usable region: the part above the kernel and below the first gigabyte, and, once that is
  mapped, the part from there on.\<close>

definition initial_map_end :: nat where "initial_map_end = 2 ^ 30"

definition free_first :: "nat \<Rightarrow> e820 \<Rightarrow> (nat \<times> nat) option" where
  "free_first kend_addr e =
    (if (e_addr e + e_length e) mod u64 \<le> kend_addr then None
     else let e' = TrimAbove initial_map_end (TrimBelow kend_addr e) in
       if e_addr e' < initial_map_end then Some (e_addr e', e_length e') else None)"

definition free_second :: "e820 \<Rightarrow> (nat \<times> nat) option" where
  "free_second e =
    (if (e_addr e + e_length e) mod u64 < initial_map_end then None
     else let e' = TrimBelow initial_map_end e in Some (e_addr e', e_length e'))"

section \<open>The free frames\<close>

definition pr_frames :: "prange \<Rightarrow> pfn set" where
  "pr_frames r = {pr_start r..<pr_start r + pr_npages r}"

definition fp_frames :: "prange list \<Rightarrow> pfn set" where
  "fp_frames fp = (\<Union>r \<in> set fp. pr_frames r)"

definition pr_ok :: "prange \<Rightarrow> bool" where
  "pr_ok r \<longleftrightarrow> 0 < pr_npages r \<and> pr_start r + pr_npages r \<le> 2 ^ 52"

definition fp_ok :: "prange list \<Rightarrow> bool" where
  "fp_ok fp \<longleftrightarrow> sorted_wrt (\<lambda>a b. pr_start a + pr_npages a \<le> pr_start b) fp \<and> (\<forall>r \<in> set fp. pr_ok r)"

lemmas fp_defs = fp_ok_def pr_ok_def fp_frames_def pr_frames_def

lemma pr_end_val: "pr_ok r \<Longrightarrow> pr_end r = pr_start r + pr_npages r"
  by (simp add: pr_end_def pr_ok_def)

lemma fp_ok_Nil [simp]: "fp_ok []" by (simp add: fp_ok_def)

lemma fp_ok_Cons:
  "fp_ok (r # rs) \<longleftrightarrow> pr_ok r \<and> (\<forall>x \<in> set rs. pr_start r + pr_npages r \<le> pr_start x) \<and> fp_ok rs"
  by (auto simp: fp_ok_def)

lemma fp_ok_append:
  "fp_ok (xs @ ys) \<longleftrightarrow> fp_ok xs \<and> fp_ok ys \<and> (\<forall>x \<in> set xs. \<forall>y \<in> set ys. pr_start x + pr_npages x \<le> pr_start y)"
  by (auto simp: fp_ok_def sorted_wrt_append)

lemma fp_frames_simps [simp]:
  "fp_frames [] = {}" "fp_frames (r # rs) = pr_frames r \<union> fp_frames rs" "fp_frames (xs @ ys) = fp_frames xs \<union> fp_frames ys"
  by (auto simp: fp_frames_def)

lemma fp_ok_disjoint: "fp_ok (r # rs) \<Longrightarrow> pr_frames r \<inter> fp_frames rs = {}"
  by (fastforce simp: fp_ok_Cons fp_frames_def pr_frames_def)

lemma fp_merge:
  assumes "fp_ok (xs @ a # b # ys)" "pr_end a = pr_start b"
  defines "m \<equiv> a\<lparr>pr_npages := (pr_npages a + pr_npages b) mod u64\<rparr>"
  shows "fp_ok (xs @ m # ys)" "fp_frames (xs @ m # ys) = fp_frames (xs @ a # b # ys)"
proof -
  have ab: "pr_ok a" "pr_ok b" "fp_ok ys" "\<forall>y \<in> set ys. pr_start b + pr_npages b \<le> pr_start y"
    "\<forall>x \<in> set xs. pr_start x + pr_npages x \<le> pr_start a" "fp_ok xs" "\<forall>x \<in> set xs. \<forall>y \<in> set ys. pr_start x + pr_npages x \<le> pr_start y"
    using assms(1) by (auto simp: fp_ok_append fp_ok_Cons)
  have e: "pr_start a + pr_npages a = pr_start b" using assms(2) ab(1) by (simp add: pr_end_val)
  have m: "pr_start m = pr_start a" "pr_npages m = pr_npages a + pr_npages b"
    using e ab(2) by (simp_all add: m_def pr_ok_def)
  have "pr_ok m" using ab(1,2) e m by (simp add: pr_ok_def)
  moreover have "\<forall>y \<in> set ys. pr_start m + pr_npages m \<le> pr_start y" using ab(4) e m by (simp add: add.assoc [symmetric])
  ultimately show "fp_ok (xs @ m # ys)" using ab m by (simp add: fp_ok_append fp_ok_Cons)
  have "pr_frames m = pr_frames a \<union> pr_frames b" using e by (auto simp: pr_frames_def m)
  then show "fp_frames (xs @ m # ys) = fp_frames (xs @ a # b # ys)" by auto
qed

lemma set_insert_split:
  "\<forall>x \<in> set fp. pr_start x \<noteq> pr_start r \<Longrightarrow>
    set_insert r fp = takeWhile (\<lambda>x. pr_start x < pr_start r) fp @ r # dropWhile (\<lambda>x. pr_start x < pr_start r) fp"
  by (induction fp) auto

lemma fp_split_ok:
  fixes n :: nid
  assumes "fp_ok fp" "s < e" "e \<le> 2 ^ 52" "{s..<e} \<inter> fp_frames fp = {}"
  defines "r \<equiv> PageRange s (e - s) n"
  shows "\<forall>x \<in> set fp. pr_start x \<noteq> s"
    "fp_ok (takeWhile (\<lambda>x. pr_start x < s) fp @ r # dropWhile (\<lambda>x. pr_start x < s) fp)"
proof -
  have out: "pr_start x \<noteq> s" "pr_start x < s \<Longrightarrow> pr_start x + pr_npages x \<le> s" "s \<le> pr_start x \<Longrightarrow> e \<le> pr_start x" if "x \<in> set fp" for x
  proof -
    have "0 < pr_npages x" using assms(1) that by (simp add: fp_ok_def pr_ok_def)
    moreover have "{s..<e} \<inter> pr_frames x = {}" using assms(4) that by (auto simp: fp_frames_def)
    then have "s \<notin> pr_frames x" "pr_start x \<in> pr_frames x \<Longrightarrow> pr_start x \<notin> {s..<e}" using assms(2) by auto
    ultimately show "pr_start x \<noteq> s" "pr_start x < s \<Longrightarrow> pr_start x + pr_npages x \<le> s" "s \<le> pr_start x \<Longrightarrow> e \<le> pr_start x"
      by (auto simp: pr_frames_def)
  qed
  show "\<forall>x \<in> set fp. pr_start x \<noteq> s" using out(1) by blast
  let ?B = "takeWhile (\<lambda>x. pr_start x < s) fp" and ?C = "dropWhile (\<lambda>x. pr_start x < s) fp"
  have f: "fp_ok (?B @ ?C)" using assms(1) by simp
  have B: "pr_start x + pr_npages x \<le> s" if "x \<in> set ?B" for x
    using that out(2) set_takeWhileD by fastforce
  have C: "e \<le> pr_start x" if "x \<in> set ?C" for x
  proof -
    have "x \<in> set fp" using that by (rule set_dropWhileD)
    moreover have "s \<le> pr_start x"
    proof (cases ?C)
      case Nil
      then show ?thesis using that unfolding Nil by simp
    next
      case (Cons c cs)
      then have "\<not> pr_start c < s" using hd_dropWhile [of "\<lambda>x. pr_start x < s" fp] by force
      moreover have "pr_start c \<le> pr_start x" using f that Cons by (auto simp: fp_ok_append fp_ok_Cons)
      ultimately show ?thesis by simp
    qed
    ultimately show ?thesis using out(3) by blast
  qed
  have "pr_ok r" "pr_start r = s" "pr_npages r = e - s" using assms(2,3) by (simp_all add: r_def PageRange_def pr_ok_def)
  then show "fp_ok (?B @ r # ?C)" using f B C assms(2) unfolding fp_ok_append fp_ok_Cons by auto
qed

lemma coalesce_around_ok:
  assumes "fp_ok (bs @ it # cs)"
  shows "fp_ok (coalesce_around bs it cs)" "fp_frames (coalesce_around bs it cs) = fp_frames (bs @ it # cs)"
proof -
  define p where "p = (if bs = [] then (bs, it) else
      case coalesce (last bs) it of (merged, a) \<Rightarrow> if merged then (butlast bs, a) else (bs, it))"
  have p: "fp_ok (fst p @ snd p # cs) \<and> fp_frames (fst p @ snd p # cs) = fp_frames (bs @ it # cs)"
  proof (cases "bs = [] \<or> pr_end (last bs) \<noteq> pr_start it")
    case True
    then show ?thesis using assms by (auto simp: p_def coalesce_def)
  next
    case False
    then have b: "bs @ it # cs = butlast bs @ last bs # it # cs"
      using append_butlast_last_id [of bs] by (metis append.assoc append_Cons append_Nil)
    show ?thesis using False fp_merge [of "butlast bs" "last bs" it cs] assms unfolding b by (simp add: p_def coalesce_def)
  qed
  have c: "coalesce_around bs it cs = (if cs = [] then fst p @ [snd p]
      else case coalesce (snd p) (hd cs) of (merged, a) \<Rightarrow> if merged then fst p @ a # tl cs else fst p @ snd p # cs)"
    unfolding coalesce_around_def p_def [symmetric] by (simp add: case_prod_beta Let_def)
  show "fp_ok (coalesce_around bs it cs)" "fp_frames (coalesce_around bs it cs) = fp_frames (bs @ it # cs)"
    using p fp_merge [of "fst p" "snd p" "hd cs" "tl cs"] unfolding c by (cases cs; auto simp: coalesce_def)+
qed

lemma FreePageRange_ok:
  assumes "fp_ok fp" "s < e" "e \<le> 2 ^ 52" "{s..<e} \<inter> fp_frames fp = {}"
  shows "\<exists>fp'. FreePageRange s e n fp = Inr fp' \<and> fp_ok fp' \<and> fp_frames fp' = fp_frames fp \<union> {s..<e}"
proof -
  let ?r = "PageRange s (e - s) n" and ?B = "takeWhile (\<lambda>x. pr_start x < s) fp" and ?C = "dropWhile (\<lambda>x. pr_start x < s) fp"
  have n: "\<forall>x \<in> set fp. pr_start x \<noteq> s" and ok: "fp_ok (?B @ ?r # ?C)" using fp_split_ok [OF assms] by blast+
  have "fp_frames fp = fp_frames ?B \<union> fp_frames ?C" by (metis fp_frames_simps(3) takeWhile_dropWhile_id)
  moreover have "pr_frames ?r = {s..<e}" using assms(2) by (auto simp: pr_frames_def PageRange_def)
  ultimately have fr: "fp_frames (?B @ ?r # ?C) = fp_frames fp \<union> {s..<e}" by auto
  have s: "pr_start ?r = s" by (simp add: PageRange_def)
  have ins: "set_insert ?r fp = ?B @ ?r # ?C" using set_insert_split [of fp ?r] n by (simp add: s)
  have "takeWhile (\<lambda>x. pr_start x < s) (?B @ ?r # ?C) = ?B" "dropWhile (\<lambda>x. pr_start x < s) (?B @ ?r # ?C) = ?r # ?C"
    using s by (subst takeWhile_append2, auto dest: set_takeWhileD, subst dropWhile_append2, auto dest: set_takeWhileD)
  then have "FreePageRange s e n fp = Inr (coalesce_around ?B ?r ?C)" using n by (simp add: FreePageRange_def Let_def ins)
  then show ?thesis using coalesce_around_ok [OF ok] fr by simp
qed

section \<open>Freeing a range of memory around the reserved ranges\<close>

definition page_bytes :: "pfn \<Rightarrow> nat set" where "page_bytes p = {4096 * p..<4096 * p + 4096}"

text \<open>The whole pages of a set of addresses that no reserved range touches.\<close>

definition usable :: "nat set \<Rightarrow> interval list \<Rightarrow> pfn set" where
  "usable I R = {p. page_bytes p \<subseteq> I \<and> (\<forall>r \<in> set R. page_bytes p \<inter> ivl r = {})}"

lemma usable_disjoint: "I \<inter> J = {} \<Longrightarrow> usable I R \<inter> usable J R = {}"
proof -
  assume d: "I \<inter> J = {}"
  have "4096 * p \<in> page_bytes p" for p by (simp add: page_bytes_def)
  then show ?thesis using d by (fastforce simp: usable_def)
qed

lemma usable_split:
  assumes "r \<in> set R" "ivl i \<inter> ivl r \<noteq> {}"
  shows "usable (ivl i) R = usable {x \<in> ivl i. snd r \<le> x} R \<union> usable {x \<in> ivl i. x < fst r} R"
proof
  show "usable (ivl i) R \<subseteq> usable {x \<in> ivl i. snd r \<le> x} R \<union> usable {x \<in> ivl i. x < fst r} R"
  proof
    fix p assume p: "p \<in> usable (ivl i) R"
    have r: "fst r < snd r" using assms(2) by (auto simp: ivl_def)
    have d: "page_bytes p \<inter> ivl r = {}" using p assms(1) by (simp add: usable_def)
    have "snd r \<le> 4096 * p \<or> 4096 * p + 4096 \<le> fst r"
    proof (rule ccontr)
      assume "\<not> ?thesis"
      then have "max (4096 * p) (fst r) \<in> page_bytes p \<inter> ivl r" using r by (auto simp: page_bytes_def ivl_def)
      then show False using d by blast
    qed
    then show "p \<in> usable {x \<in> ivl i. snd r \<le> x} R \<union> usable {x \<in> ivl i. x < fst r} R"
      using p by (auto simp: usable_def page_bytes_def)
  qed
qed (auto simp: usable_def)

lemma usable_empty [simp]: "usable {} R = {}"
  by (auto simp: usable_def page_bytes_def)

lemma usable_whole:
  assumes "\<forall>r \<in> set R. ivl i \<inter> ivl r = {}" "4096 \<le> snd i - fst i" "snd i < u64"
  shows "usable (ivl i) R = {Pfn_Up (fst i)..<Pfn_Down (snd i)}"
proof -
  have "Pfn_Up (fst i) = (fst i + 4095) div 4096" "Pfn_Down (snd i) = snd i div 4096"
    using assms(2,3) by (simp_all add: Pfn_Up_def Pfn_Down_def kPageShift_def kPageSize_def drop_bit_eq_div)
  moreover have "usable (ivl i) R = {p. page_bytes p \<subseteq> ivl i}" using assms(1) by (auto simp: usable_def)
  moreover have "page_bytes p \<subseteq> ivl i \<longleftrightarrow> fst i \<le> 4096 * p \<and> 4096 * p + 4096 \<le> snd i" for p
    by (auto simp: page_bytes_def ivl_def)
  moreover have "fst i \<le> 4096 * p \<longleftrightarrow> (fst i + 4095) div 4096 \<le> p" for p by linarith
  moreover have "4096 * p + 4096 \<le> snd i \<longleftrightarrow> p < snd i div 4096" for p by linarith
  ultimately show ?thesis by auto
qed

lemma usable_small: "snd i - fst i < 4096 \<Longrightarrow> usable (ivl i) R = {}"
  by (auto simp: usable_def page_bytes_def ivl_def)

definition hits :: "interval list \<Rightarrow> nat set \<Rightarrow> nat" where
  "hits R I = length (filter (\<lambda>r. I \<inter> ivl r \<noteq> {}) R)"

lemma hits_mono: "I \<subseteq> J \<Longrightarrow> hits R I \<le> hits R J"
  by (induction R) (auto simp: hits_def)

lemma hits_none: "\<forall>r \<in> set R. I \<inter> ivl r = {} \<Longrightarrow> hits R I = 0"
  by (auto simp: hits_def filter_empty_conv)

lemma hits_simps [simp]: "hits (r # R) I = (if I \<inter> ivl r = {} then 0 else 1) + hits R I" "hits (R @ S) I = hits R I + hits S I"
  by (simp_all add: hits_def)

lemma FreePages_end:
  assumes "\<forall>r \<in> set R. ivl i \<inter> ivl r = {}" "snd i < u64" "fp_ok fp" "usable (ivl i) R \<inter> fp_frames fp = {}"
  shows "\<exists>fp'. reserved_loop k b R [] i n fp = Inr fp' \<and> fp_ok fp' \<and> fp_frames fp' = fp_frames fp \<union> usable (ivl i) R"
proof (cases "snd i - fst i < 4096")
  case True
  then show ?thesis using assms(3) usable_small [OF True] by (simp add: kPageSize_def kPageShift_def)
next
  case False
  have u: "usable (ivl i) R = {Pfn_Up (fst i)..<Pfn_Down (snd i)}" using usable_whole [OF assms(1) _ assms(2)] False by simp
  have "Pfn_Down (snd i) \<le> 2 ^ 52" using assms(2) by (simp add: Pfn_Down_def kPageShift_def drop_bit_eq_div)
  then show ?thesis
    using False FreePageRange_ok [OF assms(3), of "Pfn_Up (fst i)" "Pfn_Down (snd i)" n] assms(3,4) unfolding u
    by (cases "Pfn_Down (snd i) \<le> Pfn_Up (fst i)") (auto simp: kPageSize_def kPageShift_def Let_def)
qed

lemma ivl_snd: "ivl i = {x \<in> ivl j. P x} \<Longrightarrow> \<not> interval_empty i \<Longrightarrow> snd j < u64 \<Longrightarrow> snd i < u64"
proof -
  assume a: "ivl i = {x \<in> ivl j. P x}" "\<not> interval_empty i" "snd j < u64"
  then have "snd i - 1 \<in> ivl i" unfolding ivl_def interval_empty_def atLeastLessThan_iff by linarith
  then have "snd i - 1 < snd j" unfolding a(1) by (simp add: ivl_def)
  then show "snd i < u64" using a(3) by linarith
qed

lemma ivl_empty: "interval_empty i \<longleftrightarrow> ivl i = {}"
  by (auto simp: ivl_def interval_empty_def)

lemma reserved_loop_ok:
  assumes "interval_laws b" "hits rs (ivl i) \<le> k" "R = ds @ rs" "\<forall>d \<in> set ds. ivl i \<inter> ivl d = {}" "snd i < u64"
    "fp_ok fp" "usable (ivl i) R \<inter> fp_frames fp = {}"
  shows "\<exists>fp'. reserved_loop k b R rs i n fp = Inr fp' \<and> fp_ok fp' \<and> fp_frames fp' = fp_frames fp \<union> usable (ivl i) R"
  using assms(2-)
proof (induction k arbitrary: ds rs i fp rule: less_induct)
  case (less k)
  from less.prems show ?case
  proof (induction rs arbitrary: ds i fp)
    case Nil
    then show ?case using FreePages_end by simp
  next
    case (Cons r rs)
    let ?lo = "left_subtract b i r" and ?ro = "right_subtract b i r"
    have laws: "intersects b i r \<longleftrightarrow> ivl i \<inter> ivl r \<noteq> {}"
      "ivl i \<inter> ivl r \<noteq> {} \<Longrightarrow> ivl ?lo = {x \<in> ivl i. snd r \<le> x}" "ivl i \<inter> ivl r \<noteq> {} \<Longrightarrow> ivl ?ro = {x \<in> ivl i. x < fst r}"
      using assms(1) unfolding interval_laws_def by blast+
    show ?case
    proof (cases "ivl i \<inter> ivl r = {}")
      case True
      then show ?thesis using Cons.IH [of i "ds @ [r]" fp] Cons.prems laws(1) by simp
    next
      case False
      note laws = laws(1) laws(2,3) [OF False]
      have u: "usable (ivl i) R = usable (ivl ?lo) R \<union> usable (ivl ?ro) R"
        using usable_split [OF _ False, of R] Cons.prems(2) unfolding laws(2,3) by simp
      have sub: "ivl ?lo \<subseteq> ivl i" "ivl ?ro \<subseteq> ivl i" using laws by auto
      have off: "ivl ?lo \<inter> ivl r = {}" "ivl ?ro \<inter> ivl r = {}" unfolding laws by (auto simp: ivl_def)
      have dis: "\<forall>d \<in> set (ds @ [r]). ivl ?lo \<inter> ivl d = {}" "\<forall>d \<in> set (ds @ [r]). ivl ?ro \<inter> ivl d = {}"
        using Cons.prems(3) sub off by (auto simp: disjoint_iff) 
      have R: "R = (ds @ [r]) @ rs" using Cons.prems(2) by simp
      have h: "hits rs (ivl ?lo) < k" "hits rs (ivl ?ro) < k" "hits R (ivl ?ro) < k"
        using hits_mono [OF sub(1), of rs] hits_mono [OF sub(2), of rs] Cons.prems(1) False hits_none [OF dis(2)] unfolding R by auto
      have lo: "\<exists>fp'. reserved_loop k b R rs ?lo n fq = Inr fp' \<and> fp_ok fp' \<and> fp_frames fp' = fp_frames fq \<union> usable (ivl ?lo) R"
        if "\<not> interval_empty ?lo" "fp_ok fq" "usable (ivl ?lo) R \<inter> fp_frames fq = {}" for fq
        using Cons.IH [OF _ R dis(1) ivl_snd [OF laws(2) that(1) Cons.prems(4)] that(2,3)] h(1) by simp
      have ro: "\<exists>fp'. reserved_loop k b R rs ?ro n fp = Inr fp' \<and> fp_ok fp' \<and> fp_frames fp' = fp_frames fp \<union> usable (ivl ?ro) R"
        if "\<not> interval_empty ?ro" "fp_ok fp" "usable (ivl ?ro) R \<inter> fp_frames fp = {}"
        using Cons.IH [OF _ R dis(2) ivl_snd [OF laws(3) that(1) Cons.prems(4)] that(2,3)] h(2) by simp
      note pre = Cons.prems(5,6)
      consider "interval_empty ?lo" "interval_empty ?ro" | "interval_empty ?lo" "\<not> interval_empty ?ro"
        | "\<not> interval_empty ?lo" "interval_empty ?ro" | "\<not> interval_empty ?lo" "\<not> interval_empty ?ro" by blast
      then show ?thesis
      proof cases
        case 1
        then show ?thesis using False laws(1) pre by (simp add: u ivl_empty Let_def)
      next
        case 2
        then show ?thesis using False laws(1) ro pre by (auto simp: u ivl_empty Let_def)
      next
        case 3
        then show ?thesis using False laws(1) lo pre by (auto simp: u ivl_empty Let_def)
      next
        case 4
        obtain k' where k: "k = Suc k'" using h(3) by (cases k) auto
        have ls: "snd ?ro < u64" using ivl_snd [OF laws(3) 4(2) Cons.prems(4)] .
        have "fst ?ro + (snd ?ro - fst ?ro) = snd ?ro" using 4(2) by (simp add: interval_empty_def)
        then have e: "FreeMemoryRange k b R (fst ?ro) (snd ?ro - fst ?ro) n fp = reserved_loop k' b R R ?ro n fp"
          using ls by (simp add: k)
        have "usable (ivl ?ro) R \<inter> fp_frames fp = {}" using pre(2) u by blast
        then obtain fq where fq: "reserved_loop k' b R R ?ro n fp = Inr fq" "fp_ok fq" "fp_frames fq = fp_frames fp \<union> usable (ivl ?ro) R"
          using less.IH [of k' R ?ro "[]" fp] h(3) ls pre(1) by (auto simp: k)
        have "usable (ivl ?lo) R \<inter> usable (ivl ?ro) R = {}"
          by (rule usable_disjoint) (use False in \<open>auto simp: laws(2,3), auto simp: ivl_def\<close>)
        then have "usable (ivl ?lo) R \<inter> fp_frames fq = {}" using pre(2) u fq(3) by blast
        from lo [OF 4(1) fq(2) this] show ?thesis using False laws(1) 4 e fq by (auto simp: u Let_def)
      qed
    qed
  qed
qed

section \<open>Allocation\<close>

definition matches :: "nid \<Rightarrow> prange \<Rightarrow> bool" where
  "matches n r \<longleftrightarrow> n = Nid_Any \<or> pr_nid r = n"

lemma alloc_ret:
  assumes "pr_ok r" "k \<le> pr_start r + pr_npages r"
  shows "(pr_end r + u64 - k) mod u64 = pr_start r + pr_npages r - k"
proof -
  have "pr_end r + u64 - k = (pr_start r + pr_npages r - k) + u64" using assms by (simp add: pr_end_val)
  moreover have "pr_start r + pr_npages r - k < u64" using assms(1) by (auto simp: pr_ok_def)
  ultimately show ?thesis by simp
qed

lemma AllocatePage_take:
  assumes "fp_ok fp" "0 < k" "\<forall>r \<in> set fp. k \<le> pr_start r + pr_npages r" "AllocatePage k n fp = Inr (p, fp')"
  shows "fp_ok fp' \<and> fp_frames fp' = fp_frames fp - {p..<p + k} \<and> (\<exists>r \<in> set fp. matches n r \<and> {p..<p + k} \<subseteq> pr_frames r) \<and>
    (\<forall>x \<in> set fp'. \<exists>r \<in> set fp. pr_start x = pr_start r \<and> pr_npages x \<le> pr_npages r)"
  using assms(1,3,4)
proof (induction fp arbitrary: fp')
  case (Cons r rs)
  have r: "pr_ok r" "fp_ok rs" "\<forall>x \<in> set rs. pr_start r + pr_npages r \<le> pr_start x" using Cons.prems(1) by (simp_all add: fp_ok_Cons)
  have e: "(pr_end r + u64 - k) mod u64 = pr_start r + pr_npages r - k" using alloc_ret [OF r(1)] Cons.prems(2) by simp
  have d: "pr_frames r \<inter> fp_frames rs = {}" using fp_ok_disjoint Cons.prems(1) by blast
  consider (skip) "\<not> matches n r \<or> pr_npages r < k" | (all) "matches n r" "pr_npages r = k" | (cut) "matches n r" "k < pr_npages r"
    by linarith
  then show ?case
  proof cases
    case skip
    then have "n \<noteq> Nid_Any \<and> pr_nid r \<noteq> n \<or> (pr_end r + u64 - k) mod u64 < pr_start r"
      using e Cons.prems(2) by (auto simp: matches_def)
    then obtain rs' where 1: "AllocatePage k n rs = Inr (p, rs')" "fp' = r # rs'"
      using Cons.prems(3) by (auto simp: bindr_eq_Inr_iff Let_def)
    from Cons.IH [OF r(2) _ 1(1)] Cons.prems(2)
    have 2: "fp_ok rs'" "fp_frames rs' = fp_frames rs - {p..<p + k}" "\<exists>r \<in> set rs. matches n r \<and> {p..<p + k} \<subseteq> pr_frames r"
      "\<forall>x \<in> set rs'. \<exists>r \<in> set rs. pr_start x = pr_start r \<and> pr_npages x \<le> pr_npages r" by auto
    have "{p..<p + k} \<subseteq> fp_frames rs" using 2(3) by (auto simp: fp_frames_def)
    then have "pr_frames r - {p..<p + k} = pr_frames r" using d by blast
    moreover have "fp_ok (r # rs')" using 2(1,4) r by (fastforce simp: fp_ok_Cons)
    ultimately show ?thesis using 2 1(2) by (auto simp: Un_Diff)
  next
    case all
    then have "p = pr_start r" "fp' = rs" using Cons.prems(3) e by (auto simp: matches_def Let_def split: if_splits)
    then show ?thesis using all d r by (auto simp: pr_frames_def)
  next
    case cut
    have "pr_start r + pr_npages r - k \<noteq> pr_start r" "\<not> pr_start r + pr_npages r - k < pr_start r" using cut(2) assms(2) by linarith+
    then have p: "p = pr_start r + pr_npages r - k" "fp' = r\<lparr>pr_npages := (pr_npages r + u64 - k) mod u64\<rparr> # rs"
      using Cons.prems(3) cut(1) unfolding AllocatePage.simps e Let_def matches_def by auto
    have m: "(pr_npages r + u64 - k) mod u64 = pr_npages r - k" using cut(2) r(1) by (simp add: pr_ok_def mod_if)
    let ?r = "r\<lparr>pr_npages := pr_npages r - k\<rparr>"
    have "pr_frames ?r = pr_frames r - {p..<p + k}" "{p..<p + k} \<subseteq> pr_frames r" using cut(2) by (auto simp: pr_frames_def p(1))
    moreover have "fp_ok (?r # rs)" using r cut(2) by (fastforce simp: fp_ok_Cons pr_ok_def)
    ultimately show ?thesis using p(2) cut(1) d unfolding m by auto
  qed
qed simp

lemma AllocatePage_none:
  assumes "fp_ok fp" "0 < k" "\<forall>r \<in> set fp. k \<le> pr_start r + pr_npages r"
  shows "(\<exists>e. AllocatePage k n fp = Inl e) \<longleftrightarrow> \<not> (\<exists>r \<in> set fp. matches n r \<and> k \<le> pr_npages r)"
  using assms(1,3)
proof (induction fp)
  case (Cons r rs)
  have r: "pr_ok r" "fp_ok rs" using Cons.prems(1) by (simp_all add: fp_ok_Cons)
  have "(pr_end r + u64 - k) mod u64 = pr_start r + pr_npages r - k" using alloc_ret [OF r(1)] Cons.prems(2) by simp
  moreover have "pr_start r + pr_npages r - k < pr_start r \<longleftrightarrow> pr_npages r < k" using Cons.prems(2) assms(2) by auto
  ultimately show ?case using Cons.IH r(2) Cons.prems(2)
    by (cases "AllocatePage k n rs") (auto simp: matches_def Let_def)
qed simp

section \<open>Assigning frames to nodes\<close>

text \<open>What \<open>SetNidRange\<close> drops from the set: the part above the range of a free range that also reaches
  below it.\<close>

definition nid_lost :: "pfn \<Rightarrow> pfn \<Rightarrow> prange list \<Rightarrow> pfn set" where
  "nid_lost s e fp = (\<Union>r \<in> set fp. if pr_start r < s then {e..<pr_start r + pr_npages r} else {})"

lemma nid_lost_simps [simp]:
  "nid_lost s e [] = {}"
  "nid_lost s e (r # rs) = (if pr_start r < s then {e..<pr_start r + pr_npages r} else {}) \<union> nid_lost s e rs"
  by (auto simp: nid_lost_def)

lemma set_insert_front: "\<forall>x \<in> set rs. pr_start r < pr_start x \<Longrightarrow> set_insert r rs = r # rs"
  by (cases rs) auto

lemma nid_lost_none: "\<forall>r \<in> set rs. s \<le> pr_start r \<Longrightarrow> nid_lost s e rs = {}"
  by (auto simp: nid_lost_def)

lemma SetNidRange_ok:
  assumes "fp_ok fp" "s < e" "e \<le> 2 ^ 52"
  shows "fp_ok (SetNidRange s e n fp) \<and> fp_frames (SetNidRange s e n fp) = fp_frames fp - nid_lost s e fp \<and>
    (\<forall>x \<in> set (SetNidRange s e n fp). pr_frames x \<inter> {s..<e} \<noteq> {} \<longrightarrow> pr_nid x = n) \<and>
    (\<forall>m. (\<forall>r \<in> set fp. m \<le> pr_start r) \<longrightarrow> (\<forall>x \<in> set (SetNidRange s e n fp). m \<le> pr_start x))"
  using assms
proof (induction s e n fp rule: SetNidRange.induct)
  case (2 s e n r rs)
  have r: "pr_ok r" "fp_ok rs" "\<forall>x \<in> set rs. pr_start r + pr_npages r \<le> pr_start x" "0 < pr_npages r" "pr_start r + pr_npages r \<le> 2 ^ 52"
    using "2.prems"(1) by (simp_all add: fp_ok_Cons pr_ok_def)
  have en: "pr_end r = pr_start r + pr_npages r" using r(1) by (rule pr_end_val)
  consider (below) "pr_end r \<le> s" | (past) "s < pr_end r" "e \<le> pr_start r" | (low) "s < pr_end r" "pr_start r < e" "pr_start r < s"
    | (high) "s \<le> pr_start r" "pr_start r < e" "e < pr_end r" | (inside) "s < pr_end r" "s \<le> pr_start r" "pr_start r < e" "pr_end r \<le> e"
    using \<open>s < e\<close> r(4) en by linarith
  then show ?case
  proof cases
    case below
    note IH = "2.IH"(1) [OF below r(2) "2.prems"(2,3)]
    have "{e..<pr_start r + pr_npages r} = {}" using below en \<open>s < e\<close> by simp
    moreover have "pr_frames r \<inter> nid_lost s e rs = {}"
    proof -
      have "pr_frames r \<subseteq> {..<s}" using below en by (auto simp: pr_frames_def)
      moreover have "nid_lost s e rs \<subseteq> {e..}" by (auto simp: nid_lost_def)
      ultimately show ?thesis using \<open>s < e\<close> by fastforce
    qed
    moreover have "pr_frames r \<inter> {s..<e} = {}" using below en by (auto simp: pr_frames_def)
    ultimately show ?thesis using below IH r by (auto simp: fp_ok_Cons Un_Diff)
  next
    case past
    have "pr_frames x \<inter> {s..<e} = {}" if "x \<in> set (r # rs)" for x
    proof -
      have "e \<le> pr_start x" using that past(2) r(3) by fastforce
      then show ?thesis by (auto simp: pr_frames_def)
    qed
    moreover have "nid_lost s e (r # rs) = {}" using past r(3) \<open>s < e\<close> by (intro nid_lost_none) fastforce
    ultimately show ?thesis using past "2.prems"(1) by simp
  next
    case low
    let ?ne = "min e (pr_end r)" and ?r = "r\<lparr>pr_npages := s - pr_start r\<rparr>"
    let ?new = "PageRange s (?ne - s) n"
    have w: "(?ne + u64 - s) mod u64 = ?ne - s" using low \<open>s < e\<close> en r(5) \<open>e \<le> 2 ^ 52\<close> by (simp add: mod_if)
    have ins: "set_insert ?new rs = ?new # rs" using r(3,4) low en by (intro set_insert_front) (fastforce simp: PageRange_def)
    have f: "fp_ok (?new # rs)" using r low en \<open>s < e\<close> \<open>e \<le> 2 ^ 52\<close> by (fastforce simp: fp_ok_Cons PageRange_def pr_ok_def)
    have c: "\<not> pr_end r \<le> s" "\<not> e \<le> pr_start r" "pr_start r < s \<and> s < pr_end r" using low by simp_all
    have IH: "fp_ok (SetNidRange s e n (?new # rs))" "fp_frames (SetNidRange s e n (?new # rs)) = fp_frames (?new # rs) - nid_lost s e (?new # rs)"
      "\<forall>x \<in> set (SetNidRange s e n (?new # rs)). pr_frames x \<inter> {s..<e} \<noteq> {} \<longrightarrow> pr_nid x = n"
      "\<forall>m. (\<forall>r \<in> set (?new # rs). m \<le> pr_start r) \<longrightarrow> (\<forall>x \<in> set (SetNidRange s e n (?new # rs)). m \<le> pr_start x)"
      using "2.IH"(2) [OF c refl] f "2.prems"(2,3) unfolding w ins by blast+
    have out: "SetNidRange s e n (r # rs) = ?r # SetNidRange s e n (?new # rs)" using c unfolding SetNidRange.simps(2) [of s e n r rs] Let_def w ins by (simp only: if_True if_False simp_thms)
    have l: "nid_lost s e rs = {}" "nid_lost s e (?new # rs) = {}" "nid_lost s e (r # rs) = {e..<pr_start r + pr_npages r}"
      using r(3) low en nid_lost_none [of rs s e] by (fastforce simp: PageRange_def)+
    have s: "\<forall>x \<in> set (SetNidRange s e n (?new # rs)). s \<le> pr_start x"
    proof -
      have "\<forall>x \<in> set (?new # rs). s \<le> pr_start x" using r(3) low en by (fastforce simp: PageRange_def)
      then show ?thesis using IH(4) by blast
    qed
    have fr: "pr_frames r - {e..<pr_start r + pr_npages r} = pr_frames ?r \<union> pr_frames ?new"
      using low en \<open>s < e\<close> by (auto simp: pr_frames_def PageRange_def)
    have rs: "fp_frames rs - {e..<pr_start r + pr_npages r} = fp_frames rs" 
    proof -
      have "{e..<pr_start r + pr_npages r} \<subseteq> pr_frames r" using low by (auto simp: pr_frames_def)
      then show ?thesis using fp_ok_disjoint [OF "2.prems"(1)] by blast
    qed
    have "pr_ok ?r" using low r en by (simp add: pr_ok_def)
    moreover have "pr_frames ?r \<inter> {s..<e} = {}" using low(3) by (auto simp: pr_frames_def)
    moreover have "fp_ok (?r # SetNidRange s e n (?new # rs))"
      unfolding fp_ok_Cons using IH(1) s calculation(1) low(3) by (auto simp del: SetNidRange.simps)
    moreover have "fp_frames (?r # SetNidRange s e n (?new # rs)) = fp_frames (r # rs) - nid_lost s e (r # rs)"
    proof -
      have "fp_frames (SetNidRange s e n (?new # rs)) = pr_frames ?new \<union> fp_frames rs"
        using IH(2) unfolding l by (simp del: SetNidRange.simps)
      then show ?thesis unfolding l fp_frames_simps Un_Diff fr rs by blast
    qed
    moreover have "\<forall>m. (\<forall>r \<in> set (r # rs). m \<le> pr_start r) \<longrightarrow> (\<forall>x \<in> set (?r # SetNidRange s e n (?new # rs)). m \<le> pr_start x)"
      using s low(3) by (auto simp del: SetNidRange.simps)
    moreover have "\<forall>x \<in> set (?r # SetNidRange s e n (?new # rs)). pr_frames x \<inter> {s..<e} \<noteq> {} \<longrightarrow> pr_nid x = n"
      using IH(3) calculation(2) by (simp only: list.set ball_simps simp_thms)
    ultimately show ?thesis unfolding out by (intro conjI)
  next
    case high
    let ?new = "PageRange e (pr_end r - e) Nid_Any" and ?r = "r\<lparr>pr_npages := e - pr_start r, pr_nid := n\<rparr>"
    have ins: "set_insert ?new rs = ?new # rs" using r(3,4) high en by (intro set_insert_front) (fastforce simp: PageRange_def)
    have f: "fp_ok (?new # rs)" using r high en \<open>s < e\<close> \<open>e \<le> 2 ^ 52\<close> by (fastforce simp: fp_ok_Cons PageRange_def pr_ok_def)
    have stop: "SetNidRange s e n (?new # rs) = ?new # rs" using high \<open>s < e\<close> f
      by (simp add: PageRange_def pr_end_def pr_ok_def fp_ok_Cons)
    have out: "SetNidRange s e n (r # rs) = ?r # ?new # rs" using high r(4) en stop ins by simp
    have "nid_lost s e (r # rs) = {}" using high r(3) by (intro nid_lost_none) fastforce
    moreover have "pr_frames r = pr_frames ?r \<union> pr_frames ?new" using high en by (auto simp: pr_frames_def PageRange_def)
    moreover have "pr_frames x \<inter> {s..<e} = {}" if "x \<in> set (?new # rs)" for x
    proof -
      have "e \<le> pr_start x" using that high(3) r(3) en by (fastforce simp: PageRange_def)
      then show ?thesis by (auto simp: pr_frames_def)
    qed
    moreover have "fp_ok (?r # ?new # rs)" using f r high en by (fastforce simp: fp_ok_Cons PageRange_def pr_ok_def)
    ultimately show ?thesis unfolding out using high(2) r(3) en high(3) by (auto simp: PageRange_def)
  next
    case inside
    have c: "\<not> pr_end r \<le> s" "\<not> e \<le> pr_start r" "\<not> (pr_start r < s \<and> s < pr_end r)" "\<not> (pr_start r < e \<and> e < pr_end r)" using inside by auto
    note IH = "2.IH"(4) [OF c r(2) "2.prems"(2,3)]
    have "nid_lost s e rs = {}" "nid_lost s e (r # rs) = {}" using inside r(3) nid_lost_none [of rs s e] by fastforce+
    moreover have "pr_frames (r\<lparr>pr_nid := n\<rparr>) = pr_frames r" by (simp add: pr_frames_def)
    ultimately show ?thesis using IH r c by (auto simp: fp_ok_Cons pr_ok_def)
  qed
qed simp

section \<open>Properties\<close>

definition demo_icl :: icl_interval where
  "demo_icl = \<lparr>intersects = \<lambda>i j. fst i < snd i \<and> fst j < snd j \<and> fst i < snd j \<and> fst j < snd i,
    left_subtract = \<lambda>i j. (max (fst i) (snd j), snd i), right_subtract = \<lambda>i j. (fst i, min (snd i) (fst j))\<rparr>"

lemma demo_icl: "interval_laws demo_icl"
  by (auto simp: interval_laws_def demo_icl_def ivl_def)

text \<open>C17: Freeing memory keeps out of the reserved ranges.  Whatever the reserved ranges are, and however
  they overlap each other and the freed memory, \<open>FreeMemoryRange\<close> ends and adds to the free frames exactly the whole
  pages of the given memory that touch no reserved range; the set of ranges stays sorted and disjoint.\<close>

theorem FreeMemoryRange_exact:
  assumes "interval_laws b" "fp_ok fp" "begin + len < u64" "usable {begin..<begin + len} R \<inter> fp_frames fp = {}"
  shows "\<exists>fp'. FreeMemoryRange (Suc (length R)) b R begin len n fp = Inr fp' \<and> fp_ok fp' \<and>
    fp_frames fp' = fp_frames fp \<union> usable {begin..<begin + len} R"
proof -
  have "hits R I \<le> length R" for I by (simp add: hits_def)
  then show ?thesis
    using reserved_loop_ok [OF assms(1), of R "(begin, begin + len)" "length R" R "[]" fp n] assms by (simp add: ivl_def)
qed

definition demo_reserved :: "interval list" where "demo_reserved = [(0x3000, 0x4001), (0x6800, 0x6900)]"

theorem FreeMemoryRange_exact_witness:
  "(\<exists>fp'. FreeMemoryRange (Suc (length demo_reserved)) demo_icl demo_reserved 0x1800 0x8000 Nid_Any [] = Inr fp' \<and> fp_ok fp' \<and>
    fp_frames fp' = fp_frames [] \<union> usable {0x1800..<0x1800 + 0x8000} demo_reserved) \<and>
   FreeMemoryRange 3 demo_icl demo_reserved 0x1800 0x8000 Nid_Any [] =
    Inr [PageRange 2 1 Nid_Any, PageRange 5 1 Nid_Any, PageRange 7 2 Nid_Any]"
proof
  show "FreeMemoryRange 3 demo_icl demo_reserved 0x1800 0x8000 Nid_Any [] =
      Inr [PageRange 2 1 Nid_Any, PageRange 5 1 Nid_Any, PageRange 7 2 Nid_Any]"
    by code_simp
qed (rule FreeMemoryRange_exact [OF demo_icl], simp_all)

text \<open>Early allocation.  \<open>AllocatePage\<close> returns a block that was free, lies in one range of the
  requested node and is free no longer, or aborts exactly when no range of that node is long enough.  Every range
  has to end at or after the number of requested pages: the subtraction of the code wraps otherwise.\<close>

theorem AllocatePage_spec:
  assumes "fp_ok fp" "0 < k" "\<forall>r \<in> set fp. k \<le> pr_start r + pr_npages r"
  shows "(case AllocatePage k n fp of
      Inl e \<Rightarrow> \<not> (\<exists>r \<in> set fp. matches n r \<and> k \<le> pr_npages r)
    | Inr (p, fp') \<Rightarrow> fp_ok fp' \<and> fp_frames fp' = fp_frames fp - {p..<p + k} \<and>
        (\<exists>r \<in> set fp. matches n r \<and> {p..<p + k} \<subseteq> pr_frames r))"
  using AllocatePage_none [OF assms] AllocatePage_take [OF assms] by (auto split: sum.splits)

theorem AllocatePage_spec_witness:
  "AllocatePage 2 0 [PageRange 16 8 1, PageRange 64 8 0] = Inr (70, [PageRange 16 8 1, PageRange 64 6 0]) \<and>
    fp_frames [PageRange 16 8 1, PageRange 64 6 0] = fp_frames [PageRange 16 8 1, PageRange 64 8 0] - {70..<72}"
proof -
  have a: "AllocatePage 2 0 [PageRange 16 8 1, PageRange 64 8 0] = Inr (70, [PageRange 16 8 1, PageRange 64 6 0])"
    by (simp add: PageRange_def pr_end_def Nid_Any_def)
  have "fp_ok [PageRange 16 8 1, PageRange 64 8 0]" by (simp add: fp_ok_def pr_ok_def PageRange_def)
  from AllocatePage_spec [OF this, of 2 0] show ?thesis unfolding a by (simp add: PageRange_def)
qed

text \<open>C30: Assigning a range of frames to a node splits the free ranges at its ends and gives the node to every
  free frame in it, but a free range that reaches out on both sides loses the part above: \<open>SetNidRange\<close> inserts the
  middle part, shortens the range to the part below, and nothing is left for the rest.\<close>

theorem SetNidRange_loses:
  assumes "fp_ok fp" "s < e" "e \<le> 2 ^ 52"
  shows "fp_ok (SetNidRange s e n fp) \<and>
    fp_frames (SetNidRange s e n fp) = fp_frames fp - (\<Union>r \<in> set fp. if pr_start r < s then {e..<pr_start r + pr_npages r} else {}) \<and>
    (\<forall>x \<in> set (SetNidRange s e n fp). pr_frames x \<inter> {s..<e} \<noteq> {} \<longrightarrow> pr_nid x = n)"
  using SetNidRange_ok [OF assms, of n] unfolding nid_lost_def by blast

theorem SetNidRange_loses_witness:
  "SetNidRange 16 32 0 [PageRange 8 56 Nid_Any] = [PageRange 8 8 Nid_Any, PageRange 16 16 0] \<and>
    fp_frames (SetNidRange 16 32 0 [PageRange 8 56 Nid_Any]) = {8..<64} - {32..<64}"
proof -
  have "fp_ok [PageRange 8 56 Nid_Any]" by (simp add: fp_ok_def pr_ok_def PageRange_def)
  from SetNidRange_loses [OF this, of 16 32 0]
  have "fp_frames (SetNidRange 16 32 0 [PageRange 8 56 Nid_Any]) = {8..<64} - {32..<64}"
    by (simp add: pr_frames_def PageRange_def)
  moreover have "SetNidRange 16 32 0 [PageRange 8 56 Nid_Any] = [PageRange 8 8 Nid_Any, PageRange 16 16 0]"
    by (simp add: PageRange_def pr_end_def)
  ultimately show ?thesis by blast
qed

text \<open>The two passes of \<open>Main\<close> over the memory map free every usable byte above the kernel once.\<close>

definition range_bytes :: "(nat \<times> nat) option \<Rightarrow> nat set" where
  "range_bytes r = (case r of None \<Rightarrow> {} | Some (a, n) \<Rightarrow> {a..<a + n})"

lemma boot_regions:
  assumes "e_addr e + e_length e < u64" "kend < 2 ^ 30"
  shows "range_bytes (free_first kend e) \<union> range_bytes (free_second e) = {max kend (e_addr e)..<e_addr e + e_length e}"
    "range_bytes (free_first kend e) \<inter> range_bytes (free_second e) = {}"
  using assms by (auto simp: range_bytes_def free_first_def free_second_def TrimBelow_def TrimAbove_def initial_map_end_def Let_def max_def
      split: if_splits)

end
