(* ===== verification/MemSections.thy ===== *)
theory MemSections
  imports EarlyPages
begin

text \<open>
  Nodes and the memory map (\<open>src/src/native/Numa.cc\<close>, \<open>MemMap.h\<close>, \<open>MemMap.cc\<close>).  A section is the
  word \<open>mem_map_\<close>; \<open>sections\<close> is the array of them, zero before \<open>Init\<close>.  The page descriptors are kept
  by their address.  \<open>psz\<close> is \<open>sizeof(Page)\<close>, which depends on the layout of the hooks of the intrusive containers.
\<close>

section \<open>Nodes\<close>

record memblock =
  mb_start :: pfn
  mb_end :: pfn
  mb_nid :: nid

record node =
  memblocks :: "memblock list"
  pfn_start :: pfn
  pfn_end :: pfn

record numa =
  nodes :: "node list"
  pxm_to_node :: "nat \<Rightarrow> nid"
  node_to_pxm :: "nid \<Rightarrow> int"

definition kMaxPxmDomains :: nat where "kMaxPxmDomains = 256"

definition kMaxNodes :: nat where "kMaxNodes = 256"

definition kMaxMemblocks :: nat where "kMaxMemblocks = 256"

definition numa_EarlyInit :: numa where
  "numa_EarlyInit = \<lparr>nodes = [], pxm_to_node = \<lambda>_. Nid_None, node_to_pxm = \<lambda>_. -1\<rparr>"

definition SetupNode :: "nat \<Rightarrow> numa \<Rightarrow> (nid \<times> numa) result" where
  "SetupNode d s =
    (if kMaxPxmDomains \<le> d then Inl (KAbort ''Proximity domain exceeds MAX_PXM_DOMAINS'')
     else let n = pxm_to_node s d in
       if n \<noteq> Nid_None then Inr (n, s)
       else if kMaxNodes \<le> length (nodes s) then Inl (Throw ''bad_alloc'')
       else let n = int (length (nodes s)) in
         Inr (n, s\<lparr>nodes := nodes s @ [\<lparr>memblocks = [], pfn_start = Pfn_None, pfn_end = Pfn_None\<rparr>],
           pxm_to_node := (pxm_to_node s)(d := n), node_to_pxm := (node_to_pxm s)(n := int d)\<rparr>))"

definition AddMemBlock :: "nid \<Rightarrow> pfn \<Rightarrow> pfn \<Rightarrow> numa \<Rightarrow> numa result" where
  "AddMemBlock n start fin s =
    (if n < 0 \<or> int (length (nodes s)) \<le> n then Inl (Undefined ''nodes[nid]'')
     else let x = nodes s ! nat n in
       if kMaxMemblocks \<le> length (memblocks x) then Inl (Throw ''bad_alloc'')
       else Inr (s\<lparr>nodes := (nodes s)[nat n := x\<lparr>memblocks := memblocks x @ [\<lparr>mb_start = start, mb_end = fin, mb_nid = n\<rparr>]\<rparr>]\<rparr>))"

definition init_node :: "node \<Rightarrow> prange list \<Rightarrow> node \<times> prange list" where
  "init_node x fp =
    (let bs = sort_key mb_start (memblocks x);
         fp' = fold (\<lambda>b. SetNidRange (mb_start b) (mb_end b) (mb_nid b)) bs fp
     in (if bs = [] then x\<lparr>memblocks := bs, pfn_start := Pfn_None, pfn_end := Pfn_None\<rparr>
         else x\<lparr>memblocks := bs, pfn_start := mb_start (hd bs), pfn_end := mb_end (last bs)\<rparr>, fp'))"

fun numa_Init :: "node list \<Rightarrow> prange list \<Rightarrow> node list \<times> prange list" where
  "numa_Init [] fp = ([], fp)"
| "numa_Init (x # xs) fp = (let (x', fp1) = init_node x fp; (xs', fp2) = numa_Init xs fp1 in (x' # xs', fp2))"

section \<open>Sections\<close>

definition kMaxPhysMemBits :: nat where "kMaxPhysMemBits = 46"

definition kSectionSizeBits :: nat where "kSectionSizeBits = 27"

definition kPfnSectionShift :: nat where "kPfnSectionShift = kSectionSizeBits - kPageShift"

definition kPagesPerSection :: nat where "kPagesPerSection = 2 ^ kPfnSectionShift"

definition kPageSectionMask :: "64 word" where "kPageSectionMask = NOT (of_nat kPagesPerSection - 1)"

definition kSections :: nat where "kSections = 2 ^ (kMaxPhysMemBits - kSectionSizeBits)"

type_synonym msection = "64 word"

definition kMapMask :: "64 word" where "kMapMask = NOT 3"

definition Present :: "msection \<Rightarrow> bool" where "Present m \<longleftrightarrow> m AND 1 \<noteq> 0"

definition Valid :: "msection \<Rightarrow> bool" where "Valid m \<longleftrightarrow> m AND kMapMask \<noteq> 0"

definition SetEarlyNid :: "nid \<Rightarrow> msection" where "SetEarlyNid n = push_bit 2 (word_of_int n) OR 1"

definition EarlyNid :: "msection \<Rightarrow> nid" where "EarlyNid m = sint (ucast (drop_bit 2 m) :: 32 word)"

definition SetMap :: "nat \<Rightarrow> 64 word \<Rightarrow> nat \<Rightarrow> msection" where
  "SetMap psz map_addr index = (map_addr - of_nat index * of_nat kPagesPerSection * of_nat psz) OR 1 OR 2"

definition GetPage :: "nat \<Rightarrow> msection \<Rightarrow> pfn \<Rightarrow> 64 word" where
  "GetPage psz m p = (m AND kMapMask) + of_nat p * of_nat psz"

definition PfnToSectionIndex :: "pfn \<Rightarrow> nat" where "PfnToSectionIndex p = drop_bit kPfnSectionShift p"

text \<open>\<open>None\<close> is the null pointer.\<close>

definition PfnToPage :: "nat \<Rightarrow> (nat \<Rightarrow> msection) \<Rightarrow> pfn \<Rightarrow> 64 word option result" where
  "PfnToPage psz secs p =
    (let i = PfnToSectionIndex p in
     if kSections \<le> i then Inl (Undefined ''sections[]'')
     else if \<not> Valid (secs i) \<or> \<not> Present (secs i) then Inr None
     else Inr (Some (GetPage psz (secs i) p)))"

function mark_sections :: "nid \<Rightarrow> pfn \<Rightarrow> pfn \<Rightarrow> (nat \<Rightarrow> msection) \<Rightarrow> (nat \<Rightarrow> msection) result" where
  "mark_sections n p fin secs =
    (if p < fin then
       let i = PfnToSectionIndex p in
       if kSections \<le> i then Inl (Undefined ''sections[]'')
       else mark_sections n (p + kPagesPerSection) fin (if Present (secs i) then secs else secs(i := SetEarlyNid n))
     else Inr secs)"
  by pat_completeness auto
termination
  by (relation "measure (\<lambda>(n, p, fin, secs). fin - p)") (auto simp: kPagesPerSection_def intro!: diff_less_mono2)

declare mark_sections.simps [simp del]

fun mark_blocks :: "memblock list \<Rightarrow> (nat \<Rightarrow> msection) \<Rightarrow> (nat \<Rightarrow> msection) result" where
  "mark_blocks [] secs = Inr secs"
| "mark_blocks (b # bs) secs =
    bindr (mark_sections (mb_nid b) (unat (of_nat (mb_start b) AND kPageSectionMask)) (mb_end b) secs) (mark_blocks bs)"

record mem_state =
  secs :: "nat \<Rightarrow> msection"
  descs :: "64 word \<Rightarrow> page option"
  early :: "prange list"

text \<open>\<open>new Page(nid)\<close> for every descriptor of a section.\<close>

definition new_pages :: "nat \<Rightarrow> nid \<Rightarrow> 64 word \<Rightarrow> (64 word \<Rightarrow> page option) \<Rightarrow> 64 word \<Rightarrow> page option" where
  "new_pages psz n a = fold (\<lambda>j ds. ds(a + of_nat j * of_nat psz := Some (Page_init (nat (n mod 256))))) [0..<kPagesPerSection]"

definition section_map_pages :: "nat \<Rightarrow> nat" where
  "section_map_pages psz = unat (drop_bit kPageShift (align_Up (of_nat (kPagesPerSection * psz) :: 64 word) (of_nat kPageSize)))"

definition map_section :: "nat \<Rightarrow> nat \<Rightarrow> mem_state \<Rightarrow> mem_state result" where
  "map_section psz i s =
    (if \<not> Present (secs s i) then Inr s
     else let n = EarlyNid (secs s i) in
       bindr (AllocatePage (section_map_pages psz) n (early s)) (\<lambda>(map_pfn, fp).
         let map_addr = of_nat (ToAddr map_pfn) in
         Inr (s\<lparr>secs := (secs s)(i := SetMap psz map_addr i), descs := new_pages psz n map_addr (descs s), early := fp\<rparr>)))"

fun map_sections :: "nat \<Rightarrow> nat list \<Rightarrow> mem_state \<Rightarrow> mem_state result" where
  "map_sections psz [] s = Inr s"
| "map_sections psz (i # is) s = bindr (map_section psz i s) (map_sections psz is)"

definition mem_map_Init :: "nat \<Rightarrow> node list \<Rightarrow> prange list \<Rightarrow> mem_state result" where
  "mem_map_Init psz ns fp =
    bindr (mark_blocks (concat (map memblocks ns)) (\<lambda>_. 0)) (\<lambda>secs.
      map_sections psz [0..<kSections] \<lparr>secs = secs, descs = \<lambda>_. None, early = fp\<rparr>)"

section \<open>Marking the present sections\<close>

lemma section_consts: "kPagesPerSection = 32768" "kSections = 524288" "PfnToSectionIndex p = p div 32768"
  by (simp_all add: kPagesPerSection_def kPfnSectionShift_def kSectionSizeBits_def kPageShift_def kSections_def
      kMaxPhysMemBits_def PfnToSectionIndex_def drop_bit_eq_div)

definition touches :: "memblock \<Rightarrow> nat \<Rightarrow> bool" where
  "touches b i \<longleftrightarrow> mb_start b div 32768 \<le> i \<and> i * 32768 < mb_end b"

lemma Present_bit: "Present m \<longleftrightarrow> bit m 0"
  by (simp add: Present_def and_one_eq odd_iff_mod_2_eq_one bit_0)

lemma Present_0 [simp]: "\<not> Present 0"
  by (simp add: Present_def)

lemma Present_SetEarlyNid [simp]: "Present (SetEarlyNid n)"
  by (simp add: Present_bit SetEarlyNid_def bit_or_iff bit_push_bit_iff)

lemma section_start:
  assumes "p < u64"
  shows "unat (of_nat p AND kPageSectionMask) = p div 32768 * 32768"
proof -
  have "kPageSectionMask = NOT (mask 15)" by (simp add: kPageSectionMask_def section_consts mask_eq_exp_minus_1)
  moreover have "unat (of_nat p :: 64 word) = p" using assms by (simp add: unsigned_of_nat take_bit_nat_eq_self)
  moreover have "(2 :: nat) ^ 15 = 32768" by simp
  ultimately show ?thesis using unat_and_not_mask [of "of_nat p :: 64 word" 15] by metis
qed

lemma EarlyNid_SetEarlyNid: "0 \<le> n \<Longrightarrow> n < 256 \<Longrightarrow> EarlyNid (SetEarlyNid n) = n"
proof -
  assume n: "0 \<le> n" "n < 256"
  define w :: "64 word" where "w = word_of_int n"
  have w: "uint w = n" using n by (simp add: w_def unsigned_of_int take_bit_int_eq_self)
  have wb: "\<not> bit w k" if "8 \<le> k" for k
  proof -
    have "take_bit 8 w = w"
      by (rule word_uint_eqI) (use n w in \<open>simp add: unsigned_take_bit_eq take_bit_int_eq_self\<close>)
    then show ?thesis using that by (metis bit_take_bit_iff not_less)
  qed
  have "drop_bit 2 (push_bit 2 w OR 1) = w"
  proof (rule bit_word_eqI)
    fix k assume "k < LENGTH(64)"
    then show "bit (drop_bit 2 (push_bit 2 w OR 1)) k = bit w k"
      using wb [of k] by (cases "8 \<le> k") (auto simp: bit_simps)
  qed
  moreover have "sint (ucast w :: 32 word) = n"
  proof -
    have u: "uint (ucast w :: 32 word) = n" using w n by (simp add: unsigned_ucast_eq take_bit_int_eq_self)
    then show ?thesis using n by (simp add: sint_uint signed_take_bit_int_eq_self)
  qed
  ultimately show ?thesis by (simp add: EarlyNid_def SetEarlyNid_def w_def)
qed

lemma mark_sections_ok:
  assumes "mark_sections n (32768 * k) fin sc = Inr sc'"
  shows "sc' i = (if \<not> Present (sc i) \<and> k \<le> i \<and> i * 32768 < fin then SetEarlyNid n else sc i)"
  using assms
proof (induction "fin - 32768 * k" arbitrary: k sc rule: less_induct)
  case less
  show ?case
  proof (cases "32768 * k < fin")
    case False
    then have "sc' = sc" using less.prems by (subst (asm) mark_sections.simps) simp
    moreover have "\<not> (k \<le> i \<and> i * 32768 < fin)" using False by linarith
    ultimately show ?thesis by (simp only: if_False simp_thms)
  next
    case True
    let ?s = "if Present (sc k) then sc else sc(k := SetEarlyNid n)"
    have m: "mark_sections n (32768 * (k + 1)) fin ?s = Inr sc'"
      using less.prems True mark_sections.simps [of n "32768 * k" fin sc] by (auto simp: section_consts Let_def add.commute split: if_splits)
    have "sc' i = (if \<not> Present (?s i) \<and> k + 1 \<le> i \<and> i * 32768 < fin then SetEarlyNid n else ?s i)"
      by (rule less.hyps [OF _ m]) (use True in simp)
    moreover have "k \<le> i \<longleftrightarrow> k = i \<or> k + 1 \<le> i" by linarith
    ultimately show ?thesis using True by (cases "i = k") (auto split: if_splits)
  qed
qed

lemma mark_blocks_ok:
  assumes "mark_blocks bs sc = Inr sc'" "\<forall>b \<in> set bs. mb_end b \<le> 2 ^ 34 \<and> mb_start b < u64"
  shows "(\<forall>i. Present (sc i) \<longrightarrow> sc' i = sc i) \<and>
    (\<forall>i. \<not> Present (sc i) \<longrightarrow> (\<forall>b \<in> set bs. \<not> touches b i) \<and> sc' i = sc i \<or> (\<exists>b \<in> set bs. touches b i \<and> sc' i = SetEarlyNid (mb_nid b)))"
  using assms
proof (induction bs arbitrary: sc)
  case (Cons b bs)
  obtain s1 where s1: "mark_sections (mb_nid b) (32768 * (mb_start b div 32768)) (mb_end b) sc = Inr s1" "mark_blocks bs s1 = Inr sc'"
    using Cons.prems section_start [of "mb_start b"] by (auto simp: bindr_eq_Inr_iff mult.commute)
  have pre: "\<forall>b \<in> set bs. mb_end b \<le> 2 ^ 34 \<and> mb_start b < u64" using Cons.prems(2) by simp
  note m = mark_sections_ok [OF s1(1)] and IH = Cons.IH [OF s1(2) pre]
  show ?case
  proof (intro conjI allI impI)
    fix i assume "Present (sc i)"
    then show "sc' i = sc i" using m [of i] IH by simp
  next
    fix i assume p: "\<not> Present (sc i)"
    show "(\<forall>b \<in> set (b # bs). \<not> touches b i) \<and> sc' i = sc i \<or> (\<exists>b \<in> set (b # bs). touches b i \<and> sc' i = SetEarlyNid (mb_nid b))"
    proof (cases "touches b i")
      case True
      then have "s1 i = SetEarlyNid (mb_nid b)" using m [of i] p by (simp add: touches_def)
      then have "sc' i = SetEarlyNid (mb_nid b)" using IH by simp
      then show ?thesis using True by simp
    next
      case False
      then have "s1 i = sc i" using m [of i] p by (auto simp: touches_def)
      moreover have "(\<forall>b \<in> set bs. \<not> touches b i) \<and> sc' i = s1 i \<or> (\<exists>b \<in> set bs. touches b i \<and> sc' i = SetEarlyNid (mb_nid b))"
        using spec [OF conjunct2 [OF IH], of i] p calculation by simp
      ultimately show ?thesis using False by auto
    qed
  qed
qed simp

section \<open>Placing the descriptors\<close>

lemma unat_of_nat64: "n < u64 \<Longrightarrow> unat (of_nat n :: 64 word) = n"
  by (simp add: unsigned_of_nat take_bit_nat_eq_self)

lemma section_map_pages_val: "psz < 2 ^ 16 \<Longrightarrow> section_map_pages psz = 8 * psz"
proof -
  assume a: "psz < 2 ^ 16"
  let ?w = "of_nat (kPagesPerSection * psz) :: 64 word"
  have w: "unat ?w = 32768 * psz" unfolding section_consts by (rule unat_of_nat64) (use a in simp)
  have "unat (align_Up ?w (2 ^ 12)) = (unat ?w + 2 ^ 12 - 1) div 2 ^ 12 * 2 ^ 12"
    by (rule unat_align_Up) (use a w in simp_all)
  also have "\<dots> = 4096 * (8 * psz)" unfolding w by simp
  finally have "unat (align_Up ?w (2 ^ 12)) = 4096 * (8 * psz)" .
  moreover have "of_nat kPageSize = (2 ^ 12 :: 64 word)" by (simp add: kPageSize_def kPageShift_def)
  ultimately show ?thesis
    unfolding section_map_pages_def kPageShift_def unsigned_drop_bit_eq using a by (simp add: drop_bit_eq_div take_bit_nat_eq_self)
qed

lemma fold_new_pages:
  "fold (\<lambda>j ds. ds(a + of_nat j * of_nat psz := v)) [0..<k] ds x = (if \<exists>j < k. x = a + of_nat j * of_nat psz then v else ds x)"
  by (induction k) (auto simp: less_Suc_eq)

lemma new_pages_val:
  "new_pages psz n a ds x = (if \<exists>j < 32768. x = a + of_nat j * of_nat psz then Some (Page_init (nat (n mod 256))) else ds x)"
  unfolding new_pages_def section_consts by (rule fold_new_pages)

lemma or_low_and_not: "x AND m = 0 \<Longrightarrow> (x OR m) AND NOT m = (x :: 'a::len word)"
proof (rule bit_word_eqI)
  fix n assume a: "x AND m = 0"
  have "\<not> (bit x n \<and> bit m n)" using arg_cong [OF a, of "\<lambda>w. bit w n"] by (simp add: bit_and_iff)
  assume "n < LENGTH('a)"
  then show "bit ((x OR m) AND NOT m) n = bit x n"
    using \<open>\<not> (bit x n \<and> bit m n)\<close> by (auto simp: bit_simps)
qed

lemma push_low: "push_bit n y AND mask n = (0 :: 'a::len word)"
  by (rule bit_word_eqI) (auto simp: bit_simps)

lemma or_mask_and_not: "(push_bit 2 y OR 1 OR 2) AND kMapMask = (push_bit 2 y :: 64 word)"
proof -
  have "(1 :: 64 word) OR 2 = mask 2" "kMapMask = NOT (mask 2)" by (simp_all add: kMapMask_def mask_eq_exp_minus_1)
  then show ?thesis using or_low_and_not [OF push_low [of 2 y]] by (metis or.assoc)
qed

lemma SetMap_form: "\<exists>y. SetMap psz (of_nat (4096 * m)) i = push_bit 2 y OR 1 OR 2 \<and>
    push_bit 2 y = of_nat (4096 * m) - of_nat (32768 * i * psz)"
proof -
  have "push_bit 2 (of_nat (1024 * m) - of_nat (8192 * i * psz) :: 64 word) = of_nat (4096 * m) - of_nat (32768 * i * psz)"
    by (simp add: push_bit_eq_mult algebra_simps)
  moreover have "(of_nat i * of_nat 32768 * of_nat psz :: 64 word) = of_nat (32768 * i * psz)" by simp
  ultimately show ?thesis by (metis SetMap_def section_consts(1))
qed

lemma Present_SetMap: "Present (SetMap psz (of_nat (4096 * m)) i)"
proof -
  obtain y where "SetMap psz (of_nat (4096 * m)) i = push_bit 2 y OR 1 OR 2" using SetMap_form by blast
  then show ?thesis by (simp add: Present_bit bit_or_iff bit_push_bit_iff)
qed

lemma Valid_SetMap: "Valid (SetMap psz (of_nat (4096 * m)) i) \<longleftrightarrow> SetMap psz (of_nat (4096 * m)) i \<noteq> 3"
proof -
  obtain y where y: "SetMap psz (of_nat (4096 * m)) i = push_bit 2 y OR 1 OR 2" using SetMap_form by blast
  have "push_bit 2 y OR 1 OR 2 = 3 \<longleftrightarrow> push_bit 2 y = (0 :: 64 word)"
  proof
    assume "push_bit 2 y OR 1 OR 2 = 3"
    then have "push_bit 2 y = 3 AND kMapMask" using or_mask_and_not [of y] by simp
    then show "push_bit 2 y = 0" by (simp add: kMapMask_def)
  qed simp
  then show ?thesis unfolding Valid_def y or_mask_and_not by simp
qed

lemma GetPage_SetMap: "GetPage psz (SetMap psz (of_nat (4096 * m)) i) (32768 * i + j) = of_nat (4096 * m + j * psz)"
proof -
  obtain y where y: "SetMap psz (of_nat (4096 * m)) i = push_bit 2 y OR 1 OR 2" "push_bit 2 y = (of_nat (4096 * m) - of_nat (32768 * i * psz) :: 64 word)"
    using SetMap_form by blast
  have "GetPage psz (SetMap psz (of_nat (4096 * m)) i) (32768 * i + j) = push_bit 2 y + of_nat (32768 * i + j) * of_nat psz"
    unfolding GetPage_def y(1) or_mask_and_not ..
  then show ?thesis unfolding y(2) by (simp add: algebra_simps)
qed

definition mblk :: "nat \<Rightarrow> pfn \<Rightarrow> pfn set" where "mblk psz m = {m..<m + 8 * psz}"

definition early_ok :: "nat \<Rightarrow> prange list \<Rightarrow> bool" where
  "early_ok psz fp \<longleftrightarrow> fp_ok fp \<and> (\<forall>r \<in> set fp. 8 * psz \<le> pr_start r)"

lemma desc_addr:
  assumes "j < 32768" "0 < psz" "m + 8 * psz \<le> 2 ^ 52"
  shows "unat (of_nat (4096 * m + j * psz) :: 64 word) = 4096 * m + j * psz" "(4096 * m + j * psz) div 4096 \<in> mblk psz m"
proof -
  have "j * psz < 32768 * psz" using assms(1,2) by simp
  then have l: "4096 * m + j * psz < 4096 * (m + 8 * psz)" by simp
  then have "4096 * m + j * psz < 4096 * 2 ^ 52" using assms(3) by (meson less_le_trans mult_le_mono2)
  then show "unat (of_nat (4096 * m + j * psz) :: 64 word) = 4096 * m + j * psz"
    by (intro unat_of_nat64) simp
  show "(4096 * m + j * psz) div 4096 \<in> mblk psz m" using l by (simp add: mblk_def less_mult_imp_div_less mult.commute)
qed

lemma fp_frames_bound: "fp_ok fp \<Longrightarrow> p \<in> fp_frames fp \<Longrightarrow> p < 2 ^ 52"
  by (fastforce simp: fp_ok_def pr_ok_def fp_frames_def pr_frames_def)

lemma map_section_ok:
  assumes "map_section psz i s = Inr s'" "Present (secs s i)" "early_ok psz (early s)" "0 < psz" "psz < 2 ^ 16"
  obtains m where "secs s' = (secs s)(i := SetMap psz (of_nat (4096 * m)) i)"
    "descs s' = new_pages psz (EarlyNid (secs s i)) (of_nat (4096 * m)) (descs s)"
    "mblk psz m \<subseteq> fp_frames (early s)" "fp_frames (early s') = fp_frames (early s) - mblk psz m" "early_ok psz (early s')"
    "m + 8 * psz \<le> 2 ^ 52"
proof -
  obtain m fp where a: "AllocatePage (8 * psz) (EarlyNid (secs s i)) (early s) = Inr (m, fp)"
      "s' = s\<lparr>secs := (secs s)(i := SetMap psz (of_nat (ToAddr m)) i), descs := new_pages psz (EarlyNid (secs s i)) (of_nat (ToAddr m)) (descs s), early := fp\<rparr>"
    using assms(1,2) section_map_pages_val [OF assms(5)] by (auto simp: map_section_def bindr_eq_Inr_iff Let_def)
  have "fp_ok (early s)" "\<forall>r \<in> set (early s). 8 * psz \<le> pr_start r + pr_npages r" using assms(3) by (auto simp: early_ok_def)
  from AllocatePage_take [OF this(1) _ this(2) a(1)] assms(4)
  have t: "fp_ok fp" "fp_frames fp = fp_frames (early s) - mblk psz m" "mblk psz m \<subseteq> fp_frames (early s)"
    "\<forall>x \<in> set fp. \<exists>r \<in> set (early s). pr_start x = pr_start r"
    unfolding mblk_def by (auto simp: fp_frames_def)
  have "m + 8 * psz - 1 \<in> mblk psz m" using assms(4) by (simp add: mblk_def)
  then have b: "m + 8 * psz - 1 < 2 ^ 52" using t(3) fp_frames_bound \<open>fp_ok (early s)\<close> by blast
  have "m < 2 ^ 52" using b assms(4) by linarith
  then have "ToAddr m = 4096 * m" by (simp add: ToAddr_val)
  moreover have "early_ok psz fp" using t(1,4) assms(3) by (fastforce simp: early_ok_def)
  ultimately show ?thesis using that [of m] a(2) t(2,3) b by simp
qed

definition placed :: "nat \<Rightarrow> mem_state \<Rightarrow> mem_state \<Rightarrow> nat \<Rightarrow> pfn \<Rightarrow> bool" where
  "placed psz s s' i m \<longleftrightarrow> secs s' i = SetMap psz (of_nat (4096 * m)) i \<and> m + 8 * psz \<le> 2 ^ 52 \<and>
    mblk psz m \<subseteq> fp_frames (early s) - fp_frames (early s') \<and>
    (\<forall>j < 32768. descs s' (of_nat (4096 * m + j * psz)) = Some (Page_init (nat (EarlyNid (secs s i) mod 256))))"

lemma map_sections_ok:
  assumes "map_sections psz is s = Inr s'" "distinct is" "early_ok psz (early s)" "0 < psz" "psz < 2 ^ 16"
  shows "early_ok psz (early s') \<and> fp_frames (early s') \<subseteq> fp_frames (early s) \<and>
    (\<forall>i. i \<notin> set is \<or> \<not> Present (secs s i) \<longrightarrow> secs s' i = secs s i) \<and>
    (\<forall>x. unat x div 4096 \<notin> fp_frames (early s) - fp_frames (early s') \<longrightarrow> descs s' x = descs s x) \<and>
    (\<exists>m. (\<forall>i \<in> set is. Present (secs s i) \<longrightarrow> placed psz s s' i (m i)) \<and>
      (\<forall>i \<in> set is. \<forall>k \<in> set is. Present (secs s i) \<and> Present (secs s k) \<and> i \<noteq> k \<longrightarrow> mblk psz (m i) \<inter> mblk psz (m k) = {}))"
  using assms(1-3)
proof (induction "is" arbitrary: s)
  case (Cons i "is")
  obtain s1 where s1: "map_section psz i s = Inr s1" "map_sections psz is s1 = Inr s'" using Cons.prems(1) by (auto simp: bindr_eq_Inr_iff)
  show ?case
  proof (cases "Present (secs s i)")
    case False
    then have "s1 = s" using s1(1) by (simp add: map_section_def)
    then show ?thesis using Cons.IH [OF s1(2)] Cons.prems(2,3) False by auto
  next
    case True
    from map_section_ok [OF s1(1) True Cons.prems(3) assms(4,5)] obtain m0 where m0:
      "secs s1 = (secs s)(i := SetMap psz (of_nat (4096 * m0)) i)"
      "descs s1 = new_pages psz (EarlyNid (secs s i)) (of_nat (4096 * m0)) (descs s)"
      "mblk psz m0 \<subseteq> fp_frames (early s)" "fp_frames (early s1) = fp_frames (early s) - mblk psz m0" "early_ok psz (early s1)"
      "m0 + 8 * psz \<le> 2 ^ 52" by blast
    have i: "i \<notin> set is" "distinct is" using Cons.prems(2) by simp_all
    from Cons.IH [OF s1(2) i(2) m0(5)] obtain m where IH: "early_ok psz (early s')" "fp_frames (early s') \<subseteq> fp_frames (early s1)"
      "\<And>i. i \<notin> set is \<or> \<not> Present (secs s1 i) \<Longrightarrow> secs s' i = secs s1 i"
      "\<And>x. unat x div 4096 \<notin> fp_frames (early s1) - fp_frames (early s') \<Longrightarrow> descs s' x = descs s1 x"
      "\<And>i. i \<in> set is \<Longrightarrow> Present (secs s1 i) \<Longrightarrow> placed psz s1 s' i (m i)"
      "\<And>i k. i \<in> set is \<Longrightarrow> k \<in> set is \<Longrightarrow> Present (secs s1 i) \<Longrightarrow> Present (secs s1 k) \<Longrightarrow> i \<noteq> k \<Longrightarrow> mblk psz (m i) \<inter> mblk psz (m k) = {}"
      by blast
    let ?m = "m(i := m0)"
    have same: "secs s1 k = secs s k" "k \<noteq> i" if "k \<in> set is" for k using that i(1) m0(1) by auto
    have p0: "placed psz s s' i m0"
      unfolding placed_def
    proof (intro conjI allI impI)
      show "secs s' i = SetMap psz (of_nat (4096 * m0)) i" using IH(3) [of i] i(1) m0(1) by simp
      show "mblk psz m0 \<subseteq> fp_frames (early s) - fp_frames (early s')" using m0(3,4) IH(2) by blast
      fix j :: nat assume j: "j < 32768"
      let ?x = "of_nat (4096 * m0 + j * psz) :: 64 word"
      have "unat ?x div 4096 \<in> mblk psz m0" using desc_addr [OF j assms(4) m0(6)] by simp
      then have "descs s' ?x = descs s1 ?x" using m0(4) by (intro IH(4)) blast
      also have "?x = of_nat (4096 * m0) + of_nat j * of_nat psz" by simp
      also have "descs s1 \<dots> = Some (Page_init (nat (EarlyNid (secs s i) mod 256)))" unfolding m0(2) new_pages_val using j by auto
      finally show "descs s' ?x = Some (Page_init (nat (EarlyNid (secs s i) mod 256)))" by simp
    qed (rule m0(6))
    have pk: "placed psz s s' k (?m k)" if "k \<in> set (i # is)" "Present (secs s k)" for k
    proof (cases "k = i")
      case False
      then have "k \<in> set is" using that by simp
      then show ?thesis using IH(5) [of k] same [of k] that(2) m0(4) by (auto simp: placed_def)
    qed (use p0 in simp)
    have sub: "mblk psz (m k) \<inter> mblk psz m0 = {}" if "k \<in> set is" "Present (secs s k)" for k
      using IH(5) [of k] same [of k] that m0(4) by (auto simp: placed_def)
    have "descs s' x = descs s x" if x: "unat x div 4096 \<notin> fp_frames (early s) - fp_frames (early s')" for x
    proof -
      have "descs s' x = descs s1 x" using x m0(3,4) IH(2) by (intro IH(4)) blast
      moreover have "x \<noteq> of_nat (4096 * m0) + of_nat j * of_nat psz" if j: "j < 32768" for j
      proof
        assume "x = of_nat (4096 * m0) + of_nat j * of_nat psz"
        then have "x = of_nat (4096 * m0 + j * psz)" by simp
        then have "unat x div 4096 \<in> mblk psz m0" using desc_addr [OF j assms(4) m0(6)] by simp
        then show False using x m0(3,4) IH(2) by blast
      qed
      ultimately show ?thesis unfolding m0(2) new_pages_val by auto
    qed
    moreover have "mblk psz (?m a) \<inter> mblk psz (?m k) = {}"
      if "a \<in> set (i # is)" "k \<in> set (i # is)" "Present (secs s a) \<and> Present (secs s k) \<and> a \<noteq> k" for a k
      using that IH(6) [of a k] sub [of a] sub [of k] same [of a] same [of k] by auto
    moreover have "secs s' k = secs s k" if "k \<notin> set (i # is) \<or> \<not> Present (secs s k)" for k
      using that True IH(3) [of k] m0(1) by (cases "k = i") auto
    ultimately show ?thesis using IH(1,2) m0(4) pk by (intro conjI allI impI exI [of _ ?m] ballI) (assumption | blast)+
  qed
qed simp

section \<open>Properties\<close>

definition desc_bytes :: "nat \<Rightarrow> 64 word \<Rightarrow> nat set" where
  "desc_bytes psz a = {unat a..<unat a + psz}"

definition described :: "nat \<Rightarrow> node list \<Rightarrow> mem_state \<Rightarrow> pfn \<Rightarrow> 64 word \<Rightarrow> bool" where
  "described psz ns s p a \<longleftrightarrow>
    PfnToPage psz (secs s) p = Inr (if secs s (p div 32768) = 3 then None else Some a) \<and>
    (\<exists>x \<in> set ns. \<exists>b \<in> set (memblocks x). touches b (p div 32768) \<and> descs s a = Some (Page_init (nat (mb_nid b))))"

lemma disjoint_bytes:
  assumes "j \<noteq> k" "0 < (psz :: nat)"
  shows "{c + j * psz..<c + j * psz + psz} \<inter> {c + k * psz..<c + k * psz + psz} = {}"
proof -
  have "Suc j \<le> k \<or> Suc k \<le> j" using assms(1) by linarith
  then have "Suc j * psz \<le> k * psz \<or> Suc k * psz \<le> j * psz" using mult_le_mono1 by blast
  then show ?thesis by auto
qed

definition desc_addr_of :: "nat \<Rightarrow> (nat \<Rightarrow> pfn) \<Rightarrow> pfn \<Rightarrow> 64 word" where
  "desc_addr_of psz m p = of_nat (4096 * m (p div 32768) + p mod 32768 * psz)"

lemma placed_addr:
  assumes "placed psz s s' (p div 32768) (m (p div 32768))" "0 < psz"
  shows "unat (desc_addr_of psz m p) = 4096 * m (p div 32768) + p mod 32768 * psz"
  unfolding desc_addr_of_def using assms by (intro desc_addr(1)) (simp_all add: placed_def)

lemma placed_bytes:
  assumes "placed psz s s' (p div 32768) (m (p div 32768))" "0 < psz"
  shows "desc_bytes psz (desc_addr_of psz m p) \<subseteq> (\<Union>f \<in> mblk psz (m (p div 32768)). page_bytes f)"
proof
  fix y assume "y \<in> desc_bytes psz (desc_addr_of psz m p)"
  then have y: "4096 * m (p div 32768) \<le> y" "y < 4096 * m (p div 32768) + (p mod 32768 + 1) * psz"
    using placed_addr [of psz s s' p m] assms by (auto simp: desc_bytes_def)
  have "(p mod 32768 + 1) * psz \<le> 32768 * psz" by (intro mult_le_mono1) (simp add: Suc_leI)
  then have "y < 4096 * m (p div 32768) + 32768 * psz" using y(2) by linarith
  then have "y < (m (p div 32768) + 8 * psz) * 4096" by simp
  then have "y div 4096 < m (p div 32768) + 8 * psz" by (rule less_mult_imp_div_less)
  moreover have "m (p div 32768) \<le> y div 4096" using y(1) div_le_mono [OF y(1), of 4096] by simp
  ultimately have "y div 4096 \<in> mblk psz (m (p div 32768))" by (simp add: mblk_def)
  moreover have "y \<in> page_bytes (y div 4096)" unfolding page_bytes_def atLeastLessThan_iff by linarith
  ultimately show "y \<in> (\<Union>f \<in> mblk psz (m (p div 32768)). page_bytes f)" by blast
qed

lemma page_bytes_disjoint: "A \<inter> B = {} \<Longrightarrow> (\<Union>f \<in> A. page_bytes f) \<inter> (\<Union>f \<in> B. page_bytes f) = {}"
proof -
  assume a: "A \<inter> B = {}"
  have "f = y div 4096" if "y \<in> page_bytes f" for f y using that unfolding page_bytes_def atLeastLessThan_iff by linarith
  then show ?thesis using a by blast
qed

lemma placed_page:
  assumes "placed psz s s' (p div 32768) (m (p div 32768))" "p div 32768 < kSections"
  shows "PfnToPage psz (secs s') p = Inr (if secs s' (p div 32768) = 3 then None else Some (desc_addr_of psz m p))"
proof -
  have e: "secs s' (p div 32768) = SetMap psz (of_nat (4096 * m (p div 32768))) (p div 32768)" using assms(1) by (simp add: placed_def)
  have "GetPage psz (secs s' (p div 32768)) (32768 * (p div 32768) + p mod 32768) = desc_addr_of psz m p"
    unfolding e GetPage_SetMap desc_addr_of_def ..
  then have "GetPage psz (secs s' (p div 32768)) p = desc_addr_of psz m p" by simp
  then show ?thesis using assms(2) Valid_SetMap [of psz "m (p div 32768)" "p div 32768"] Present_SetMap [of psz "m (p div 32768)" "p div 32768"]
    unfolding e [symmetric] by (simp add: PfnToPage_def section_consts Let_def)
qed

definition in_blocks :: "node list \<Rightarrow> pfn \<Rightarrow> bool" where
  "in_blocks ns p \<longleftrightarrow> (\<exists>x \<in> set ns. \<exists>b \<in> set (memblocks x). mb_start b \<le> p \<and> p < mb_end b)"

lemma mem_map_placed:
  assumes "mem_map_Init psz ns fp = Inr s" "fp_ok fp" "\<forall>r \<in> set fp. 8 * psz \<le> pr_start r" "0 < psz" "psz < 2 ^ 16"
    "\<forall>x \<in> set ns. \<forall>b \<in> set (memblocks x). mb_end b \<le> 2 ^ 34 \<and> mb_start b < u64 \<and> 0 \<le> mb_nid b \<and> mb_nid b < 256"
  obtains s0 m where "early s0 = fp"
    "\<And>p. in_blocks ns p \<Longrightarrow> p div 32768 < kSections \<and> placed psz s0 s (p div 32768) (m (p div 32768)) \<and>
      (\<exists>x \<in> set ns. \<exists>b \<in> set (memblocks x). touches b (p div 32768) \<and> EarlyNid (secs s0 (p div 32768)) = mb_nid b)"
    "\<And>p q. in_blocks ns p \<Longrightarrow> in_blocks ns q \<Longrightarrow> p div 32768 \<noteq> q div 32768 \<Longrightarrow> mblk psz (m (p div 32768)) \<inter> mblk psz (m (q div 32768)) = {}"
proof -
  let ?bs = "concat (map memblocks ns)"
  obtain sc where sc: "mark_blocks ?bs (\<lambda>_. 0) = Inr sc" "map_sections psz [0..<kSections] \<lparr>secs = sc, descs = \<lambda>_. None, early = fp\<rparr> = Inr s"
    using assms(1) by (auto simp: mem_map_Init_def bindr_eq_Inr_iff)
  let ?s0 = "\<lparr>secs = sc, descs = \<lambda>_. None, early = fp\<rparr>"
  have "\<forall>b \<in> set ?bs. mb_end b \<le> 2 ^ 34 \<and> mb_start b < u64" using assms(6) by auto
  note mk = mark_blocks_ok [OF sc(1) this]
  have "early_ok psz fp" using assms(2,3) by (simp add: early_ok_def)
  then have "\<exists>m. (\<forall>i \<in> set [0..<kSections]. Present (sc i) \<longrightarrow> placed psz ?s0 s i (m i)) \<and>
      (\<forall>i \<in> set [0..<kSections]. \<forall>k \<in> set [0..<kSections]. Present (sc i) \<and> Present (sc k) \<and> i \<noteq> k \<longrightarrow> mblk psz (m i) \<inter> mblk psz (m k) = {})"
    using map_sections_ok [OF sc(2) _ _ assms(4,5)] by simp
  then obtain m where m: "\<And>i. i < kSections \<Longrightarrow> Present (sc i) \<Longrightarrow> placed psz ?s0 s i (m i)"
      "\<And>i k. i < kSections \<Longrightarrow> k < kSections \<Longrightarrow> Present (sc i) \<Longrightarrow> Present (sc k) \<Longrightarrow> i \<noteq> k \<Longrightarrow> mblk psz (m i) \<inter> mblk psz (m k) = {}"
    by fastforce
  have b: "p div 32768 < kSections \<and> Present (sc (p div 32768)) \<and>
      (\<exists>x \<in> set ns. \<exists>b \<in> set (memblocks x). touches b (p div 32768) \<and> EarlyNid (sc (p div 32768)) = mb_nid b)" if ip: "in_blocks ns p" for p
  proof -
    obtain x b where x: "x \<in> set ns" "b \<in> set (memblocks x)" "mb_start b \<le> p" "p < mb_end b" using ip by (auto simp: in_blocks_def)
    then have "p < 524288 * 32768" using assms(6) by fastforce
    then have "p div 32768 < kSections" unfolding section_consts by (rule less_mult_imp_div_less)
    moreover have "p div 32768 * 32768 < mb_end b" using x(4) by (rule le_less_trans [OF div_times_less_eq_dividend])
    then have "touches b (p div 32768)" using x(3) by (simp add: touches_def div_le_mono)
    moreover have "b \<in> set ?bs" using x(1,2) by auto
    ultimately obtain c where c: "c \<in> set ?bs" "touches c (p div 32768)" "sc (p div 32768) = SetEarlyNid (mb_nid c)"
      using spec [OF conjunct2 [OF mk], of "p div 32768"] Present_0 by blast
    obtain y where y: "y \<in> set ns" "c \<in> set (memblocks y)" using c(1) by auto
    then have "EarlyNid (sc (p div 32768)) = mb_nid c" using EarlyNid_SetEarlyNid [of "mb_nid c"] assms(6) c(3) by simp
    then show ?thesis using \<open>p div 32768 < kSections\<close> y c(2,3) by auto
  qed
  show ?thesis using that [of ?s0 m] b m by simp
qed

text \<open>C18: The memory map.  After \<open>mem_map::Init\<close> every frame of a memory block has a descriptor: \<open>PfnToPage\<close> computes
  its address from the encoded base of the section without a fault, the descriptors of different frames do not overlap, their
  bytes lie in pages that the initialisation took from the early allocator, and each holds a reserved page with the node
  of a memory block of the section.  The one exception is a section whose encoded base is zero: \<open>PfnToPage\<close> takes it for a section without a map.\<close>

theorem mem_map_descriptors:
  assumes "mem_map_Init psz ns fp = Inr s" "fp_ok fp" "\<forall>r \<in> set fp. 8 * psz \<le> pr_start r" "0 < psz" "psz < 2 ^ 16"
    "\<forall>x \<in> set ns. \<forall>b \<in> set (memblocks x). mb_end b \<le> 2 ^ 34 \<and> mb_start b < u64 \<and> 0 \<le> mb_nid b \<and> mb_nid b < 256"
  shows "\<exists>d. \<forall>p. in_blocks ns p \<longrightarrow> described psz ns s p (d p) \<and>
    desc_bytes psz (d p) \<subseteq> (\<Union>f \<in> fp_frames fp - fp_frames (early s). page_bytes f) \<and>
    (\<forall>q. in_blocks ns q \<and> p \<noteq> q \<longrightarrow> desc_bytes psz (d p) \<inter> desc_bytes psz (d q) = {})"
proof -
  from mem_map_placed [OF assms] obtain s0 m where e: "early s0 = fp" and
    m: "\<And>p. in_blocks ns p \<Longrightarrow> p div 32768 < kSections \<and> placed psz s0 s (p div 32768) (m (p div 32768)) \<and>
      (\<exists>x \<in> set ns. \<exists>b \<in> set (memblocks x). touches b (p div 32768) \<and> EarlyNid (secs s0 (p div 32768)) = mb_nid b)"
    "\<And>p q. in_blocks ns p \<Longrightarrow> in_blocks ns q \<Longrightarrow> p div 32768 \<noteq> q div 32768 \<Longrightarrow> mblk psz (m (p div 32768)) \<inter> mblk psz (m (q div 32768)) = {}"
    by blast
  let ?d = "desc_addr_of psz m"
  have "described psz ns s p (?d p)" "desc_bytes psz (?d p) \<subseteq> (\<Union>f \<in> fp_frames fp - fp_frames (early s). page_bytes f)" if p: "in_blocks ns p" for p
  proof -
    have pl: "placed psz s0 s (p div 32768) (m (p div 32768))" "p div 32768 < kSections" using m(1) [OF p] by blast+
    obtain x b where b: "x \<in> set ns" "b \<in> set (memblocks x)" "touches b (p div 32768)" "EarlyNid (secs s0 (p div 32768)) = mb_nid b"
      using m(1) [OF p] by blast
    have "descs s (?d p) = Some (Page_init (nat (mb_nid b mod 256)))"
      unfolding desc_addr_of_def using pl(1) b(4) by (simp add: placed_def)
    moreover have "mb_nid b mod 256 = mb_nid b" using b(1,2) assms(6) by (simp add: mod_pos_pos_trivial)
    ultimately show "described psz ns s p (?d p)" unfolding described_def using placed_page [of psz s0 s p m] pl b(1-3) by auto
    have "mblk psz (m (p div 32768)) \<subseteq> fp_frames fp - fp_frames (early s)" using pl(1) e by (simp add: placed_def)
    then show "desc_bytes psz (?d p) \<subseteq> (\<Union>f \<in> fp_frames fp - fp_frames (early s). page_bytes f)"
      using placed_bytes [of psz s0 s p m] pl(1) assms(4) by blast
  qed
  moreover have "desc_bytes psz (?d p) \<inter> desc_bytes psz (?d q) = {}" if pq: "in_blocks ns p" "in_blocks ns q" "p \<noteq> q" for p q
  proof (cases "p div 32768 = q div 32768")
    case True
    then have "p mod 32768 \<noteq> q mod 32768" using pq(3) by (metis div_mult_mod_eq)
    from disjoint_bytes [OF this assms(4), of "4096 * m (p div 32768)"] show ?thesis
      using True m(1) [OF pq(1)] m(1) [OF pq(2)] placed_addr [of psz s0 s p m] placed_addr [of psz s0 s q m] assms(4)
      by (simp add: desc_bytes_def)
  next
    case False
    have "desc_bytes psz (?d p) \<subseteq> (\<Union>f \<in> mblk psz (m (p div 32768)). page_bytes f)"
      "desc_bytes psz (?d q) \<subseteq> (\<Union>f \<in> mblk psz (m (q div 32768)). page_bytes f)"
      using placed_bytes [of psz s0 s p m] placed_bytes [of psz s0 s q m] m(1) [OF pq(1)] m(1) [OF pq(2)] assms(4) by simp_all
    then show ?thesis using page_bytes_disjoint [OF m(2) [OF pq(1,2) False]] by blast
  qed
  ultimately show ?thesis by blast
qed

definition demo_nodes :: "node list" where
  "demo_nodes = [\<lparr>memblocks = [\<lparr>mb_start = 1000, mb_end = 2010, mb_nid = 0\<rparr>], pfn_start = 1000, pfn_end = 2010\<rparr>]"

definition demo_mem :: mem_state where
  "demo_mem = \<lparr>secs = (\<lambda>_. 0)(0 := SetMap 42 (of_nat (ToAddr 1664)) 0), descs = new_pages 42 0 (of_nat (ToAddr 1664)) (\<lambda>_. None),
    early = [PageRange 1000 664 0]\<rparr>"

lemma map_sections_absent: "\<forall>i \<in> set is. \<not> Present (secs s i) \<Longrightarrow> map_sections psz is s = Inr s"
  by (induction "is") (auto simp: map_section_def)

lemma demo_mem: "mem_map_Init 42 demo_nodes [PageRange 1000 1000 0] = Inr demo_mem"
proof -
  let ?s0 = "\<lparr>secs = (\<lambda>_. 0)(0 := SetEarlyNid 0), descs = \<lambda>_. None, early = [PageRange 1000 1000 0]\<rparr>"
  have start: "unat (of_nat 1000 AND kPageSectionMask) = 0" using section_start [of 1000] by simp
  have e: "mark_sections 0 32768 2010 (\<lambda>x. if x = 0 then SetEarlyNid 0 else 0) = Inr (\<lambda>x. if x = 0 then SetEarlyNid 0 else 0)"
    by (subst mark_sections.simps) simp
  have "mark_sections 0 0 2010 (\<lambda>_. 0) = Inr ((\<lambda>_. 0)(0 := SetEarlyNid 0))"
    by (subst mark_sections.simps) (simp add: section_consts e fun_upd_def)
  then have "mark_blocks (concat (map memblocks demo_nodes)) (\<lambda>_. 0) = Inr ((\<lambda>_. 0)(0 := SetEarlyNid 0))"
    using start by (simp add: demo_nodes_def)
  moreover have "map_section 42 0 ?s0 = Inr demo_mem"
    by (simp add: map_section_def section_map_pages_val EarlyNid_SetEarlyNid demo_mem_def PageRange_def pr_end_def Nid_Any_def Let_def)
  moreover have "map_sections 42 [1..<kSections] demo_mem = Inr demo_mem" by (rule map_sections_absent) (simp add: demo_mem_def)
  moreover have "[0..<kSections] = 0 # [1..<kSections]" 
  proof -
    have "0 < kSections" by (simp add: section_consts(2))
    then show ?thesis using upt_conv_Cons [of 0 kSections] by simp
  qed
  ultimately show ?thesis by (simp add: mem_map_Init_def)
qed

theorem mem_map_descriptors_witness:
  "mem_map_Init 42 demo_nodes [PageRange 1000 1000 0] = Inr demo_mem \<and>
    (\<exists>d. described 42 demo_nodes demo_mem 2000 (d 2000) \<and> desc_bytes 42 (d 2000) \<inter> desc_bytes 42 (d (2001 :: nat)) = {})"
proof -
  have f: "fp_ok [PageRange 1000 1000 0]" "\<forall>r \<in> set [PageRange 1000 1000 0]. 8 * 42 \<le> pr_start r"
    by (simp_all add: fp_ok_def pr_ok_def PageRange_def)
  have n: "\<forall>x \<in> set demo_nodes. \<forall>b \<in> set (memblocks x). mb_end b \<le> 2 ^ 34 \<and> mb_start b < u64 \<and> 0 \<le> mb_nid b \<and> mb_nid b < 256"
    by (simp add: demo_nodes_def)
  have "in_blocks demo_nodes 2000" "in_blocks demo_nodes 2001 \<and> (2000 :: nat) \<noteq> 2001" by (simp_all add: in_blocks_def demo_nodes_def)
  moreover from mem_map_descriptors [OF demo_mem f _ _ n] obtain d where
    "\<forall>p. in_blocks demo_nodes p \<longrightarrow> described 42 demo_nodes demo_mem p (d p) \<and>
      desc_bytes 42 (d p) \<subseteq> (\<Union>f \<in> fp_frames [PageRange 1000 1000 0] - fp_frames (early demo_mem). page_bytes f) \<and>
      (\<forall>q. in_blocks demo_nodes q \<and> p \<noteq> q \<longrightarrow> desc_bytes 42 (d p) \<inter> desc_bytes 42 (d q) = {})" by auto
  ultimately show ?thesis using demo_mem by blast
qed

section \<open>Nodes and free frames\<close>

text \<open>Assigning the memory blocks to their nodes keeps the ranges sorted and disjoint and adds no frame.\<close>

lemma numa_Init_frames:
  assumes "fp_ok fp" "\<forall>x \<in> set ns. \<forall>b \<in> set (memblocks x). mb_start b < mb_end b \<and> mb_end b \<le> 2 ^ 52"
  shows "fp_ok (snd (numa_Init ns fp)) \<and> fp_frames (snd (numa_Init ns fp)) \<subseteq> fp_frames fp"
  using assms
proof (induction ns arbitrary: fp)
  case (Cons x ns)
  have "fp_ok (fold (\<lambda>b. SetNidRange (mb_start b) (mb_end b) (mb_nid b)) bs fp) \<and>
      fp_frames (fold (\<lambda>b. SetNidRange (mb_start b) (mb_end b) (mb_nid b)) bs fp) \<subseteq> fp_frames fp"
    if "\<forall>b \<in> set bs. mb_start b < mb_end b \<and> mb_end b \<le> 2 ^ 52" "fp_ok fp" for bs fp
    using that
  proof (induction bs arbitrary: fp)
    case (Cons b bs)
    have "fp_ok (SetNidRange (mb_start b) (mb_end b) (mb_nid b) fp)" "fp_frames (SetNidRange (mb_start b) (mb_end b) (mb_nid b) fp) \<subseteq> fp_frames fp"
      using SetNidRange_ok [OF Cons.prems(2), of "mb_start b" "mb_end b" "mb_nid b"] Cons.prems(1) by auto
    then show ?case using Cons.IH Cons.prems(1) by fastforce
  qed simp
  from this [of "sort_key mb_start (memblocks x)" fp] Cons.prems
  have "fp_ok (snd (init_node x fp))" "fp_frames (snd (init_node x fp)) \<subseteq> fp_frames fp" by (simp_all add: init_node_def Let_def)
  then show ?case using Cons.IH [of "snd (init_node x fp)"] Cons.prems(2) by (auto simp: Let_def case_prod_beta)
qed simp

end
