(* ===== verification/PageTables.thy ===== *)
theory PageTables
  imports PageAllocator EarlyPages
begin

text \<open>
  Page tables (\<open>src/src/native/VMem.h\<close>, \<open>VMem.cc\<close>) and the faults that fill them (\<open>Trans.cc\<close>, the
  stack handler of \<open>EventManager.cc\<close>).  Entries are 64-bit words.  A reference to an entry is the root variable or
  the physical address of a table slot; all physical memory is mapped at its own address, so that the pointers of
  the code are physical addresses.  Invalidation of the translation cache is not modelled.  The allocator of frames is the
  last component of the state and its allocation function an argument of the operations.
\<close>

section \<open>Page table entries\<close>

definition kPermRead :: "32 word" where "kPermRead = 1"

definition kPermWrite :: "32 word" where "kPermWrite = push_bit 1 1"

definition kPermExec :: "32 word" where "kPermExec = push_bit 2 1"

type_synonym pte = "64 word"

definition Pte_Present :: "pte \<Rightarrow> bool" where "Pte_Present raw \<longleftrightarrow> raw AND 1 \<noteq> 0"

definition Pte_Addr :: "bool \<Rightarrow> pte \<Rightarrow> 64 word" where
  "Pte_Addr large raw = raw AND (push_bit 52 1 - 1) AND NOT (push_bit 12 1 - 1) AND NOT (push_bit 12 (of_bool large))"

definition Pte_Large :: "pte \<Rightarrow> bool" where "Pte_Large raw \<longleftrightarrow> raw AND push_bit 7 1 \<noteq> 0"

definition SetBit :: "nat \<Rightarrow> bool \<Rightarrow> pte \<Rightarrow> pte" where
  "SetBit bit_num val raw = (raw AND NOT (push_bit bit_num 1)) OR push_bit bit_num (of_bool val)"

definition Pte_SetAddr :: "64 word \<Rightarrow> bool \<Rightarrow> pte \<Rightarrow> pte" where
  "Pte_SetAddr addr large raw = (raw AND (0x8000000000000fff OR push_bit 12 (of_bool large))) OR addr"

definition Pte_Set :: "64 word \<Rightarrow> bool \<Rightarrow> 32 word \<Rightarrow> pte" where
  "Pte_Set phys_addr large permissions =
    SetBit 63 (permissions AND kPermExec = 0)
     (Pte_SetAddr phys_addr large
      (SetBit 7 large
       (SetBit 1 (permissions AND kPermWrite \<noteq> 0)
        (SetBit 0 (permissions \<noteq> 0) 0))))"

definition Set_default :: "64 word \<Rightarrow> bool \<Rightarrow> pte" where
  "Set_default phys_addr large = Pte_Set phys_addr large (kPermRead OR kPermWrite OR kPermExec)"

definition SetNormal :: "64 word \<Rightarrow> pte" where "SetNormal phys_addr = Set_default phys_addr False"

definition kNumPageSizes :: nat where "kNumPageSizes = 2"

definition PtIndex :: "64 word \<Rightarrow> nat \<Rightarrow> nat" where
  "PtIndex virt_addr level = unat (drop_bit (12 + level * 9) virt_addr AND (push_bit 9 1 - 1))"

definition Canonical :: "64 word \<Rightarrow> 64 word" where
  "Canonical addr = signed_drop_bit 16 (push_bit 16 addr)"

section \<open>Traversal\<close>

datatype entry = Root | Slot "64 word"

record 'a tables =
  root :: pte
  slots :: "64 word \<Rightarrow> pte"
  pool :: 'a

definition get :: "entry \<Rightarrow> 'a tables \<Rightarrow> pte" where
  "get e s = (case e of Root \<Rightarrow> root s | Slot a \<Rightarrow> slots s a)"

definition put :: "entry \<Rightarrow> pte \<Rightarrow> 'a tables \<Rightarrow> 'a tables" where
  "put e v s = (case e of Root \<Rightarrow> s\<lparr>root := v\<rparr> | Slot a \<Rightarrow> s\<lparr>slots := (slots s)(a := v)\<rparr>)"

type_synonym 'a found = "entry \<Rightarrow> 64 word \<Rightarrow> nat \<Rightarrow> 'a tables \<Rightarrow> 'a tables result"
type_synonym 'a vacant = "entry \<Rightarrow> 'a tables \<Rightarrow> (bool \<times> 'a tables) result"

text \<open>The loop over the slots of a table.\<close>

fun slot_loop :: "(nat \<Rightarrow> 64 word \<Rightarrow> 's \<Rightarrow> 's result) \<Rightarrow> 64 word \<Rightarrow> nat list \<Rightarrow> 64 word \<Rightarrow> 's \<Rightarrow> 's result" where
  "slot_loop f step [] base_virt s = Inr s"
| "slot_loop f step (idx # is) base_virt s = bindr (f idx base_virt s) (slot_loop f step is (Canonical (base_virt + step)))"

text \<open>At level 0 the code decrements an unsigned zero.\<close>

primrec TraversePageTable :: "nat \<Rightarrow> 'a found \<Rightarrow> 'a vacant \<Rightarrow> entry \<Rightarrow> 64 word \<Rightarrow> 64 word \<Rightarrow> 64 word \<Rightarrow> 'a tables \<Rightarrow> 'a tables result" where
  "TraversePageTable 0 found vacant e virt_start virt_end base_virt s = Inl (Undefined ''--level'')"
| "TraversePageTable (Suc level) found vacant e virt_start virt_end base_virt s =
    bindr (if Pte_Present (get e s) then Inr (True, s) else vacant e s) (\<lambda>(go, s).
      if \<not> go then Inr s
      else let pt = Pte_Addr False (get e s);
               step = push_bit (12 + level * 9) 1;
               idx_begin = PtIndex (max virt_start base_virt) level;
               base_virt_end = Canonical (base_virt + step * 512 - 1);
               idx_end = PtIndex (min (virt_end - 1) base_virt_end) level
           in slot_loop (\<lambda>idx bv s.
                if level < kNumPageSizes \<and> virt_start \<le> bv \<and> bv + step \<le> virt_end
                then found (Slot (pt + of_nat idx * 8)) bv level s
                else TraversePageTable level found vacant (Slot (pt + of_nat idx * 8)) virt_start virt_end bv s)
              step [idx_begin..<Suc idx_end] (base_virt + Canonical (of_nat idx_begin * step)) s)"

section \<open>Mapping\<close>

text \<open>\<open>new Pte[512]\<close> in a fresh page.\<close>

definition clear_table :: "64 word \<Rightarrow> (64 word \<Rightarrow> pte) \<Rightarrow> 64 word \<Rightarrow> pte" where
  "clear_table a m = (\<lambda>x. if \<exists>i < 512. x = a + of_nat i * 8 then 0 else m x)"

definition new_table :: "('a \<Rightarrow> (pfn \<times> 'a) result) \<Rightarrow> 'a vacant" where
  "new_table alloc e s =
    bindr (alloc (pool s)) (\<lambda>(page, a).
      if page = Pfn_None then Inl (KAbort ''page == Pfn::None()'')
      else let page_addr = of_nat (ToAddr page) in
        Inr (True, put e (SetNormal page_addr) (s\<lparr>slots := clear_table page_addr (slots s), pool := a\<rparr>)))"

definition map_found :: "64 word \<Rightarrow> 64 word \<Rightarrow> 'a found" where
  "map_found vaddr paddr e base_virt level s =
    (if Pte_Present (get e s) then Inl (KAssert ''!entry.Present()'')
     else Inr (put e (Set_default (paddr + (base_virt - vaddr)) (0 < level)) s))"

text \<open>\<open>MapMemory\<close> and \<open>MapMemoryLarge\<close> start from a copy of the register \<open>cr3\<close>, which the traversal does not write back.\<close>

definition MapMemory :: "('a \<Rightarrow> (pfn \<times> 'a) result) \<Rightarrow> pfn \<Rightarrow> pfn \<Rightarrow> 64 word \<Rightarrow> 'a tables \<Rightarrow> 'a tables result" where
  "MapMemory alloc vfn p len s =
    (let vaddr = of_nat (ToAddr vfn) in
     bindr (TraversePageTable 4 (map_found vaddr (of_nat (ToAddr p))) (new_table alloc) Root vaddr (vaddr + len) 0 s)
       (\<lambda>s'. Inr (s'\<lparr>root := root s\<rparr>)))"

definition MapMemoryLarge :: "('a \<Rightarrow> (pfn \<times> 'a) result) \<Rightarrow> 64 word \<Rightarrow> pfn \<Rightarrow> 64 word \<Rightarrow> 'a tables \<Rightarrow> 'a tables result" where
  "MapMemoryLarge alloc vaddr p len s =
    bindr (TraversePageTable 4 (map_found vaddr (of_nat (ToAddr p))) (new_table alloc) Root vaddr (vaddr + len) 0 s)
      (\<lambda>s'. Inr (s'\<lparr>root := root s\<rparr>))"

definition early_found :: "'a found" where
  "early_found e base_virt level s =
    (if Pte_Present (get e s) then
       (if Pte_Addr (0 < level) (get e s) = base_virt then Inr s else Inl (KAssert ''entry.Addr(level > 0) == base_virt''))
     else Inr (put e (Set_default base_virt (0 < level)) s))"

definition EarlyMapMemory :: "('a \<Rightarrow> (pfn \<times> 'a) result) \<Rightarrow> 64 word \<Rightarrow> 64 word \<Rightarrow> 'a tables \<Rightarrow> 'a tables result" where
  "EarlyMapMemory alloc addr len s =
    (let aligned_addr = align_Down addr (of_nat kPageSize);
         aligned_length = align_Up (len + (addr - aligned_addr)) (of_nat kPageSize) in
     TraversePageTable 4 early_found (new_table alloc) Root aligned_addr (aligned_addr + aligned_length) 0 s)"

definition unmap_found :: "'a found" where
  "unmap_found e base_virt level s =
    (if \<not> Pte_Present (get e s) then Inl (KAssert ''entry.Present()'') else Inr (put e (SetBit 0 False (get e s)) s))"

definition EarlyUnmapMemory :: "64 word \<Rightarrow> 64 word \<Rightarrow> 'a tables \<Rightarrow> 'a tables result" where
  "EarlyUnmapMemory addr len s =
    (let aligned_addr = align_Down addr (of_nat kPageSize);
         aligned_length = align_Up (len + (addr - aligned_addr)) (of_nat kPageSize) in
     TraversePageTable 4 unmap_found (\<lambda>e s. Inl (KAbort ''Asked to unmap memory that was not mapped'')) Root
       aligned_addr (aligned_addr + aligned_length) 0 s)"

text \<open>A processor gets a copy of the top-level table.\<close>

definition vmem_ApInit :: "('a \<Rightarrow> (pfn \<times> 'a) result) \<Rightarrow> 'a tables \<Rightarrow> 'a tables result" where
  "vmem_ApInit alloc s =
    bindr (alloc (pool s)) (\<lambda>(page, a).
      if page = Pfn_None then Inl (KAbort ''Failed to allocate page for initial page tables'')
      else let page_addr = of_nat (ToAddr page); src = Pte_Addr False (root s) in
        Inr (s\<lparr>root := SetNormal page_addr, pool := a,
          slots := (\<lambda>x. if x - page_addr < 4096 then slots s (src + (x - page_addr)) else slots s x)\<rparr>))"

section \<open>Faults that map a page\<close>

definition kTransStart :: "64 word" where "kTransStart = 0xFFFFFFFF00000000"

text \<open>The first page of the translation table, on the first processor and on the others.\<close>

definition trans_Init :: "('a \<Rightarrow> (pfn \<times> 'a) result) \<Rightarrow> 'a tables \<Rightarrow> 'a tables result" where
  "trans_Init alloc s =
    bindr (alloc (pool s)) (\<lambda>(page, a).
    bindr (TraversePageTable 4 (map_found kTransStart (of_nat (ToAddr page))) (new_table alloc) Root
        kTransStart (kTransStart + of_nat kPageSize) 0 (s\<lparr>pool := a\<rparr>))
      (\<lambda>s. Inr (s\<lparr>slots := clear_table (of_nat (ToAddr page)) (slots s)\<rparr>)))"

definition ap_found :: "('a \<Rightarrow> (pfn \<times> 'a) result) \<Rightarrow> 'a found" where
  "ap_found alloc e base_virt level s =
    (if Pte_Present (get e s) then Inl (KAssert ''!entry.Present()'')
     else bindr (alloc (pool s)) (\<lambda>(page, a).
       if page = Pfn_None then Inl (Undefined ''memset of the page of Pfn::None()'')
       else let page_addr = of_nat (ToAddr page) in
         Inr (put e (Set_default (page_addr + (base_virt - kTransStart)) (0 < level))
           (s\<lparr>slots := clear_table page_addr (slots s), pool := a\<rparr>))))"

definition ap_vacant :: "('a \<Rightarrow> (pfn \<times> 'a) result) \<Rightarrow> 'a vacant" where
  "ap_vacant alloc e s =
    bindr (alloc (pool s)) (\<lambda>(page, a).
      if page = Pfn_None then Inl (Undefined ''new Pte[512] in the page of Pfn::None()'')
      else let page_addr = of_nat (ToAddr page) in
        Inr (True, put e (SetNormal page_addr) (s\<lparr>slots := clear_table page_addr (slots s), pool := a\<rparr>)))"

definition trans_ApInit :: "('a \<Rightarrow> (pfn \<times> 'a) result) \<Rightarrow> 'a tables \<Rightarrow> 'a tables result" where
  "trans_ApInit alloc s =
    (let pt = Pte_Addr False (root s);
         s1 = s\<lparr>slots := (slots s)(pt + of_nat (PtIndex kTransStart 3) * 8 := 0)\<rparr> in
     bindr (TraversePageTable 4 (ap_found alloc) (ap_vacant alloc) Root kTransStart (kTransStart + of_nat kPageSize) 0 s1)
       (\<lambda>s'. Inr (s'\<lparr>root := root s\<rparr>)))"

text \<open>\<open>trans::HandleFault\<close>: a zeroed page behind a part of the translation table.  The page is zeroed before
  the result of the allocation is checked.\<close>

definition trans_HandleFault :: "('a \<Rightarrow> (pfn \<times> 'a) result) \<Rightarrow> nat \<Rightarrow> 'a tables \<Rightarrow> 'a tables result" where
  "trans_HandleFault alloc fault_addr s =
    bindr (alloc (pool s)) (\<lambda>(page, a).
      if page = Pfn_None then Inl (Undefined ''memset of the page of Pfn::None()'')
      else MapMemory alloc (Pfn_Down fault_addr) page (of_nat kPageSize)
        (s\<lparr>slots := clear_table (of_nat (ToAddr page)) (slots s), pool := a\<rparr>))"

text \<open>\<open>EventStackFaultHandler::HandleFault\<close>, with the map \<open>mappings_\<close> of the stack as an association list.\<close>

definition stack_HandleFault :: "('a \<Rightarrow> (pfn \<times> 'a) result) \<Rightarrow> nat \<Rightarrow> nat \<Rightarrow> (pfn \<times> pfn) list \<Rightarrow> 'a tables \<Rightarrow>
    ((pfn \<times> pfn) list \<times> 'a tables) result" where
  "stack_HandleFault alloc stack_pages fault_addr mappings s =
    (let page = Pfn_Down fault_addr in
     case map_of mappings page of
       None \<Rightarrow>
         if stack_pages \<le> length mappings + 1 then Inl (KAbort ''Stack overflow!'')
         else bindr (alloc (pool s)) (\<lambda>(backing_page, a).
           if backing_page = Pfn_None then Inl (KAbort ''Failed to allocate page for stack'')
           else bindr (MapMemory alloc page backing_page (of_nat kPageSize) (s\<lparr>pool := a\<rparr>))
             (\<lambda>s. Inr ((page, backing_page) # mappings, s)))
     | Some backing_page \<Rightarrow> bindr (MapMemory alloc page backing_page (of_nat kPageSize) s) (\<lambda>s. Inr (mappings, s)))"

section \<open>The traversal of one page\<close>

definition page_va :: "64 word \<Rightarrow> bool" where
  "page_va va \<longleftrightarrow> va AND mask 12 = 0 \<and> Canonical va = va \<and> va \<noteq> 0xFFFFFFFFFFE00000"

definition base_at :: "64 word \<Rightarrow> nat \<Rightarrow> 64 word" where
  "base_at va k = va AND NOT (mask (12 + 9 * k))"

lemma bit_Canonical: "bit (Canonical w) n \<longleftrightarrow> n < 64 \<and> bit w (min n 47)"
  by (auto simp: Canonical_def bit_signed_drop_bit_iff bit_push_bit_iff min_def)

lemma PtIndex_word: "of_nat (PtIndex va l) = drop_bit (12 + 9 * l) va AND mask 9"
  by (simp add: PtIndex_def mask_eq_exp_minus_1 push_bit_eq_mult mult.commute)

lemma PtIndex_less: "PtIndex va l < 512"
proof -
  have "drop_bit (12 + l * 9) va AND (push_bit 9 1 - 1) \<le> (push_bit 9 1 - 1 :: 64 word)" by (rule word_and_le1)
  then have "unat (drop_bit (12 + l * 9) va AND (push_bit 9 1 - 1)) \<le> unat (push_bit 9 1 - 1 :: 64 word)" by (rule word_le_nat_alt [THEN iffD1])
  then show ?thesis unfolding PtIndex_def by simp
qed

lemma index_step:
  "bit (of_nat (PtIndex va l) * push_bit (12 + l * 9) 1 :: 64 word) n \<longleftrightarrow> 12 + 9 * l \<le> n \<and> n < 21 + 9 * l \<and> n < 64 \<and> bit va n"
proof -
  have "of_nat (PtIndex va l) * push_bit (12 + l * 9) 1 = push_bit (12 + 9 * l) (drop_bit (12 + 9 * l) va AND mask 9)"
    by (simp only: PtIndex_word) (simp add: push_bit_eq_mult mult.commute)
  then show ?thesis unfolding \<open>_ = _\<close> by (auto simp: bit_simps)
qed

lemma canonical_bits: "page_va va \<Longrightarrow> 47 \<le> n \<Longrightarrow> n < 64 \<Longrightarrow> bit va n \<longleftrightarrow> bit va 47"
  using bit_Canonical [of va n] by (simp add: page_va_def min_def)

lemma aligned_bits: "page_va va \<Longrightarrow> n < 12 \<Longrightarrow> \<not> bit va n"
proof -
  assume "page_va va" "n < 12"
  then have "bit (va AND mask 12) n = bit (0 :: 64 word) n" by (simp add: page_va_def)
  then show "\<not> bit va n" using \<open>n < 12\<close> by (simp add: bit_and_iff bit_mask_iff)
qed

lemma base_0: "page_va va \<Longrightarrow> base_at va 0 = va"
  by (rule bit_word_eqI) (auto simp: base_at_def bit_simps aligned_bits)

lemma base_step:
  assumes "page_va va" "l \<le> 3"
  shows "(if l = 3 then 0 else base_at va (Suc l)) + Canonical (of_nat (PtIndex va l) * push_bit (12 + l * 9) 1) = base_at va l"
proof -
  note c = canonical_bits [OF assms(1)]
  show ?thesis
  proof (cases "l = 3")
    case True
    have "bit (Canonical (of_nat (PtIndex va 3) * push_bit (12 + 3 * 9) 1)) n = bit (base_at va 3) n" if "n < 64" for n
      unfolding bit_Canonical index_step base_at_def using c [of n] that by (cases "47 \<le> n") (auto simp: bit_simps min_def)
    then have "Canonical (of_nat (PtIndex va 3) * push_bit (12 + 3 * 9) 1) = base_at va 3" by (intro bit_word_eqI) simp
    then show ?thesis using True by simp
  next
    case False
    define c where "c = Canonical (of_nat (PtIndex va l) * push_bit (12 + l * 9) 1)"
    have b: "bit c n \<longleftrightarrow> 12 + 9 * l \<le> n \<and> n < 21 + 9 * l \<and> bit va n" for n
      unfolding c_def bit_Canonical index_step using False assms(2) by (auto simp: min_def)
    have "base_at va (Suc l) + c = base_at va (Suc l) OR c"
      by (rule disjunctive_add) (auto simp: b base_at_def bit_simps)
    also have "\<dots> = base_at va l"
      by (rule bit_word_eqI) (use False assms(2) in \<open>auto simp: b base_at_def bit_simps\<close>)
    finally show ?thesis using False unfolding c_def by simp
  qed
qed

lemma page_last: "page_va va \<Longrightarrow> va + 4096 - 1 = va OR mask 12"
proof -
  assume "page_va va"
  then have a: "va AND mask 12 = 0" by (simp add: page_va_def)
  have "va + mask 12 = va OR mask 12"
    by (rule disjunctive_add) (use arg_cong [OF a, of "\<lambda>w. bit w _"] in \<open>auto simp: bit_and_iff\<close>)
  moreover have "(mask 12 :: 64 word) = 4095" by (simp add: mask_eq_exp_minus_1)
  ultimately show ?thesis by (simp add: algebra_simps)
qed

lemma base_last:
  assumes "page_va va" "l \<le> 3"
  shows "va OR mask 12 \<le> Canonical ((if l = 3 then 0 else base_at va (Suc l)) + push_bit (12 + l * 9) 1 * 512 - 1)"
proof (cases "l = 3")
  case True
  have "(0 :: 64 word) + push_bit (12 + 3 * 9) 1 * 512 - 1 = mask 48" by (simp add: mask_eq_exp_minus_1)
  moreover have "Canonical (mask 48) = mask 64" by (rule bit_word_eqI) (auto simp: bit_Canonical bit_mask_iff min_def)
  moreover have "(mask 64 :: 64 word) = -1" by (rule bit_word_eqI) (simp add: bit_mask_iff)
  ultimately show ?thesis using True by simp
next
  case False
  let ?k = "12 + 9 * Suc l"
  have "base_at va (Suc l) + mask ?k = base_at va (Suc l) OR mask ?k"
    by (rule disjunctive_add) (auto simp: base_at_def bit_simps)
  also have "\<dots> = va OR mask ?k" by (rule bit_word_eqI) (auto simp: base_at_def bit_simps)
  finally have "base_at va (Suc l) + push_bit (12 + l * 9) 1 * 512 - 1 = va OR mask ?k"
    by (simp add: mask_eq_exp_minus_1 push_bit_eq_mult power_add mult.commute power_mult algebra_simps)
  moreover have "Canonical (va OR mask ?k) = va OR mask ?k"
  proof (rule bit_word_eqI)
    fix n assume "n < LENGTH(64)"
    then show "bit (Canonical (va OR mask ?k)) n = bit (va OR mask ?k) n"
      using False assms(2) canonical_bits [OF assms(1), of n] unfolding bit_Canonical by (auto simp: bit_simps min_def)
  qed
  moreover have "va OR mask ?k = (va OR mask 12) OR mask ?k" by (rule bit_word_eqI) (auto simp: bit_simps)
  then have "va OR mask 12 \<le> va OR mask ?k" by (metis le_word_or2)
  ultimately show ?thesis using False by simp
qed

lemma PtIndex_last: "PtIndex (va OR mask 12) l = PtIndex va l"
proof -
  have "drop_bit (12 + l * 9) (va OR mask 12) = drop_bit (12 + l * 9) va" by (rule bit_word_eqI) (auto simp: bit_simps)
  then show ?thesis by (simp add: PtIndex_def)
qed

lemma base_le: "base_at va k \<le> va" unfolding base_at_def by (rule word_and_le2)

lemma large_not_covered:
  assumes "page_va va"
  shows "\<not> (va \<le> base_at va 1 \<and> base_at va 1 + push_bit 21 1 \<le> va + 4096)"
proof
  assume a: "va \<le> base_at va 1 \<and> base_at va 1 + push_bit 21 1 \<le> va + 4096"
  then have e: "base_at va 1 = va" using base_le [of va 1] by simp
  have "va AND mask 21 = 0" using arg_cong [OF e, of "\<lambda>w. w AND mask 21"] unfolding base_at_def
    by (simp add: and.assoc)
  then have z: "unat va mod 2 ^ 21 = 0" by (metis take_bit_eq_mask take_bit_eq_mod unat_0 unsigned_take_bit_eq)
  have l: "unat va < 2 ^ 64" using unsigned_less [of va] by simp
  have ne: "unat va \<noteq> 2 ^ 64 - 2 ^ 21"
  proof
    assume "unat va = 2 ^ 64 - 2 ^ 21"
    then have "unat va = unat (0xFFFFFFFFFFE00000 :: 64 word)" by simp
    then show False using assms unfolding page_va_def by (simp only: word_unat_eq_iff simp_thms)
  qed
  obtain q where "unat va = 2 ^ 21 * q" using z by (metis mod_0_imp_dvd dvdE)
  then have lt: "unat va + 2 ^ 21 < 2 ^ 64" using l ne by simp
  have "unat (va + 2 ^ 21) = unat va + unat (2 ^ 21 :: 64 word)" by (rule unat_add_lem [THEN iffD1]) (use lt in simp)
  moreover have "unat (va + 4096) = unat va + unat (4096 :: 64 word)" by (rule unat_add_lem [THEN iffD1]) (use lt in simp)
  moreover have "va + 2 ^ 21 \<le> va + 4096" using a e by simp
  ultimately show False by (simp add: word_le_nat_alt)
qed

text \<open>The path of a single page: one slot per table.\<close>

primrec descend :: "nat \<Rightarrow> 'a found \<Rightarrow> 'a vacant \<Rightarrow> 64 word \<Rightarrow> entry \<Rightarrow> 'a tables \<Rightarrow> 'a tables result" where
  "descend 0 found vacant va e s = found e va 0 s"
| "descend (Suc l) found vacant va e s =
    bindr (if Pte_Present (get e s) then Inr (True, s) else vacant e s) (\<lambda>(go, s).
      if \<not> go then Inr s
      else descend l found vacant va (Slot (Pte_Addr False (get e s) + of_nat (PtIndex va l) * 8)) s)"

lemma Traverse_step:
  assumes "page_va va" "l \<le> 3"
  shows "TraversePageTable (Suc l) found vacant e va (va + 4096) (if l = 3 then 0 else base_at va (Suc l)) s =
    bindr (if Pte_Present (get e s) then Inr (True, s) else vacant e s) (\<lambda>(go, s).
      if \<not> go then Inr s
      else let x = Slot (Pte_Addr False (get e s) + of_nat (PtIndex va l) * 8) in
        if l = 0 then found x va 0 s else TraversePageTable l found vacant x va (va + 4096) (base_at va l) s)"
proof -
  let ?b = "if l = 3 then 0 else base_at va (Suc l)"
  have mx: "max va ?b = va" using base_le [of va "Suc l"] by (simp add: max_def)
  have mn: "min (va + 4096 - 1) (Canonical (?b + push_bit (12 + l * 9) 1 * 512 - 1)) = va OR mask 12"
    using base_last [OF assms] page_last [OF assms(1)] by (simp add: min_def)
  have c: "l < kNumPageSizes \<and> va \<le> base_at va l \<and> base_at va l + push_bit (12 + l * 9) 1 \<le> va + 4096 \<longleftrightarrow> l = 0"
  proof -
    consider "l = 0" | "l = 1" | "2 \<le> l" by linarith
    then show ?thesis using large_not_covered [OF assms(1)] base_0 [OF assms(1)] by cases (simp_all add: kNumPageSizes_def)
  qed
  have u: "[i..<Suc i] = [i]" for i by simp
  show ?thesis
    unfolding TraversePageTable.simps(2) Let_def mx mn PtIndex_last u slot_loop.simps base_step [OF assms] c
    by (rule arg_cong2 [of _ _ _ _ bindr]) (auto simp: fun_eq_iff base_0 [OF assms(1)] bindr_def split: sum.splits)
qed

lemma Traverse_page:
  assumes "page_va va" "l \<le> 3"
  shows "TraversePageTable (Suc l) found vacant e va (va + 4096) (if l = 3 then 0 else base_at va (Suc l)) s =
    descend (Suc l) found vacant va e s"
  using assms(2)
proof (induction l arbitrary: e s)
  case 0
  show ?case unfolding Traverse_step [OF assms(1) 0] Let_def descend.simps by (simp only: refl if_True)
next
  case (Suc l)
  have "l \<noteq> 3" "l \<le> 3" using Suc.prems by simp_all
  then have e: "TraversePageTable (Suc l) found vacant x va (va + 4096) (base_at va (Suc l)) s = descend (Suc l) found vacant va x s" for x s
    using Suc.IH [of x s] by (simp only: if_False simp_thms)
  show ?case unfolding Traverse_step [OF assms(1) Suc.prems] Let_def descend.simps(2) [of "Suc l"] e by (simp only: nat.distinct if_False)
qed

section \<open>What the processor reads\<close>

text \<open>The walk of the processor from an entry down to the page: large pages are leaves in the tables of level 1 and 2.\<close>

definition large_leaf :: "nat \<Rightarrow> pte \<Rightarrow> bool" where "large_leaf l raw \<longleftrightarrow> Pte_Large raw \<and> l < 2"

primrec hw_walk :: "(64 word \<Rightarrow> pte) \<Rightarrow> nat \<Rightarrow> pte \<Rightarrow> 64 word \<Rightarrow> 64 word option" where
  "hw_walk m 0 raw va = (if Pte_Present raw then Some (Pte_Addr False raw OR (va AND mask 12)) else None)"
| "hw_walk m (Suc l) raw va =
    (if \<not> Pte_Present raw then None
     else if large_leaf l raw then Some ((raw AND mask 52 AND NOT (mask (21 + 9 * l))) OR (va AND mask (21 + 9 * l)))
     else hw_walk m l (m (Pte_Addr False raw + of_nat (PtIndex va l) * 8)) va)"

text \<open>The tables below an entry, and that they form a tree.\<close>

primrec tabs :: "(64 word \<Rightarrow> pte) \<Rightarrow> nat \<Rightarrow> pte \<Rightarrow> 64 word set" where
  "tabs m 0 raw = {}"
| "tabs m (Suc l) raw = (if \<not> Pte_Present raw \<or> large_leaf l raw then {}
    else insert (Pte_Addr False raw) (\<Union>i < 512. tabs m l (m (Pte_Addr False raw + of_nat i * 8))))"

primrec pt_tree :: "(64 word \<Rightarrow> pte) \<Rightarrow> nat \<Rightarrow> pte \<Rightarrow> bool" where
  "pt_tree m 0 raw \<longleftrightarrow> True"
| "pt_tree m (Suc l) raw \<longleftrightarrow> \<not> Pte_Present raw \<or> large_leaf l raw \<or>
    (let t = Pte_Addr False raw; child = (\<lambda>i. m (t + of_nat i * 8)) in
     (\<forall>i < 512. pt_tree m l (child i) \<and> t \<notin> tabs m l (child i)) \<and>
     (\<forall>i < 512. \<forall>j < 512. i \<noteq> j \<longrightarrow> tabs m l (child i) \<inter> tabs m l (child j) = {}))"

definition page_aligned :: "64 word \<Rightarrow> bool" where "page_aligned t \<longleftrightarrow> (\<forall>n < 12. \<not> bit t n)"

definition slots_of :: "64 word set \<Rightarrow> 64 word set" where
  "slots_of T = {t + of_nat i * 8 | t i. t \<in> T \<and> i < 512}"

lemma Pte_Addr_bits: "bit (Pte_Addr False raw) n \<longleftrightarrow> 12 \<le> n \<and> n < 52 \<and> bit raw n"
proof -
  have "Pte_Addr False raw = raw AND mask 52 AND NOT (mask 12)"
    by (simp add: Pte_Addr_def mask_eq_exp_minus_1)
  then show ?thesis by (auto simp: bit_simps)
qed

lemma Pte_Addr_aligned: "page_aligned (Pte_Addr False raw)"
  by (simp add: page_aligned_def Pte_Addr_bits)

lemma tabs_aligned: "t \<in> tabs m l raw \<Longrightarrow> page_aligned t"
  by (induction l arbitrary: raw) (auto simp: Pte_Addr_aligned split: if_splits)

lemma slot_bits:
  assumes "page_aligned t" "i < 512"
  shows "(t + of_nat i * 8) AND NOT (mask 12) = t" "(t + of_nat i * 8) AND mask 12 = of_nat i * 8"
proof -
  have p: "of_nat i * 8 = (push_bit 3 (of_nat i) :: 64 word)" by (simp add: push_bit_eq_mult)
  have t: "(of_nat i :: 64 word) = take_bit 9 (of_nat i)"
    using assms(2) by (simp add: take_bit_nat_eq_self flip: of_nat_take_bit)
  have b: "n < 12" if "bit (of_nat i * 8 :: 64 word) n" for n
  proof -
    have n: "3 \<le> n" "bit (of_nat i :: 64 word) (n - 3)" using that unfolding p by (auto simp: bit_push_bit_iff)
    from n(2) have "n - 3 < 9" by (subst (asm) t) (simp add: bit_take_bit_iff)
    then show ?thesis by simp
  qed
  have o: "t + of_nat i * 8 = t OR of_nat i * 8"
    by (rule disjunctive_add) (use assms(1) b in \<open>auto simp: page_aligned_def\<close>)
  show "(t + of_nat i * 8) AND NOT (mask 12) = t"
    unfolding o by (rule bit_word_eqI) (use assms(1) b in \<open>auto simp: bit_simps page_aligned_def simp del: not_less simp flip: not_le\<close>)
  show "(t + of_nat i * 8) AND mask 12 = of_nat i * 8"
    unfolding o by (rule bit_word_eqI) (use assms(1) b in \<open>auto simp: bit_simps page_aligned_def\<close>)
qed

lemma slot_inj:
  assumes "page_aligned t" "page_aligned t'" "i < 512" "j < 512" "t + of_nat i * 8 = t' + of_nat j * (8 :: 64 word)"
  shows "t = t' \<and> i = j"
proof -
  have "t = t'" "of_nat i * 8 = (of_nat j * 8 :: 64 word)" using slot_bits [OF assms(1,3)] slot_bits [OF assms(2,4)] assms(5) by metis+
  moreover have "unat (of_nat i * 8 :: 64 word) = i * 8" "unat (of_nat j * 8 :: 64 word) = j * 8"
    using assms(3,4) by (simp_all add: unat_word_ariths unsigned_of_nat take_bit_nat_eq_self)
  ultimately show ?thesis by (metis mult_right_cancel zero_neq_numeral)
qed

definition phys_ok :: "64 word \<Rightarrow> bool" where "phys_ok a \<longleftrightarrow> (\<forall>n. bit a n \<longrightarrow> 12 \<le> n \<and> n < 52)"

lemma phys_aligned: "phys_ok a \<Longrightarrow> page_aligned a"
  by (auto simp: phys_ok_def page_aligned_def)

lemma bit_push_one: "bit (push_bit k 1 :: 64 word) i \<longleftrightarrow> i = k \<and> k < 64"
  by (auto simp: bit_simps)

lemma Set_bits:
  assumes "phys_ok a"
  shows "bit (Set_default a large) n \<longleftrightarrow> n = 0 \<or> n = 1 \<or> n = 7 \<and> large \<or> bit a n"
proof -
  have perms: "(kPermRead OR kPermWrite OR kPermExec) AND kPermExec \<noteq> 0" "(kPermRead OR kPermWrite OR kPermExec) AND kPermWrite \<noteq> 0"
    "kPermRead OR kPermWrite OR kPermExec \<noteq> 0" by (simp_all add: kPermRead_def kPermWrite_def kPermExec_def)
  have sb: "bit (SetBit k v raw) i \<longleftrightarrow> (if i = k \<and> k < 64 then v else bit raw i)" for k v i and raw :: "64 word"
    by (cases v) (auto simp: SetBit_def bit_simps dest: bit_imp_le_length)
  have m: "(0x8000000000000fff :: 64 word) = mask 12 OR push_bit 63 1" by (simp add: mask_eq_exp_minus_1)
  have sa: "bit (Pte_SetAddr a large raw) i \<longleftrightarrow> (i < 12 \<or> i = 63 \<or> large \<and> i = 12) \<and> i < 64 \<and> bit raw i \<or> bit a i" for i and raw :: "64 word"
  proof -
    have "bit (push_bit 12 (of_bool large) :: 64 word) i \<longleftrightarrow> large \<and> i = 12" using bit_push_one [of 12 i] by (cases large) auto
    then show ?thesis using bit_push_one [of 63 i] unfolding Pte_SetAddr_def m bit_or_iff bit_and_iff bit_mask_iff by auto
  qed
  show ?thesis using assms perms unfolding Set_default_def Pte_Set_def by (auto simp: sb sa phys_ok_def)
qed

lemma Present_iff: "Pte_Present raw \<longleftrightarrow> bit raw 0"
  by (simp add: Pte_Present_def and_one_eq odd_iff_mod_2_eq_one bit_0)

lemma and_one_bit: "k < 64 \<Longrightarrow> (raw :: 64 word) AND push_bit k 1 = 0 \<longleftrightarrow> \<not> bit raw k"
proof
  assume a: "k < 64" "raw AND push_bit k 1 = 0"
  have "bit (raw AND push_bit k 1) k = bit raw k" using a(1) by (auto simp: bit_simps)
  then show "\<not> bit raw k" using a(2) by simp
qed (auto intro!: bit_word_eqI simp: bit_simps)

lemma Large_iff: "Pte_Large raw \<longleftrightarrow> bit raw 7"
  unfolding Pte_Large_def using and_one_bit [of 7 raw] by simp

lemma Set_facts:
  assumes "phys_ok a"
  shows "Pte_Present (Set_default a large)" "\<not> Pte_Large (Set_default a False)" "Pte_Addr False (Set_default a False) = a"
proof -
  show "Pte_Present (Set_default a large)" by (simp add: Present_iff Set_bits [OF assms])
  show "\<not> Pte_Large (Set_default a False)" using assms by (auto simp: Large_iff Set_bits [OF assms] phys_ok_def)
  show "Pte_Addr False (Set_default a False) = a"
    by (rule bit_word_eqI) (use assms in \<open>auto simp: Pte_Addr_bits Set_bits [OF assms] phys_ok_def\<close>)
qed

lemma tree_frame:
  assumes "\<forall>t \<in> tabs m l raw. \<forall>i < 512. m' (t + of_nat i * 8) = m (t + of_nat i * 8)"
  shows "tabs m' l raw = tabs m l raw \<and> pt_tree m' l raw = pt_tree m l raw \<and> hw_walk m' l raw va = hw_walk m l raw va"
  using assms
proof (induction l arbitrary: raw)
  case (Suc l)
  let ?t = "Pte_Addr False raw"
  show ?case
  proof (cases "\<not> Pte_Present raw \<or> large_leaf l raw")
    case False
    have c: "m' (?t + of_nat i * 8) = m (?t + of_nat i * 8)" if "i < 512" for i using Suc.prems False that by simp
    have IH: "tabs m' l (m (?t + of_nat i * 8)) = tabs m l (m (?t + of_nat i * 8))"
      "pt_tree m' l (m (?t + of_nat i * 8)) = pt_tree m l (m (?t + of_nat i * 8))"
      "hw_walk m' l (m (?t + of_nat i * 8)) va = hw_walk m l (m (?t + of_nat i * 8)) va" if "i < 512" for i
      using Suc.IH [of "m (?t + of_nat i * 8)"] Suc.prems False that by auto
    have "hw_walk m' (Suc l) raw va = hw_walk m (Suc l) raw va" using False c [OF PtIndex_less] IH(3) [OF PtIndex_less] by simp
    moreover have "tabs m' (Suc l) raw = tabs m (Suc l) raw" using False c IH(1) by simp
    moreover have "pt_tree m' (Suc l) raw = pt_tree m (Suc l) raw" using False c IH by (simp add: Let_def)
    ultimately show ?thesis by blast
  qed auto
qed simp

lemma frame_phys: "p < 2 ^ 40 \<Longrightarrow> phys_ok (of_nat (ToAddr p))"
proof -
  assume p: "p < 2 ^ 40"
  have a: "of_nat (ToAddr p) = (push_bit 12 (of_nat p) :: 64 word)" using p by (simp add: ToAddr_val push_bit_eq_mult mult.commute)
  have t: "(of_nat p :: 64 word) = take_bit 40 (of_nat p)" using p by (simp add: take_bit_nat_eq_self flip: of_nat_take_bit)
  have "12 \<le> n \<and> n < 52" if "bit (of_nat (ToAddr p) :: 64 word) n" for n
  proof -
    have n: "12 \<le> n" "bit (of_nat p :: 64 word) (n - 12)" using that unfolding a by (auto simp: bit_push_bit_iff)
    from n(2) have "n - 12 < 40" by (subst (asm) t) (simp add: bit_take_bit_iff)
    then show ?thesis using n(1) by simp
  qed
  then show ?thesis by (simp add: phys_ok_def)
qed

lemma slots_of_iff:
  assumes "page_aligned t" "i < 512" "\<forall>x \<in> T. page_aligned x"
  shows "t + of_nat i * 8 \<in> slots_of T \<longleftrightarrow> t \<in> T"
  using assms slot_inj [OF assms(1) _ assms(2)] by (auto simp: slots_of_def)

section \<open>Mapping one page\<close>

lemma get_put [simp]: "get e (put e v s) = v" "pool (put e v s) = pool s"
  by (cases e; simp add: get_def put_def)+

text \<open>A source of page frames: what it hands out was free and is free no longer.\<close>

locale frame_source =
  fixes alloc :: "'a \<Rightarrow> (pfn \<times> 'a) result" and avail :: "'a \<Rightarrow> pfn set" and ok :: "'a \<Rightarrow> bool"
  assumes alloc_takes: "ok a \<Longrightarrow> alloc a = Inr (p, a') \<Longrightarrow> p \<noteq> Pfn_None \<Longrightarrow> p \<in> avail a \<and> avail a' = avail a - {p} \<and> ok a'"
    and alloc_some: "ok a \<Longrightarrow> avail a \<noteq> {} \<Longrightarrow> \<exists>p a'. alloc a = Inr (p, a') \<and> p \<noteq> Pfn_None"
begin

definition free_tabs :: "'a tables \<Rightarrow> 64 word set" where
  "free_tabs s = (\<lambda>p. of_nat (ToAddr p)) ` avail (pool s)"

definition out :: "nat \<Rightarrow> 'a tables \<Rightarrow> entry \<Rightarrow> bool" where
  "out l s e \<longleftrightarrow> (\<forall>b. e = Slot b \<longrightarrow> (\<exists>t i. b = t + of_nat i * 8 \<and> i < 512 \<and> page_aligned t \<and> t \<notin> tabs (slots s) l (get e s) \<union> free_tabs s))"

definition sound :: "nat \<Rightarrow> 'a tables \<Rightarrow> entry \<Rightarrow> bool" where
  "sound l s e \<longleftrightarrow> ok (pool s) \<and> avail (pool s) \<subseteq> {..<2 ^ 40} \<and> pt_tree (slots s) l (get e s) \<and>
    tabs (slots s) l (get e s) \<inter> free_tabs s = {} \<and> out l s e"

definition mapped :: "nat \<Rightarrow> 64 word \<Rightarrow> 64 word \<Rightarrow> entry \<Rightarrow> 'a tables \<Rightarrow> 'a tables \<Rightarrow> bool" where
  "mapped l va pa e s s' \<longleftrightarrow> ok (pool s') \<and> avail (pool s') \<subseteq> avail (pool s) \<and>
    (\<forall>x. x \<notin> slots_of (tabs (slots s) l (get e s) \<union> (free_tabs s - free_tabs s')) \<and> e \<noteq> Slot x \<longrightarrow> slots s' x = slots s x) \<and>
    (e \<noteq> Root \<longrightarrow> root s' = root s) \<and> pt_tree (slots s') l (get e s') \<and>
    tabs (slots s') l (get e s') = tabs (slots s) l (get e s) \<union> (free_tabs s - free_tabs s') \<and>
    (\<forall>va'. hw_walk (slots s') l (get e s') va' =
      (if \<forall>k < l. PtIndex va' k = PtIndex va k then Some (pa OR (va' AND mask 12)) else hw_walk (slots s) l (get e s) va'))"

lemma map_leaf:
  assumes "map_found va pa e va 0 s = Inr s'" "sound 0 s e" "phys_ok pa"
  shows "mapped 0 va pa e s s'"
proof -
  have "s' = put e (Set_default pa False) s" using assms(1) by (simp add: map_found_def split: if_splits)
  then show ?thesis using assms(2) Set_facts [OF assms(3)]
    by (cases e) (auto simp: mapped_def sound_def free_tabs_def put_def get_def)
qed

lemma free_tabs_aligned: "avail (pool s) \<subseteq> {..<2 ^ 40} \<Longrightarrow> t \<in> free_tabs s \<Longrightarrow> page_aligned t"
  using frame_phys by (auto simp: free_tabs_def intro!: phys_aligned)

lemma sound_child:
  assumes "sound (Suc l) s e" "Pte_Present (get e s)" "\<not> large_leaf l (get e s)" "i < 512"
  shows "sound l s (Slot (Pte_Addr False (get e s) + of_nat i * 8))"
proof -
  let ?t = "Pte_Addr False (get e s)"
  have "?t \<notin> free_tabs s" "?t \<notin> tabs (slots s) l (slots s (?t + of_nat i * 8))" using assms by (auto simp: sound_def Let_def)
  then have "out l s (Slot (?t + of_nat i * 8))" using assms(4) Pte_Addr_aligned unfolding out_def by (auto simp: get_def)
  then show ?thesis using assms by (auto simp: sound_def Let_def get_def)
qed

lemma mapped_other:
  assumes "sound (Suc l) s e" "Pte_Present (get e s)" "\<not> large_leaf l (get e s)"
  defines "t \<equiv> Pte_Addr False (get e s)"
  assumes "mapped l va pa (Slot (t + of_nat i * 8)) s s'" "i < 512"
  shows "get e s' = get e s" "j < 512 \<Longrightarrow> j \<noteq> i \<Longrightarrow> slots s' (t + of_nat j * 8) = slots s (t + of_nat j * 8) \<and>
    tabs (slots s') l (slots s (t + of_nat j * 8)) = tabs (slots s) l (slots s (t + of_nat j * 8)) \<and>
    pt_tree (slots s') l (slots s (t + of_nat j * 8)) \<and>
    hw_walk (slots s') l (slots s (t + of_nat j * 8)) va' = hw_walk (slots s) l (slots s (t + of_nat j * 8)) va'"
proof -
  let ?T = "tabs (slots s) l (slots s (t + of_nat i * 8)) \<union> (free_tabs s - free_tabs s')"
  have al: "page_aligned t" "\<forall>x \<in> ?T. page_aligned x"
    using assms(1) free_tabs_aligned tabs_aligned by (auto simp: t_def Pte_Addr_aligned sound_def)
  have tabs: "tabs (slots s) (Suc l) (get e s) = insert t (\<Union>i < 512. tabs (slots s) l (slots s (t + of_nat i * 8)))"
    using assms(2,3) by (simp add: t_def)
  have tree: "\<And>k. k < 512 \<Longrightarrow> pt_tree (slots s) l (slots s (t + of_nat k * 8)) \<and> t \<notin> tabs (slots s) l (slots s (t + of_nat k * 8))"
    "\<And>k h. k < 512 \<Longrightarrow> h < 512 \<Longrightarrow> k \<noteq> h \<Longrightarrow> tabs (slots s) l (slots s (t + of_nat k * 8)) \<inter> tabs (slots s) l (slots s (t + of_nat h * 8)) = {}"
    using assms(1-3) by (simp_all add: sound_def t_def Let_def)
  have dis: "tabs (slots s) (Suc l) (get e s) \<inter> free_tabs s = {}" using assms(1) by (simp add: sound_def)
  have keep: "slots s' (x + of_nat k * 8) = slots s (x + of_nat k * 8)" if "page_aligned x" "k < 512" "x \<notin> ?T" "x \<noteq> t \<or> k \<noteq> i" for x k
  proof -
    have "x + of_nat k * 8 \<notin> slots_of ?T" using slots_of_iff [OF that(1,2) al(2)] that(3) by simp
    moreover have "x + of_nat k * 8 \<noteq> t + of_nat i * 8" using slot_inj [OF that(1) al(1) that(2) assms(6)] that(4) by blast
    ultimately show ?thesis using assms(5) by (simp add: mapped_def get_def)
  qed
  show "get e s' = get e s"
  proof (cases e)
    case Root
    then show ?thesis using assms(5) by (simp add: mapped_def get_def)
  next
    case (Slot b)
    then obtain x k where x: "b = x + of_nat k * 8" "k < 512" "page_aligned x" "x \<notin> tabs (slots s) (Suc l) (get e s) \<union> free_tabs s"
      using assms(1) by (auto simp: sound_def out_def)
    have "x \<notin> ?T" "x \<noteq> t" using x(4) assms(6) unfolding tabs by auto
    then show ?thesis using keep [OF x(3,2)] by (simp add: Slot get_def x(1))
  qed
  assume j: "j < 512" "j \<noteq> i"
  have "t \<notin> ?T" using tree(1) [OF assms(6)] dis unfolding tabs by blast
  then have "slots s' (t + of_nat j * 8) = slots s (t + of_nat j * 8)" using keep [OF al(1) j(1)] j(2) by blast
  moreover have "\<forall>x \<in> tabs (slots s) l (slots s (t + of_nat j * 8)). \<forall>k < 512. slots s' (x + of_nat k * 8) = slots s (x + of_nat k * 8)"
  proof (intro ballI allI impI)
    fix x k assume x: "x \<in> tabs (slots s) l (slots s (t + of_nat j * 8))" "k < (512 :: nat)"
    have "x \<notin> ?T" "x \<noteq> t" using tree(2) [OF j(1) assms(6) j(2)] tree(1) [OF j(1)] dis x(1) j(1) unfolding tabs by blast+
    then show "slots s' (x + of_nat k * 8) = slots s (x + of_nat k * 8)" using keep [OF tabs_aligned [OF x(1)] x(2)] by blast
  qed
  from tree_frame [OF this, of va'] tree(1) [OF j(1)] calculation
  show "slots s' (t + of_nat j * 8) = slots s (t + of_nat j * 8) \<and>
    tabs (slots s') l (slots s (t + of_nat j * 8)) = tabs (slots s) l (slots s (t + of_nat j * 8)) \<and>
    pt_tree (slots s') l (slots s (t + of_nat j * 8)) \<and>
    hw_walk (slots s') l (slots s (t + of_nat j * 8)) va' = hw_walk (slots s) l (slots s (t + of_nat j * 8)) va'" by simp
qed

lemma map_table:
  assumes "sound (Suc l) s e" "Pte_Present (get e s)" "\<not> large_leaf l (get e s)"
    "mapped l va pa (Slot (Pte_Addr False (get e s) + of_nat (PtIndex va l) * 8)) s s'"
  shows "mapped (Suc l) va pa e s s'"
proof -
  let ?t = "Pte_Addr False (get e s)" and ?i = "PtIndex va l" and ?N = "free_tabs s - free_tabs s'"
  let ?c = "\<lambda>j. slots s (?t + of_nat j * 8)" and ?c' = "\<lambda>j. slots s' (?t + of_nat j * 8)"
  note other = mapped_other [OF assms(1-4) PtIndex_less]
  have g: "get e s' = get e s" by (rule other(1))
  have m: "ok (pool s')" "avail (pool s') \<subseteq> avail (pool s)" "pt_tree (slots s') l (?c' ?i)" "tabs (slots s') l (?c' ?i) = tabs (slots s) l (?c ?i) \<union> ?N"
    "root s' = root s"
    "\<And>x. x \<notin> slots_of (tabs (slots s) l (?c ?i) \<union> ?N) \<Longrightarrow> x \<noteq> ?t + of_nat ?i * 8 \<Longrightarrow> slots s' x = slots s x"
    "\<And>va'. hw_walk (slots s') l (?c' ?i) va' = (if \<forall>k < l. PtIndex va' k = PtIndex va k then Some (pa OR (va' AND mask 12)) else hw_walk (slots s) l (?c ?i) va')"
    using assms(4) by (auto simp: mapped_def get_def)
  have c: "tabs (slots s') l (?c' j) = tabs (slots s) l (?c j) \<union> (if j = ?i then ?N else {}) \<and> pt_tree (slots s') l (?c' j)" if "j < 512" for j
    using m(3,4) other(2) [OF that] by (cases "j = ?i") auto
  have tree: "\<And>k. k < 512 \<Longrightarrow> ?t \<notin> tabs (slots s) l (?c k)"
    "\<And>k h. k < 512 \<Longrightarrow> h < 512 \<Longrightarrow> k \<noteq> h \<Longrightarrow> tabs (slots s) l (?c k) \<inter> tabs (slots s) l (?c h) = {}"
    using assms(1-3) by (simp_all add: sound_def Let_def)
  have T: "tabs (slots s) (Suc l) (get e s) = insert ?t (\<Union>j < 512. tabs (slots s) l (?c j))" using assms(2,3) by simp
  have dis: "tabs (slots s) (Suc l) (get e s) \<inter> free_tabs s = {}" using assms(1) by (simp add: sound_def)
  have T': "tabs (slots s') (Suc l) (get e s') = insert ?t (\<Union>j < 512. tabs (slots s') l (?c' j))" using assms(2,3) by (simp add: g)
  have "tabs (slots s') (Suc l) (get e s') = tabs (slots s) (Suc l) (get e s) \<union> ?N"
    unfolding T T' using c PtIndex_less [of va l] by (auto split: if_splits)
  moreover have "pt_tree (slots s') (Suc l) (get e s')"
  proof -
    have "?t \<notin> tabs (slots s') l (?c' j)" if "j < 512" for j using c [OF that] tree(1) [OF that] dis unfolding T by (auto split: if_splits)
    moreover have "tabs (slots s') l (?c' j) \<inter> tabs (slots s') l (?c' k) = {}" if "j < 512" "k < 512" "j \<noteq> k" for j k
      using c [OF that(1)] c [OF that(2)] tree(2) [OF that] dis that unfolding T by (auto split: if_splits)
    ultimately show ?thesis using c by (simp add: g Let_def)
  qed
  moreover have "hw_walk (slots s') (Suc l) (get e s') va' =
      (if \<forall>k < Suc l. PtIndex va' k = PtIndex va k then Some (pa OR (va' AND mask 12)) else hw_walk (slots s) (Suc l) (get e s) va')" for va'
  proof (cases "PtIndex va' l = PtIndex va l")
    case True
    then have "(\<forall>k < Suc l. PtIndex va' k = PtIndex va k) \<longleftrightarrow> (\<forall>k < l. PtIndex va' k = PtIndex va k)" by (auto simp: less_Suc_eq)
    moreover have "hw_walk (slots s') (Suc l) (get e s') va' = hw_walk (slots s') l (?c' ?i) va'"
      "hw_walk (slots s) (Suc l) (get e s) va' = hw_walk (slots s) l (?c ?i) va'" using assms(2,3) True by (simp_all add: g)
    ultimately show ?thesis using m(7) [of va'] by (simp only:)
  next
    case False
    then have "\<not> (\<forall>k < Suc l. PtIndex va' k = PtIndex va k)" by auto
    moreover have "hw_walk (slots s') (Suc l) (get e s') va' = hw_walk (slots s) (Suc l) (get e s) va'"
      using assms(2,3) other(2) [OF PtIndex_less False, of va'] by (simp add: g)
    ultimately show ?thesis by (simp only: if_False)
  qed
  moreover have "slots s' x = slots s x" if "x \<notin> slots_of (tabs (slots s) (Suc l) (get e s) \<union> ?N)" for x
  proof (rule m(6))
    show "x \<notin> slots_of (tabs (slots s) l (?c ?i) \<union> ?N)" using that PtIndex_less [of va l] unfolding T slots_of_def by blast
    show "x \<noteq> ?t + of_nat ?i * 8" using that PtIndex_less [of va l] unfolding T slots_of_def by blast
  qed
  ultimately show ?thesis unfolding mapped_def using m(1,2,5) by blast
qed

lemma new_table_ok:
  assumes "new_table alloc e s = Inr (go, s1)" "sound (Suc l) s e" "\<not> Pte_Present (get e s)"
  obtains t where "go" "get e s1 = Set_default t False" "phys_ok t" "sound (Suc l) s1 e" "t \<in> free_tabs s" "free_tabs s1 = free_tabs s - {t}"
    "tabs (slots s1) (Suc l) (get e s1) = {t}" "\<And>va. hw_walk (slots s1) (Suc l) (get e s1) va = None" "avail (pool s1) \<subseteq> avail (pool s)"
    "\<And>x. x \<notin> slots_of {t} \<Longrightarrow> e \<noteq> Slot x \<Longrightarrow> slots s1 x = slots s x" "e \<noteq> Root \<Longrightarrow> root s1 = root s"
proof -
  obtain p a where p: "alloc (pool s) = Inr (p, a)" "p \<noteq> Pfn_None" "go"
    "s1 = put e (SetNormal (of_nat (ToAddr p))) (s\<lparr>slots := clear_table (of_nat (ToAddr p)) (slots s), pool := a\<rparr>)"
    using assms(1) by (auto simp: new_table_def bindr_eq_Inr_iff Let_def split: if_splits)
  let ?t = "of_nat (ToAddr p) :: 64 word"
  have tk: "p \<in> avail (pool s)" "avail a = avail (pool s) - {p}" "ok a" using alloc_takes [OF _ p(1,2)] assms(2) by (auto simp: sound_def)
  have lim: "avail (pool s) \<subseteq> {..<2 ^ 40}" using assms(2) by (simp add: sound_def)
  have ph: "phys_ok ?t" using frame_phys tk(1) lim by blast
  have inj: "inj_on (\<lambda>p. of_nat (ToAddr p) :: 64 word) {..<2 ^ 40}"
  proof (rule inj_onI)
    fix x y assume xy: "x \<in> {..<2 ^ 40}" "y \<in> {..<2 ^ 40}" "(of_nat (ToAddr x) :: 64 word) = of_nat (ToAddr y)"
    have "unat (of_nat (ToAddr z) :: 64 word) = ToAddr z" for z
      by (simp add: ToAddr_def unsigned_of_nat take_bit_nat_eq_self)
    then have "ToAddr x = ToAddr y" using xy(3) by metis
    then show "x = y" using xy(1,2) by (simp add: ToAddr_val)
  qed
  have f1: "free_tabs s1 = free_tabs s - {?t}"
    using tk(1,2) lim inj unfolding free_tabs_def p(4) by (auto simp: inj_on_def subset_iff)
  have tf: "?t \<in> free_tabs s" using tk(1) by (simp add: free_tabs_def)
  have g: "get e s1 = Set_default ?t False" by (simp add: p(4) SetNormal_def)
  note sf = Set_facts [OF ph]
  have notslot: "e \<noteq> Slot (?t + of_nat i * 8)" if "i < 512" for i
  proof
    assume e: "e = Slot (?t + of_nat i * 8)"
    then obtain x k where x: "?t + of_nat i * 8 = x + of_nat k * 8" "k < 512" "page_aligned x" "x \<notin> free_tabs s"
      using assms(2) unfolding sound_def out_def by blast
    from slot_inj [OF phys_aligned [OF ph] x(3) that x(2,1)] show False using tf x(4) by simp
  qed
  have z: "slots s1 (?t + of_nat i * 8) = 0" if "i < 512" for i
    using notslot [OF that] that by (cases e) (auto simp: p(4) put_def clear_table_def)
  have "\<not> Pte_Present 0" by (simp add: Pte_Present_def)
  then have e0: "tabs m k 0 = {}" "pt_tree m k 0" "hw_walk m k 0 va = None" for m k va by (cases k; simp)+
  have nl: "\<not> large_leaf l (Set_default ?t False)" using sf(2) by (simp add: large_leaf_def)
  have T: "tabs (slots s1) (Suc l) (get e s1) = {?t}" using sf nl z e0 by (simp add: g)
  have "pt_tree (slots s1) (Suc l) (get e s1)" using sf nl z e0 by (simp add: g Let_def)
  moreover have "out (Suc l) s1 e" unfolding out_def T f1 using assms(2) tf unfolding sound_def out_def by blast
  ultimately have "sound (Suc l) s1 e" using tk(2,3) lim T f1 unfolding sound_def by (auto simp: p(4))
  moreover have "hw_walk (slots s1) (Suc l) (get e s1) va = None" for va using sf nl z [OF PtIndex_less] e0 by (simp add: g)
  moreover have "slots s1 x = slots s x" if "x \<notin> slots_of {?t}" "e \<noteq> Slot x" for x
    using that by (cases e) (auto simp: p(4) put_def clear_table_def slots_of_def)
  moreover have "e \<noteq> Root \<Longrightarrow> root s1 = root s" by (cases e) (simp_all add: p(4) put_def)
  moreover have "avail (pool s1) \<subseteq> avail (pool s)" using tk(2) by (auto simp: p(4))
  ultimately show ?thesis using that [of ?t] p(3) g ph tf f1 T by blast
qed

lemma map_descend:
  assumes "descend l (map_found va pa) (new_table alloc) va e s = Inr s'" "sound l s e" "hw_walk (slots s) l (get e s) va = None" "phys_ok pa"
  shows "mapped l va pa e s s'"
  using assms(1-3)
proof (induction l arbitrary: e s)
  case 0
  then show ?case using map_leaf assms(4) by simp
next
  case (Suc l)
  have step: "mapped (Suc l) va pa e s1 s'" if "Pte_Present (get e s1)" "sound (Suc l) s1 e" "hw_walk (slots s1) (Suc l) (get e s1) va = None"
    "descend l (map_found va pa) (new_table alloc) va (Slot (Pte_Addr False (get e s1) + of_nat (PtIndex va l) * 8)) s1 = Inr s'" for s1
  proof -
    have nl: "\<not> large_leaf l (get e s1)" using that(1,3) by auto
    have "hw_walk (slots s1) l (get (Slot (Pte_Addr False (get e s1) + of_nat (PtIndex va l) * 8)) s1) va = None"
      using that(1,3) nl by (simp add: get_def)
    from Suc.IH [OF that(4) sound_child [OF that(2,1) nl PtIndex_less] this] show ?thesis by (rule map_table [OF that(2,1) nl])
  qed
  show ?case
  proof (cases "Pte_Present (get e s)")
    case True
    then show ?thesis using step [of s] Suc.prems by simp
  next
    case False
    then obtain go s1 where s1: "new_table alloc e s = Inr (go, s1)"
        "(if \<not> go then Inr s1 else descend l (map_found va pa) (new_table alloc) va (Slot (Pte_Addr False (get e s1) + of_nat (PtIndex va l) * 8)) s1) = Inr s'"
      using Suc.prems(1) by (auto simp: bindr_eq_Inr_iff)
    from new_table_ok [OF s1(1) Suc.prems(2) False] obtain t where t: "go" "get e s1 = Set_default t False" "phys_ok t" "sound (Suc l) s1 e"
      "t \<in> free_tabs s" "free_tabs s1 = free_tabs s - {t}" "tabs (slots s1) (Suc l) (get e s1) = {t}"
      "\<And>va. hw_walk (slots s1) (Suc l) (get e s1) va = None" "avail (pool s1) \<subseteq> avail (pool s)"
      "\<And>x. x \<notin> slots_of {t} \<Longrightarrow> e \<noteq> Slot x \<Longrightarrow> slots s1 x = slots s x" "e \<noteq> Root \<Longrightarrow> root s1 = root s" by blast
    have "Pte_Present (get e s1)" using t(2) Set_facts(1) [OF t(3)] by simp
    from step [OF this t(4) t(8)] s1(2) t(1) have m: "mapped (Suc l) va pa e s1 s'" by simp
    have old: "tabs (slots s) (Suc l) (get e s) = {}" "\<And>va'. hw_walk (slots s) (Suc l) (get e s) va' = None" using False by simp_all
    have "free_tabs s' \<subseteq> free_tabs s1" using m by (auto simp: mapped_def free_tabs_def)
    then have N: "{t} \<union> (free_tabs s1 - free_tabs s') = free_tabs s - free_tabs s'" using t(5,6) by blast
    have "slots s' x = slots s x" if "x \<notin> slots_of (free_tabs s - free_tabs s')" "e \<noteq> Slot x" for x
    proof -
      have "x \<notin> slots_of {t}" using that(1) unfolding N [symmetric] slots_of_def by blast
      then have "slots s1 x = slots s x" using t(10) that(2) by blast
      moreover have "slots s' x = slots s1 x" using m that unfolding mapped_def t(7) N by blast
      ultimately show ?thesis by simp
    qed
    then show ?thesis using m t(8,9,11) unfolding mapped_def t(7) N old by auto
  qed
qed

lemma descend_root:
  assumes "descend (Suc l) (map_found va pa) (new_table alloc) va e s = Inr s'" "sound (Suc l) s e" "hw_walk (slots s) (Suc l) (get e s) va = None"
    "phys_ok pa" "Pte_Present (get e s)"
  shows "get e s' = get e s"
proof -
  have nl: "\<not> large_leaf l (get e s)" using assms(3,5) by auto
  let ?x = "Slot (Pte_Addr False (get e s) + of_nat (PtIndex va l) * 8)"
  have "mapped l va pa ?x s s'"
    using assms nl by (intro map_descend sound_child PtIndex_less) (simp_all add: get_def)
  then show ?thesis by (rule mapped_other(1) [OF assms(2,5) nl _ PtIndex_less])
qed

lemma new_table_total:
  assumes "ok (pool s)" "avail (pool s) \<noteq> {}"
  obtains s1 p where "new_table alloc e s = Inr (True, s1)" "p \<in> avail (pool s)" "avail (pool s1) = avail (pool s) - {p}"
proof -
  obtain p a where p: "alloc (pool s) = Inr (p, a)" "p \<noteq> Pfn_None" using alloc_some [OF assms] by blast
  then show ?thesis using that alloc_takes [OF assms(1) p] by (auto simp: new_table_def Let_def)
qed

lemma descend_total:
  assumes "sound l s e" "hw_walk (slots s) l (get e s) va = None" "finite (avail (pool s))"
    "l \<le> card (avail (pool s)) \<or> (\<exists>k. l = Suc k \<and> k \<le> card (avail (pool s)) \<and> Pte_Present (get e s))"
  shows "\<exists>s'. descend l (map_found va pa) (new_table alloc) va e s = Inr s'"
  using assms
proof (induction l arbitrary: e s)
  case 0
  then show ?case by (simp add: map_found_def split: if_splits)
next
  case (Suc l)
  have step: "\<exists>s'. descend l (map_found va pa) (new_table alloc) va (Slot (Pte_Addr False (get e s1) + of_nat (PtIndex va l) * 8)) s1 = Inr s'"
    if "Pte_Present (get e s1)" "sound (Suc l) s1 e" "hw_walk (slots s1) (Suc l) (get e s1) va = None" "finite (avail (pool s1))" "l \<le> card (avail (pool s1))" for s1
  proof -
    have nl: "\<not> large_leaf l (get e s1)" using that(1,3) by auto
    show ?thesis using that(1,3) nl
      by (intro Suc.IH sound_child [OF that(2,1) nl PtIndex_less] that(4) disjI1 that(5)) (simp add: get_def)
  qed
  show ?case
  proof (cases "Pte_Present (get e s)")
    case True
    then show ?thesis using step [of s] Suc.prems by auto
  next
    case False
    then have "Suc l \<le> card (avail (pool s))" using Suc.prems(4) by auto
    moreover have "avail (pool s) \<noteq> {}" "ok (pool s)" using calculation Suc.prems(1) by (auto simp: sound_def)
    ultimately obtain s1 p where s1: "new_table alloc e s = Inr (True, s1)" "p \<in> avail (pool s)" "avail (pool s1) = avail (pool s) - {p}"
      using new_table_total by blast
    have c: "l \<le> card (avail (pool s1))" "finite (avail (pool s1))"
      using s1(2,3) Suc.prems(3) \<open>Suc l \<le> card (avail (pool s))\<close> by (simp_all add: card_Diff_singleton)
    show ?thesis
    proof (rule new_table_ok [OF s1(1) Suc.prems(1) False])
      fix t assume t: "get e s1 = Set_default t False" "phys_ok t" "sound (Suc l) s1 e" "\<And>va. hw_walk (slots s1) (Suc l) (get e s1) va = None"
      have "Pte_Present (get e s1)" using t(1) Set_facts(1) [OF t(2)] by simp
      from step [OF this t(3,4)] show ?thesis
        using False s1(1) c by simp
    qed
  qed
qed

lemma MapMemory_page:
  assumes "sound 4 s Root" "Pte_Present (root s)" "page_va (of_nat (ToAddr v))" "hw_walk (slots s) 4 (root s) (of_nat (ToAddr v)) = None" "p < 2 ^ 40"
    "3 \<le> card (avail (pool s))"
  shows "\<exists>s'. MapMemory alloc v p 4096 s = Inr s' \<and> mapped 4 (of_nat (ToAddr v)) (of_nat (ToAddr p)) Root s s' \<and> root s' = root s"
proof -
  let ?va = "of_nat (ToAddr v) :: 64 word" and ?pa = "of_nat (ToAddr p) :: 64 word"
  let ?D = "descend 4 (map_found ?va ?pa) (new_table alloc) ?va Root s"
  have four: "(4 :: nat) = Suc 3" by simp
  have "TraversePageTable 4 (map_found ?va ?pa) (new_table alloc) Root ?va (?va + 4096) 0 s = ?D"
    using Traverse_page [OF assms(3), of 3] unfolding four by simp
  then have M: "MapMemory alloc v p 4096 s = bindr ?D (\<lambda>s'. Inr (s'\<lparr>root := root s\<rparr>))" unfolding MapMemory_def Let_def by (simp only:)
  have w: "hw_walk (slots s) 4 (get Root s) ?va = None" using assms(4) by (simp add: get_def)
  have fin: "finite (avail (pool s))" using assms(6) by (intro card_ge_0_finite) simp
  have "4 \<le> card (avail (pool s)) \<or> (\<exists>k. 4 = Suc k \<and> k \<le> card (avail (pool s)) \<and> Pte_Present (get Root s))"
    using assms(2,6) by (intro disjI2 exI [of _ 3]) (simp add: get_def)
  from descend_total [OF assms(1) w fin this] obtain s1 where s1: "?D = Inr s1" by blast
  have r: "root s1 = root s" using descend_root [of 3 ?va ?pa Root s s1] s1(1) assms(1,2) w frame_phys [OF assms(5)] unfolding four by (simp add: get_def)
  then have "MapMemory alloc v p 4096 s = Inr s1" unfolding M s1 r [symmetric] by simp
  then show ?thesis using map_descend [OF s1 assms(1) w frame_phys [OF assms(5)]] r by blast
qed

end

lemma index_bit: "j < 9 \<Longrightarrow> bit (drop_bit k w AND mask 9 :: 64 word) j = bit w (k + j)"
  by (auto simp: bit_simps)

lemma same_page:
  assumes "page_va va" "Canonical va' = va'"
  shows "(\<forall>k < 4. PtIndex va' k = PtIndex va k) \<longleftrightarrow> va' AND NOT (mask 12) = va"
proof
  assume a: "\<forall>k < 4. PtIndex va' k = PtIndex va k"
  show "va' AND NOT (mask 12) = va"
  proof (rule bit_word_eqI)
    fix n assume n: "n < LENGTH(64)"
    have low: "bit va' n = bit va n" if "12 \<le> n" "n < 48" for n
    proof -
      let ?k = "(n - 12) div 9" and ?j = "(n - 12) mod 9"
      have "?k < 4" using that by (simp add: div_less_iff_less_mult)
      then have "drop_bit (12 + 9 * ?k) va' AND mask 9 = drop_bit (12 + 9 * ?k) va AND mask 9" using a by (metis PtIndex_word)
      then have "bit (drop_bit (12 + 9 * ?k) va' AND mask 9) ?j = bit (drop_bit (12 + 9 * ?k) va AND mask 9) ?j" by simp
      moreover have "12 + 9 * ?k + ?j = n" using that mult_div_mod_eq [of 9 "n - 12"] by simp
      moreover have "?j < 9" by simp
      ultimately show ?thesis by (metis index_bit)
    qed
    have "bit va' n = bit va' 47" if "48 \<le> n" "n < 64" using bit_Canonical [of va' n] assms(2) that by (simp add: min_def)
    then show "bit (va' AND NOT (mask 12)) n = bit va n"
      using n low [of n] low [of 47] canonical_bits [OF assms(1), of n] aligned_bits [OF assms(1), of n]
      by (cases "n < 12"; cases "n < 48") (auto simp: bit_simps)
  qed
next
  assume a: "va' AND NOT (mask 12) = va"
  have "drop_bit (12 + 9 * k) va' = drop_bit (12 + 9 * k) va" for k
    unfolding a [symmetric] by (rule bit_word_eqI) (auto simp: bit_simps dest: bit_imp_le_length)
  then show "\<forall>k < 4. PtIndex va' k = PtIndex va k" by (simp add: PtIndex_def mult.commute)
qed

section \<open>The two allocators\<close>

interpretation early_source: frame_source "AllocatePage 1 Nid_Any" fp_frames fp_ok
proof
  fix fp p fp' assume a: "fp_ok fp" "AllocatePage 1 Nid_Any fp = Inr (p, fp')"
  have "\<forall>r \<in> set fp. 1 \<le> pr_start r + pr_npages r" using a(1) by (fastforce simp: fp_ok_def pr_ok_def)
  from AllocatePage_take [OF a(1) _ this a(2)] show "p \<in> fp_frames fp \<and> fp_frames fp' = fp_frames fp - {p} \<and> fp_ok fp'"
    by (auto simp: fp_frames_def)
next
  fix fp assume a: "fp_ok fp" "fp_frames fp \<noteq> {}"
  have n: "\<forall>r \<in> set fp. 1 \<le> pr_start r + pr_npages r" using a(1) by (fastforce simp: fp_ok_def pr_ok_def)
  obtain r where "r \<in> set fp" using a(2) by (cases fp) auto
  then have "\<exists>r \<in> set fp. matches Nid_Any r \<and> 1 \<le> pr_npages r" using a(1)
    by (intro bexI [of _ r]) (auto simp: fp_ok_def pr_ok_def matches_def Suc_le_eq)
  then obtain p fp' where p: "AllocatePage 1 Nid_Any fp = Inr (p, fp')"
    using AllocatePage_none [OF a(1) _ n, of Nid_Any] by (cases "AllocatePage 1 Nid_Any fp") auto
  have "p \<in> fp_frames fp" using AllocatePage_take [OF a(1) _ n p] by (auto simp: fp_frames_def)
  then have "p < 2 ^ 52" using a(1) by (fastforce simp: fp_frames_def pr_frames_def fp_ok_def pr_ok_def)
  then show "\<exists>p fp'. AllocatePage 1 Nid_Any fp = Inr (p, fp') \<and> p \<noteq> Pfn_None" using p by (auto simp: Pfn_None_def)
qed

text \<open>\<open>page_allocator->Alloc()\<close> on the node of the processor.\<close>

definition page_Alloc :: "pa_state \<Rightarrow> (pfn \<times> pa_state) result" where
  "page_Alloc = AllocLocal 0 (u64 - 1)"

definition pa_frames :: "pa_state \<Rightarrow> pfn set" where "pa_frames st = cover (free_blocks st)"

interpretation page_source: frame_source page_Alloc pa_frames "\<lambda>st. \<exists>A. pa_inv T st A {}" for T
proof
  fix st p st' assume "\<exists>A. pa_inv T st A {}" and p: "page_Alloc st = Inr (p, st')" "p \<noteq> Pfn_None"
  then obtain A where i: "pa_inv T st A {}" by blast
  from AllocLocal_ok [OF i, of 0 "u64 - 1"] p obtain j where j: "pa_inv T st' (insert (p, 0) A) {}" "(p, j) \<in> free_blocks st"
    "free_blocks st' = free_blocks st - {(p, j)} \<union> split_blocks p 0 j" unfolding page_Alloc_def by auto
  have f: "free_blocks st = insert (p, j) (free_blocks st - {(p, j)})" using j(2) by blast
  have "disjoint_blocks (insert (p, j) (free_blocks st - {(p, j)}))"
    using i disjoint_blocks_subset [of "free_blocks st \<union> A \<union> {}" "free_blocks st"] f by (auto simp: pa_inv_def)
  then have d: "blk p j \<inter> cover (free_blocks st - {(p, j)}) = {}" by (rule disjoint_blocks_cover) simp
  have "cover (free_blocks st) = blk p j \<union> cover (free_blocks st - {(p, j)})" using f cover_insert by metis
  moreover have "p \<in> blk p j" "blk p 0 = {p}" by (auto simp: blk_def)
  ultimately show "p \<in> pa_frames st \<and> pa_frames st' = pa_frames st - {p} \<and> (\<exists>A. pa_inv T st' A {})"
    using j(1,3) d cover_split_blocks [of 0 j p] by (auto simp: pa_frames_def)
next
  fix st assume "\<exists>A. pa_inv T st A {}" and ne: "pa_frames st \<noteq> {}"
  then obtain A where i: "pa_inv T st A {}" by blast
  obtain q k where q: "(q, k) \<in> free_blocks st" using ne by (auto simp: pa_frames_def cover_def)
  have "q < 2 ^ 52" using pa_inv_not_None(1) [OF i] q by blast
  then have "ToAddr q < u64 - 1" by (simp add: ToAddr_val)
  then have "AllocFind 0 (u64 - 1) (free_page_lists st) \<noteq> None" using q unfolding AllocFind_None free_blocks_def by blast
  then obtain p j st' where "AllocLocal 0 (u64 - 1) st = Inr (p, st')" "(p, j) \<in> free_blocks st"
    using AllocLocal_ok [OF i, of 0 "u64 - 1"] by auto
  then show "\<exists>p st'. page_Alloc st = Inr (p, st') \<and> p \<noteq> Pfn_None" using pa_inv_not_None(2) [OF i] by (auto simp: page_Alloc_def)
qed

section \<open>Properties\<close>

definition tables_ok :: "pfn set \<Rightarrow> pa_state tables \<Rightarrow> bool" where
  "tables_ok T s \<longleftrightarrow> (\<exists>A. pa_inv T (pool s) A {}) \<and> T \<subseteq> {..<2 ^ 40} \<and> Pte_Present (root s) \<and> pt_tree (slots s) 4 (root s) \<and>
    tabs (slots s) 4 (root s) \<inter> (\<lambda>p. of_nat (ToAddr p)) ` pa_frames (pool s) = {}"

text \<open>The address space after a page is mapped.\<close>

definition maps_page :: "64 word \<Rightarrow> pfn \<Rightarrow> pa_state tables \<Rightarrow> pa_state tables \<Rightarrow> bool" where
  "maps_page va p s s' \<longleftrightarrow> (\<forall>va'. Canonical va' = va' \<longrightarrow>
     hw_walk (slots s') 4 (root s') va' =
       (if va' AND NOT (mask 12) = va then Some (of_nat (ToAddr p) OR (va' AND mask 12)) else hw_walk (slots s) 4 (root s) va'))"

lemma pa_frames_T: "pa_inv T st A {} \<Longrightarrow> pa_frames st \<subseteq> T"
  by (fastforce simp: pa_frames_def cover_def pa_inv_def is_block_def)

lemma tables_ok_sound: "tables_ok T s \<Longrightarrow> page_source.sound T 4 s Root"
  using pa_frames_T by (fastforce simp: tables_ok_def page_source.sound_def page_source.free_tabs_def page_source.out_def get_def)

lemma MapMemory_ok:
  assumes "tables_ok T s" "page_va (of_nat (ToAddr v))" "hw_walk (slots s) 4 (root s) (of_nat (ToAddr v)) = None" "p < 2 ^ 40"
    "3 \<le> card (pa_frames (pool s))"
  shows "\<exists>s'. MapMemory page_Alloc v p 4096 s = Inr s' \<and> tables_ok T s' \<and> maps_page (of_nat (ToAddr v)) p s s' \<and>
    pa_frames (pool s') \<subseteq> pa_frames (pool s)"
proof -
  let ?va = "of_nat (ToAddr v) :: 64 word"
  have "Pte_Present (root s)" using assms(1) by (simp add: tables_ok_def)
  from page_source.MapMemory_page [OF tables_ok_sound [OF assms(1)] this assms(2-5)]
  obtain s' where s': "MapMemory page_Alloc v p 4096 s = Inr s'" "page_source.mapped T 4 ?va (of_nat (ToAddr p)) Root s s'" "root s' = root s" by blast
  have g: "get Root x = root x" for x :: "pa_state tables" by (simp add: get_def)
  have m: "\<exists>A. pa_inv T (pool s') A {}" "pa_frames (pool s') \<subseteq> pa_frames (pool s)" "pt_tree (slots s') 4 (root s')"
    "tabs (slots s') 4 (root s') = tabs (slots s) 4 (root s) \<union> (page_source.free_tabs s - page_source.free_tabs s')"
    "\<And>va'. hw_walk (slots s') 4 (root s') va' = (if \<forall>k < 4. PtIndex va' k = PtIndex ?va k then Some (of_nat (ToAddr p) OR (va' AND mask 12))
      else hw_walk (slots s) 4 (root s) va')"
    using s'(2) unfolding page_source.mapped_def g by blast+
  have "maps_page ?va p s s'" unfolding maps_page_def m(5) using same_page [OF assms(2)] by simp
  moreover have "tabs (slots s') 4 (root s') \<inter> (\<lambda>p. of_nat (ToAddr p)) ` pa_frames (pool s') = {}"
    using m(2,4) assms(1) unfolding tables_ok_def page_source.free_tabs_def by blast
  ultimately show ?thesis using s'(1,3) m(1-3) assms(1) by (auto simp: tables_ok_def)
qed

text \<open>C12: Mapping a page.  When the page is not mapped and three frames are free, \<open>MapMemory\<close> returns, and the processor then
  translates every address of the page to the given frame and every other canonical address as before.  The tables stay a tree
  whose frames the allocator does not hand out again.\<close>

theorem MapMemory_translates:
  assumes "tables_ok T s" "page_va (of_nat (ToAddr v))" "hw_walk (slots s) 4 (root s) (of_nat (ToAddr v)) = None" "p < 2 ^ 40"
    "3 \<le> card (pa_frames (pool s))"
  shows "\<exists>s'. MapMemory page_Alloc v p 4096 s = Inr s' \<and> tables_ok T s' \<and> maps_page (of_nat (ToAddr v)) p s s'"
  using MapMemory_ok [OF assms] by blast

text \<open>C19: Growing a stack.  A fault on a page of a stack that has no frame yet takes a free frame, records it and maps it:
  the processor then translates the faulting page to a frame that is free no longer, and every other address as before.\<close>

theorem stack_fault_maps:
  assumes "tables_ok T s" "page_va (of_nat (ToAddr (Pfn_Down addr)))" "hw_walk (slots s) 4 (root s) (of_nat (ToAddr (Pfn_Down addr))) = None"
    "4 \<le> card (pa_frames (pool s))" "map_of ms (Pfn_Down addr) = None" "length ms + 1 < n"
  shows "\<exists>b s'. stack_HandleFault page_Alloc n addr ms s = Inr ((Pfn_Down addr, b) # ms, s') \<and> tables_ok T s' \<and>
    b \<in> pa_frames (pool s) - pa_frames (pool s') \<and> maps_page (of_nat (ToAddr (Pfn_Down addr))) b s s'"
proof -
  obtain A where A: "pa_inv T (pool s) A {}" "T \<subseteq> {..<2 ^ 40}" using assms(1) by (auto simp: tables_ok_def)
  have ne: "pa_frames (pool s) \<noteq> {}" "finite (pa_frames (pool s))" using assms(4) by (auto intro!: card_ge_0_finite)
  then obtain b a where b: "page_Alloc (pool s) = Inr (b, a)" "b \<noteq> Pfn_None" using page_source.alloc_some A(1) by blast
  have t: "b \<in> pa_frames (pool s)" "pa_frames a = pa_frames (pool s) - {b}" "\<exists>A. pa_inv T a A {}"
    using page_source.alloc_takes [OF _ b] A(1) by blast+
  let ?s = "s\<lparr>pool := a\<rparr>"
  have "tables_ok T ?s" using assms(1) t(2,3) by (auto simp: tables_ok_def simp del: tabs.simps pt_tree.simps)
  moreover have "b < 2 ^ 40" using t(1) pa_frames_T [OF A(1)] A(2) by blast
  moreover have "3 \<le> card (pa_frames (pool ?s))" using t(1,2) ne(2) assms(4) by (simp add: card_Diff_singleton)
  ultimately obtain s' where s': "MapMemory page_Alloc (Pfn_Down addr) b 4096 ?s = Inr s'" "tables_ok T s'"
      "maps_page (of_nat (ToAddr (Pfn_Down addr))) b ?s s'" "pa_frames (pool s') \<subseteq> pa_frames a"
    using MapMemory_ok [of T ?s "Pfn_Down addr" b] assms(2,3) by auto
  have "of_nat kPageSize = (4096 :: 64 word)" by (simp add: kPageSize_def kPageShift_def)
  then have "stack_HandleFault page_Alloc n addr ms s = Inr ((Pfn_Down addr, b) # ms, s')"
    using assms(5,6) b s'(1) by (simp add: stack_HandleFault_def Let_def)
  moreover have "maps_page (of_nat (ToAddr (Pfn_Down addr))) b s s'" using s'(3) by (simp add: maps_page_def del: hw_walk.simps)
  ultimately show ?thesis using s'(2,4) t(1,2) by blast
qed

definition demo_tables :: "pa_state tables" where
  "demo_tables = \<lparr>root = SetNormal (of_nat (ToAddr 1)), slots = \<lambda>_. 0, pool = demo_alloc\<rparr>"

lemma demo_walk: "hw_walk (slots demo_tables) 4 (root demo_tables) va = None" "tabs (slots demo_tables) 4 (root demo_tables) = {of_nat (ToAddr 1)}"
  "pt_tree (slots demo_tables) 4 (root demo_tables)" "Pte_Present (root demo_tables)"
proof -
  have "\<not> Pte_Present 0" by (simp add: Pte_Present_def)
  then have e0: "tabs m k 0 = {}" "pt_tree m k 0" "hw_walk m k 0 va = None" for m k by (cases k; simp)+
  have four: "(4 :: nat) = Suc 3" by simp
  have ph: "phys_ok (of_nat (ToAddr 1))" by (rule frame_phys) simp
  note f = Set_facts [OF ph]
  have l: "\<not> large_leaf 3 x" for x by (simp add: large_leaf_def)
  show "hw_walk (slots demo_tables) 4 (root demo_tables) va = None" "tabs (slots demo_tables) 4 (root demo_tables) = {of_nat (ToAddr 1)}"
    "pt_tree (slots demo_tables) 4 (root demo_tables)" "Pte_Present (root demo_tables)"
    unfolding demo_tables_def SetNormal_def tables.simps four hw_walk.simps(2) tabs.simps(2) pt_tree.simps(2) Let_def
    using f(1,3) l e0 by simp_all
qed

lemma demo_frames: "pa_frames demo_alloc = {2..<8}"
  by (auto simp: pa_frames_def demo_alloc_blocks blk_def)

lemma demo_tables_ok: "tables_ok {..<2048} demo_tables"
proof -
  have "pool demo_tables = demo_alloc" by (simp add: demo_tables_def)
  moreover have "of_nat (ToAddr 1) \<notin> (\<lambda>p. of_nat (ToAddr p) :: 64 word) ` {2..<8}"
  proof
    assume "of_nat (ToAddr 1) \<in> (\<lambda>p. of_nat (ToAddr p) :: 64 word) ` {2..<8}"
    then obtain p :: nat where p: "2 \<le> p" "p < 8" "of_nat (ToAddr 1) = (of_nat (ToAddr p) :: 64 word)" by auto
    have "unat (of_nat (ToAddr z) :: 64 word) = ToAddr z" for z by (simp add: ToAddr_def unsigned_of_nat take_bit_nat_eq_self)
    then have "ToAddr 1 = ToAddr p" using p(3) by metis
    then show False using p(1,2) by (simp add: ToAddr_val)
  qed
  ultimately show ?thesis using demo_walk(2-4) demo_alloc_inv(1) by (auto simp: tables_ok_def demo_frames simp del: tabs.simps pt_tree.simps)
qed

lemma demo_va: "page_va (of_nat (ToAddr 0xFFFF900000000))" "Pfn_Down 0xFFFF900000000123 = 0xFFFF900000000"
  by code_simp+

theorem MapMemory_translates_witness:
  "\<exists>s'. MapMemory page_Alloc 0xFFFF900000000 100 4096 demo_tables = Inr s' \<and> tables_ok {..<2048} s' \<and>
    maps_page (of_nat (ToAddr 0xFFFF900000000)) 100 demo_tables s'"
proof -
  have "3 \<le> card (pa_frames (pool demo_tables))" by (simp add: demo_tables_def demo_frames)
  from MapMemory_translates [OF demo_tables_ok demo_va(1) demo_walk(1) _ this, of 100] show ?thesis by simp
qed

theorem stack_fault_maps_witness:
  "\<exists>b s'. stack_HandleFault page_Alloc 2048 0xFFFF900000000123 [] demo_tables = Inr ([(0xFFFF900000000, b)], s') \<and> tables_ok {..<2048} s' \<and>
    b \<in> pa_frames (pool demo_tables) - pa_frames (pool s') \<and> maps_page (of_nat (ToAddr 0xFFFF900000000)) b demo_tables s'"
proof -
  have "4 \<le> card (pa_frames (pool demo_tables))" by (simp add: demo_tables_def demo_frames)
  from stack_fault_maps [OF demo_tables_ok _ demo_walk(1) this, of "0xFFFF900000000123" "[]" 2048] show ?thesis
    unfolding demo_va(2) using demo_va(1) by simp
qed

end
