(* ===== verification/NodePages.thy ===== *)
theory NodePages
  imports PageAllocator
begin

text \<open>
  The page allocators of all nodes (\<open>src/src/native/PageAllocator.cc\<close>).  Each node has its own
  free lists; the page descriptors are shared.  \<open>page_allocator->Free\<close> runs on the
  representative of the node of the calling processor, whatever node the pages are from, so the invariant
  \<open>nodes_inv\<close> is kept only where the caller's node is the node of the block.
\<close>

definition node_view :: "pa_system \<Rightarrow> nat \<Rightarrow> pa_state" where
  "node_view sys n = \<lparr>free_page_lists = allocators sys ! n, pages = all_pages sys\<rparr>"

definition node_put :: "pa_system \<Rightarrow> nat \<Rightarrow> pa_state \<Rightarrow> pa_system" where
  "node_put sys n st = \<lparr>allocators = (allocators sys)[n := free_page_lists st], all_pages = pages st\<rparr>"

definition FreeOn :: "nat \<Rightarrow> pfn \<Rightarrow> nat \<Rightarrow> pa_system \<Rightarrow> pa_system result" where
  "FreeOn n p k sys =
    (if length (allocators sys) \<le> n then Inl (Undefined ''allocators[nid]'')
     else bindr (Free p k (node_view sys n)) (\<lambda>st. Inr (node_put sys n st)))"

section \<open>What an operation of one node leaves alone\<close>

definition page_frame :: "pfn set \<Rightarrow> mem_map \<Rightarrow> mem_map \<Rightarrow> bool" where
  "page_frame T m m' = (\<forall>q. (q \<notin> T \<longrightarrow> m' q = m q) \<and> map_option nid (m' q) = map_option nid (m q))"

lemma page_frame_refl [simp, intro]: "page_frame T m m"
  by (simp add: page_frame_def)

lemma page_frame_trans: "page_frame T m m' \<Longrightarrow> page_frame T m' m'' \<Longrightarrow> page_frame T m m''"
  by (simp add: page_frame_def)

lemma page_frame_upd:
  assumes "m p = Some pg" "p \<in> T" "nid pg' = nid pg"
  shows "page_frame T m (m(p \<mapsto> pg'))"
  using assms by (auto simp: page_frame_def)

lemma FreePageNoCoalesce_frame:
  assumes "FreePageNoCoalesce p k st = Inr st'" "p \<in> T"
  shows "page_frame T (pages st) (pages st')"
  using assms by (auto simp: FreePageNoCoalesce_def page_frame_def split: if_splits option.splits)

lemma AllocSplit_frame:
  assumes "AllocSplit k lo p st = Inr st'" "2 ^ k dvd p" "blk p k \<subseteq> T"
  shows "page_frame T (pages st) (pages st')"
  using assms
proof (induction k arbitrary: st)
  case (Suc k)
  show ?case
  proof (cases "Suc k = lo")
    case False
    with Suc.prems(1) obtain st1 where
      1: "FreePageNoCoalesce (PfnToBuddy p k) k st = Inr st1" "AllocSplit k lo p st1 = Inr st'"
      by (auto simp: bindr_eq_Inr_iff)
    have b: "PfnToBuddy p k = p + 2 ^ k" using Suc.prems(2) by (rule PfnToBuddy_upper)
    then have "PfnToBuddy p k \<in> T" using Suc.prems(3) by (auto simp: blk_def)
    moreover have "2 ^ k dvd p" using Suc.prems(2) by (metis dvd_trans le_imp_power_dvd le_Suc_eq order_refl)
    moreover have "blk p k \<subseteq> T" using Suc.prems(3) by (auto simp: blk_def)
    ultimately show ?thesis
      using FreePageNoCoalesce_frame [OF 1(1)] Suc.IH [OF 1(2)] page_frame_trans by blast
  qed (use Suc.prems in auto)
qed (auto split: if_splits)

lemma FreeCoalesce_pages:
  "FreeCoalesce p k st = Inr (p', k', st') \<Longrightarrow> pages st' = pages st"
proof (induction p k st rule: FreeCoalesce.induct)
  case (1 p k st)
  let ?b = "PfnToBuddy p k"
  let ?st = "st\<lparr>free_page_lists := (free_page_lists st)[k := remove1 ?b (free_page_lists st ! k)]\<rparr>"
  show ?case
  proof (cases "k < kMaxOrder \<and> marked_at (pages st) ?b k \<and> ?b \<in> set (free_page_lists st ! k)")
    case True
    then obtain pg where pg: "\<not> kMaxOrder \<le> k" "pages st ?b = Some pg" "\<not> (usage pg \<noteq> kPageAllocator \<or> order pg \<noteq> k)"
      "\<not> ?b \<notin> set (free_page_lists st ! k)" by (auto simp: marked_at_def)
    then have "FreeCoalesce (min p ?b) (Suc k) ?st = Inr (p', k', st')"
      using "1.prems" by (simp add: FreeCoalesce.simps [of p k st] Let_def)
    then have "pages st' = pages ?st" by (rule "1.IH" [OF pg(1) refl pg(2,3) refl pg(4)])
    then show ?thesis by simp
  next
    case False
    then show ?thesis using "1.prems"
      by (auto simp: FreeCoalesce.simps [of p k st] marked_at_def Let_def split: if_splits option.splits)
  qed
qed

lemma AllocLocal_frame:
  assumes inv: "pa_inv T st A {}" and r: "AllocLocal k mx st = Inr (p, st')"
  shows "page_frame T (pages st) (pages st')"
proof (cases "AllocFind k mx (free_page_lists st)")
  case None
  then show ?thesis using r by (simp add: AllocLocal_def)
next
  case (Some jq)
  then obtain j q where f: "AllocFind k mx (free_page_lists st) = Some (j, q)" by (cases jq) auto
  let ?st = "st\<lparr>free_page_lists := (free_page_lists st)[j := remove1 q (free_page_lists st ! j)]\<rparr>"
  have fb: "(q, j) \<in> free_blocks st" using AllocFind_Some [OF f] by (auto simp: free_blocks_def)
  then have b: "2 ^ j dvd q" "blk q j \<subseteq> T" using pa_inv_blocks [OF inv, of "(q, j)"] by (auto simp: is_block_def)
  from r f obtain st2 pg where
    2: "AllocSplit j k q ?st = Inr st2" "pages st2 q = Some pg"
       "st' = st2\<lparr>pages := (pages st2)(q \<mapsto> pg\<lparr>usage := kInUse\<rparr>)\<rparr>"
    by (auto simp: AllocLocal_def Let_def bindr_eq_Inr_iff split: option.splits)
  have "q \<in> T" using b(2) by (auto simp: blk_def)
  then have "page_frame T (pages st2) (pages st')" using 2 by (auto intro!: page_frame_upd)
  then show ?thesis using AllocSplit_frame [OF 2(1) b] page_frame_trans by fastforce
qed

lemma Free_frame:
  assumes inv: "pa_inv T st A {}" and a: "(p, k) \<in> A" and r: "Free p k st = Inr st'"
  shows "page_frame T (pages st) (pages st')"
proof -
  have k: "k \<le> kMaxOrder" using pa_inv_blocks [OF inv, of "(p, k)"] a by (simp add: is_block_def)
  from FreeCoalesce_ok [OF pa_inv_release [OF inv a] k] obtain p' k' st1 where
    1: "FreeCoalesce p k st = Inr (p', k', st1)" "pa_inv T st1 (A - {(p, k)}) {(p', k')}" by blast
  have "p' \<in> T" using pa_inv_blocks [OF 1(2), of "(p', k')"] by (auto simp: is_block_def blk_def)
  then show ?thesis using r 1(1) k FreeCoalesce_pages [OF 1(1)] FreePageNoCoalesce_frame [of p' k' st1 st' T]
    by (simp add: Free_def)
qed

text \<open>The invariant of a node only reads the descriptors of its territory.\<close>

lemma pa_inv_other:
  assumes inv: "pa_inv T st A {}" and m: "\<And>q. q \<in> T \<Longrightarrow> m q = pages st q"
  shows "pa_inv T (st\<lparr>pages := m\<rparr>) A {}"
proof -
  have F: "free_blocks (st\<lparr>pages := m\<rparr>) = free_blocks st" by (simp add: free_blocks_def)
  have L: "lists_ok (st\<lparr>pages := m\<rparr>) = lists_ok st" by (simp add: lists_ok_def)
  have B: "is_block T m b = is_block T (pages st) b" for b
  proof (cases b)
    case (Pair p k)
    have "(\<forall>q \<in> blk p k. m q \<noteq> None) = (\<forall>q \<in> blk p k. pages st q \<noteq> None)" if "blk p k \<subseteq> T"
      using m that by (intro ball_cong) auto
    then show ?thesis by (auto simp: Pair is_block_def)
  qed
  have I: "p \<in> T" if "(p, k) \<in> free_blocks st \<union> A" for p k
    using pa_inv_blocks [OF inv, of "(p, k)"] that by (auto simp: is_block_def blk_def)
  have M: "marked m p = marked (pages st) p" "marked_at m p k = marked_at (pages st) p k" if "p \<in> T" for p k
    using m [OF that] by (simp_all add: marked_def marked_at_def)
  have "\<forall>(p, k) \<in> free_blocks st. marked_at m p k" using inv I M(2) by (fastforce simp: pa_inv_def)
  moreover have "\<forall>(p, k) \<in> A. \<not> marked m p" using inv I M(1) by (fastforce simp: pa_inv_def)
  moreover have "\<forall>p \<in> T. marked m p \<longrightarrow> p \<in> cover (free_blocks st \<union> A)" using inv M(1) by (auto simp: pa_inv_def)
  ultimately show ?thesis using inv unfolding pa_inv_def F L by (simp add: B)
qed

section \<open>The invariant of all nodes\<close>

definition nodes_inv :: "pfn set list \<Rightarrow> pa_system \<Rightarrow> (nat \<Rightarrow> (pfn \<times> nat) set) \<Rightarrow> bool" where
  "nodes_inv Ts sys A \<longleftrightarrow> length Ts = length (allocators sys) \<and>
     (\<forall>i < length Ts. \<forall>j < length Ts. i \<noteq> j \<longrightarrow> Ts ! i \<inter> Ts ! j = {}) \<and>
     (\<forall>n < length Ts. pa_inv (Ts ! n) (node_view sys n) (A n) {} \<and>
        0 \<notin> cover (free_blocks (node_view sys n) \<union> A n) \<and>
        (\<forall>p \<in> Ts ! n. \<forall>pg. all_pages sys p = Some pg \<longrightarrow> nid pg = n))"

lemma nodes_invD:
  assumes "nodes_inv Ts sys A" "n < length Ts"
  shows "pa_inv (Ts ! n) (node_view sys n) (A n) {}" "0 \<notin> cover (free_blocks (node_view sys n) \<union> A n)"
    "length Ts = length (allocators sys)"
  using assms by (auto simp: nodes_inv_def)

lemma node_view_put:
  assumes "n < length (allocators sys)" "m < length (allocators sys)"
  shows "node_view (node_put sys n st) m = (if m = n then st else (node_view sys m)\<lparr>pages := pages st\<rparr>)"
  using assms by (simp add: node_view_def node_put_def)

lemma nodes_put:
  assumes inv: "nodes_inv Ts sys A" and n: "n < length Ts"
    and st: "pa_inv (Ts ! n) st B {}" "0 \<notin> cover (free_blocks st \<union> B)"
    and fr: "page_frame (Ts ! n) (all_pages sys) (pages st)"
  shows "nodes_inv Ts (node_put sys n st) (A(n := B))"
proof -
  have l: "length Ts = length (allocators sys)" using nodes_invD(3) [OF inv n] .
  have d: "Ts ! i \<inter> Ts ! j = {}" if "i < length Ts" "j < length Ts" "i \<noteq> j" for i j
    using inv that by (simp add: nodes_inv_def)
  have "pa_inv (Ts ! m) ((node_view sys m)\<lparr>pages := pages st\<rparr>) (A m) {}" if "m < length Ts" "m \<noteq> n" for m
    using d [OF that(1) n that(2)] fr
    by (intro pa_inv_other nodes_invD(1) [OF inv that(1)]) (auto simp: page_frame_def node_view_def)
  moreover have "free_blocks ((node_view sys m)\<lparr>pages := pages st\<rparr>) = free_blocks (node_view sys m)" for m
    by (simp add: free_blocks_def)
  moreover have "nid pg = m" if "m < length Ts" "p \<in> Ts ! m" "pages st p = Some pg" for m p pg
  proof -
    from fr that(3) obtain pg' where "all_pages sys p = Some pg'" "nid pg' = nid pg"
      unfolding page_frame_def by (metis map_option_eq_Some option.simps(9))
    then show ?thesis using inv that(1,2) by (auto simp: nodes_inv_def)
  qed
  ultimately show ?thesis using inv st n l unfolding nodes_inv_def
    by (auto simp: node_view_put) (simp_all add: node_put_def)
qed

lemma Alloc_view:
  "n < length (allocators sys) \<Longrightarrow> Alloc k n mx sys =
     bindr (AllocLocal k mx (node_view sys n)) (\<lambda>(p, st). Inr (p, node_put sys n st))"
  by (simp add: Alloc_def node_view_def node_put_def)

lemma node_put_view: "n < length (allocators sys) \<Longrightarrow> node_put sys n (node_view sys n) = sys"
  by (simp add: node_put_def node_view_def)

lemma base_cover: "(p, k) \<in> B \<Longrightarrow> blk p k \<subseteq> cover B"
  by (auto simp: cover_def)

lemma cover_mono: "B \<subseteq> C \<Longrightarrow> cover B \<subseteq> cover C"
  by (auto simp: cover_def)

lemma nodes_Alloc:
  assumes inv: "nodes_inv Ts sys A" and n: "n < length Ts"
  shows "Alloc k n mx sys = Inr (Pfn_None, sys) \<or>
    (\<exists>p sys'. Alloc k n mx sys = Inr (p, sys') \<and> p \<noteq> Pfn_None \<and> (p, k) \<notin> A n \<and>
       nodes_inv Ts sys' (A(n := insert (p, k) (A n))))"
proof -
  note I = nodes_invD [OF inv n]
  have l: "n < length (allocators sys)" using n I(3) by simp
  from AllocLocal_ok [OF I(1), of k mx] show ?thesis
  proof (elim disjE exE conjE)
    fix p j st'
    assume 1: "AllocLocal k mx (node_view sys n) = Inr (p, st')" "pa_inv (Ts ! n) st' (insert (p, k) (A n)) {}"
      "(p, j) \<in> free_blocks (node_view sys n)" "k \<le> j"
      "free_blocks st' = free_blocks (node_view sys n) - {(p, j)} \<union> split_blocks p k j"
    have "blk p k \<subseteq> blk p j" using 1(4) by (auto simp: blk_def intro!: add_left_mono power_increasing elim!: order_less_le_trans)
    moreover have "cover (split_blocks p k j) \<subseteq> blk p j" using cover_split_blocks [OF 1(4)] by auto
    ultimately have "cover (free_blocks st' \<union> insert (p, k) (A n)) \<subseteq> cover (free_blocks (node_view sys n) \<union> A n)"
      using base_cover [OF 1(3)] unfolding 1(5) cover_Un cover_insert by (auto dest: cover_mono [OF Diff_subset, THEN subsetD])
    then have "0 \<notin> cover (free_blocks st' \<union> insert (p, k) (A n))" using I(2) by blast
    moreover have "page_frame (Ts ! n) (all_pages sys) (pages st')"
      using AllocLocal_frame [OF I(1) 1(1)] by (simp add: node_view_def)
    ultimately have "nodes_inv Ts (node_put sys n st') (A(n := insert (p, k) (A n)))"
      using nodes_put [OF inv n 1(2)] by blast
    moreover have "(p, k) \<notin> A n"
      using pa_inv_same_block [OF I(1), of p j p k p] 1(3) I(1) by (auto simp: pa_inv_def blk_def)
    ultimately show ?thesis using 1(1) pa_inv_not_None [OF I(1), of p j] 1(3) l by (simp add: Alloc_view)
  qed (use l in \<open>simp add: Alloc_view node_put_view\<close>)
qed

lemma nodes_Free:
  assumes inv: "nodes_inv Ts sys A" and n: "n < length Ts" and a: "(p, k) \<in> A n"
  shows "\<exists>sys'. FreeOn n p k sys = Inr sys' \<and> nodes_inv Ts sys' (A(n := A n - {(p, k)}))"
proof -
  note I = nodes_invD [OF inv n]
  from Free_ok [OF I(1) a] obtain st' where
    1: "Free p k (node_view sys n) = Inr st'" "pa_inv (Ts ! n) st' (A n - {(p, k)}) {}"
       "cover (free_blocks st') = blk p k \<union> cover (free_blocks (node_view sys n))" by blast
  have "cover (free_blocks st' \<union> (A n - {(p, k)})) \<subseteq> cover (free_blocks (node_view sys n) \<union> A n)"
    using 1(3) base_cover [OF a] by (auto simp: cover_Un dest: cover_mono [OF Diff_subset, THEN subsetD])
  then have "0 \<notin> cover (free_blocks st' \<union> (A n - {(p, k)}))" using I(2) by blast
  moreover have "page_frame (Ts ! n) (all_pages sys) (pages st')"
    using Free_frame [OF I(1) a 1(1)] by (simp add: node_view_def)
  ultimately have "nodes_inv Ts (node_put sys n st') (A(n := A n - {(p, k)}))"
    using nodes_put [OF inv n 1(2)] by blast
  then show ?thesis using 1(1) n I(3) by (simp add: FreeOn_def)
qed

text \<open>A client may mark the first page of a block it holds as its own.\<close>

lemma nodes_mark:
  assumes inv: "nodes_inv Ts sys A" and n: "n < length Ts" and a: "(p, k) \<in> A n"
    and pg: "all_pages sys p = Some pg" and u: "u \<noteq> kPageAllocator"
  shows "nodes_inv Ts (sys\<lparr>all_pages := (all_pages sys)(p \<mapsto> pg\<lparr>usage := u\<rparr>)\<rparr>) A"
proof -
  note I = nodes_invD [OF inv n]
  let ?m = "(all_pages sys)(p \<mapsto> pg\<lparr>usage := u\<rparr>)" and ?st = "node_view sys n"
  have pT: "p \<in> Ts ! n" "p \<in> blk p k" using pa_inv_blocks [OF I(1), of "(p, k)"] a by (auto simp: is_block_def blk_def)
  have F: "free_blocks (?st\<lparr>pages := ?m\<rparr>) = free_blocks ?st" by (simp add: free_blocks_def)
  have B: "is_block (Ts ! n) ?m b = is_block (Ts ! n) (pages ?st) b" for b
    using pg by (cases b) (auto simp: is_block_def node_view_def)
  have ne: "q \<noteq> p" if "(q, j) \<in> free_blocks ?st" for q j
    using that a pa_inv_same_block [OF I(1), of q j p k p] I(1) by (auto simp: pa_inv_def blk_def)
  have M: "marked ?m q \<longleftrightarrow> q \<noteq> p \<and> marked (pages ?st) q" for q
    using u pg by (auto simp: marked_def node_view_def)
  have M': "marked_at ?m q j = marked_at (pages ?st) q j" if "q \<noteq> p" for q j
    using that by (simp add: marked_at_def node_view_def)
  have "pa_inv (Ts ! n) (?st\<lparr>pages := ?m\<rparr>) (A n) {}"
  proof -
    have "\<forall>(q, j) \<in> free_blocks ?st. marked_at ?m q j"
      using I(1) M' ne by (fastforce simp: pa_inv_def)
    then show ?thesis using I(1) unfolding pa_inv_def F by (auto simp: B M lists_ok_def)
  qed
  then have "nodes_inv Ts (node_put sys n (?st\<lparr>pages := ?m\<rparr>)) (A(n := A n))"
    using I(2) pT(1) pg by (intro nodes_put [OF inv n]) (auto simp: F intro!: page_frame_upd)
  moreover have "node_put sys n (?st\<lparr>pages := ?m\<rparr>) = sys\<lparr>all_pages := ?m\<rparr>"
    using n I(3) by (simp add: node_put_def node_view_def)
  ultimately show ?thesis by simp
qed

lemma nodes_held:
  assumes "nodes_inv Ts sys A" "n < length Ts" "(p, k) \<in> A n" "q \<in> blk p k"
  shows "q \<in> Ts ! n" "q \<noteq> 0" "q < 2 ^ 52" "\<exists>pg. all_pages sys q = Some pg \<and> nid pg = n" "2 ^ k dvd p" "k \<le> kMaxOrder"
proof -
  note I = nodes_invD [OF assms(1,2)]
  have b: "is_block (Ts ! n) (all_pages sys) (p, k)"
    using pa_inv_blocks [OF I(1), of "(p, k)"] assms(3) by (simp add: node_view_def)
  then show q: "q \<in> Ts ! n" and "2 ^ k dvd p" "k \<le> kMaxOrder" using assms(4) by (auto simp: is_block_def)
  show "q \<noteq> 0" using I(2) assms(3,4) by (auto simp: cover_def)
  show "q < 2 ^ 52" using q I(1) by (auto simp: pa_inv_def territory_def)
  from b assms(4) obtain pg where "all_pages sys q = Some pg" by (auto simp: is_block_def)
  then show "\<exists>pg. all_pages sys q = Some pg \<and> nid pg = n" using assms(1,2) q by (auto simp: nodes_inv_def)
qed

lemma nodes_apart:
  assumes "nodes_inv Ts sys A" "n < length Ts" "m < length Ts" "(p, k) \<in> A n" "(q, j) \<in> A m"
    "x \<in> blk p k" "x \<in> blk q j"
  shows "n = m \<and> p = q \<and> k = j"
proof -
  have "x \<in> Ts ! n" "x \<in> Ts ! m" using nodes_held(1) [OF assms(1)] assms by blast+
  moreover have "n \<noteq> m \<longrightarrow> Ts ! n \<inter> Ts ! m = {}" using assms(1-3) by (simp add: nodes_inv_def)
  ultimately have "n = m" by blast
  then show ?thesis
    using pa_inv_same_block [OF nodes_invD(1) [OF assms(1,2)], of p k q j x] assms by simp
qed

end
