(* ===== verification/SlabAllocator.thy ===== *)
theory SlabAllocator
  imports NodePages
begin

text \<open>
  The slab allocator (\<open>src/src/native/SlabAllocator.cc\<close>, \<open>SlabAllocator.h\<close>, \<open>SlabObject.h\<close>).  A
  \<open>SlabAllocatorRoot\<close> has one \<open>SlabAllocator\<close> per processor and one \<open>SlabAllocatorNode\<close> per node, each with a
  \<open>SlabCache\<close>; the state holds the caches of all roots, the list of remotely freed objects of each
  processor's allocator, the slab data of the page descriptors and the page allocators.  A free object is its address, as a
  \<open>FreeObject\<close> is constructed in the object.  The address 0 is the null pointer.

  An operation runs on the processor \<open>my_cpu\<close> without being preempted, and the lists it
  shares with other processors are changed under their spin lock, so an operation is one step.
  The representatives exist from the start: their construction at the first use is not part of the model.  The slab data of a descriptor
  and the order of a free block share a union; they are kept apart here, since the order is read
  only where the usage is \<open>kPageAllocator\<close> and is written together with it.
\<close>

section \<open>The geometry of a slab\<close>

record slab_root =
  obj_align :: nat
  obj_size :: nat
  slab_order :: nat
  free_batch :: nat
  hiwater :: nat

definition Fls :: "nat \<Rightarrow> nat" where
  "Fls w = bit_width w - 1"

function SlabOrder_loop :: "nat \<Rightarrow> nat \<Rightarrow> nat \<Rightarrow> nat \<Rightarrow> nat" where
  "SlabOrder_loop sz max_order frac ord =
    (if max_order < ord then ord
     else let slab_size = kPageSize * 2 ^ ord; objects = slab_size div sz;
              waste = slab_size - objects * sz
          in if waste * frac \<le> slab_size then ord else SlabOrder_loop sz max_order frac (Suc ord))"
  by auto
termination
  by (relation "measure (\<lambda>(_, m, _, k). Suc m - k)") auto

declare SlabOrder_loop.simps [simp del]

definition SlabOrder :: "nat \<Rightarrow> nat \<Rightarrow> nat \<Rightarrow> nat" where
  "SlabOrder sz max_order frac = SlabOrder_loop sz max_order frac
     (if Fls (sz - 1) < kPageShift then 0 else Fls (sz - 1) - kPageShift + 1)"

definition CalculateOrder :: "nat \<Rightarrow> nat result" where
  "CalculateOrder sz =
    (let ord = SlabOrder sz 1 4 in
     if ord \<le> 1 then Inr ord
     else let ord' = SlabOrder sz kMaxOrder 0 in
       if kMaxOrder < ord' then Inl (KAbort ''Request for too big a slab'') else Inr ord')"

definition CalculateFreebatch :: "nat \<Rightarrow> nat" where
  "CalculateFreebatch sz = max (4 * kPageSize div sz) (min 256 (64 * kPageSize div sz))"

definition SlabAllocatorRoot_new :: "nat \<Rightarrow> nat \<Rightarrow> slab_root result" where
  "SlabAllocatorRoot_new size_in align_in =
    (let al = align_Up (of_nat (max align_in 8) :: 64 word) 8;
         sz = unat (align_Up (of_nat (max size_in 8)) al)
     in bindr (CalculateOrder sz) (\<lambda>ord. Inr \<lparr>obj_align = unat al, obj_size = sz, slab_order = ord,
          free_batch = CalculateFreebatch sz, hiwater = CalculateFreebatch sz * 4\<rparr>))"

definition NumObjectsPerSlab :: "slab_root \<Rightarrow> nat" where
  "NumObjectsPerSlab r = kPageSize * 2 ^ slab_order r div obj_size r"

definition AddrToSlabPfn :: "nat \<Rightarrow> nat \<Rightarrow> pfn" where
  "AddrToSlabPfn addr ord = unat (align_Down (of_nat (Pfn_Down addr) :: 64 word) (2 ^ ord))"

section \<open>Caches, representatives and slab data\<close>

datatype cache_ix = CpuCache nat nat | NodeCache nat nat

fun cache_root :: "cache_ix \<Rightarrow> nat" where
  "cache_root (CpuCache r c) = r"
| "cache_root (NodeCache r n) = r"

record slab_cache =
  object_list :: "nat list"
  remote_objs :: "nat list"
  remote_check :: bool
  partial_page_list :: "pfn list"

record slab_data =
  sd_list :: "nat list"
  sd_cache :: "cache_ix option"
  sd_used :: nat

record slab_sys =
  sroots :: "slab_root list"
  cpu_nids :: "nat list"
  my_cpu :: nat
  caches :: "cache_ix \<Rightarrow> slab_cache"
  remote_list :: "nat \<Rightarrow> nat \<Rightarrow> nat list"
  remote_cache :: "nat \<Rightarrow> nat \<Rightarrow> cache_ix option"
  sdata :: "pfn \<Rightarrow> slab_data"
  pa :: pa_system

definition root_of :: "slab_sys \<Rightarrow> cache_ix \<Rightarrow> slab_root" where
  "root_of s c = sroots s ! cache_root c"

definition GetMyNode :: "slab_sys \<Rightarrow> nat" where
  "GetMyNode s = cpu_nids s ! my_cpu s"

definition SlabCache_new :: slab_cache where
  "SlabCache_new = \<lparr>object_list = [], remote_objs = [], remote_check = False, partial_page_list = []\<rparr>"

definition set_cache :: "cache_ix \<Rightarrow> slab_cache \<Rightarrow> slab_sys \<Rightarrow> slab_sys" where
  "set_cache c k s = s\<lparr>caches := (caches s)(c := k)\<rparr>"

definition set_remote :: "nat \<Rightarrow> nat \<Rightarrow> nat list \<Rightarrow> slab_sys \<Rightarrow> slab_sys" where
  "set_remote r m xs s = s\<lparr>remote_list := (remote_list s)(r := (remote_list s r)(m := xs))\<rparr>"

definition set_sdata :: "pfn \<Rightarrow> slab_data \<Rightarrow> slab_sys \<Rightarrow> slab_sys" where
  "set_sdata p d s = s\<lparr>sdata := (sdata s)(p := d)\<rparr>"

section \<open>The list of remotely freed objects of a processor\<close>

definition FlushRemoteList :: "nat \<Rightarrow> nat \<Rightarrow> slab_sys \<Rightarrow> slab_sys" where
  "FlushRemoteList r m s =
    (case remote_cache s r m of
       None \<Rightarrow> s
     | Some c \<Rightarrow>
         let k = caches s c; l = remote_objs k; mine = remote_list s r m;
             new = (case l of [] \<Rightarrow> mine | x # xs \<Rightarrow> x # mine @ xs);
             flush_watermark = free_batch (sroots s ! r);
             crossed = (length l < flush_watermark \<and> flush_watermark \<le> length new)
         in set_remote r m []
              (set_cache c (k\<lparr>remote_objs := new, remote_check := (crossed \<or> remote_check k)\<rparr>) s))"

definition FreeRemote :: "nat \<Rightarrow> nat \<Rightarrow> nat \<Rightarrow> slab_sys \<Rightarrow> slab_sys result" where
  "FreeRemote r m x s =
    (case all_pages (pa s) (Pfn_Down x) of
       None \<Rightarrow> Inl (KAssert ''page != nullptr'')
     | Some _ \<Rightarrow>
         let owner = sd_cache (sdata s (Pfn_Down x));
             s1 = (if owner \<noteq> remote_cache s r m
                   then let s0 = FlushRemoteList r m s
                        in s0\<lparr>remote_cache := (remote_cache s0)(r := (remote_cache s0 r)(m := owner))\<rparr>
                   else s);
             s2 = set_remote r m (x # remote_list s1 r m) s1
         in Inr (if free_batch (sroots s ! r) < length (remote_list s2 r m) then FlushRemoteList r m s2 else s2))"

section \<open>SlabCache\<close>

text \<open>The body of the loop of \<open>FlushFreeList\<close>, for an object that was taken from the list.\<close>

definition FlushObject :: "cache_ix \<Rightarrow> nat \<Rightarrow> slab_sys \<Rightarrow> slab_sys result" where
  "FlushObject c x s =
    (let rt = root_of s c; p = AddrToSlabPfn x (slab_order rt); d = sdata s p; k = caches s c in
     case all_pages (pa s) p of
       None \<Rightarrow> Inl (KAssert ''page != nullptr'')
     | Some _ \<Rightarrow>
         if sd_cache d \<noteq> Some c then FreeRemote (cache_root c) (my_cpu s) x s
         else let used = (sd_used d + u64 - 1) mod u64;
                  s1 = set_sdata p (d\<lparr>sd_list := x # sd_list d, sd_used := used\<rparr>) s
              in if used = 0 then
                   if 1 < NumObjectsPerSlab rt \<and> p \<notin> set (partial_page_list k)
                   then Inl (Undefined ''iterator_to: not in this list'')
                   else bindr (FreeOn (GetMyNode s) p (slab_order rt) (pa s)) (\<lambda>pa'.
                     Inr (set_cache c (k\<lparr>partial_page_list :=
                            (if 1 < NumObjectsPerSlab rt then remove1 p (partial_page_list k)
                             else partial_page_list k)\<rparr>) s1\<lparr>pa := pa'\<rparr>))
                 else if used + 1 = NumObjectsPerSlab rt then
                   Inr (set_cache c (k\<lparr>partial_page_list := p # partial_page_list k\<rparr>) s1)
                 else Inr s1)"

primrec FlushFreeList :: "nat \<Rightarrow> cache_ix \<Rightarrow> slab_sys \<Rightarrow> slab_sys result" where
  "FlushFreeList 0 c s = Inr s"
| "FlushFreeList (Suc amount) c s =
    (case object_list (caches s c) of
       [] \<Rightarrow> Inr s
     | x # xs \<Rightarrow> bindr (FlushObject c x (set_cache c ((caches s c)\<lparr>object_list := xs\<rparr>) s))
         (FlushFreeList amount c))"

lemma FlushFreeList_code [code]:
  "FlushFreeList amount c s =
    (if amount = 0 then Inr s
     else case object_list (caches s c) of
       [] \<Rightarrow> Inr s
     | x # xs \<Rightarrow> bindr (FlushObject c x (set_cache c ((caches s c)\<lparr>object_list := xs\<rparr>) s))
         (FlushFreeList (amount - 1) c))"
  by (cases amount) (simp_all split: list.split)

definition FlushFreeListAll :: "cache_ix \<Rightarrow> slab_sys \<Rightarrow> slab_sys result" where
  "FlushFreeListAll c s = FlushFreeList (u64 - 1) c s"

text \<open>The splice into a list that is not empty names the end of the list, which is not a position
  that the list allows.\<close>

definition ClaimRemoteFreeList :: "cache_ix \<Rightarrow> slab_sys \<Rightarrow> slab_sys result" where
  "ClaimRemoteFreeList c s =
    (let k = caches s c in
     if object_list k = []
     then Inr (set_cache c (k\<lparr>object_list := remote_objs k, remote_objs := []\<rparr>) s)
     else Inl (Undefined ''splice_after(end())''))"

text \<open>The loop \<open>while (object_list_.size() > hiwater) FlushFreeList(free_batch)\<close>, with fuel: a batch of 0
  would never end.\<close>

primrec TrimFreeList :: "nat \<Rightarrow> cache_ix \<Rightarrow> slab_sys \<Rightarrow> slab_sys result" where
  "TrimFreeList 0 c s =
    (if hiwater (root_of s c) < length (object_list (caches s c)) then Inl (Undefined ''loop does not end'')
     else Inr s)"
| "TrimFreeList (Suc fuel) c s =
    (if hiwater (root_of s c) < length (object_list (caches s c))
     then bindr (FlushFreeList (free_batch (root_of s c)) c s) (TrimFreeList fuel c)
     else Inr s)"

definition AllocPartial :: "cache_ix \<Rightarrow> slab_sys \<Rightarrow> (nat \<times> slab_sys) result" where
  "AllocPartial c s =
    (let k = caches s c; n = NumObjectsPerSlab (root_of s c) in
     case partial_page_list k of
       [] \<Rightarrow> Inr (0, s)
     | p # ps \<Rightarrow>
         let d = sdata s p in
         if \<not> sd_used d < n then Inl (KAssert ''used < NumObjectsPerSlab'')
         else let s1 = (if sd_used d + 1 = n then set_cache c (k\<lparr>partial_page_list := ps\<rparr>) s else s) in
           case sd_list d of
             [] \<Rightarrow> Inl (KAssert ''!list->empty()'')
           | x # xs \<Rightarrow> Inr (x, set_sdata p (d\<lparr>sd_list := xs, sd_used := sd_used d + 1\<rparr>) s1))"

text \<open>\<open>SlabCache::Alloc\<close>; the fuel bounds the jumps to \<open>retry\<close>.\<close>

primrec CacheAlloc :: "nat \<Rightarrow> cache_ix \<Rightarrow> slab_sys \<Rightarrow> (nat \<times> slab_sys) result" where
  "CacheAlloc 0 c s = Inl (Undefined ''loop does not end'')"
| "CacheAlloc (Suc fuel) c s =
    (let k = caches s c in
     case object_list k of
       x # xs \<Rightarrow> Inr (x, set_cache c (k\<lparr>object_list := xs\<rparr>) s)
     | [] \<Rightarrow>
         if remote_check k then
           bindr (ClaimRemoteFreeList c (set_cache c (k\<lparr>remote_check := False\<rparr>) s)) (\<lambda>s1.
           bindr (TrimFreeList (length (object_list (caches s1 c))) c s1) (CacheAlloc fuel c))
         else AllocPartial c s)"

text \<open>The loop of \<open>AddSlab\<close> from the first address to the end of the last object runs once for each object.\<close>

primrec AddObjects :: "nat \<Rightarrow> cache_ix \<Rightarrow> pfn \<Rightarrow> nat \<Rightarrow> slab_sys \<Rightarrow> slab_sys result" where
  "AddObjects 0 c p addr s = Inr s"
| "AddObjects (Suc n) c p addr s =
    (let s1 = set_sdata p ((sdata s p)\<lparr>sd_list := addr # sd_list (sdata s p)\<rparr>) s; q = Pfn_Down addr in
     case all_pages (pa s) q of
       None \<Rightarrow> Inl (KAssert ''addr_page != nullptr'')
     | Some _ \<Rightarrow> AddObjects n c p (addr + obj_size (root_of s c))
         (set_sdata q ((sdata s1 q)\<lparr>sd_cache := Some c\<rparr>) s1))"

definition AddSlab :: "cache_ix \<Rightarrow> pfn \<Rightarrow> slab_sys \<Rightarrow> slab_sys result" where
  "AddSlab c p s =
    (case all_pages (pa s) p of
       None \<Rightarrow> Inl (KAssert ''page != nullptr'')
     | Some pg \<Rightarrow>
         let s1 = set_sdata p ((sdata s p)\<lparr>sd_list := [], sd_used := 0\<rparr>)
                    (s\<lparr>pa := (pa s)\<lparr>all_pages := (all_pages (pa s))(p \<mapsto> pg\<lparr>usage := kSlabAllocator\<rparr>)\<rparr>\<rparr>)
         in bindr (AddObjects (NumObjectsPerSlab (root_of s c)) c p (ToAddr p) s1) (\<lambda>s2.
              Inr (set_cache c ((caches s2 c)\<lparr>partial_page_list := p # partial_page_list (caches s2 c)\<rparr>) s2)))"

definition CacheFree :: "cache_ix \<Rightarrow> nat \<Rightarrow> slab_sys \<Rightarrow> slab_sys result" where
  "CacheFree c x s =
    (let k = caches s c; s1 = set_cache c (k\<lparr>object_list := x # object_list k\<rparr>) s
     in if hiwater (root_of s c) < length (object_list (caches s1 c))
        then FlushFreeList (free_batch (root_of s c)) c s1 else Inr s1)"

section \<open>SlabAllocator and SlabAllocatorNode\<close>

text \<open>The fuel 3 is enough for \<open>retry\<close>: a pass that jumps clears the flag first.\<close>

definition AllocOrGrow :: "cache_ix \<Rightarrow> nat \<Rightarrow> slab_sys \<Rightarrow> (nat \<times> slab_sys) result" where
  "AllocOrGrow c n s =
    bindr (CacheAlloc 3 c s) (\<lambda>(x, s1).
      if x \<noteq> 0 then Inr (x, s1)
      else bindr (Alloc (slab_order (root_of s1 c)) n (u64 - 1) (pa s1)) (\<lambda>(p, pa').
        if p = Pfn_None then Inr (0, s1\<lparr>pa := pa'\<rparr>)
        else bindr (AddSlab c p (s1\<lparr>pa := pa'\<rparr>)) (\<lambda>s2.
             bindr (CacheAlloc 3 c s2) (\<lambda>(y, s3).
               if y = 0 then Inl (KAssert ''ret != nullptr'') else Inr (y, s3)))))"

definition SlabAllocator_Alloc :: "nat \<Rightarrow> slab_sys \<Rightarrow> (nat \<times> slab_sys) result" where
  "SlabAllocator_Alloc r s = AllocOrGrow (CpuCache r (my_cpu s)) (GetMyNode s) s"

definition SlabAllocatorNode_Alloc :: "nat \<Rightarrow> nat \<Rightarrow> slab_sys \<Rightarrow> (nat \<times> slab_sys) result" where
  "SlabAllocatorNode_Alloc r n s = AllocOrGrow (NodeCache r n) n s"

definition SlabAllocator_AllocNid :: "nat \<Rightarrow> nat \<Rightarrow> slab_sys \<Rightarrow> (nat \<times> slab_sys) result" where
  "SlabAllocator_AllocNid r n s =
    (if n = GetMyNode s then AllocOrGrow (CpuCache r (my_cpu s)) n s else SlabAllocatorNode_Alloc r n s)"

definition SlabAllocator_Free :: "nat \<Rightarrow> nat \<Rightarrow> slab_sys \<Rightarrow> slab_sys result" where
  "SlabAllocator_Free r x s =
    (case all_pages (pa s) (Pfn_Down x) of
       None \<Rightarrow> Inl (KAssert ''page != nullptr'')
     | Some pg \<Rightarrow> if nid pg = GetMyNode s then CacheFree (CpuCache r (my_cpu s)) x s
                  else FreeRemote r (my_cpu s) x s)"

section \<open>The destructor of a root\<close>

primrec Root_flush_cpus :: "nat \<Rightarrow> nat list \<Rightarrow> slab_sys \<Rightarrow> slab_sys result" where
  "Root_flush_cpus r [] s = Inr s"
| "Root_flush_cpus r (m # ms) s =
    bindr (FlushFreeListAll (CpuCache r m) s) (\<lambda>s1. Root_flush_cpus r ms (FlushRemoteList r m s1))"

primrec Root_claim :: "cache_ix list \<Rightarrow> slab_sys \<Rightarrow> slab_sys result" where
  "Root_claim [] s = Inr s"
| "Root_claim (c # cs) s =
    bindr (ClaimRemoteFreeList c s) (\<lambda>s1. bindr (FlushFreeListAll c s1) (Root_claim cs))"

text \<open>
  The destructor of a cache.  Slabs that are still partly used are only reported.  The storage of
  the deleted allocators, which comes from the slab allocators of the allocator classes themselves,
  is outside the model.
\<close>

definition SlabCache_delete :: "cache_ix \<Rightarrow> slab_sys \<Rightarrow> slab_sys result" where
  "SlabCache_delete c s =
    (if object_list (caches s c) \<noteq> [] then Inl (KAssert ''object_list_.empty()'')
     else if remote_objs (caches s c) \<noteq> [] then Inl (KAssert ''remote_.list.empty()'')
     else Inr s)"

primrec Root_delete_nodes :: "nat \<Rightarrow> nat list \<Rightarrow> slab_sys \<Rightarrow> slab_sys result" where
  "Root_delete_nodes r [] s = Inr s"
| "Root_delete_nodes r (n # ns) s =
    bindr (Root_claim [NodeCache r n] s) (\<lambda>s1. bindr (SlabCache_delete (NodeCache r n) s1) (Root_delete_nodes r ns))"

text \<open>After its body the destructor destroys the allocators of the processors.\<close>

primrec Root_delete_cpus :: "nat \<Rightarrow> nat list \<Rightarrow> slab_sys \<Rightarrow> slab_sys result" where
  "Root_delete_cpus r [] s = Inr s"
| "Root_delete_cpus r (m # ms) s = bindr (SlabCache_delete (CpuCache r m) s) (Root_delete_cpus r ms)"

definition Root_delete :: "nat \<Rightarrow> slab_sys \<Rightarrow> slab_sys result" where
  "Root_delete r s =
    (let cpus = [0..<length (cpu_nids s)]; nodes = [0..<length (allocators (pa s))] in
     bindr (Root_flush_cpus r cpus s) (\<lambda>s1.
     bindr (Root_claim (map (CpuCache r) cpus) s1) (\<lambda>s2.
     bindr (Root_delete_nodes r nodes s2) (Root_delete_cpus r cpus))))"

end
