(* ===== verification/SlabInv.thy ===== *)
theory SlabInv
  imports SlabAllocator
begin

text \<open>
  The invariant of the slab allocator.  Every object of every live slab is in
  exactly one place: the list of its slab, the list of a cache, the list of objects that other
  processors gave back to a cache, the list a processor collects for another cache, or a client.
\<close>

section \<open>Places\<close>

datatype place = InObj cache_ix | InRem cache_ix | InCpu nat nat | InSlab pfn | Held nat

fun at_list :: "slab_sys \<Rightarrow> place \<Rightarrow> nat list" where
  "at_list s (InObj c) = object_list (caches s c)"
| "at_list s (InRem c) = remote_objs (caches s c)"
| "at_list s (InCpu r m) = remote_list s r m"
| "at_list s (InSlab p) = sd_list (sdata s p)"
| "at_list s (Held r) = []"

fun fits :: "place \<Rightarrow> pfn \<Rightarrow> nat \<Rightarrow> bool" where
  "fits (InObj c) p r = (cache_root c = r)"
| "fits (InRem c) p r = (cache_root c = r)"
| "fits (InCpu r' m) p r = (r' = r)"
| "fits (InSlab p') p r = (p' = p)"
| "fits (Held r') p r = (r' = r)"

definition tracked :: "(pfn \<Rightarrow> (nat \<times> nat) option) \<Rightarrow> place \<Rightarrow> bool" where
  "tracked G l = (case l of Held r \<Rightarrow> False | InSlab p \<Rightarrow> G p \<noteq> None | _ \<Rightarrow> True)"

lemma tracked_simps [simp]:
  "tracked G (InObj c)" "tracked G (InRem c)" "tracked G (InCpu r m)" "\<not> tracked G (Held r)"
  "tracked G (InSlab p) \<longleftrightarrow> G p \<noteq> None"
  by (simp_all add: tracked_def)

definition objs :: "slab_root \<Rightarrow> pfn \<Rightarrow> nat set" where
  "objs rt p = (\<lambda>i. ToAddr p + i * obj_size rt) ` {..<NumObjectsPerSlab rt}"

definition in_slab :: "slab_root list \<Rightarrow> (pfn \<Rightarrow> (nat \<times> nat) option) \<Rightarrow> nat \<Rightarrow> pfn \<Rightarrow> nat \<Rightarrow> nat \<Rightarrow> bool" where
  "in_slab R G x p r c \<longleftrightarrow> G p = Some (r, c) \<and> x \<in> objs (R ! r) p"

definition places_ok :: "slab_root list \<Rightarrow> (place \<Rightarrow> nat list) \<Rightarrow> (nat \<Rightarrow> place option) \<Rightarrow>
    (pfn \<Rightarrow> (nat \<times> nat) option) \<Rightarrow> bool" where
  "places_ok R P w G \<longleftrightarrow>
     (\<forall>l. tracked G l \<longrightarrow> distinct (P l) \<and> (\<forall>x. x \<in> set (P l) \<longleftrightarrow> w x = Some l)) \<and>
     (\<forall>x l. w x = Some l \<longrightarrow> (\<exists>p r c. in_slab R G x p r c \<and> fits l p r)) \<and>
     (\<forall>x p r c. in_slab R G x p r c \<longrightarrow> w x \<noteq> None)"

lemma places_okD:
  assumes "places_ok R P w G"
  shows "tracked G l \<Longrightarrow> distinct (P l)" "tracked G l \<Longrightarrow> x \<in> set (P l) \<longleftrightarrow> w x = Some l"
    "w x = Some l \<Longrightarrow> \<exists>p r c. in_slab R G x p r c \<and> fits l p r"
    "in_slab R G x p r c \<Longrightarrow> w x \<noteq> None"
  using assms unfolding places_ok_def by blast+

definition one_slab :: "slab_root list \<Rightarrow> (pfn \<Rightarrow> (nat \<times> nat) option) \<Rightarrow> bool" where
  "one_slab R G \<longleftrightarrow> (\<forall>x p r c p' r' c'. in_slab R G x p r c \<longrightarrow> in_slab R G x p' r' c' \<longrightarrow> p = p')"

lemma place_fits:
  assumes "places_ok R P w G" "one_slab R G" "w x = Some l" "in_slab R G x p r c"
  shows "fits l p r"
proof -
  from places_okD(3) [OF assms(1,3)] obtain p' r' c' where i: "in_slab R G x p' r' c'" "fits l p' r'" by blast
  then have "p' = p" using assms(2,4) unfolding one_slab_def by blast
  then show ?thesis using i assms(4) by (auto simp: in_slab_def)
qed

lemma place_take:
  assumes ok: "places_ok R P w G" "one_slab R G" and l: "P l = x # xs" "tracked G l"
    and r: "in_slab R G x p r c"
  shows "places_ok R (P(l := xs)) (w(x \<mapsto> Held r)) G" "w x = Some l"
proof -
  show wx: "w x = Some l" using places_okD(2) [OF ok(1) l(2), of x] l(1) by simp
  have d: "distinct (x # xs)" using places_okD(1) [OF ok(1) l(2)] l(1) by simp
  show "places_ok R (P(l := xs)) (w(x \<mapsto> Held r)) G" unfolding places_ok_def
  proof (intro conjI allI impI)
    fix l' assume t: "tracked G l'"
    show "distinct ((P(l := xs)) l')" using places_okD(1) [OF ok(1) t] d by simp
    have "l' \<noteq> Held r" using t by auto
    then show "y \<in> set ((P(l := xs)) l') \<longleftrightarrow> (w(x \<mapsto> Held r)) y = Some l'" for y
      using places_okD(2) [OF ok(1) t, of y] l(1) d wx by auto
  next
    fix y l' assume y: "(w(x \<mapsto> Held r)) y = Some l'"
    show "\<exists>p r c. in_slab R G y p r c \<and> fits l' p r"
    proof (cases "y = x")
      case True
      then show ?thesis using y r by (intro exI conjI) auto
    qed (use y places_okD(3) [OF ok(1), of y l'] in auto)
  next
    fix y p r c assume "in_slab R G y p r c"
    then show "(w(x \<mapsto> Held r)) y \<noteq> None" for r using places_okD(4) [OF ok(1)] by simp
  qed
qed

lemma place_put:
  assumes ok: "places_ok R P w G" "one_slab R G" and l: "w x = Some (Held r)" "tracked G l"
    and f: "in_slab R G x p r c" "fits l p r"
  shows "places_ok R (P(l := x # P l)) (w(x \<mapsto> l)) G"
  unfolding places_ok_def
proof (intro conjI allI impI)
  fix l' assume t: "tracked G l'"
  have "x \<notin> set (P l')" using places_okD(2) [OF ok(1) t, of x] l(1) t by auto
  then show "distinct ((P(l := x # P l)) l')" using places_okD(1) [OF ok(1) t] by auto
  have "l' \<noteq> Held r" using t by auto
  then show "y \<in> set ((P(l := x # P l)) l') \<longleftrightarrow> (w(x \<mapsto> l)) y = Some l'" for y
    using places_okD(2) [OF ok(1) t, of y] l(1) by auto
next
  fix y l' assume y: "(w(x \<mapsto> l)) y = Some l'"
  show "\<exists>p r c. in_slab R G y p r c \<and> fits l' p r"
  proof (cases "y = x")
    case True
    then show ?thesis using y f by (intro exI conjI) auto
  qed (use y places_okD(3) [OF ok(1), of y l'] in auto)
next
  fix y p r c assume "in_slab R G y p r c"
  then show "(w(x \<mapsto> l)) y \<noteq> None" using places_okD(4) [OF ok(1)] by simp
qed

definition relocate :: "place \<Rightarrow> place \<Rightarrow> (nat \<Rightarrow> place option) \<Rightarrow> nat \<Rightarrow> place option" where
  "relocate l l' w x = (if w x = Some l then Some l' else w x)"

lemma relocate_held [simp]:
  "l \<noteq> Held r \<Longrightarrow> l' \<noteq> Held r \<Longrightarrow> relocate l l' w x = Some (Held r) \<longleftrightarrow> w x = Some (Held r)"
  by (auto simp: relocate_def)

lemma place_all:
  assumes ok: "places_ok R P w G" and l: "tracked G l" "tracked G l'" "l \<noteq> l'"
    and ys: "distinct ys" "set ys = set (P l) \<union> set (P l')"
    and f: "\<And>p r. fits l p r \<Longrightarrow> fits l' p r"
  shows "places_ok R (P(l := [], l' := ys)) (relocate l l' w) G"
  unfolding places_ok_def
proof (intro conjI allI impI)
  fix k assume t: "tracked G k"
  show "distinct ((P(l := [], l' := ys)) k)" using places_okD(1) [OF ok t] ys by simp
  show "y \<in> set ((P(l := [], l' := ys)) k) \<longleftrightarrow> relocate l l' w y = Some k" for y
    using places_okD(2) [OF ok t, of y] places_okD(2) [OF ok l(1), of y] places_okD(2) [OF ok l(2), of y] ys l(3)
    by (auto simp: relocate_def)
next
  fix y k assume y: "relocate l l' w y = Some k"
  then show "\<exists>p r c. in_slab R G y p r c \<and> fits k p r"
    using places_okD(3) [OF ok, of y] f by (auto simp: relocate_def split: if_splits)
next
  fix y p r c assume "in_slab R G y p r c"
  then show "relocate l l' w y \<noteq> None" using places_okD(4) [OF ok] by (auto simp: relocate_def)
qed

definition forget :: "pfn \<Rightarrow> (nat \<Rightarrow> place option) \<Rightarrow> nat \<Rightarrow> place option" where
  "forget p w x = (if w x = Some (InSlab p) then None else w x)"

lemma forget_held [simp]: "forget p w x = Some (Held r) \<longleftrightarrow> w x = Some (Held r)"
  by (auto simp: forget_def)

lemma place_drop:
  assumes ok: "places_ok R P w G" "one_slab R G" and g: "G p = Some (r, c)" "set (P (InSlab p)) = objs (R ! r) p"
  shows "places_ok R P (forget p w) (G(p := None))"
proof -
  have t: "tracked G (InSlab p)" using g by simp
  have eq: "w x = Some (InSlab p) \<longleftrightarrow> x \<in> objs (R ! r) p" for x using places_okD(2) [OF ok(1) t, of x] g(2) by simp
  have isl: "in_slab R (G(p := None)) x p' r' c' \<longleftrightarrow> in_slab R G x p' r' c' \<and> p' \<noteq> p" for x p' r' c'
    by (auto simp: in_slab_def)
  show ?thesis unfolding places_ok_def
  proof (intro conjI allI impI)
    fix l assume "tracked (G(p := None)) l"
    then have t': "tracked G l" "l \<noteq> InSlab p" by (cases l; auto split: if_splits)+
    show "distinct (P l)" using places_okD(1) [OF ok(1) t'(1)] .
    show "x \<in> set (P l) \<longleftrightarrow> forget p w x = Some l" for x
      using places_okD(2) [OF ok(1) t'(1), of x] t'(2) by (auto simp: forget_def)
  next
    fix x l assume "forget p w x = Some l"
    then have x: "w x = Some l" "w x \<noteq> Some (InSlab p)" by (auto simp: forget_def split: if_splits)
    from places_okD(3) [OF ok(1) x(1)] obtain p' r' c' where i: "in_slab R G x p' r' c'" "fits l p' r'" by blast
    have "p' \<noteq> p"
    proof
      assume "p' = p"
      then have "x \<in> objs (R ! r) p" using i(1) g(1) by (auto simp: in_slab_def)
      then show False using eq x(2) by simp
    qed
    then show "\<exists>p' r c. in_slab R (G(p := None)) x p' r c \<and> fits l p' r" using i by (auto simp: isl)
  next
    fix x p' r' c' assume a: "in_slab R (G(p := None)) x p' r' c'"
    then have "w x \<noteq> None" using places_okD(4) [OF ok(1)] by (auto simp: isl)
    moreover have "w x \<noteq> Some (InSlab p)"
    proof
      assume "w x = Some (InSlab p)"
      then have "in_slab R G x p r c" using eq g(1) by (simp add: in_slab_def)
      then have "p = p'" using ok(2) a unfolding one_slab_def isl by blast
      then show False using a by (simp add: in_slab_def)
    qed
    ultimately show "forget p w x \<noteq> None" by (auto simp: forget_def)
  qed
qed

definition found :: "pfn \<Rightarrow> nat set \<Rightarrow> (nat \<Rightarrow> place option) \<Rightarrow> nat \<Rightarrow> place option" where
  "found p X w x = (if x \<in> X then Some (InSlab p) else w x)"

lemma place_new:
  assumes ok: "places_ok R P w G" and g: "G p = None" and new: "\<And>x. x \<in> objs (R ! r) p \<Longrightarrow> w x = None"
    and ys: "distinct ys" "set ys = objs (R ! r) p"
  shows "places_ok R (P(InSlab p := ys)) (found p (objs (R ! r) p) w) (G(p \<mapsto> (r, c)))"
proof -
  have nw: "w x \<noteq> Some (InSlab p)" for x
    using places_okD(3) [OF ok, of x "InSlab p"] g by (auto simp: in_slab_def)
  have isl: "in_slab R (G(p \<mapsto> (r, c))) x p' r' c' \<longleftrightarrow>
      (if p' = p then r' = r \<and> c' = c \<and> x \<in> objs (R ! r) p else in_slab R G x p' r' c')" for x p' r' c'
    by (auto simp: in_slab_def)
  show ?thesis unfolding places_ok_def
  proof (intro conjI allI impI)
    fix l assume "tracked (G(p \<mapsto> (r, c))) l"
    then have t: "tracked G l \<or> l = InSlab p" by (cases l) (auto split: if_splits)
    show "distinct ((P(InSlab p := ys)) l)" using t places_okD(1) [OF ok, of l] ys by auto
    show "x \<in> set ((P(InSlab p := ys)) l) \<longleftrightarrow> found p (objs (R ! r) p) w x = Some l" for x
    proof (cases "l = InSlab p")
      case True
      then show ?thesis using ys nw by (simp add: found_def)
    next
      case False
      then show ?thesis using t places_okD(2) [OF ok, of l x] new [of x] by (auto simp: found_def)
    qed
  next
    fix x l assume f: "found p (objs (R ! r) p) w x = Some l"
    show "\<exists>p' r' c'. in_slab R (G(p \<mapsto> (r, c))) x p' r' c' \<and> fits l p' r'"
    proof (cases "x \<in> objs (R ! r) p")
      case True
      then show ?thesis using f by (intro exI [of _ p] exI [of _ r] exI [of _ c]) (auto simp: isl found_def)
    next
      case False
      then obtain p' r' c' where i: "in_slab R G x p' r' c'" "fits l p' r'"
        using f places_okD(3) [OF ok, of x l] by (auto simp: found_def)
      then have "p' \<noteq> p" using g by (auto simp: in_slab_def)
      then show ?thesis using i isl by metis
    qed
  next
    fix x p' r' c' assume "in_slab R (G(p \<mapsto> (r, c))) x p' r' c'"
    then show "found p (objs (R ! r) p) w x \<noteq> None"
      using places_okD(4) [OF ok, of x p' r' c'] by (auto simp: isl found_def split: if_splits)
  qed
qed

section \<open>Slab geometry\<close>

definition root_ok :: "slab_root \<Rightarrow> bool" where
  "root_ok rt \<longleftrightarrow> 0 < obj_size rt \<and> obj_size rt \<le> kPageSize * 2 ^ slab_order rt"

lemma objects_pos: "root_ok rt \<Longrightarrow> 0 < NumObjectsPerSlab rt"
  by (simp add: root_ok_def NumObjectsPerSlab_def div_greater_zero_iff)

lemma object_end:
  assumes "i < NumObjectsPerSlab rt"
  shows "i * obj_size rt + obj_size rt \<le> 4096 * 2 ^ slab_order rt"
proof -
  have "(i + 1) * obj_size rt \<le> NumObjectsPerSlab rt * obj_size rt" using assms by (intro mult_le_mono1) simp
  also have "\<dots> \<le> 4096 * 2 ^ slab_order rt" by (simp add: NumObjectsPerSlab_def kPageSize_def kPageShift_def)
  finally show ?thesis by simp
qed

lemma object_page:
  assumes "x \<in> objs rt p" "2 ^ slab_order rt dvd p" "root_ok rt" "p < 2 ^ 52"
  shows "Pfn_Down x \<in> blk p (slab_order rt)" "x div 4096 = Pfn_Down x"
    "ToAddr p \<le> x" "x + obj_size rt \<le> ToAddr p + 4096 * 2 ^ slab_order rt"
proof -
  from assms(1,4) obtain i where x: "x = p * 4096 + i * obj_size rt" "i < NumObjectsPerSlab rt"
    by (auto simp: objs_def ToAddr_val)
  show d: "x div 4096 = Pfn_Down x" by (simp add: Pfn_Down_def kPageShift_def drop_bit_eq_div)
  have l: "x + obj_size rt \<le> p * 4096 + 4096 * 2 ^ slab_order rt" using object_end [OF x(2)] x(1) by simp
  have "0 < obj_size rt" using assms(3) by (simp add: root_ok_def)
  then have "x < (p + 2 ^ slab_order rt) * 4096" using l by (simp add: algebra_simps)
  then have "x div 4096 < p + 2 ^ slab_order rt" by (simp add: less_mult_imp_div_less)
  moreover have "p \<le> x div 4096" using x(1) by simp
  ultimately show "Pfn_Down x \<in> blk p (slab_order rt)" using d by (simp add: mem_blk)
  show "ToAddr p \<le> x" using x(1) assms(4) by (simp add: ToAddr_val)
  show "x + obj_size rt \<le> ToAddr p + 4096 * 2 ^ slab_order rt" using l assms(4) by (simp add: ToAddr_val)
qed

lemma slab_base:
  assumes "q \<in> blk p k" "2 ^ k dvd p" "k \<le> kMaxOrder" "p + 2 ^ k \<le> 2 ^ 52"
  shows "unat (align_Down (of_nat q :: 64 word) (2 ^ k)) = p"
proof -
  have "q < 2 ^ 64" using assms(1,4) by (simp add: mem_blk)
  then have "unat (of_nat q :: 64 word) = q" by (simp add: unsigned_of_nat take_bit_nat_eq_self)
  moreover have "q div 2 ^ k * 2 ^ k = p" using assms(1,2) by (auto simp: mem_blk elim!: dvdE) (simp add: div_nat_eqI)
  ultimately show ?thesis by (simp add: unat_align_Down)
qed

lemma objs_0: "root_ok rt \<Longrightarrow> ToAddr p \<in> objs rt p"
  using objects_pos [of rt] by (force simp: objs_def)

lemma objs_inj: "root_ok rt \<Longrightarrow> inj_on (\<lambda>i. ToAddr p + i * obj_size rt) A"
  by (auto simp: inj_on_def root_ok_def)

lemma card_objs: "root_ok rt \<Longrightarrow> card (objs rt p) = NumObjectsPerSlab rt"
  by (simp add: objs_def card_image objs_inj)

lemma objs_apart:
  assumes "root_ok rt" "x \<in> objs rt p" "y \<in> objs rt p" "x < y"
  shows "x + obj_size rt \<le> y"
proof -
  from assms(2,3) obtain i j where ij: "x = ToAddr p + i * obj_size rt" "y = ToAddr p + j * obj_size rt"
    by (auto simp: objs_def)
  then have "i < j" using assms(1,4) by (auto simp: root_ok_def)
  then have "(i + 1) * obj_size rt \<le> j * obj_size rt" by (intro mult_le_mono1) simp
  then show ?thesis using ij by simp
qed

section \<open>The invariant\<close>

type_synonym owners = "pfn \<Rightarrow> (nat \<times> nat) option"

definition env_ok :: "pfn set list \<Rightarrow> slab_sys \<Rightarrow> bool" where
  "env_ok Ts s \<longleftrightarrow> (\<forall>rt \<in> set (sroots s). root_ok rt) \<and> my_cpu s < length (cpu_nids s) \<and>
     (\<forall>n \<in> set (cpu_nids s). n < length Ts)"

definition blocks_ok :: "pfn set list \<Rightarrow> slab_sys \<Rightarrow> owners \<Rightarrow> (nat \<Rightarrow> (pfn \<times> nat) set) \<Rightarrow> bool" where
  "blocks_ok Ts s G A \<longleftrightarrow> nodes_inv Ts (pa s) A \<and>
     (\<forall>p r c. G p = Some (r, c) \<longrightarrow> r < length (sroots s) \<and> c < length (cpu_nids s) \<and>
        (p, slab_order (sroots s ! r)) \<in> A (cpu_nids s ! c))"

definition data_ok :: "slab_sys \<Rightarrow> owners \<Rightarrow> bool" where
  "data_ok s G \<longleftrightarrow> (\<forall>p r c. G p = Some (r, c) \<longrightarrow>
     sd_used (sdata s p) + length (sd_list (sdata s p)) = NumObjectsPerSlab (sroots s ! r) \<and>
     (\<forall>x \<in> objs (sroots s ! r) p. sd_cache (sdata s (Pfn_Down x)) = Some (CpuCache r c)))"

definition partial_ok :: "slab_sys \<Rightarrow> owners \<Rightarrow> bool" where
  "partial_ok s G \<longleftrightarrow> (\<forall>c. distinct (partial_page_list (caches s c)) \<and>
     (\<forall>p. p \<in> set (partial_page_list (caches s c)) \<longleftrightarrow>
        (\<exists>r m. c = CpuCache r m \<and> G p = Some (r, m) \<and>
           sd_used (sdata s p) < NumObjectsPerSlab (sroots s ! r))))"

definition remote_ok :: "slab_sys \<Rightarrow> bool" where
  "remote_ok s \<longleftrightarrow>
     (\<forall>r m. (remote_cache s r m = None \<longrightarrow> remote_list s r m = []) \<and>
        (\<forall>c. remote_cache s r m = Some c \<longrightarrow> c \<noteq> CpuCache r m \<and> cache_root c = r)) \<and>
     (\<forall>c. free_batch (root_of s c) = 0 \<longrightarrow> \<not> remote_check (caches s c))"

definition slab_inv :: "pfn set list \<Rightarrow> slab_sys \<Rightarrow> (nat \<Rightarrow> place option) \<Rightarrow> owners \<Rightarrow>
    (nat \<Rightarrow> (pfn \<times> nat) set) \<Rightarrow> bool" where
  "slab_inv Ts s w G A \<longleftrightarrow> env_ok Ts s \<and> blocks_ok Ts s G A \<and> data_ok s G \<and> partial_ok s G \<and> remote_ok s \<and>
     places_ok (sroots s) (at_list s) w G"

lemma slab_invD:
  assumes "slab_inv Ts s w G A"
  shows "env_ok Ts s" "blocks_ok Ts s G A" "data_ok s G" "partial_ok s G" "remote_ok s"
    "places_ok (sroots s) (at_list s) w G" "nodes_inv Ts (pa s) A"
  using assms by (simp_all add: slab_inv_def blocks_ok_def)

text \<open>What the invariant says of a live slab.\<close>

lemma slab_facts:
  assumes inv: "env_ok Ts s" "blocks_ok Ts s G A" and g: "G p = Some (r, c)"
  defines "rt \<equiv> sroots s ! r"
  shows "r < length (sroots s)" "c < length (cpu_nids s)" "root_ok rt" "(p, slab_order rt) \<in> A (cpu_nids s ! c)"
    "cpu_nids s ! c < length Ts" "2 ^ slab_order rt dvd p" "slab_order rt \<le> kMaxOrder" "p + 2 ^ slab_order rt \<le> 2 ^ 52" "p \<noteq> 0"
proof -
  show b: "r < length (sroots s)" "c < length (cpu_nids s)" "(p, slab_order rt) \<in> A (cpu_nids s ! c)"
    using inv(2) g by (auto simp: blocks_ok_def rt_def)
  show "root_ok rt" "cpu_nids s ! c < length Ts" using inv(1) b by (auto simp: env_ok_def rt_def)
  have N: "nodes_inv Ts (pa s) A" using inv(2) by (simp add: blocks_ok_def)
  note h = nodes_held [OF N \<open>cpu_nids s ! c < length Ts\<close> b(3)]
  have "p + 2 ^ slab_order rt - 1 \<in> blk p (slab_order rt)" 
    using one_le_power [of "2 :: nat" "slab_order rt"] by (simp only: mem_blk) linarith
  from h(3) [OF this] show "p + 2 ^ slab_order rt \<le> 2 ^ 52" by simp
  show "2 ^ slab_order rt dvd p" "slab_order rt \<le> kMaxOrder" "p \<noteq> 0" using h(2,5,6) base_in_blk by blast+
qed

lemma object_facts:
  assumes inv: "env_ok Ts s" "blocks_ok Ts s G A" and i: "in_slab (sroots s) G x p r c"
  defines "rt \<equiv> sroots s ! r"
  shows "Pfn_Down x \<in> blk p (slab_order rt)" "AddrToSlabPfn x (slab_order rt) = p" "x \<noteq> 0"
    "\<exists>pg. all_pages (pa s) (Pfn_Down x) = Some pg \<and> nid pg = cpu_nids s ! c" "all_pages (pa s) p \<noteq> None"
proof -
  have g: "G p = Some (r, c)" "x \<in> objs rt p" using i by (auto simp: in_slab_def rt_def)
  note F = slab_facts [OF inv g(1), folded rt_def]
  have p: "p < 2 ^ 52" using F(8) by (simp add: less_le_trans [of p "p + 2 ^ slab_order rt"])
  note O = object_page [OF g(2) F(6,3) p]
  show q: "Pfn_Down x \<in> blk p (slab_order rt)" by (rule O(1))
  show "AddrToSlabPfn x (slab_order rt) = p"
    unfolding AddrToSlabPfn_def using slab_base [OF q F(6,7,8)] .
  show "x \<noteq> 0" using O(3) F(9) p by (simp add: ToAddr_val)
  have N: "nodes_inv Ts (pa s) A" using inv(2) by (simp add: blocks_ok_def)
  show "\<exists>pg. all_pages (pa s) (Pfn_Down x) = Some pg \<and> nid pg = cpu_nids s ! c"
    by (rule nodes_held(4) [OF N F(5,4) q])
  show "all_pages (pa s) p \<noteq> None" using nodes_held(4) [OF N F(5,4), of p] by auto
qed

lemma slabs_apart:
  assumes inv: "env_ok Ts s" "blocks_ok Ts s G A" and g: "G p = Some (r, c)" "G p' = Some (r', c')"
    and q: "q \<in> blk p (slab_order (sroots s ! r))" "q \<in> blk p' (slab_order (sroots s ! r'))"
  shows "p = p'"
proof -
  have N: "nodes_inv Ts (pa s) A" using inv(2) by (simp add: blocks_ok_def)
  show ?thesis
    using nodes_apart [OF N slab_facts(5) [OF inv g(1)] slab_facts(5) [OF inv g(2)]
        slab_facts(4) [OF inv g(1)] slab_facts(4) [OF inv g(2)] q] by simp
qed

lemma one_slab_inv:
  assumes inv: "env_ok Ts s" "blocks_ok Ts s G A"
  shows "one_slab (sroots s) G"
  unfolding one_slab_def
proof (intro allI impI)
  fix x p r c p' r' c'
  assume i: "in_slab (sroots s) G x p r c" "in_slab (sroots s) G x p' r' c'"
  show "p = p'"
    using slabs_apart [OF inv _ _ object_facts(1) [OF inv i(1)] object_facts(1) [OF inv i(2)]] i
    by (simp add: in_slab_def)
qed

end
