(* ===== verification/SlabSafety.thy ===== *)
theory SlabSafety
  imports SlabInv ResourceSpec
begin

text \<open>
  Every operation of the slab allocator keeps its invariant, and the allocator keeps the contract of
  \<open>ResourceSpec\<close>: what it hands out overlaps nothing that is held.
\<close>

section \<open>Frames\<close>

lemma env_set [simp]:
  "env_ok Ts (set_cache c k s) = env_ok Ts s" "env_ok Ts (set_remote r m xs s) = env_ok Ts s"
  "env_ok Ts (set_sdata p d s) = env_ok Ts s" "env_ok Ts (s\<lparr>pa := pa'\<rparr>) = env_ok Ts s"
  "env_ok Ts (s\<lparr>remote_cache := rc\<rparr>) = env_ok Ts s"
  by (simp_all add: env_ok_def set_cache_def set_remote_def set_sdata_def)

lemma blocks_set [simp]:
  "blocks_ok Ts (set_cache c k s) G A = blocks_ok Ts s G A" "blocks_ok Ts (set_remote r m xs s) G A = blocks_ok Ts s G A"
  "blocks_ok Ts (set_sdata p d s) G A = blocks_ok Ts s G A"
  "blocks_ok Ts (s\<lparr>remote_cache := rc\<rparr>) G A = blocks_ok Ts s G A"
  by (simp_all add: blocks_ok_def set_cache_def set_remote_def set_sdata_def)

lemma data_set [simp]:
  "data_ok (set_cache c k s) G = data_ok s G" "data_ok (set_remote r m xs s) G = data_ok s G"
  "data_ok (s\<lparr>pa := pa'\<rparr>) G = data_ok s G" "data_ok (s\<lparr>remote_cache := rc\<rparr>) G = data_ok s G"
  by (simp_all add: data_ok_def set_cache_def set_remote_def)

lemma partial_set [simp]:
  "partial_page_list k = partial_page_list (caches s c) \<Longrightarrow> partial_ok (set_cache c k s) G = partial_ok s G"
  "partial_ok (set_remote r m xs s) G = partial_ok s G" "partial_ok (s\<lparr>pa := pa'\<rparr>) G = partial_ok s G"
  "partial_ok (s\<lparr>remote_cache := rc\<rparr>) G = partial_ok s G"
proof -
  assume "partial_page_list k = partial_page_list (caches s c)"
  then have "partial_page_list (((caches s)(c := k)) d) = partial_page_list (caches s d)" for d by simp
  then show "partial_ok (set_cache c k s) G = partial_ok s G"
    by (simp add: partial_ok_def set_cache_def del: fun_upd_apply)
qed (simp_all add: partial_ok_def set_remote_def)

lemma remote_set [simp]:
  "remote_check k = remote_check (caches s c) \<Longrightarrow> remote_ok (set_cache c k s) = remote_ok s"
  "remote_ok (set_sdata p d s) = remote_ok s" "remote_ok (s\<lparr>pa := pa'\<rparr>) = remote_ok s"
proof -
  assume "remote_check k = remote_check (caches s c)"
  then have "remote_check (((caches s)(c := k)) d) = remote_check (caches s d)" for d by simp
  then show "remote_ok (set_cache c k s) = remote_ok s"
    by (simp add: remote_ok_def set_cache_def root_of_def del: fun_upd_apply)
qed (simp_all add: remote_ok_def set_sdata_def root_of_def)

lemma field_set [simp]:
  "sroots (set_cache c k s) = sroots s" "sroots (set_remote r m xs s) = sroots s" "sroots (set_sdata p d s) = sroots s"
  "cpu_nids (set_cache c k s) = cpu_nids s" "cpu_nids (set_remote r m xs s) = cpu_nids s" "cpu_nids (set_sdata p d s) = cpu_nids s"
  "my_cpu (set_cache c k s) = my_cpu s" "my_cpu (set_remote r m xs s) = my_cpu s" "my_cpu (set_sdata p d s) = my_cpu s"
  "pa (set_cache c k s) = pa s" "pa (set_remote r m xs s) = pa s" "pa (set_sdata p d s) = pa s"
  "caches (set_cache c k s) = (caches s)(c := k)" "caches (set_remote r m xs s) = caches s" "caches (set_sdata p d s) = caches s"
  "sdata (set_cache c k s) = sdata s" "sdata (set_remote r m xs s) = sdata s" "sdata (set_sdata p d s) = (sdata s)(p := d)"
  "remote_list (set_cache c k s) = remote_list s" "remote_list (set_sdata p d s) = remote_list s"
  "remote_list (set_remote r m xs s) = (remote_list s)(r := (remote_list s r)(m := xs))"
  "remote_cache (set_cache c k s) = remote_cache s" "remote_cache (set_remote r m xs s) = remote_cache s"
  "remote_cache (set_sdata p d s) = remote_cache s"
  by (simp_all add: set_cache_def set_remote_def set_sdata_def)

lemma at_set:
  "at_list (set_cache c ((caches s c)\<lparr>object_list := xs\<rparr>) s) = (at_list s)(InObj c := xs)"
  "at_list (set_remote r m xs s) = (at_list s)(InCpu r m := xs)"
  "at_list (set_sdata p d s) = (at_list s)(InSlab p := sd_list d)"
  "at_list (set_cache c ((caches s c)\<lparr>partial_page_list := ps\<rparr>) s) = at_list s"
  "at_list (set_cache c ((caches s c)\<lparr>remote_check := b\<rparr>) s) = at_list s"
  "at_list (set_cache c ((caches s c)\<lparr>remote_objs := xs, remote_check := b\<rparr>) s) = (at_list s)(InRem c := xs)"
  "at_list (set_cache c ((caches s c)\<lparr>object_list := xs, remote_objs := ys\<rparr>) s) = (at_list s)(InObj c := xs, InRem c := ys)"
  "at_list (s\<lparr>pa := pa'\<rparr>) = at_list s" "at_list (s\<lparr>remote_cache := rc\<rparr>) = at_list s"
  by (rule ext, case_tac x; simp)+

definition holdings :: "(nat \<Rightarrow> place option) \<Rightarrow> (nat \<times> nat) set" where
  "holdings w = {(x, r). w x = Some (Held r)}"

lemma hold_simps [simp]:
  "holdings (w(x \<mapsto> Held r)) = insert (x, r) {(y, q) \<in> holdings w. y \<noteq> x}"
  "(\<And>r. l \<noteq> Held r) \<Longrightarrow> holdings (w(x \<mapsto> l)) = {(y, q) \<in> holdings w. y \<noteq> x}"
  "holdings (forget p w) = holdings w"
  by (auto simp: holdings_def split: if_splits)

lemma hold_relocate: "(\<And>r. l \<noteq> Held r) \<Longrightarrow> (\<And>r. l' \<noteq> Held r) \<Longrightarrow> holdings (relocate l l' w) = holdings w"
  by (cases l; cases l') (auto simp: holdings_def relocate_def split: if_splits)

lemma hold_drop: "w x = Some (Held r) \<Longrightarrow> {(y, q) \<in> holdings w. y \<noteq> x} = holdings w - {(x, r)}"
  by (auto simp: holdings_def)

lemma hold_keep: "w x = Some l \<Longrightarrow> (\<And>r. l \<noteq> Held r) \<Longrightarrow> {(y, q) \<in> holdings w. y \<noteq> x} = holdings w"
  by (cases l) (auto simp: holdings_def)

lemma hold_take:
  assumes "w x = Some l" "\<And>r. l \<noteq> Held r"
  shows "holdings (w(x \<mapsto> Held r)) = insert (x, r) (holdings w)" "holdings (w(x \<mapsto> Held r)) - {(x, r)} = holdings w"
proof -
  have n: "(x, q) \<notin> holdings w" for q using assms by (simp add: holdings_def)
  show 1: "holdings (w(x \<mapsto> Held r)) = insert (x, r) (holdings w)" using hold_keep [of w x l] assms by simp
  show "holdings (w(x \<mapsto> Held r)) - {(x, r)} = holdings w" unfolding 1 using n by simp
qed

section \<open>Taking and putting objects\<close>

lemma pop_object:
  assumes inv: "slab_inv Ts s w G A" and l: "object_list (caches s c) = x # xs"
  shows "slab_inv Ts (set_cache c ((caches s c)\<lparr>object_list := xs\<rparr>) s) (w(x \<mapsto> Held (cache_root c))) G A"
    "w x = Some (InObj c)" "x \<noteq> 0"
proof -
  note I = slab_invD [OF inv]
  have os: "one_slab (sroots s) G" using one_slab_inv [OF I(1,2)] .
  show w: "w x = Some (InObj c)" using places_okD(2) [OF I(6), of "InObj c" x] l by simp
  from places_okD(3) [OF I(6) w] obtain p r m where i: "in_slab (sroots s) G x p r m" "r = cache_root c" by auto
  show "x \<noteq> 0" by (rule object_facts(3) [OF I(1,2) i(1)])
  have "places_ok (sroots s) ((at_list s)(InObj c := xs)) (w(x \<mapsto> Held (cache_root c))) G"
    using place_take(1) [OF I(6) os, of "InObj c" x xs] l i by simp
  then show "slab_inv Ts (set_cache c ((caches s c)\<lparr>object_list := xs\<rparr>) s) (w(x \<mapsto> Held (cache_root c))) G A"
    using I unfolding slab_inv_def by (simp add: at_set)
qed

lemma hold_slab:
  assumes inv: "slab_inv Ts s w G A" and h: "w x = Some (Held r)"
  obtains p c where "in_slab (sroots s) G x p r c"
  using places_okD(3) [OF slab_invD(6) [OF inv] h] by auto

lemma push_object:
  assumes inv: "slab_inv Ts s w G A" and h: "w x = Some (Held (cache_root c))"
  shows "slab_inv Ts (set_cache c ((caches s c)\<lparr>object_list := x # object_list (caches s c)\<rparr>) s) (w(x \<mapsto> InObj c)) G A"
proof -
  note I = slab_invD [OF inv]
  from hold_slab [OF inv h] obtain p m where i: "in_slab (sroots s) G x p (cache_root c) m" by blast
  have "places_ok (sroots s) ((at_list s)(InObj c := x # at_list s (InObj c))) (w(x \<mapsto> InObj c)) G"
    using one_slab_inv [OF I(1,2)] h i by (intro place_put [OF I(6)]) auto
  then show ?thesis using I unfolding slab_inv_def by (simp add: at_set)
qed

text \<open>What an operation of a processor leaves alone: its own object lists and flags, and the machine.\<close>

definition same_own :: "cache_ix \<Rightarrow> slab_sys \<Rightarrow> slab_sys \<Rightarrow> bool" where
  "same_own c s s' \<longleftrightarrow> object_list (caches s' c) = object_list (caches s c) \<and>
     remote_check (caches s' c) = remote_check (caches s c) \<and>
     sroots s' = sroots s \<and> cpu_nids s' = cpu_nids s \<and> my_cpu s' = my_cpu s"

definition same_env :: "cache_ix \<Rightarrow> slab_sys \<Rightarrow> slab_sys \<Rightarrow> bool" where
  "same_env c s s' \<longleftrightarrow> remote_check (caches s' c) = remote_check (caches s c) \<and>
     sroots s' = sroots s \<and> cpu_nids s' = cpu_nids s \<and> my_cpu s' = my_cpu s"

lemma same_env_refl [simp]: "same_env c s s"
  by (simp add: same_env_def)

lemma same_own_trans: "same_own c s s' \<Longrightarrow> same_own c s' s'' \<Longrightarrow> same_own c s s''"
  by (simp add: same_own_def)

lemma FlushRemoteList_ok:
  assumes inv: "slab_inv Ts s w G A"
  shows "\<exists>w'. slab_inv Ts (FlushRemoteList r m s) w' G A \<and> holdings w' = holdings w \<and>
    same_own (CpuCache r m) s (FlushRemoteList r m s) \<and> remote_list (FlushRemoteList r m s) r m = [] \<and>
    remote_cache (FlushRemoteList r m s) = remote_cache s \<and> pa (FlushRemoteList r m s) = pa s \<and>
    sdata (FlushRemoteList r m s) = sdata s"
proof (cases "remote_cache s r m")
  case None
  then show ?thesis using inv slab_invD(5) [OF inv]
    by (intro exI [of _ w]) (simp add: FlushRemoteList_def same_own_def remote_ok_def)
next
  case (Some c)
  note I = slab_invD [OF inv]
  let ?l = "remote_objs (caches s c)" and ?mine = "remote_list s r m"
  define new where "new = (case ?l of [] \<Rightarrow> ?mine | x # xs \<Rightarrow> x # ?mine @ xs)"
  define b where "b \<longleftrightarrow> length ?l < free_batch (sroots s ! r) \<and> free_batch (sroots s ! r) \<le> length new \<or> remote_check (caches s c)"
  let ?s = "set_remote r m [] (set_cache c ((caches s c)\<lparr>remote_objs := new, remote_check := b\<rparr>) s)"
  have F: "FlushRemoteList r m s = ?s" using Some by (simp add: FlushRemoteList_def new_def b_def Let_def)
  have c: "c \<noteq> CpuCache r m" "cache_root c = r" using I(5) Some by (auto simp: remote_ok_def)
  have t: "tracked G (InCpu r m)" "tracked G (InRem c)" by simp_all
  have "set ?l \<inter> set ?mine = {}"
    using places_okD(2) [OF I(6) t(1)] places_okD(2) [OF I(6) t(2)] by fastforce
  then have "distinct new" "set new = set ?mine \<union> set ?l"
    using places_okD(1) [OF I(6) t(1)] places_okD(1) [OF I(6) t(2)] by (auto simp: new_def split: list.splits)
  then have "places_ok (sroots s) ((at_list s)(InCpu r m := [], InRem c := new)) (relocate (InCpu r m) (InRem c) w) G"
    using c(2) by (intro place_all [OF I(6)]) auto
  then have "places_ok (sroots s) (at_list ?s) (relocate (InCpu r m) (InRem c) w) G"
    by (simp add: at_set fun_upd_twist)
  moreover have "remote_ok ?s" using I(5) c(2) by (auto simp: remote_ok_def root_of_def b_def)
  ultimately have "slab_inv Ts ?s (relocate (InCpu r m) (InRem c) w) G A"
    using I unfolding slab_inv_def by simp
  then show ?thesis unfolding F using c(1)
    by (intro exI [of _ "relocate (InCpu r m) (InRem c) w"]) (simp add: hold_relocate same_own_def)
qed

lemma FreeRemote_ok:
  assumes inv: "slab_inv Ts s w G A" and h: "w x = Some (Held r)" and i: "in_slab (sroots s) G x p r c" and c: "c \<noteq> m"
  shows "\<exists>s' w'. FreeRemote r m x s = Inr s' \<and> slab_inv Ts s' w' G A \<and> holdings w' = holdings w - {(x, r)} \<and>
    same_own (CpuCache r m) s s'"
proof -
  note I = slab_invD [OF inv]
  let ?o = "sd_cache (sdata s (Pfn_Down x))"
  have o: "?o = Some (CpuCache r c)" using I(3) i by (auto simp: data_ok_def in_slab_def)
  from object_facts(4) [OF I(1,2) i] obtain pg where pg: "all_pages (pa s) (Pfn_Down x) = Some pg" by blast
  define s1 where "s1 = (if ?o \<noteq> remote_cache s r m
    then let s0 = FlushRemoteList r m s in s0\<lparr>remote_cache := (remote_cache s0)(r := (remote_cache s0 r)(m := ?o))\<rparr> else s)"
  have "\<exists>w1. slab_inv Ts s1 w1 G A \<and> holdings w1 = holdings w \<and> same_own (CpuCache r m) s s1 \<and> remote_cache s1 r m = ?o"
  proof (cases "?o = remote_cache s r m")
    case True
    then show ?thesis using inv by (auto simp: s1_def same_own_def)
  next
    case False
    let ?s0 = "FlushRemoteList r m s"
    from FlushRemoteList_ok [OF inv, of r m] obtain w1 where
      1: "slab_inv Ts ?s0 w1 G A" "holdings w1 = holdings w" "same_own (CpuCache r m) s ?s0" "remote_list ?s0 r m = []" by blast
    note J = slab_invD [OF 1(1)]
    have s1: "s1 = ?s0\<lparr>remote_cache := (remote_cache ?s0)(r := (remote_cache ?s0 r)(m := ?o))\<rparr>"
      using False by (simp add: s1_def Let_def)
    have "remote_ok s1" using J(5) c o 1(4) unfolding s1 by (auto simp: remote_ok_def root_of_def)
    then have "slab_inv Ts s1 w1 G A" using J unfolding slab_inv_def s1 by (simp add: at_set)
    then show ?thesis using 1 by (auto simp: s1 same_own_def)
  qed
  then obtain w1 where 1: "slab_inv Ts s1 w1 G A" "holdings w1 = holdings w" "same_own (CpuCache r m) s s1"
    "remote_cache s1 r m = Some (CpuCache r c)" using o by auto
  note J = slab_invD [OF 1(1)]
  have R: "sroots s1 = sroots s" using 1(3) by (simp add: same_own_def)
  have h1: "w1 x = Some (Held r)" using h 1(2) by (auto simp: holdings_def)
  let ?s2 = "set_remote r m (x # remote_list s1 r m) s1" and ?w2 = "w1(x \<mapsto> InCpu r m)"
  have "places_ok (sroots s1) ((at_list s1)(InCpu r m := x # at_list s1 (InCpu r m))) ?w2 G"
    using one_slab_inv [OF J(1,2)] h1 i R by (intro place_put [OF J(6)]) auto
  then have "places_ok (sroots s1) (at_list ?s2) ?w2 G" by (simp add: at_set)
  moreover have "remote_ok ?s2" using J(5) 1(4) by (auto simp: remote_ok_def root_of_def)
  ultimately have 2: "slab_inv Ts ?s2 ?w2 G A" using J unfolding slab_inv_def by simp
  have h2: "holdings ?w2 = holdings w - {(x, r)}" using hold_drop [of w1 x r] h1 1(2) by simp
  have o2: "same_own (CpuCache r m) s ?s2" using 1(3) by (simp add: same_own_def)
  let ?s3 = "if free_batch (sroots s ! r) < length (remote_list ?s2 r m) then FlushRemoteList r m ?s2 else ?s2"
  have F: "FreeRemote r m x s = Inr ?s3" using pg by (simp add: FreeRemote_def Let_def s1_def)
  show ?thesis
  proof (cases "free_batch (sroots s ! r) < length (remote_list ?s2 r m)")
    case True
    from FlushRemoteList_ok [OF 2, of r m] show ?thesis
      using True h2 same_own_trans [OF o2] unfolding F by auto
  next
    case False
    show ?thesis unfolding F if_not_P [OF False]
      by (intro exI [of _ ?s2] exI [of _ ?w2] conjI refl 2 h2 o2)
  qed
qed

definition partial_but :: "pfn \<Rightarrow> slab_sys \<Rightarrow> owners \<Rightarrow> bool" where
  "partial_but p s G \<longleftrightarrow> (\<forall>c. distinct (partial_page_list (caches s c)) \<and>
     (\<forall>q. q \<noteq> p \<longrightarrow> q \<in> set (partial_page_list (caches s c)) \<longleftrightarrow>
        (\<exists>r m. c = CpuCache r m \<and> G q = Some (r, m) \<and>
           sd_used (sdata s q) < NumObjectsPerSlab (sroots s ! r))) \<and>
     (p \<in> set (partial_page_list (caches s c)) \<longrightarrow> (\<exists>r m. c = CpuCache r m \<and> G p = Some (r, m))))"

lemma partial_but_sdata: "partial_ok s G \<Longrightarrow> partial_but p (set_sdata p d s) G"
  by (simp add: partial_ok_def partial_but_def) blast

text \<open>The last object of a slab comes home: the slab goes back to the page allocator.\<close>

lemma partial_retired:
  assumes pb: "partial_but p s G" and g: "G p = Some (r, m)" and c: "c = CpuCache r m"
    and s': "caches s' = (caches s)(c := (caches s c)\<lparr>partial_page_list := remove1 p (partial_page_list (caches s c))\<rparr>)"
      "sdata s' = sdata s" "sroots s' = sroots s"
  shows "partial_ok s' (G(p := None))"
  unfolding partial_ok_def
proof (intro allI conjI)
  fix d
  note P = pb [unfolded partial_but_def, rule_format, of d]
  have dc: "partial_page_list (caches s' d) = (if d = c then remove1 p (partial_page_list (caches s d)) else partial_page_list (caches s d))"
    using s'(1) by simp
  have pd: "p \<notin> set (partial_page_list (caches s' d))" using P g c unfolding dc by auto
  show "distinct (partial_page_list (caches s' d))" using P by (auto simp: dc)
  show "(q \<in> set (partial_page_list (caches s' d))) = (\<exists>r m. d = CpuCache r m \<and> (G(p := None)) q = Some (r, m) \<and>
      sd_used (sdata s' q) < NumObjectsPerSlab (sroots s' ! r))" for q
  proof (cases "q = p")
    case False
    then have "(q \<in> set (partial_page_list (caches s' d))) = (q \<in> set (partial_page_list (caches s d)))"
      by (simp add: dc)
    then show ?thesis using P False s'(2,3) by simp
  qed (use pd in simp)
qed

lemma retire_slab:
  assumes inv: "env_ok Ts s" "blocks_ok Ts s G A" "data_ok s G" "partial_but p s G" "remote_ok s"
      "places_ok (sroots s) (at_list s) w G"
    and g: "G p = Some (r, my_cpu s)" and u: "sd_used (sdata s p) = 0"
  defines "rt \<equiv> sroots s ! r" and "n \<equiv> GetMyNode s" and "c \<equiv> CpuCache r (my_cpu s)"
  defines "ps \<equiv> partial_page_list (caches s c)"
  shows "\<exists>pa' A'. FreeOn n p (slab_order rt) (pa s) = Inr pa' \<and>
    slab_inv Ts ((set_cache c ((caches s c)\<lparr>partial_page_list := remove1 p ps\<rparr>) s)\<lparr>pa := pa'\<rparr>) (forget p w) (G(p := None)) A'"
proof -
  note F = slab_facts [OF inv(1,2) g, folded rt_def]
  have N: "nodes_inv Ts (pa s) A" using inv(2) by (simp add: blocks_ok_def)
  have n: "n < length Ts" "(p, slab_order rt) \<in> A n" using F by (simp_all add: n_def GetMyNode_def)
  from nodes_Free [OF N n] obtain pa' where
    1: "FreeOn n p (slab_order rt) (pa s) = Inr pa'" "nodes_inv Ts pa' (A(n := A n - {(p, slab_order rt)}))" by blast
  let ?A = "A(n := A n - {(p, slab_order rt)})" and ?G = "G(p := None)"
  let ?s = "(set_cache c ((caches s c)\<lparr>partial_page_list := remove1 p ps\<rparr>) s)\<lparr>pa := pa'\<rparr>"
  have os: "one_slab (sroots s) G" using one_slab_inv [OF inv(1,2)] .
  have b: "blocks_ok Ts ?s ?G ?A"
    using 1(2) inv(2) by (auto simp: blocks_ok_def)
  have d: "data_ok ?s ?G" using inv(3) by (auto simp: data_ok_def)
  have pt: "partial_ok ?s ?G" using inv(4) g by (rule partial_retired [where c = c]) (simp_all add: c_def ps_def)
  have "length (sd_list (sdata s p)) = NumObjectsPerSlab rt" using inv(3) g u unfolding data_ok_def rt_def by fastforce
  moreover have "set (sd_list (sdata s p)) \<subseteq> objs rt p"
  proof
    fix x assume "x \<in> set (sd_list (sdata s p))"
    then have "w x = Some (InSlab p)" using places_okD(2) [OF inv(6), of "InSlab p" x] g by simp
    from places_okD(3) [OF inv(6) this] g show "x \<in> objs rt p" by (auto simp: in_slab_def rt_def)
  qed
  moreover have "distinct (sd_list (sdata s p))" using places_okD(1) [OF inv(6), of "InSlab p"] g by simp
  ultimately have "set (sd_list (sdata s p)) = objs rt p"
    using card_objs [OF F(3), of p] distinct_card [of "sd_list (sdata s p)"]
    by (intro card_subset_eq) (simp_all add: objs_def)
  then have "places_ok (sroots s) (at_list s) (forget p w) ?G"
    using place_drop [OF inv(6) os g] by (simp add: rt_def)
  then have "slab_inv Ts ?s (forget p w) ?G ?A"
    using inv(1,5) b d pt unfolding slab_inv_def by (simp add: at_set)
  then show ?thesis using 1(1) by blast
qed

lemma slab_used:
  assumes inv: "slab_inv Ts s w G A" and g: "G p = Some (r, c)" "x \<in> objs (sroots s ! r) p"
    and x: "x \<notin> set (sd_list (sdata s p))"
  shows "0 < sd_used (sdata s p)" "sd_used (sdata s p) < u64"
proof -
  note I = slab_invD [OF inv]
  note F = slab_facts [OF I(1,2) g(1)]
  let ?l = "sd_list (sdata s p)" and ?rt = "sroots s ! r"
  have D: "sd_used (sdata s p) + length ?l = NumObjectsPerSlab ?rt" using I(3) g(1) unfolding data_ok_def by fastforce
  have "set ?l \<subseteq> objs ?rt p"
  proof
    fix y assume "y \<in> set ?l"
    then have "w y = Some (InSlab p)" using places_okD(2) [OF I(6), of "InSlab p" y] g by simp
    from places_okD(3) [OF I(6) this] g show "y \<in> objs ?rt p" by (auto simp: in_slab_def)
  qed
  then have "set ?l \<subset> objs ?rt p" using x g(2) by blast
  then have "card (set ?l) < NumObjectsPerSlab ?rt"
    using psubset_card_mono [of "objs ?rt p" "set ?l"] card_objs [OF F(3), of p] by (simp add: objs_def)
  moreover have "card (set ?l) = length ?l" using places_okD(1) [OF I(6), of "InSlab p"] g(1) by (simp add: distinct_card)
  ultimately show "0 < sd_used (sdata s p)" using D by linarith
  have "NumObjectsPerSlab ?rt \<le> kPageSize * 2 ^ slab_order ?rt" by (simp add: NumObjectsPerSlab_def)
  also have "\<dots> \<le> 4096 * 2 ^ 11" using F(7) power_increasing [of "slab_order ?rt" 11 "2 :: nat"]
    by (simp add: kPageSize_def kPageShift_def kMaxOrder_def)
  finally show "sd_used (sdata s p) < u64" using D by simp
qed

lemma slab_desc:
  assumes inv: "slab_inv Ts s w G A" and g: "G p = Some (r, m)"
  shows "sd_used (sdata s p) + length (sd_list (sdata s p)) = NumObjectsPerSlab (sroots s ! r)"
    "sd_cache (sdata s p) = Some (CpuCache r m)"
proof -
  note I = slab_invD [OF inv]
  note F = slab_facts [OF I(1,2) g]
  have "p < 2 ^ 52" using F(8) by (simp add: less_le_trans [of p "p + 2 ^ slab_order (sroots s ! r)"])
  then show "sd_used (sdata s p) + length (sd_list (sdata s p)) = NumObjectsPerSlab (sroots s ! r)"
    "sd_cache (sdata s p) = Some (CpuCache r m)"
    using I(3) g objs_0 [OF F(3), of p] Pfn_Down_ToAddr [of p] unfolding data_ok_def by fastforce+
qed

text \<open>An object that comes back to the slab of its own processor.\<close>

lemma FlushObject_home:
  assumes inv: "slab_inv Ts s w G A" and h: "w x = Some (Held r)" and i: "in_slab (sroots s) G x p r (my_cpu s)"
  defines "c \<equiv> CpuCache r (my_cpu s)"
  shows "\<exists>s' w' G' A'. FlushObject c x s = Inr s' \<and> slab_inv Ts s' w' G' A' \<and> holdings w' = holdings w - {(x, r)} \<and>
    same_own c s s'"
proof -
  note I = slab_invD [OF inv]
  have g: "G p = Some (r, my_cpu s)" "x \<in> objs (sroots s ! r) p" using i by (simp_all add: in_slab_def)
  note O = object_facts [OF I(1,2) i] and D = slab_desc [OF inv g(1)]
  let ?rt = "sroots s ! r" and ?d = "sdata s p" and ?k = "caches s c"
  have rt: "root_of s c = ?rt" by (simp add: root_of_def c_def)
  have pgp: "all_pages (pa s) p \<noteq> None" by (rule O(5))
  have x: "x \<notin> set (sd_list ?d)" using places_okD(2) [OF I(6), of "InSlab p" x] g(1) h by simp
  have used: "0 < sd_used ?d" "sd_used ?d < u64" by (rule slab_used [OF inv g x])+
  then have u: "(sd_used ?d + u64 - 1) mod u64 = sd_used ?d - 1" by (simp add: mod_if)
  let ?u = "sd_used ?d - 1"
  let ?s1 = "set_sdata p (?d\<lparr>sd_list := x # sd_list ?d, sd_used := ?u\<rparr>) s" and ?w1 = "w(x \<mapsto> InSlab p)"
  have pl: "places_ok (sroots ?s1) (at_list ?s1) ?w1 G"
    using place_put [OF I(6) one_slab_inv [OF I(1,2)] h, of "InSlab p" p "my_cpu s"] g(1) i by (simp add: at_set)
  have dt: "data_ok ?s1 G" using I(3) D used(1) unfolding data_ok_def by auto
  have hd: "holdings ?w1 = holdings w - {(x, r)}" using hold_drop [of w x r] h by simp
  have pin: "p \<in> set (partial_page_list ?k) \<longleftrightarrow> sd_used ?d < NumObjectsPerSlab ?rt"
    using I(4) g(1) unfolding partial_ok_def c_def by auto
  let ?N = "NumObjectsPerSlab ?rt" and ?ps = "partial_page_list ?k"
  have "sd_cache ?d = Some c" using D(2) by (simp add: c_def)
  then have FO: "FlushObject c x s =
    (if ?u = 0 then if 1 < ?N \<and> p \<notin> set ?ps then Inl (Undefined ''iterator_to: not in this list'')
       else bindr (FreeOn (GetMyNode s) p (slab_order ?rt) (pa s)) (\<lambda>pa'.
         Inr ((set_cache c (?k\<lparr>partial_page_list := (if 1 < ?N then remove1 p ?ps else ?ps)\<rparr>) ?s1)\<lparr>pa := pa'\<rparr>))
     else if ?u + 1 = ?N then Inr (set_cache c (?k\<lparr>partial_page_list := p # ?ps\<rparr>) ?s1) else Inr ?s1)"
    using O(2) pgp u by (auto simp: FlushObject_def rt Let_def)
  consider "?u = 0" | "?u \<noteq> 0" "?u + 1 = ?N" | "?u \<noteq> 0" "?u + 1 \<noteq> ?N" by blast
  then show ?thesis
  proof cases
    case 1
    then have "sd_used ?d = 1" using used(1) by linarith
    then have rm: "(if 1 < ?N then remove1 p ?ps else ?ps) = remove1 p ?ps" "\<not> (1 < ?N \<and> p \<notin> set ?ps)"
      using pin by (auto simp: remove1_idem)
    have k1: "caches ?s1 c = ?k" "GetMyNode ?s1 = GetMyNode s" by (simp_all add: GetMyNode_def)
    have "\<exists>pa' A'. FreeOn (GetMyNode ?s1) p (slab_order ?rt) (pa ?s1) = Inr pa' \<and>
      slab_inv Ts ((set_cache c ((caches ?s1 c)\<lparr>partial_page_list := remove1 p (partial_page_list (caches ?s1 c))\<rparr>) ?s1)\<lparr>pa := pa'\<rparr>)
        (forget p ?w1) (G(p := None)) A'"
    proof -
      have e: "env_ok Ts ?s1" "blocks_ok Ts ?s1 G A" "remote_ok ?s1" using I by simp_all
      have g': "G p = Some (r, my_cpu ?s1)" using g(1) by simp
      have u': "sd_used (sdata ?s1 p) = 0" using 1 by simp
      have eq: "sroots ?s1 ! r = ?rt" "CpuCache r (my_cpu ?s1) = c" by (simp_all add: c_def)
      show ?thesis using retire_slab [OF e(1,2) dt partial_but_sdata [OF I(4)] e(3) pl g' u'] unfolding eq .
    qed
    then obtain pa' A' where
      r: "FreeOn (GetMyNode s) p (slab_order ?rt) (pa s) = Inr pa'"
      "slab_inv Ts ((set_cache c (?k\<lparr>partial_page_list := remove1 p ?ps\<rparr>) ?s1)\<lparr>pa := pa'\<rparr>) (forget p ?w1) (G(p := None)) A'"
      unfolding k1 by auto
    let ?s3 = "(set_cache c (?k\<lparr>partial_page_list := remove1 p ?ps\<rparr>) ?s1)\<lparr>pa := pa'\<rparr>"
    have "FlushObject c x s = Inr ?s3" unfolding FO if_P [OF 1] if_not_P [OF rm(2)] r(1) rm(1) by simp
    moreover have "holdings (forget p ?w1) = holdings w - {(x, r)}" using hd by simp
    moreover have "same_own c s ?s3" by (simp add: same_own_def)
    ultimately show ?thesis using r(2) by blast
  next
    case 2
    let ?s2 = "set_cache c (?k\<lparr>partial_page_list := p # ?ps\<rparr>) ?s1"
    have "p \<notin> set ?ps" using pin 2 used(1) by simp
    then have "partial_ok ?s2 G" using I(4) 2 g(1) used(1) unfolding partial_ok_def c_def by auto
    then have "slab_inv Ts ?s2 ?w1 G A" using I dt pl at_set(4) [where c = c and s = ?s1] unfolding slab_inv_def by simp
    moreover have "FlushObject c x s = Inr ?s2" unfolding FO if_not_P [OF 2(1)] if_P [OF 2(2)] ..
    moreover have "same_own c s ?s2" by (simp add: same_own_def)
    ultimately show ?thesis using hd by blast
  next
    case 3
    have "sd_used ?d < ?N" using D(1) 3 used(1) by linarith
    then have "partial_ok ?s1 G" using I(4) g(1) unfolding partial_ok_def by auto
    then have "slab_inv Ts ?s1 ?w1 G A" using I dt pl unfolding slab_inv_def by simp
    moreover have "FlushObject c x s = Inr ?s1" unfolding FO if_not_P [OF 3(1)] if_not_P [OF 3(2)] ..
    moreover have "same_own c s ?s1" by (simp add: same_own_def)
    ultimately show ?thesis using hd by blast
  qed
qed

lemma FlushObject_ok:
  assumes inv: "slab_inv Ts s w G A" and h: "w x = Some (Held r)"
  defines "c \<equiv> CpuCache r (my_cpu s)"
  shows "\<exists>s' w' G' A'. FlushObject c x s = Inr s' \<and> slab_inv Ts s' w' G' A' \<and> holdings w' = holdings w - {(x, r)} \<and>
    same_own c s s'"
proof -
  note I = slab_invD [OF inv]
  from hold_slab [OF inv h] obtain p m where i: "in_slab (sroots s) G x p r m" by blast
  show ?thesis
  proof (cases "m = my_cpu s")
    case False
    note O = object_facts [OF I(1,2) i]
    have "sd_cache (sdata s p) \<noteq> Some c" using slab_desc(2) [OF inv] i False by (simp add: c_def in_slab_def)
    then have "FlushObject c x s = FreeRemote r (my_cpu s) x s"
      using O(2,5) by (auto simp: FlushObject_def root_of_def Let_def c_def)
    then show ?thesis using FreeRemote_ok [OF inv h i False] unfolding c_def by metis
  qed (use FlushObject_home [OF inv h] i in \<open>simp add: c_def\<close>)
qed

section \<open>SlabCache\<close>

lemma FlushFreeList_ok:
  assumes "slab_inv Ts s w G A" "c = CpuCache r (my_cpu s)"
  shows "\<exists>s' w' G' A'. FlushFreeList n c s = Inr s' \<and> slab_inv Ts s' w' G' A' \<and> holdings w' = holdings w \<and>
    object_list (caches s' c) = drop n (object_list (caches s c)) \<and>
    same_env c s s'"
  using assms
proof (induction n arbitrary: s w G A)
  case 0
  then show ?case by auto
next
  case (Suc n)
  show ?case
  proof (cases "object_list (caches s c)")
    case Nil
    then show ?thesis using Suc.prems(1) by auto
  next
    case (Cons x xs)
    let ?s1 = "set_cache c ((caches s c)\<lparr>object_list := xs\<rparr>) s"
    note P = pop_object [OF Suc.prems(1) Cons]
    have r: "cache_root c = r" "CpuCache r (my_cpu ?s1) = c" using Suc.prems(2) by simp_all
    have hx: "(w(x \<mapsto> Held (cache_root c))) x = Some (Held r)" using r by simp
    from FlushObject_ok [OF P(1) hx, unfolded r] obtain s2 w2 G2 A2 where
      2: "FlushObject c x ?s1 = Inr s2" "slab_inv Ts s2 w2 G2 A2" "same_own c ?s1 s2"
        "holdings w2 = holdings (w(x \<mapsto> Held r)) - {(x, r)}" by blast
    have h: "holdings w2 = holdings w" using 2(4) hold_take(2) [of w x "InObj c" r] P(2) by simp
    have o: "object_list (caches s2 c) = xs" "my_cpu s2 = my_cpu s" using 2(3) by (simp_all add: same_own_def)
    from Suc.IH [OF 2(2)] Suc.prems(2) o(2) obtain s3 w3 G3 A3 where
      3: "FlushFreeList n c s2 = Inr s3" "slab_inv Ts s3 w3 G3 A3" "holdings w3 = holdings w2"
        "object_list (caches s3 c) = drop n xs"
        "same_env c s2 s3"
      using o(1) by auto
    have "same_env c s s3" using 2(3) 3(5) by (simp add: same_own_def same_env_def)
    then show ?thesis using 2(1) 3 h Cons by auto
  qed
qed

lemma TrimFreeList_ok:
  assumes "slab_inv Ts s w G A" "c = CpuCache r (my_cpu s)" "length (object_list (caches s c)) \<le> fuel"
    "0 < free_batch (root_of s c)"
  shows "\<exists>s' w' G' A'. TrimFreeList fuel c s = Inr s' \<and> slab_inv Ts s' w' G' A' \<and> holdings w' = holdings w \<and>
    same_env c s s'"
  using assms
proof (induction fuel arbitrary: s w G A)
  case (Suc fuel)
  show ?case
  proof (cases "hiwater (root_of s c) < length (object_list (caches s c))")
    case True
    from FlushFreeList_ok [OF Suc.prems(1,2), of "free_batch (root_of s c)"] obtain s1 w1 G1 A1 where
      1: "FlushFreeList (free_batch (root_of s c)) c s = Inr s1" "slab_inv Ts s1 w1 G1 A1" "holdings w1 = holdings w"
        "object_list (caches s1 c) = drop (free_batch (root_of s c)) (object_list (caches s c))"
        "same_env c s s1" by blast
    have o: "my_cpu s1 = my_cpu s" "sroots s1 = sroots s" "cpu_nids s1 = cpu_nids s"
      "remote_check (caches s1 c) = remote_check (caches s c)" using 1(5) by (simp_all add: same_env_def)
    have "length (object_list (caches s1 c)) \<le> fuel" using 1(4) Suc.prems(3,4) True by simp
    then show ?thesis using Suc.IH [OF 1(2)] Suc.prems(2,4) o 1(1,3) True by (auto simp: root_of_def same_env_def)
  qed (use Suc.prems in auto)
qed auto

lemma CacheAlloc_claim:
  assumes inv: "slab_inv Ts s w G A" and l: "object_list (caches s c) = []"
  defines "s0 \<equiv> set_cache c ((caches s c)\<lparr>remote_check := False\<rparr>) s"
  shows "\<exists>s1 w1. ClaimRemoteFreeList c s0 = Inr s1 \<and> slab_inv Ts s1 w1 G A \<and> holdings w1 = holdings w \<and>
    \<not> remote_check (caches s1 c) \<and> my_cpu s1 = my_cpu s \<and> cpu_nids s1 = cpu_nids s \<and> sroots s1 = sroots s"
proof -
  note I = slab_invD [OF inv]
  let ?k = "caches s0 c" and ?w = "relocate (InRem c) (InObj c) w"
  let ?s1 = "set_cache c (?k\<lparr>object_list := remote_objs ?k, remote_objs := []\<rparr>) s0"
  have C: "ClaimRemoteFreeList c s0 = Inr ?s1" using l by (simp add: ClaimRemoteFreeList_def s0_def Let_def)
  have "distinct (at_list s (InRem c))" by (rule places_okD(1) [OF I(6)]) simp
  then have "places_ok (sroots s) ((at_list s)(InRem c := [], InObj c := at_list s (InRem c))) ?w G"
    using l by (intro place_all [OF I(6)]) auto
  moreover have "at_list s0 = at_list s" by (simp add: s0_def at_set)
  ultimately have p: "places_ok (sroots s) (at_list ?s1) ?w G"
    by (subst at_set(7)) (simp add: fun_upd_twist s0_def)
  have "remote_ok s0" using I(5) by (auto simp: remote_ok_def s0_def root_of_def)
  then have "slab_inv Ts ?s1 ?w G A" using I p unfolding slab_inv_def by (simp add: s0_def)
  then show ?thesis using C by (intro exI [of _ ?s1] exI [of _ ?w]) (simp add: hold_relocate s0_def)
qed

lemma AllocPartial_ok:
  fixes r :: nat
  assumes inv: "slab_inv Ts s w G A"
  defines "c \<equiv> CpuCache r (my_cpu s)"
  shows "\<exists>x s' w'. AllocPartial c s = Inr (x, s') \<and> slab_inv Ts s' w' G A \<and> same_own c s s' \<and>
    (if x = 0 then partial_page_list (caches s c) = [] \<and> s' = s \<and> w' = w
     else holdings w' = insert (x, r) (holdings w) \<and> (x, r) \<notin> holdings w)"
proof (cases "partial_page_list (caches s c)")
  case Nil
  then show ?thesis using inv by (auto simp: AllocPartial_def same_own_def)
next
  case (Cons p ps)
  note I = slab_invD [OF inv]
  let ?rt = "sroots s ! r" and ?d = "sdata s p" and ?k = "caches s c"
  let ?N = "NumObjectsPerSlab ?rt"
  have rt: "root_of s c = ?rt" by (simp add: root_of_def c_def)
  have pd: "distinct (p # ps)" using I(4) Cons unfolding partial_ok_def by metis
  have "p \<in> set (partial_page_list ?k)" using Cons by simp
  then have g: "G p = Some (r, my_cpu s)" "sd_used ?d < ?N" using I(4) unfolding partial_ok_def c_def by auto
  have D: "sd_used ?d + length (sd_list ?d) = ?N" using I(3) g(1) unfolding data_ok_def by fastforce
  then obtain x xs where x: "sd_list ?d = x # xs" using g(2) by (cases "sd_list ?d") auto
  have w: "w x = Some (InSlab p)" using places_okD(2) [OF I(6), of "InSlab p" x] g(1) x by simp
  from places_okD(3) [OF I(6) w] obtain m where i: "in_slab (sroots s) G x p r m" using g(1) by (auto simp: in_slab_def)
  have x0: "x \<noteq> 0" by (rule object_facts(3) [OF I(1,2) i])
  define s1 where "s1 = (if sd_used ?d + 1 = ?N then set_cache c (?k\<lparr>partial_page_list := ps\<rparr>) s else s)"
  let ?s' = "set_sdata p (?d\<lparr>sd_list := xs, sd_used := sd_used ?d + 1\<rparr>) s1" and ?w = "w(x \<mapsto> Held r)"
  have A: "AllocPartial c s = Inr (x, ?s')" using Cons g(2) x by (simp add: AllocPartial_def rt Let_def s1_def)
  have F: "sroots s1 = sroots s" "sdata s1 = sdata s" "at_list s1 = at_list s" "same_own c s s1"
    "env_ok Ts s1" "blocks_ok Ts s1 G A" "remote_ok s1" using I by (simp_all add: s1_def at_set same_own_def)
  have "places_ok (sroots s) ((at_list s)(InSlab p := xs)) ?w G"
    using place_take(1) [OF I(6) one_slab_inv [OF I(1,2)], of "InSlab p" x xs] x g(1) i by simp
  then have pl: "places_ok (sroots ?s') (at_list ?s') ?w G" using F(1,3) by (simp add: at_set)
  have dt: "data_ok ?s' G" using I(3) D x F(1,2) g(1) unfolding data_ok_def by auto
  have pt: "partial_ok ?s' G"
  proof -
    have P: "distinct (partial_page_list (caches s d))" "q \<in> set (partial_page_list (caches s d)) \<longleftrightarrow>
        (\<exists>r m. d = CpuCache r m \<and> G q = Some (r, m) \<and> sd_used (sdata s q) < NumObjectsPerSlab (sroots s ! r))" for d q
      using I(4) unfolding partial_ok_def by blast+
    have M: "q \<in> set (p # ps) \<longleftrightarrow> G q = Some (r, my_cpu s) \<and> sd_used (sdata s q) < ?N" for q
      using P(2) [of q c] Cons unfolding c_def by simp
    have C: "partial_page_list (caches ?s' d) = (if d = c \<and> sd_used ?d + 1 = ?N then ps else partial_page_list (caches s d))" for d
      by (simp add: s1_def)
    show ?thesis unfolding partial_ok_def C
    proof (intro allI conjI)
      fix d q
      show "distinct (if d = c \<and> sd_used ?d + 1 = ?N then ps else partial_page_list (caches s d))"
        using P(1) pd by simp
      let ?R = "\<exists>r m. d = CpuCache r m \<and> G q = Some (r, m) \<and> sd_used (sdata ?s' q) < NumObjectsPerSlab (sroots ?s' ! r)"
      show "(q \<in> set (if d = c \<and> sd_used ?d + 1 = ?N then ps else partial_page_list (caches s d))) = ?R"
      proof (cases "q = p")
        case True
        then show ?thesis using g pd M [of p] P(2) [of p d] F(1,2) by (auto simp: c_def)
      next
        case False
        then show ?thesis using P(2) [of q d] M [of q] F(1,2) by (auto simp: c_def)
      qed
    qed
  qed
  have "slab_inv Ts ?s' ?w G A" using F pl dt pt unfolding slab_inv_def by simp
  moreover have "same_own c s ?s'" using F(4) by (simp add: same_own_def)
  moreover have "holdings ?w = insert (x, r) (holdings w)" using hold_take(1) [of w x "InSlab p" r] w by simp
  moreover have "(x, r) \<notin> holdings w" using w by (simp add: holdings_def)
  ultimately show ?thesis using A x0 by metis
qed

lemma CacheAlloc_ok:
  assumes "slab_inv Ts s w G A" "c = CpuCache r (my_cpu s)" "(if remote_check (caches s c) then 1 else 0) < fuel"
  shows "\<exists>x s' w' G' A'. CacheAlloc fuel c s = Inr (x, s') \<and> slab_inv Ts s' w' G' A' \<and>
    sroots s' = sroots s \<and> cpu_nids s' = cpu_nids s \<and> my_cpu s' = my_cpu s \<and>
    (if x = 0 then holdings w' = holdings w \<and> object_list (caches s' c) = [] \<and> \<not> remote_check (caches s' c) \<and>
       partial_page_list (caches s' c) = []
     else holdings w' = insert (x, r) (holdings w) \<and> (x, r) \<notin> holdings w)"
  using assms
proof (induction fuel arbitrary: s w G A)
  case (Suc fuel)
  show ?case
  proof (cases "object_list (caches s c)")
    case (Cons x xs)
    let ?s = "set_cache c ((caches s c)\<lparr>object_list := xs\<rparr>) s" and ?w = "w(x \<mapsto> Held r)"
    have r: "cache_root c = r" using Suc.prems(2) by simp
    note P = pop_object [OF Suc.prems(1) Cons, unfolded r]
    have "CacheAlloc (Suc fuel) c s = Inr (x, ?s)" using Cons by simp
    moreover have "holdings ?w = insert (x, r) (holdings w)" using hold_take(1) [of w x "InObj c" r] P(2) by simp
    moreover have "(x, r) \<notin> holdings w" using P(2) by (simp add: holdings_def)
    moreover have "sroots ?s = sroots s \<and> cpu_nids ?s = cpu_nids s \<and> my_cpu ?s = my_cpu s" by simp
    ultimately show ?thesis using P(1,3) by metis
  next
    case Nil
    show ?thesis
    proof (cases "remote_check (caches s c)")
      case False
      have "CacheAlloc (Suc fuel) c s = AllocPartial c s" using Nil False by simp
      then show ?thesis using AllocPartial_ok [OF Suc.prems(1), of r] Nil False Suc.prems(2)
        unfolding same_own_def by (metis (no_types, lifting))
    next
      case True
      from CacheAlloc_claim [OF Suc.prems(1) Nil] obtain s1 w1 where
        1: "ClaimRemoteFreeList c (set_cache c ((caches s c)\<lparr>remote_check := False\<rparr>) s) = Inr s1" "slab_inv Ts s1 w1 G A"
          "holdings w1 = holdings w" "\<not> remote_check (caches s1 c)" "my_cpu s1 = my_cpu s" "cpu_nids s1 = cpu_nids s" "sroots s1 = sroots s"
        by blast
      have "0 < free_batch (root_of s c)" using slab_invD(5) [OF Suc.prems(1)] True unfolding remote_ok_def by blast
      then have b: "0 < free_batch (root_of s1 c)" using 1(7) by (simp add: root_of_def)
      from TrimFreeList_ok [OF 1(2) _ order_refl b] Suc.prems(2) 1(5) obtain s2 w2 G2 A2 where
        2: "TrimFreeList (length (object_list (caches s1 c))) c s1 = Inr s2" "slab_inv Ts s2 w2 G2 A2" "holdings w2 = holdings w1"
          "same_env c s1 s2" by auto
      have e: "\<not> remote_check (caches s2 c)" "my_cpu s2 = my_cpu s" "cpu_nids s2 = cpu_nids s" "sroots s2 = sroots s"
        using 2(4) 1(4-7) by (simp_all add: same_env_def)
      have q: "CacheAlloc (Suc fuel) c s = CacheAlloc fuel c s2" using Nil True 1(1) 2(1) by (simp add: Let_def)
      have f: "c = CpuCache r (my_cpu s2)" "(if remote_check (caches s2 c) then 1 else 0) < fuel"
        using Suc.prems(2,3) e True by simp_all
      show ?thesis using Suc.IH [OF 2(2) f] unfolding q e(2-4) 2(3) 1(3) .
    qed
  qed
qed simp

section \<open>New slabs\<close>

lemma AddObjects_effect:
  assumes "\<And>i. i < n \<Longrightarrow> all_pages (pa s) (Pfn_Down (addr + i * sz)) \<noteq> None" "sz = obj_size (root_of s c)"
  shows "\<exists>D. AddObjects n c p addr s = Inr (s\<lparr>sdata := D\<rparr>) \<and>
    sd_list (D p) = rev (map (\<lambda>i. addr + i * sz) [0..<n]) @ sd_list (sdata s p) \<and>
    (\<forall>q. q \<noteq> p \<longrightarrow> sd_list (D q) = sd_list (sdata s q)) \<and> (\<forall>q. sd_used (D q) = sd_used (sdata s q)) \<and>
    (\<forall>q. sd_cache (D q) = (if \<exists>i < n. q = Pfn_Down (addr + i * sz) then Some c else sd_cache (sdata s q)))"
  using assms
proof (induction n arbitrary: addr s)
  case 0
  show ?case by (intro exI [of _ "sdata s"]) simp
next
  case (Suc n)
  let ?q = "Pfn_Down addr"
  let ?s1 = "set_sdata p ((sdata s p)\<lparr>sd_list := addr # sd_list (sdata s p)\<rparr>) s"
  let ?s2 = "set_sdata ?q ((sdata ?s1 ?q)\<lparr>sd_cache := Some c\<rparr>) ?s1"
  from Suc.prems(1) [of 0] obtain pg where pg: "all_pages (pa s) ?q = Some pg" by auto
  have eq: "AddObjects (Suc n) c p addr s = AddObjects n c p (addr + sz) ?s2"
    using pg Suc.prems(2) by (simp add: Let_def)
  have sh: "addr + sz + i * sz = addr + Suc i * sz" for i by simp
  have pr: "\<And>i. i < n \<Longrightarrow> all_pages (pa ?s2) (Pfn_Down (addr + sz + i * sz)) \<noteq> None"
    using Suc.prems(1) [of "Suc i" for i] unfolding sh by simp
  have sz: "sz = obj_size (root_of ?s2 c)" using Suc.prems(2) by (simp add: root_of_def)
  from Suc.IH [of ?s2 "addr + sz", OF pr sz] obtain D where
    D: "AddObjects n c p (addr + sz) ?s2 = Inr (?s2\<lparr>sdata := D\<rparr>)"
      "sd_list (D p) = rev (map (\<lambda>i. addr + sz + i * sz) [0..<n]) @ sd_list (sdata ?s2 p)"
      "\<And>q. q \<noteq> p \<Longrightarrow> sd_list (D q) = sd_list (sdata ?s2 q)" "\<And>q. sd_used (D q) = sd_used (sdata ?s2 q)"
      "\<And>q. sd_cache (D q) = (if \<exists>i < n. q = Pfn_Down (addr + sz + i * sz) then Some c else sd_cache (sdata ?s2 q))"
    by blast
  have l: "map (\<lambda>i. addr + i * sz) [0..<Suc n] = addr # map (\<lambda>i. addr + sz + i * sz) [0..<n]"
    by (subst upt_conv_Cons) (simp_all add: map_Suc_upt [symmetric] del: upt_Suc)
  have e: "(\<exists>i < Suc n. q = Pfn_Down (addr + i * sz)) \<longleftrightarrow> q = ?q \<or> (\<exists>i < n. q = Pfn_Down (addr + sz + i * sz))" for q
    unfolding Ex_less_Suc2 sh by simp
  have "?s2\<lparr>sdata := D\<rparr> = s\<lparr>sdata := D\<rparr>" by (simp add: set_sdata_def)
  moreover have "sd_list (D p) = rev (map (\<lambda>i. addr + i * sz) [0..<Suc n]) @ sd_list (sdata s p)"
    unfolding l D(2) by simp
  moreover have "sd_list (D q) = sd_list (sdata s q)" if "q \<noteq> p" for q using D(3) [OF that] that by simp
  moreover have "sd_used (D q) = sd_used (sdata s q)" for q using D(4) [of q] by simp
  moreover have "sd_cache (D q) = (if \<exists>i < Suc n. q = Pfn_Down (addr + i * sz) then Some c else sd_cache (sdata s q))" for q
    unfolding D(5) e by auto
  ultimately show ?case unfolding eq D(1) by (intro exI [of _ D]) blast
qed

lemma found_held: "(\<And>x. x \<in> X \<Longrightarrow> w x = None) \<Longrightarrow> holdings (found p X w) = holdings w"
  by (auto simp: holdings_def found_def split: if_splits)

lemma data_new:
  assumes old: "data_ok s G" and g: "G p = None"
    and R: "sroots s' = sroots s"
    and p: "sd_used (sdata s' p) + length (sd_list (sdata s' p)) = NumObjectsPerSlab (sroots s ! r)"
      "\<And>x. x \<in> objs (sroots s ! r) p \<Longrightarrow> sd_cache (sdata s' (Pfn_Down x)) = Some (CpuCache r m)"
    and o: "\<And>q. q \<noteq> p \<Longrightarrow> sd_used (sdata s' q) = sd_used (sdata s q)"
      "\<And>q. q \<noteq> p \<Longrightarrow> sd_list (sdata s' q) = sd_list (sdata s q)"
      "\<And>x q r' c'. in_slab (sroots s) G x q r' c' \<Longrightarrow> sd_cache (sdata s' (Pfn_Down x)) = sd_cache (sdata s (Pfn_Down x))"
  shows "data_ok s' (G(p \<mapsto> (r, m)))"
  unfolding data_ok_def
proof (intro allI impI conjI ballI)
  fix q r' c' assume g': "(G(p \<mapsto> (r, m))) q = Some (r', c')"
  show "sd_used (sdata s' q) + length (sd_list (sdata s' q)) = NumObjectsPerSlab (sroots s' ! r')"
    using g' old R p(1) o(1,2) unfolding data_ok_def by (auto split: if_splits)
  fix x assume "x \<in> objs (sroots s' ! r') q"
  then show "sd_cache (sdata s' (Pfn_Down x)) = Some (CpuCache r' c')"
    using g' R p(2) [of x] o(3) [of x q r' c'] old by (auto simp: data_ok_def in_slab_def split: if_splits)
qed

lemma partial_new:
  assumes old: "partial_ok s G" and g: "G p = None" and c: "c = CpuCache r m"
    and s': "caches s' = (caches s)(c := (caches s c)\<lparr>partial_page_list := p # partial_page_list (caches s c)\<rparr>)"
      "sroots s' = sroots s" "\<And>q. q \<noteq> p \<Longrightarrow> sd_used (sdata s' q) = sd_used (sdata s q)"
      "sd_used (sdata s' p) < NumObjectsPerSlab (sroots s ! r)"
  shows "partial_ok s' (G(p \<mapsto> (r, m)))"
  unfolding partial_ok_def
proof (intro allI conjI)
  fix d q
  have P: "distinct (partial_page_list (caches s d))" "q \<in> set (partial_page_list (caches s d)) \<longleftrightarrow>
      (\<exists>r m. d = CpuCache r m \<and> G q = Some (r, m) \<and> sd_used (sdata s q) < NumObjectsPerSlab (sroots s ! r))"
    using old unfolding partial_ok_def by blast+
  have np: "p \<notin> set (partial_page_list (caches s d))" using old g unfolding partial_ok_def by auto
  show "distinct (partial_page_list (caches s' d))" using P(1) np s'(1) by auto
  show "(q \<in> set (partial_page_list (caches s' d))) = (\<exists>r' m'. d = CpuCache r' m' \<and> (G(p \<mapsto> (r, m))) q = Some (r', m') \<and>
      sd_used (sdata s' q) < NumObjectsPerSlab (sroots s' ! r'))"
  proof (cases "q = p")
    case True
    then show ?thesis using np s' c by auto
  next
    case False
    then show ?thesis using P(2) s' c by auto
  qed
qed

lemma AddSlab_ok:
  fixes r :: nat and p :: pfn
  assumes inv: "slab_inv Ts s w G A" and r: "r < length (sroots s)"
  defines "k \<equiv> slab_order (sroots s ! r)" and "n \<equiv> GetMyNode s" and "c \<equiv> CpuCache r (my_cpu s)"
  defines "B \<equiv> A(n := insert (p, k) (A n))"
  assumes new: "nodes_inv Ts pa' B" "(p, k) \<notin> A n"
  shows "\<exists>s' w'. AddSlab c p (s\<lparr>pa := pa'\<rparr>) = Inr s' \<and> slab_inv Ts s' w' (G(p \<mapsto> (r, my_cpu s))) B \<and>
    holdings w' = holdings w \<and> same_own c s s' \<and> partial_page_list (caches s' c) \<noteq> []"
proof -
  note I = slab_invD [OF inv]
  let ?rt = "sroots s ! r" and ?s0 = "s\<lparr>pa := pa'\<rparr>" and ?G = "G(p \<mapsto> (r, my_cpu s))"
  let ?O = "objs ?rt p" and ?N = "NumObjectsPerSlab ?rt"
  have rt: "root_ok ?rt" "my_cpu s < length (cpu_nids s)" "n < length Ts"
    using I(1) r by (simp_all add: env_ok_def n_def GetMyNode_def)
  have mem: "(p, k) \<in> B n" by (simp add: B_def)
  note H = nodes_held [OF new(1) rt(3) mem]
  have al: "2 ^ k dvd p" "p < 2 ^ 52" using H(3,5) base_in_blk by blast+
  have op: "Pfn_Down x \<in> blk p k" if "x \<in> ?O" for x
    using object_page(1) [OF that _ rt(1) al(2)] al(1) by (simp add: k_def)
  have op': "Pfn_Down (ToAddr p + i * obj_size ?rt) \<in> blk p k" if "i < ?N" for i
    by (rule op) (use that in \<open>auto simp: objs_def\<close>)
  have ap: "q \<notin> blk p k" if "G p' = Some (r', c')" "q \<in> blk p' (slab_order (sroots s ! r'))" for p' r' c' q
  proof
    assume q: "q \<in> blk p k"
    note F = slab_facts [OF I(1,2) that(1)]
    have "(p', slab_order (sroots s ! r')) \<in> B (cpu_nids s ! c')" using F(4) by (auto simp: B_def)
    from nodes_apart [OF new(1) F(5) rt(3) this mem that(2) q] F(4) new(2) show False by simp
  qed
  have gp: "G p = None" using ap [of p _ _ p] by (cases "G p") auto
  have wn: "w x = None" if "x \<in> ?O" for x
  proof (rule ccontr)
    assume "w x \<noteq> None"
    then obtain p' r' c' where i: "in_slab (sroots s) G x p' r' c'" using places_okD(3) [OF I(6)] by blast
    show False using ap object_facts(1) [OF I(1,2) i] i op [OF that] by (auto simp: in_slab_def)
  qed
  obtain pg where pg: "all_pages pa' p = Some pg" using H(4) base_in_blk by blast
  let ?pa = "pa'\<lparr>all_pages := (all_pages pa')(p \<mapsto> pg\<lparr>usage := kSlabAllocator\<rparr>)\<rparr>"
  have nd: "nodes_inv Ts ?pa B" using nodes_mark [OF new(1) rt(3) mem pg, of kSlabAllocator] by simp
  let ?s1 = "set_sdata p ((sdata s p)\<lparr>sd_list := [], sd_used := 0\<rparr>) (s\<lparr>pa := ?pa\<rparr>)"
  have rc: "root_of ?s1 c = ?rt" "root_of ?s0 c = ?rt" by (simp_all add: root_of_def c_def)
  have "all_pages (pa ?s1) (Pfn_Down (ToAddr p + i * obj_size ?rt)) \<noteq> None" if "i < ?N" for i
  proof -
    have "ToAddr p + i * obj_size ?rt \<in> ?O" using that by (auto simp: objs_def)
    from nodes_held(4) [OF nd rt(3) mem op [OF this]] show ?thesis by fastforce
  qed
  from AddObjects_effect [of ?N ?s1 "ToAddr p" "obj_size ?rt" c p, OF this] rc(1) obtain D where
    D: "AddObjects ?N c p (ToAddr p) ?s1 = Inr (?s1\<lparr>sdata := D\<rparr>)"
      "sd_list (D p) = rev (map (\<lambda>i. ToAddr p + i * obj_size ?rt) [0..<?N])"
      "\<And>q. q \<noteq> p \<Longrightarrow> sd_list (D q) = sd_list (sdata s q)" "\<And>q. q \<noteq> p \<Longrightarrow> sd_used (D q) = sd_used (sdata s q)"
      "sd_used (D p) = 0"
      "\<And>q. sd_cache (D q) = (if \<exists>i < ?N. q = Pfn_Down (ToAddr p + i * obj_size ?rt) then Some c else sd_cache (sdata ?s1 q))"
    by auto
  let ?s2 = "?s1\<lparr>sdata := D\<rparr>"
  let ?s3 = "set_cache c ((caches s c)\<lparr>partial_page_list := p # partial_page_list (caches s c)\<rparr>) ?s2"
  let ?w = "found p ?O w"
  have A: "AddSlab c p ?s0 = Inr ?s3" using pg D(1) rc(2) by (simp add: AddSlab_def Let_def)
  have ds: "distinct (sd_list (D p))" "set (sd_list (D p)) = ?O"
    unfolding D(2) using objs_inj [OF rt(1), of p] by (auto simp: distinct_map objs_def)
  have "at_list ?s3 l = ((at_list s)(InSlab p := sd_list (D p))) l" for l by (cases l) (simp_all add: D(3))
  then have "at_list ?s3 = (at_list s)(InSlab p := sd_list (D p))" by (rule ext)
  then have pl: "places_ok (sroots ?s3) (at_list ?s3) ?w ?G"
    using place_new [where r = r and p = p and c = "my_cpu s", OF I(6) gp wn ds] by simp
  have cache: "sd_cache (D (Pfn_Down x)) = Some c" if "x \<in> ?O" for x using that unfolding D(6) by (auto simp: objs_def)
  have oth: "sd_cache (D (Pfn_Down x)) = sd_cache (sdata s (Pfn_Down x))" if i: "in_slab (sroots s) G x p' r' c'" for x p' r' c'
  proof -
    have "Pfn_Down x \<notin> blk p k" using ap [OF _ object_facts(1) [OF I(1,2) i]] i by (simp add: in_slab_def)
    then have "\<not> (\<exists>i < ?N. Pfn_Down x = Pfn_Down (ToAddr p + i * obj_size ?rt))" using op' by metis
    from D(6) [of "Pfn_Down x", unfolded if_not_P [OF this]] show ?thesis by simp
  qed
  have dt: "data_ok ?s3 ?G"
    using I(3) gp by (rule data_new) (simp_all add: D(2-5) cache oth c_def)
  have pt: "partial_ok ?s3 ?G"
    using I(4) gp by (rule partial_new [where c = c]) (simp_all add: D(4,5) c_def objects_pos [OF rt(1)])
  have bl: "blocks_ok Ts ?s3 ?G B"
  proof -
    have "q' < length (sroots s) \<and> c' < length (cpu_nids s) \<and> (q, slab_order (sroots s ! q')) \<in> B (cpu_nids s ! c')"
      if g: "?G q = Some (q', c')" for q q' c'
    proof (cases "q = p")
      case True
      then show ?thesis using g r rt(2) by (auto simp: B_def k_def n_def GetMyNode_def)
    next
      case False
      then have "G q = Some (q', c')" using g by simp
      note F = slab_facts [OF I(1,2) this]
      show ?thesis using F(1,2,4) by (auto simp: B_def)
    qed
    then show ?thesis using nd unfolding blocks_ok_def by simp
  qed
  have "env_ok Ts ?s3" "remote_ok ?s3"
    using I(1,5) by (simp_all add: env_ok_def remote_ok_def root_of_def)
  then have "slab_inv Ts ?s3 ?w ?G B" using pl dt pt bl unfolding slab_inv_def by simp
  moreover have "same_own c s ?s3" by (simp add: same_own_def)
  moreover have "holdings ?w = holdings w" by (rule found_held) (rule wn)
  ultimately show ?thesis using A by (intro exI [of _ ?s3] exI [of _ ?w]) simp
qed

section \<open>SlabAllocator\<close>

definition same_machine :: "slab_sys \<Rightarrow> slab_sys \<Rightarrow> bool" where
  "same_machine s s' \<longleftrightarrow> sroots s' = sroots s \<and> cpu_nids s' = cpu_nids s \<and> my_cpu s' = my_cpu s"

lemma SlabAllocator_Alloc_ok:
  fixes r :: nat
  assumes inv: "slab_inv Ts s w G A" and r: "r < length (sroots s)"
  shows "\<exists>x s' w' G' A'. SlabAllocator_Alloc r s = Inr (x, s') \<and> slab_inv Ts s' w' G' A' \<and> same_machine s s' \<and>
    (if x = 0 then holdings w' = holdings w else holdings w' = insert (x, r) (holdings w) \<and> (x, r) \<notin> holdings w)"
proof -
  let ?c = "CpuCache r (my_cpu s)" and ?n = "GetMyNode s"
  have "(if remote_check (caches s ?c) then 1 else 0) < (3 :: nat)" by simp
  from CacheAlloc_ok [OF inv refl this] obtain x s1 w1 G1 A1 where
    1: "CacheAlloc 3 ?c s = Inr (x, s1)" "slab_inv Ts s1 w1 G1 A1" "same_machine s s1" and
    x: "if x = 0 then holdings w1 = holdings w \<and> object_list (caches s1 ?c) = [] \<and> \<not> remote_check (caches s1 ?c) \<and>
        partial_page_list (caches s1 ?c) = [] else holdings w1 = insert (x, r) (holdings w) \<and> (x, r) \<notin> holdings w"
    unfolding same_machine_def by blast
  have S: "SlabAllocator_Alloc r s = AllocOrGrow ?c ?n s" by (simp add: SlabAllocator_Alloc_def)
  show ?thesis
  proof (cases "x = 0")
    case False
    then have "SlabAllocator_Alloc r s = Inr (x, s1)" unfolding S AllocOrGrow_def 1(1) by simp
    then show ?thesis using 1(2,3) x False by auto
  next
    case True
    note h = x [unfolded if_P [OF True]]
    have m: "sroots s1 = sroots s" "cpu_nids s1 = cpu_nids s" "my_cpu s1 = my_cpu s" "GetMyNode s1 = ?n"
      using 1(3) by (simp_all add: same_machine_def GetMyNode_def)
    note J = slab_invD [OF 1(2)]
    let ?k = "slab_order (sroots s ! r)"
    have rc: "root_of s1 ?c = sroots s ! r" by (simp add: root_of_def m)
    have n: "?n < length Ts" using slab_invD(1) [OF inv] by (simp add: env_ok_def GetMyNode_def)
    have E: "SlabAllocator_Alloc r s = bindr (Alloc ?k ?n (u64 - 1) (pa s1)) (\<lambda>(p, pa').
        if p = Pfn_None then Inr (0, s1\<lparr>pa := pa'\<rparr>)
        else bindr (AddSlab ?c p (s1\<lparr>pa := pa'\<rparr>)) (\<lambda>s2. bindr (CacheAlloc 3 ?c s2) (\<lambda>(y, s3).
          if y = 0 then Inl (KAssert ''ret != nullptr'') else Inr (y, s3))))"
      unfolding S AllocOrGrow_def 1(1) by (simp add: True rc)
    from nodes_Alloc [OF J(7) n, of ?k "u64 - 1"] show ?thesis
    proof (elim disjE exE conjE)
      assume "Alloc ?k ?n (u64 - 1) (pa s1) = Inr (Pfn_None, pa s1)"
      then have "SlabAllocator_Alloc r s = Inr (0, s1)" unfolding E by simp
      then show ?thesis using 1(2,3) h by auto
    next
      fix p pa'
      assume a: "Alloc ?k ?n (u64 - 1) (pa s1) = Inr (p, pa')" "p \<noteq> Pfn_None" "(p, ?k) \<notin> A1 ?n"
        "nodes_inv Ts pa' (A1(?n := insert (p, ?k) (A1 ?n)))"
      let ?B = "A1(?n := insert (p, ?k) (A1 ?n))"
      have r1: "r < length (sroots s1)" using r m by simp
      have "\<exists>s2 w2. AddSlab ?c p (s1\<lparr>pa := pa'\<rparr>) = Inr s2 \<and> slab_inv Ts s2 w2 (G1(p \<mapsto> (r, my_cpu s))) ?B \<and>
          holdings w2 = holdings w1 \<and> same_own ?c s1 s2 \<and> partial_page_list (caches s2 ?c) \<noteq> []"
        using AddSlab_ok [OF 1(2) r1, of pa' p] a(3,4) unfolding m by blast
      then obtain s2 w2 where 2: "AddSlab ?c p (s1\<lparr>pa := pa'\<rparr>) = Inr s2"
        "slab_inv Ts s2 w2 (G1(p \<mapsto> (r, my_cpu s))) ?B" "holdings w2 = holdings w1" "same_own ?c s1 s2"
        "partial_page_list (caches s2 ?c) \<noteq> []" by blast
      have o: "object_list (caches s2 ?c) = []" "\<not> remote_check (caches s2 ?c)" "same_machine s s2"
        using 2(4) h m by (simp_all add: same_own_def same_machine_def)
      then have my: "my_cpu s2 = my_cpu s" by (simp add: same_machine_def)
      from AllocPartial_ok [OF 2(2), of r] obtain y s3 w3 where
        3: "AllocPartial ?c s2 = Inr (y, s3)" "slab_inv Ts s3 w3 (G1(p \<mapsto> (r, my_cpu s))) ?B" "same_own ?c s2 s3"
          "if y = 0 then partial_page_list (caches s2 ?c) = [] \<and> s3 = s2 \<and> w3 = w2
           else holdings w3 = insert (y, r) (holdings w2) \<and> (y, r) \<notin> holdings w2" unfolding my by blast
      have y: "y \<noteq> 0" using 3(4) 2(5) by (auto split: if_splits)
      have "CacheAlloc 3 ?c s2 = Inr (y, s3)"
        using o 3(1) by (simp add: numeral_3_eq_3 Let_def)
      then have "SlabAllocator_Alloc r s = Inr (y, s3)" unfolding E a(1) using a(2) 2(1) y by simp
      moreover have "same_machine s s3" using o(3) 3(3) by (simp add: same_machine_def same_own_def)
      moreover have "holdings w3 = insert (y, r) (holdings w)" "(y, r) \<notin> holdings w" using 3(4) y 2(3) h by simp_all
      ultimately show ?thesis using 3(2) y by (intro exI conjI) auto
    qed
  qed
qed

lemma CacheFree_ok:
  assumes inv: "slab_inv Ts s w G A" and h: "w x = Some (Held r)"
  defines "c \<equiv> CpuCache r (my_cpu s)"
  shows "\<exists>s' w' G' A'. CacheFree c x s = Inr s' \<and> slab_inv Ts s' w' G' A' \<and> same_machine s s' \<and> holdings w' = holdings w - {(x, r)}"
proof -
  let ?s1 = "set_cache c ((caches s c)\<lparr>object_list := x # object_list (caches s c)\<rparr>) s" and ?w = "w(x \<mapsto> InObj c)"
  have 1: "slab_inv Ts ?s1 ?w G A" using push_object [OF inv, of x c] h by (simp add: c_def)
  have hd: "holdings ?w = holdings w - {(x, r)}" using hold_drop [of w x r] h by simp
  have c: "c = CpuCache r (my_cpu ?s1)" by (simp add: c_def)
  have E: "CacheFree c x s = (if hiwater (root_of s c) < length (object_list (caches ?s1 c))
      then FlushFreeList (free_batch (root_of s c)) c ?s1 else Inr ?s1)"
    by (simp add: CacheFree_def Let_def)
  have mm: "same_machine s ?s1" by (simp add: same_machine_def)
  show ?thesis
  proof (cases "hiwater (root_of s c) < length (object_list (caches ?s1 c))")
    case True
    from FlushFreeList_ok [OF 1 c, of "free_batch (root_of s c)"] obtain s2 w2 G2 A2 where
      2: "FlushFreeList (free_batch (root_of s c)) c ?s1 = Inr s2" "slab_inv Ts s2 w2 G2 A2" "holdings w2 = holdings ?w"
        "same_env c ?s1 s2" by blast
    have "same_machine s s2" using 2(4) by (simp add: same_env_def same_machine_def)
    then show ?thesis unfolding E if_P [OF True] using 2 hd by metis
  next
    case False
    show ?thesis unfolding E if_not_P [OF False] using 1 hd mm by blast
  qed
qed

lemma SlabAllocator_Free_ok:
  assumes inv: "slab_inv Ts s w G A" and h: "w x = Some (Held r)"
  shows "\<exists>s' w' G' A'. SlabAllocator_Free r x s = Inr s' \<and> slab_inv Ts s' w' G' A' \<and> same_machine s s' \<and>
    holdings w' = holdings w - {(x, r)}"
proof -
  note I = slab_invD [OF inv]
  from hold_slab [OF inv h] obtain p m where i: "in_slab (sroots s) G x p r m" by blast
  from object_facts(4) [OF I(1,2) i] obtain pg where
    pg: "all_pages (pa s) (Pfn_Down x) = Some pg" "nid pg = cpu_nids s ! m" by blast
  show ?thesis
  proof (cases "nid pg = GetMyNode s")
    case True
    then have "SlabAllocator_Free r x s = CacheFree (CpuCache r (my_cpu s)) x s"
      using pg(1) by (simp add: SlabAllocator_Free_def)
    then show ?thesis using CacheFree_ok [OF inv h] by simp
  next
    case False
    then have m: "m \<noteq> my_cpu s" using pg(2) by (auto simp: GetMyNode_def)
    have "SlabAllocator_Free r x s = FreeRemote r (my_cpu s) x s"
      using pg(1) False by (simp add: SlabAllocator_Free_def)
    then show ?thesis using FreeRemote_ok [OF inv h i m] unfolding same_own_def same_machine_def by metis
  qed
qed

section \<open>Histories\<close>

text \<open>A client moves to another processor, asks a root for an object, or gives an object back to the root it is from.\<close>

datatype slab_request = OnCpu nat | Obtain nat

fun SlabAcquire :: "slab_request \<Rightarrow> slab_sys \<Rightarrow> ((nat \<times> nat) option \<times> slab_sys) result" where
  "SlabAcquire (OnCpu m) s = Inr (None, if m < length (cpu_nids s) then s\<lparr>my_cpu := m\<rparr> else s)"
| "SlabAcquire (Obtain r) s =
    (if r < length (sroots s)
     then bindr (SlabAllocator_Alloc r s) (\<lambda>(x, s'). Inr (if x = 0 then None else Some (x, r), s'))
     else Inr (None, s))"

fun SlabReturn :: "nat \<times> nat \<Rightarrow> slab_sys \<Rightarrow> slab_sys result" where
  "SlabReturn (x, r) s = SlabAllocator_Free r x s"

definition obj_bytes :: "slab_root list \<Rightarrow> nat \<times> nat \<Rightarrow> nat set" where
  "obj_bytes R = (\<lambda>(x, r). {x..<x + obj_size (R ! r)})"

definition obj_clash :: "slab_root list \<Rightarrow> nat \<times> nat \<Rightarrow> nat \<times> nat \<Rightarrow> bool" where
  "obj_clash R a b \<longleftrightarrow> obj_bytes R a \<inter> obj_bytes R b \<noteq> {}"

definition slab_ok :: "pfn set list \<Rightarrow> slab_root list \<Rightarrow> slab_sys \<Rightarrow> (nat \<times> nat) set \<Rightarrow> bool" where
  "slab_ok Ts R s L \<longleftrightarrow> sroots s = R \<and> (\<exists>w G A. slab_inv Ts s w G A \<and> holdings w = L)"

lemma slab_inv_cpu:
  assumes "slab_inv Ts s w G A" "m < length (cpu_nids s)"
  shows "slab_inv Ts (s\<lparr>my_cpu := m\<rparr>) w G A"
proof -
  have "at_list (s\<lparr>my_cpu := m\<rparr>) l = at_list s l" for l by (cases l) simp_all
  then have "at_list (s\<lparr>my_cpu := m\<rparr>) = at_list s" by (rule ext)
  then show ?thesis using assms
    by (simp add: slab_inv_def env_ok_def blocks_ok_def data_ok_def partial_ok_def remote_ok_def root_of_def)
qed

lemma slab_bytes:
  assumes inv: "env_ok Ts s" "blocks_ok Ts s G A" and i: "in_slab (sroots s) G x p r c" and b: "b \<in> obj_bytes (sroots s) (x, r)"
  shows "b div 4096 \<in> blk p (slab_order (sroots s ! r))"
proof -
  have g: "G p = Some (r, c)" "x \<in> objs (sroots s ! r) p" using i by (simp_all add: in_slab_def)
  note F = slab_facts [OF inv g(1)]
  have p: "p < 2 ^ 52" using F(8) by (simp add: less_le_trans [of p "p + 2 ^ slab_order (sroots s ! r)"])
  note O = object_page [OF g(2) F(6,3) p]
  have "p * 4096 \<le> b" "b < (p + 2 ^ slab_order (sroots s ! r)) * 4096"
    using O(3,4) b p by (simp_all add: obj_bytes_def ToAddr_val algebra_simps)
  then show ?thesis by (simp add: mem_blk less_mult_imp_div_less)
qed

lemma hold_apart:
  assumes inv: "slab_inv Ts s w G A" and h: "(x, r) \<in> holdings w" "(y, q) \<in> holdings w" "(x, r) \<noteq> (y, q)"
  shows "\<not> obj_clash (sroots s) (x, r) (y, q)"
proof
  note I = slab_invD [OF inv]
  assume "obj_clash (sroots s) (x, r) (y, q)"
  then obtain b where b: "b \<in> obj_bytes (sroots s) (x, r)" "b \<in> obj_bytes (sroots s) (y, q)" by (auto simp: obj_clash_def)
  from h(1) hold_slab [OF inv, of x r] obtain p c where i: "in_slab (sroots s) G x p r c" by (auto simp: holdings_def)
  from h(2) hold_slab [OF inv, of y q] obtain p' c' where j: "in_slab (sroots s) G y p' q c'" by (auto simp: holdings_def)
  have g: "G p = Some (r, c)" "G p' = Some (q, c')" using i j by (simp_all add: in_slab_def)
  have "p = p'" using slabs_apart [OF I(1,2) g slab_bytes [OF I(1,2) i b(1)] slab_bytes [OF I(1,2) j b(2)]] .
  then have e: "r = q" "x \<in> objs (sroots s ! r) p" "y \<in> objs (sroots s ! r) p" using g i j by (auto simp: in_slab_def)
  then have "x \<noteq> y" using h(3) by simp
  then consider "x < y" | "y < x" by linarith
  then show False
    using objs_apart [OF slab_facts(3) [OF I(1,2) g(1)] e(2,3)] objs_apart [OF slab_facts(3) [OF I(1,2) g(1)] e(3,2)] b e(1)
    by cases (auto simp: obj_bytes_def)
qed

interpretation slabs: allocator SlabAcquire SlabReturn "slab_ok Ts R" "obj_clash R" for Ts R
proof
  fix s L and q :: slab_request assume ok: "slab_ok Ts R s L"
  then obtain w G A where inv: "slab_inv Ts s w G A" "holdings w = L" "sroots s = R" by (auto simp: slab_ok_def)
  show "\<exists>x s'. SlabAcquire q s = Inr (x, s') \<and>
    (case x of None \<Rightarrow> slab_ok Ts R s' L | Some y \<Rightarrow> y \<notin> L \<and> slab_ok Ts R s' (insert y L))"
  proof (cases q)
    case (OnCpu m)
    then show ?thesis using ok slab_inv_cpu [OF inv(1), of m] inv(2,3) by (auto simp: slab_ok_def)
  next
    case (Obtain r)
    show ?thesis
    proof (cases "r < length (sroots s)")
      case True
      from SlabAllocator_Alloc_ok [OF inv(1) this] obtain x s' w' G' A' where
        a: "SlabAllocator_Alloc r s = Inr (x, s')" "slab_inv Ts s' w' G' A'" "same_machine s s'"
          "if x = 0 then holdings w' = holdings w else holdings w' = insert (x, r) (holdings w) \<and> (x, r) \<notin> holdings w" by blast
      have "sroots s' = R" using a(3) inv(3) by (simp add: same_machine_def)
      then show ?thesis using a inv(2) True by (auto simp: Obtain slab_ok_def split: if_splits)
    qed (use ok in \<open>simp add: Obtain\<close>)
  qed
next
  fix s L and y :: "nat \<times> nat" assume ok: "slab_ok Ts R s L" and y: "y \<in> L"
  obtain x r where xr: "y = (x, r)" by (cases y)
  from ok obtain w G A where inv: "slab_inv Ts s w G A" "holdings w = L" "sroots s = R" by (auto simp: slab_ok_def)
  have "w x = Some (Held r)" using y inv(2) by (auto simp: xr holdings_def)
  from SlabAllocator_Free_ok [OF inv(1) this] inv(2,3) show "\<exists>s'. SlabReturn y s = Inr s' \<and> slab_ok Ts R s' (L - {y})"
    unfolding xr slab_ok_def same_machine_def by (metis SlabReturn.simps)
next
  fix s L and x y :: "nat \<times> nat" assume "slab_ok Ts R s L" "x \<in> L" "y \<in> L" "x \<noteq> y"
  then show "\<not> obj_clash R x y" using hold_apart by (cases x; cases y) (auto simp: slab_ok_def)
qed

text \<open>The machine after start-up: empty caches on the page allocators.\<close>

definition slab_boot :: "slab_root list \<Rightarrow> nat list \<Rightarrow> pa_system \<Rightarrow> slab_sys" where
  "slab_boot R nids sys = \<lparr>sroots = R, cpu_nids = nids, my_cpu = 0, caches = (\<lambda>_. SlabCache_new),
     remote_list = (\<lambda>_ _. []), remote_cache = (\<lambda>_ _. None),
     sdata = (\<lambda>_. \<lparr>sd_list = [], sd_cache = None, sd_used = 0\<rparr>), pa = sys\<rparr>"

lemma slab_boot_ok:
  assumes "nodes_inv Ts sys A" "list_all root_ok R" "nids \<noteq> []" "list_all (\<lambda>n. n < length Ts) nids"
  shows "slab_ok Ts R (slab_boot R nids sys) {}"
proof -
  have "places_ok R (at_list (slab_boot R nids sys)) (\<lambda>_. None) (\<lambda>_. None)"
  proof -
    have "at_list (slab_boot R nids sys) l = []" for l
      by (cases l) (simp_all add: slab_boot_def SlabCache_new_def)
    then show ?thesis by (simp add: places_ok_def in_slab_def)
  qed
  then have "slab_inv Ts (slab_boot R nids sys) (\<lambda>_. None) (\<lambda>_. None) A"
    using assms by (simp add: slab_inv_def env_ok_def blocks_ok_def data_ok_def partial_ok_def remote_ok_def
        slab_boot_def SlabCache_new_def list_all_iff)
  moreover have "holdings (\<lambda>_. None) = {}" by (simp add: holdings_def)
  ultimately show ?thesis unfolding slab_ok_def by (metis slab_sys.select_convs(1) slab_boot_def)
qed

end
