(* ===== verification/SlabHistories.thy ===== *)
theory SlabHistories
  imports SlabSafety
begin

text \<open>
  Roots as their constructor makes them, the histories of clients on a small machine, and what happens to
  large objects freed on another node and to the slabs of a destroyed root.
\<close>

section \<open>Roots\<close>

lemma SlabOrder_loop_ge: "ord \<le> SlabOrder_loop sz m f ord"
proof (induction sz m f ord rule: SlabOrder_loop.induct)
  case (1 sz m f ord)
  show ?case
  proof (cases "m < ord \<or> (kPageSize * 2 ^ ord - kPageSize * 2 ^ ord div sz * sz) * f \<le> kPageSize * 2 ^ ord")
    case True
    then show ?thesis by (auto simp: SlabOrder_loop.simps [of sz m f ord] Let_def)
  next
    case False
    then have "SlabOrder_loop sz m f ord = SlabOrder_loop sz m f (Suc ord)"
      by (simp add: SlabOrder_loop.simps [of sz m f ord] Let_def)
    moreover have "Suc ord \<le> SlabOrder_loop sz m f (Suc ord)" using False by (intro "1.IH") auto
    ultimately show ?thesis by simp
  qed
qed

lemma SlabOrder_fits:
  assumes "1 < sz"
  shows "sz \<le> kPageSize * 2 ^ SlabOrder sz m f"
proof -
  let ?o = "if Fls (sz - 1) < kPageShift then 0 else Fls (sz - 1) - kPageShift + 1"
  have b: "sz - 1 < 2 ^ Suc (Fls (sz - 1))"
    using bit_width_bounds [of "sz - 1"] assms by (simp add: Fls_def)
  have "sz \<le> 4096 * 2 ^ ?o"
  proof (cases "Fls (sz - 1) < 12")
    case True
    then have "(2 :: nat) ^ Suc (Fls (sz - 1)) \<le> 2 ^ 12" by (intro power_increasing) auto
    then show ?thesis using b assms True by (simp add: kPageShift_def)
  next
    case False
    then have "Suc (Fls (sz - 1)) = 12 + ?o" by (simp add: kPageShift_def)
    then have "2 ^ Suc (Fls (sz - 1)) = (4096 :: nat) * 2 ^ ?o" by (simp only: power_add) simp
    then show ?thesis using b by linarith
  qed
  also have "\<dots> \<le> 4096 * 2 ^ SlabOrder sz m f"
    unfolding SlabOrder_def using SlabOrder_loop_ge by (intro mult_le_mono2 power_increasing) auto
  finally show ?thesis by (simp add: kPageSize_def kPageShift_def)
qed

lemma CalculateOrder_fits:
  assumes "CalculateOrder sz = Inr ord" "1 < sz"
  shows "sz \<le> kPageSize * 2 ^ ord" "ord \<le> kMaxOrder"
  using assms SlabOrder_fits [OF assms(2)]
  by (auto simp: CalculateOrder_def Let_def kMaxOrder_def split: if_splits)

lemma SlabAllocatorRoot_new_ok:
  assumes new: "SlabAllocatorRoot_new sz (2 ^ a) = Inr rt" and b: "3 \<le> a" "a < 63" "sz < 2 ^ 63"
  shows "root_ok rt" "slab_order rt \<le> kMaxOrder" "sz \<le> obj_size rt" "obj_size rt < sz + 2 ^ a + 8" "2 ^ a dvd obj_size rt"
    "obj_align rt = 2 ^ a" "free_batch rt = CalculateFreebatch (obj_size rt)"
proof -
  have a8: "(8 :: nat) \<le> 2 ^ a" using power_increasing [OF b(1), of "2 :: nat"] by simp
  have a63: "(2 :: nat) ^ a \<le> 2 ^ 62" using b(2) by (intro power_increasing) auto
  have dv: "(8 :: nat) dvd 2 ^ a" using le_imp_power_dvd [OF b(1), of "2 :: nat"] by simp
  have wa: "(of_nat (max (2 ^ a) 8) :: 64 word) = 2 ^ a" using a8 by (simp add: max_absorb1)
  have ua: "unat ((2 :: 64 word) ^ a) = 2 ^ a" 
  proof -
    have "(2 :: nat) ^ a < 2 ^ 64" using a63 by simp
    then have "unat (of_nat (2 ^ a) :: 64 word) = 2 ^ a" by (simp only: unsigned_of_nat) (use b(2) in \<open>simp add: take_bit_nat_eq_self\<close>)
    then show ?thesis by simp
  qed
  have "unat (align_Up (2 ^ a :: 64 word) (2 ^ 3)) = (2 ^ a + 2 ^ 3 - 1) div 2 ^ 3 * 2 ^ 3"
    using a63 ua by (subst unat_align_Up) auto
  also have "\<dots> = 2 ^ a" using dv by (auto elim!: dvdE)
  finally have "align_Up (2 ^ a :: 64 word) (2 ^ 3) = 2 ^ a" using ua by (simp only: word_unat_eq_iff)
  then have al: "align_Up (2 ^ a :: 64 word) 8 = 2 ^ a" by simp
  let ?m = "max sz 8"
  have um: "unat (of_nat ?m :: 64 word) = ?m" using b(3) by (simp add: unsigned_of_nat take_bit_nat_eq_self)
  let ?u = "(?m + 2 ^ a - 1) div 2 ^ a * 2 ^ a"
  have us: "unat (align_Up (of_nat ?m :: 64 word) (2 ^ a)) = ?u"
    using um a63 b(2,3) by (subst unat_align_Up) auto
  note ru = round_up_least [of "2 ^ a" ?m]
  have u: "2 ^ a dvd ?u" "?m \<le> ?u" "?u < ?m + 2 ^ a" using ru by simp_all
  from new obtain ord where o: "CalculateOrder ?u = Inr ord"
    "rt = \<lparr>obj_align = 2 ^ a, obj_size = ?u, slab_order = ord, free_batch = CalculateFreebatch ?u,
       hiwater = CalculateFreebatch ?u * 4\<rparr>"
    unfolding SlabAllocatorRoot_new_def wa al us Let_def by (auto simp: ua bindr_eq_Inr_iff)
  have "1 < ?u" using u(2) by linarith
  note C = CalculateOrder_fits [OF o(1) this]
  have f: "obj_size rt = ?u" "slab_order rt = ord" by (simp_all add: o(2))
  have "0 < ?u" using \<open>1 < ?u\<close> by linarith
  then show "root_ok rt" "slab_order rt \<le> kMaxOrder" unfolding root_ok_def f using C by blast+
  show "sz \<le> obj_size rt" "obj_size rt < sz + 2 ^ a + 8" "2 ^ a dvd obj_size rt" "obj_align rt = 2 ^ a"
    "free_batch rt = CalculateFreebatch (obj_size rt)" using u by (simp_all add: o(2))
qed

lemma batch_zero:
  assumes "0 < sz"
  shows "CalculateFreebatch sz = 0 \<longleftrightarrow> 2 ^ 18 < sz"
proof (cases "2 ^ 18 < sz")
  case True
  then show ?thesis by (simp add: CalculateFreebatch_def kPageSize_def kPageShift_def)
next
  case False
  then have "0 < 64 * kPageSize div sz" using assms by (simp add: kPageSize_def kPageShift_def div_greater_zero_iff)
  then show ?thesis using False by (simp add: CalculateFreebatch_def)
qed

text \<open>An object is aligned as the root was asked to.\<close>

lemma object_aligned:
  assumes "2 ^ a dvd obj_size rt" "x \<in> objs rt p" "p < 2 ^ 52" "2 ^ slab_order rt dvd p" "root_ok rt"
  shows "2 ^ a dvd x"
proof -
  let ?S = "4096 * 2 ^ slab_order rt :: nat"
  have S: "?S = 2 ^ (12 + slab_order rt)" by (simp add: power_add)
  have "2 ^ a \<le> ?S" using assms(1,5) by (auto simp: root_ok_def kPageSize_def kPageShift_def dest!: dvd_imp_le)
  then have "a \<le> 12 + slab_order rt" unfolding S by (rule power_le_imp_le_exp [rotated]) simp
  then have "2 ^ a dvd ?S" unfolding S by (rule le_imp_power_dvd)
  moreover have "?S dvd 4096 * p" using assms(4) by (intro mult_dvd_mono) auto
  ultimately have "2 ^ a dvd 4096 * p" by (rule dvd_trans)
  then show ?thesis using assms(1-3) by (auto simp: objs_def ToAddr_val mult.commute [of p])
qed

definition made :: "slab_root \<Rightarrow> bool" where
  "made rt \<longleftrightarrow> (\<exists>sz a. SlabAllocatorRoot_new sz (2 ^ a) = Inr rt \<and> 3 \<le> a \<and> a < 63 \<and> sz < 2 ^ 63)"

lemma made_ok: "made rt \<Longrightarrow> root_ok rt" "made rt \<Longrightarrow> obj_align rt dvd obj_size rt" "made rt \<Longrightarrow> \<exists>a. obj_align rt = 2 ^ a"
  using SlabAllocatorRoot_new_ok unfolding made_def by metis+

lemma made_align: "made rt \<Longrightarrow> 8 dvd obj_align rt"
proof -
  assume "made rt"
  then obtain a where "3 \<le> a" "obj_align rt = 2 ^ a" using SlabAllocatorRoot_new_ok(6) unfolding made_def by blast
  then show ?thesis using le_imp_power_dvd [of 3 a "2 :: nat"] by simp
qed

lemma hold_object:
  assumes "slab_ok Ts R s L" "(x, r) \<in> L"
  shows "x \<noteq> 0" "\<exists>n < length Ts. \<forall>b \<in> obj_bytes R (x, r). b div 4096 \<in> Ts ! n" "r < length R"
    "made (R ! r) \<Longrightarrow> obj_align (R ! r) dvd x"
proof -
  from assms(1) obtain w G A where inv: "slab_inv Ts s w G A" "holdings w = L" "sroots s = R" by (auto simp: slab_ok_def)
  note I = slab_invD [OF inv(1)]
  have "w x = Some (Held r)" using assms(2) inv(2) by (auto simp: holdings_def)
  from hold_slab [OF inv(1) this] obtain p c where i: "in_slab R G x p r c" by (auto simp: inv(3))
  have g: "G p = Some (r, c)" "x \<in> objs (R ! r) p" using i by (simp_all add: in_slab_def)
  note F = slab_facts [OF I(1,2) g(1), unfolded inv(3)]
  show "x \<noteq> 0" using object_facts(3) [OF I(1,2)] i inv(3) by blast
  show "r < length R" by (rule F(1))
  have "b div 4096 \<in> Ts ! (cpu_nids s ! c)" if "b \<in> obj_bytes R (x, r)" for b
    using slab_bytes [OF I(1,2), of x p r c b] i that inv(3) nodes_held(1) [OF I(7) F(5,4)] by simp
  then show "\<exists>n < length Ts. \<forall>b \<in> obj_bytes R (x, r). b div 4096 \<in> Ts ! n" using F(5) by blast
  assume m: "made (R ! r)"
  have "p < 2 ^ 52" using F(8) by (simp add: less_le_trans [of p "p + 2 ^ slab_order (R ! r)"])
  then show "obj_align (R ! r) dvd x"
    using made_ok [OF m] object_aligned [of _ "R ! r" x p] g(2) F(6) by metis
qed

section \<open>What other processors gave back\<close>

definition grows :: "cache_ix \<Rightarrow> slab_sys \<Rightarrow> slab_sys \<Rightarrow> bool" where
  "grows c s s' \<longleftrightarrow> set (remote_objs (caches s c)) \<subseteq> set (remote_objs (caches s' c))"

lemma grows_refl [simp]: "grows c s s"
  by (simp add: grows_def)

lemma grows_trans: "grows c s s' \<Longrightarrow> grows c s' s'' \<Longrightarrow> grows c s s''"
  by (auto simp: grows_def)

lemma grows_set [simp]:
  "remote_objs k = remote_objs (caches s d) \<Longrightarrow> grows c s (set_cache d k s)"
  "grows c s (set_remote r m xs s)" "grows c s (set_sdata p e s)" "grows c s (s\<lparr>pa := pa'\<rparr>)" "grows c s (s\<lparr>remote_cache := rc\<rparr>)"
  "grows c s (s\<lparr>my_cpu := m\<rparr>)" "grows c s (s\<lparr>sdata := D\<rparr>)"
  by (simp_all add: grows_def)

lemma FlushRemoteList_grows: "grows c s (FlushRemoteList r m s)"
  by (auto simp: FlushRemoteList_def grows_def Let_def split: option.splits list.splits)

lemma FreeRemote_grows:
  assumes "FreeRemote r m x s = Inr s'"
  shows "grows c s s'"
proof -
  define s1 where "s1 = (if sd_cache (sdata s (Pfn_Down x)) \<noteq> remote_cache s r m
    then let s0 = FlushRemoteList r m s
         in s0\<lparr>remote_cache := (remote_cache s0)(r := (remote_cache s0 r)(m := sd_cache (sdata s (Pfn_Down x))))\<rparr> else s)"
  define s2 where "s2 = set_remote r m (x # remote_list s1 r m) s1"
  have "grows c s s1" unfolding s1_def Let_def using FlushRemoteList_grows grows_trans by (auto simp: grows_def)
  then have "grows c s s2" unfolding s2_def by (rule grows_trans) simp
  moreover have "s' = s2 \<or> s' = FlushRemoteList r m s2"
    using assms unfolding FreeRemote_def Let_def s2_def s1_def by (auto split: option.splits if_splits)
  ultimately show ?thesis using FlushRemoteList_grows grows_trans by blast
qed

lemma FlushObject_grows: "FlushObject d x s = Inr s' \<Longrightarrow> grows c s s'"
  by (auto simp: FlushObject_def Let_def bindr_eq_Inr_iff grows_def FreeRemote_grows [unfolded grows_def, THEN subsetD]
      split: option.splits if_splits)

lemma FlushFreeList_grows: "FlushFreeList n d s = Inr s' \<Longrightarrow> grows c s s'"
proof (induction n arbitrary: s)
  case (Suc n)
  show ?case
  proof (cases "object_list (caches s d)")
    case (Cons x xs)
    let ?s1 = "set_cache d ((caches s d)\<lparr>object_list := xs\<rparr>) s"
    from Suc.prems Cons obtain s2 where 2: "FlushObject d x ?s1 = Inr s2" "FlushFreeList n d s2 = Inr s'"
      by (auto simp: bindr_eq_Inr_iff)
    have "grows c s ?s1" by simp
    then show ?thesis using FlushObject_grows [OF 2(1)] Suc.IH [OF 2(2)] grows_trans by blast
  qed (use Suc.prems in simp)
qed simp

lemma TrimFreeList_grows: "TrimFreeList n d s = Inr s' \<Longrightarrow> grows c s s'"
proof (induction n arbitrary: s)
  case (Suc n)
  then show ?case
    using FlushFreeList_grows grows_trans by (auto simp: bindr_eq_Inr_iff split: if_splits) blast
qed (auto split: if_splits)

lemma AllocPartial_grows:
  assumes "AllocPartial d s = Inr (x, s')"
  shows "grows c s s'" "remote_check (caches s' c) = remote_check (caches s c)"
  using assms by (auto simp: AllocPartial_def Let_def grows_def split: list.splits if_splits)

lemma CacheAlloc_grows:
  assumes "CacheAlloc n d s = Inr (x, s')" "d = c \<longrightarrow> \<not> remote_check (caches s c)"
  shows "grows c s s'" "d = c \<longrightarrow> \<not> remote_check (caches s' c)"
proof -
  have "grows c s s' \<and> (d = c \<longrightarrow> \<not> remote_check (caches s' c))" using assms
  proof (induction n arbitrary: s)
    case (Suc n)
    show ?case
    proof (cases "object_list (caches s d)")
      case (Cons y ys)
      then show ?thesis using Suc.prems by (auto simp: Let_def grows_def)
    next
      case Nil
      show ?thesis
      proof (cases "remote_check (caches s d)")
        case False
        then show ?thesis using Suc.prems Nil AllocPartial_grows [of d s x s' c] by simp
      next
        case True
        then have d: "d \<noteq> c" using Suc.prems(2) by auto
        let ?s0 = "set_cache d ((caches s d)\<lparr>remote_check := False\<rparr>) s"
        from Suc.prems(1) Nil True obtain s1 s2 where
          1: "ClaimRemoteFreeList d ?s0 = Inr s1" "TrimFreeList (length (object_list (caches s1 d))) d s1 = Inr s2"
            "CacheAlloc n d s2 = Inr (x, s')" by (auto simp: Let_def bindr_eq_Inr_iff)
        have "grows c s s1" using 1(1) d by (auto simp: ClaimRemoteFreeList_def Let_def grows_def split: if_splits)
        then show ?thesis using TrimFreeList_grows [OF 1(2)] Suc.IH [OF 1(3)] d grows_trans by blast
      qed
    qed
  qed simp
  then show "grows c s s'" "d = c \<longrightarrow> \<not> remote_check (caches s' c)" by simp_all
qed

lemma AddObjects_caches: "AddObjects n d p a s = Inr s' \<Longrightarrow> caches s' = caches s"
  by (induction n arbitrary: a s) (auto simp: Let_def split: option.splits)

lemma AddSlab_grows:
  assumes "AddSlab d p s = Inr s'"
  shows "grows c s s'" "remote_check (caches s' c) = remote_check (caches s c)"
  using assms by (auto simp: AddSlab_def Let_def bindr_eq_Inr_iff grows_def dest!: AddObjects_caches split: option.splits if_splits)

lemma SlabAllocator_Alloc_grows:
  assumes "SlabAllocator_Alloc r s = Inr (x, s')" "\<not> remote_check (caches s c)"
  shows "grows c s s'"
proof -
  let ?d = "CpuCache r (my_cpu s)"
  from assms(1) obtain y s1 where 1: "CacheAlloc 3 ?d s = Inr (y, s1)"
    by (auto simp: SlabAllocator_Alloc_def AllocOrGrow_def bindr_eq_Inr_iff)
  note C = CacheAlloc_grows [OF 1, of c]
  show ?thesis
  proof (cases "y = 0 \<and> s' \<noteq> s1")
    case False
    then show ?thesis using assms 1 C by (auto simp: SlabAllocator_Alloc_def AllocOrGrow_def)
  next
    case True
    from True assms(1) 1 obtain p pa' where
      2: "s' = s1\<lparr>pa := pa'\<rparr> \<or> (\<exists>s2. AddSlab ?d p (s1\<lparr>pa := pa'\<rparr>) = Inr s2 \<and> CacheAlloc 3 ?d s2 = Inr (x, s'))"
      by (auto simp: SlabAllocator_Alloc_def AllocOrGrow_def bindr_eq_Inr_iff split: if_splits)
    have g: "grows c s (s1\<lparr>pa := pa'\<rparr>)" "?d = c \<longrightarrow> \<not> remote_check (caches (s1\<lparr>pa := pa'\<rparr>) c)"
      using C assms(2) by (auto simp: grows_def)
    from 2 show ?thesis
    proof (elim disjE exE conjE)
      fix s2 assume 3: "AddSlab ?d p (s1\<lparr>pa := pa'\<rparr>) = Inr s2" "CacheAlloc 3 ?d s2 = Inr (x, s')"
      then show ?thesis using g AddSlab_grows [OF 3(1), of c] CacheAlloc_grows [OF 3(2), of c] grows_trans by metis
    qed (use g in simp)
  qed
qed

lemma SlabAllocator_Free_grows: "SlabAllocator_Free r x s = Inr s' \<Longrightarrow> grows c s s'"
proof -
  assume f: "SlabAllocator_Free r x s = Inr s'"
  let ?d = "CpuCache r (my_cpu s)"
  let ?s1 = "set_cache ?d ((caches s ?d)\<lparr>object_list := x # object_list (caches s ?d)\<rparr>) s"
  have "FreeRemote r (my_cpu s) x s = Inr s' \<or> s' = ?s1 \<or> (\<exists>n. FlushFreeList n ?d ?s1 = Inr s')"
    using f by (auto simp: SlabAllocator_Free_def CacheFree_def Let_def split: option.splits if_splits)
  moreover have "grows c s ?s1" by simp
  ultimately show ?thesis using FreeRemote_grows FlushFreeList_grows grows_trans by blast
qed

lemma serve_grows:
  assumes "slab_ok Ts R s L" "serve SlabAcquire SlabReturn reqs s L = Inr (s', L')" "free_batch (R ! cache_root c) = 0"
  shows "grows c s s'"
  using assms
proof (induction reqs arbitrary: s L)
  case (Cons q reqs)
  have nc: "\<not> remote_check (caches s c)"
    using Cons.prems(1,3) by (auto simp: slab_ok_def slab_inv_def remote_ok_def root_of_def)
  show ?case
  proof (cases q)
    case (Acquire a)
    from slabs.acq_ok [OF Cons.prems(1), of a] obtain y s1 where
      1: "SlabAcquire a s = Inr (y, s1)" "case y of None \<Rightarrow> slab_ok Ts R s1 L | Some z \<Rightarrow> z \<notin> L \<and> slab_ok Ts R s1 (insert z L)" by blast
    have "slab_ok Ts R s1 (case y of None \<Rightarrow> L | Some z \<Rightarrow> insert z L)" using 1(2) by (cases y) auto
    then have "grows c s1 s'" using Cons.IH Cons.prems(2,3) 1(1) by (simp add: Acquire)
    moreover have "grows c s s1"
      using 1(1) nc SlabAllocator_Alloc_grows by (cases a) (auto simp: bindr_eq_Inr_iff split: if_splits)
    ultimately show ?thesis using grows_trans by blast
  next
    case (Return y)
    show ?thesis
    proof (cases "y \<in> L")
      case True
      from slabs.ret_ok [OF Cons.prems(1) True] obtain s1 where
        1: "SlabReturn y s = Inr s1" "slab_ok Ts R s1 (L - {y})" by blast
      have "grows c s1 s'" using Cons.IH [OF 1(2)] Cons.prems(2,3) 1(1) True by (simp add: Return)
      moreover have "grows c s s1" using 1(1) SlabAllocator_Free_grows by (cases y) auto
      ultimately show ?thesis using grows_trans by blast
    next
      case False
      then show ?thesis using Cons.IH [OF Cons.prems(1)] Cons.prems(2,3) by (simp add: Return)
    qed
  qed
qed simp

section \<open>A small machine\<close>

text \<open>Two nodes with the frames 1024 to 2047 and 2048 to 4095.\<close>

definition slab_pages :: mem_map where
  "slab_pages p = (if p = 1024 then Some \<lparr>usage = kPageAllocator, nid = 0, order = 10\<rparr>
     else if p = 2048 then Some \<lparr>usage = kPageAllocator, nid = 1, order = 11\<rparr>
     else if p < 4096 then Some (Page_init (p div 2048)) else None)"

definition slab_nodes :: pa_system where
  "slab_nodes = \<lparr>allocators = [[[], [], [], [], [], [], [], [], [], [], [1024], []],
     [[], [], [], [], [], [], [], [], [], [], [], [2048]]], all_pages = slab_pages\<rparr>"

definition slab_Ts :: "pfn set list" where
  "slab_Ts = [{..<2048}, {2048..<4096}]"

lemma demo_free_blocks:
  "free_blocks (node_view slab_nodes 0) = {(1024, 10)}" "free_blocks (node_view slab_nodes 1) = {(2048, 11)}"
  by (subst free_blocks_enum; auto simp: node_view_def slab_nodes_def kMaxOrder_def blocks_of_def)+

lemma demo_territories: "territory {..<2048}" "territory {2048..<4096}"
proof -
  have e: "(2 :: nat) ^ 11 = 2048" by simp
  have d: "q div 2048 = 0 \<longleftrightarrow> q < 2048" "q div 2048 = 1 \<longleftrightarrow> 2048 \<le> q \<and> q < 4096" for q :: nat by linarith+
  have "q < 2048" if "p < 2048" "q div 2048 = p div 2048" for p q :: nat using that d(1) by metis
  moreover have "{..<2048} \<subseteq> {..<2 ^ 52 :: nat}" by simp
  ultimately show "territory {..<2048}" unfolding territory_def kMaxOrder_def e by (intro conjI ballI allI impI) (auto simp only: lessThan_iff atLeastLessThan_iff)
  have "2048 \<le> q \<and> q < 4096" if "2048 \<le> p" "p < 4096" "q div 2048 = p div 2048" for p q :: nat using that d(2) by metis
  moreover have "{2048..<4096} \<subseteq> {..<2 ^ 52 :: nat}" by auto
  ultimately show "territory {2048..<4096}" unfolding territory_def kMaxOrder_def e by (intro conjI ballI allI impI) (auto simp only: lessThan_iff atLeastLessThan_iff)
qed

lemma slab_nodes_inv: "nodes_inv slab_Ts slab_nodes (\<lambda>_. {})"
proof -
  have u: "usage (Page_init n) = kReserved" for n by (simp add: Page_init_def)
  have m: "marked slab_pages p \<longleftrightarrow> p = 1024 \<or> p = 2048" for p
    by (auto simp: marked_def slab_pages_def u)
  have ma: "marked_at slab_pages 1024 10" "marked_at slab_pages 2048 11" by (simp_all add: marked_at_def slab_pages_def)
  have pg: "slab_pages p \<noteq> None" if "p < 4096" for p using that by (simp add: slab_pages_def)
  have b: "blk 1024 10 = {1024..<2048}" "blk 2048 11 = {2048..<4096}" by (simp_all add: blk_def)
  have ib: "is_block {..<2048} slab_pages (1024, 10)" "is_block {2048..<4096} slab_pages (2048, 11)"
    using pg by (auto simp: is_block_def b kMaxOrder_def)
  have ls: "lists_ok (node_view slab_nodes 0)" "lists_ok (node_view slab_nodes 1)"
    by (auto simp: lists_ok_def node_view_def slab_nodes_def kMaxOrder_def)
  have ps: "pages (node_view slab_nodes n) = slab_pages" for n by (simp add: node_view_def slab_nodes_def)
  have 0: "pa_inv {..<2048} (node_view slab_nodes 0) {} {}"
    using demo_territories ls ib ma unfolding pa_inv_def demo_free_blocks ps
    by (auto simp: disjoint_blocks_def m cover_def b)
  have 1: "pa_inv {2048..<4096} (node_view slab_nodes 1) {} {}"
    using demo_territories ls ib ma unfolding pa_inv_def demo_free_blocks ps
    by (auto simp: disjoint_blocks_def m cover_def b)
  have n0: "nid pg = 0" if "slab_pages p = Some pg" "p < 2048" for p pg
    using that by (auto simp: slab_pages_def Page_init_def split: if_splits)
  have n1: "nid pg = 1" if "slab_pages p = Some pg" "2048 \<le> p" "p < 4096" for p pg
  proof -
    have "p div 2048 = 1" using that(2,3) by linarith
    then show ?thesis using that by (auto simp: slab_pages_def Page_init_def split: if_splits)
  qed
  have ap: "all_pages slab_nodes = slab_pages" "length (allocators slab_nodes) = 2" by (simp_all add: slab_nodes_def)
  show ?thesis unfolding nodes_inv_def slab_Ts_def ap using 0 1 n0 n1
    by (auto simp: less_Suc_eq numeral_2_eq_2 demo_free_blocks [unfolded One_nat_def] cover_def b)
qed

definition root_512k :: slab_root where
  "root_512k = \<lparr>obj_align = 8, obj_size = 524288, slab_order = 7, free_batch = 0, hiwater = 0\<rparr>"

definition root_2k :: slab_root where
  "root_2k = \<lparr>obj_align = 8, obj_size = 2048, slab_order = 0, free_batch = 128, hiwater = 512\<rparr>"

lemma demo_new: "SlabAllocatorRoot_new 524288 8 = Inr root_512k" "SlabAllocatorRoot_new 2048 8 = Inr root_2k"
  by code_simp+

lemma demo_made: "made root_512k" "made root_2k"
proof -
  show "made root_512k" unfolding made_def by (rule exI [of _ 524288], rule exI [of _ 3]) (simp add: demo_new)
  show "made root_2k" unfolding made_def by (rule exI [of _ 2048], rule exI [of _ 3]) (simp add: demo_new)
qed

definition lost_run :: "slab_sys \<times> (nat \<times> nat) set" where
  "lost_run = projr (serve SlabAcquire SlabReturn [Acquire (Obtain 0), Acquire (OnCpu 1), Return (4194304, 0)]
     (slab_boot [root_512k] [0, 1] slab_nodes) {})"

lemma demo_boot_ok:
  assumes "made rt" "n < 2" "m < 2"
  shows "slab_ok slab_Ts [rt] (slab_boot [rt] [n, m] slab_nodes) {}"
  using assms made_ok(1) by (intro slab_boot_ok [OF slab_nodes_inv]) (simp_all add: slab_Ts_def)

lemma lost_run_eq:
  "serve SlabAcquire SlabReturn [Acquire (Obtain 0), Acquire (OnCpu 1), Return (4194304, 0)]
     (slab_boot [root_512k] [0, 1] slab_nodes) {} = Inr (fst lost_run, {})"
  "slab_ok slab_Ts [root_512k] (fst lost_run) {}"
proof -
  have b: "slab_ok slab_Ts [root_512k] (slab_boot [root_512k] [0, 1] slab_nodes) {}"
    by (rule demo_boot_ok) (simp_all add: demo_made)
  have "snd lost_run = {}" by code_simp
  with slabs.serve_ok [OF b, of "[Acquire (Obtain 0), Acquire (OnCpu 1), Return (4194304, 0)]"]
  show "serve SlabAcquire SlabReturn [Acquire (Obtain 0), Acquire (OnCpu 1), Return (4194304, 0)]
     (slab_boot [root_512k] [0, 1] slab_nodes) {} = Inr (fst lost_run, {})"
    "slab_ok slab_Ts [root_512k] (fst lost_run) {}"
    unfolding lost_run_def by auto
qed

lemma lost_run_remote: "remote_objs (caches (fst lost_run) (CpuCache 0 0)) = [4194304]"
  by code_simp

section \<open>Properties\<close>

text \<open>C2: The slab allocator hands out what is free.  On a machine with any number of nodes, processors and
  roots, every history of allocations and frees, with every request on any processor, runs without a
  fault.  Two objects that clients hold never overlap; an object lies in frames of one node, is
  not the null pointer and is aligned as its root was asked to; and every object of every slab is in
  exactly one place (\<open>slab_ok\<close>).\<close>

theorem slab_histories:
  assumes "nodes_inv Ts sys A" "list_all made R" "nids \<noteq> []" "list_all (\<lambda>n. n < length Ts) nids"
  shows "\<exists>s L. serve SlabAcquire SlabReturn reqs (slab_boot R nids sys) {} = Inr (s, L) \<and> slab_ok Ts R s L \<and>
    (\<forall>a \<in> L. \<forall>b \<in> L. a \<noteq> b \<longrightarrow> obj_bytes R a \<inter> obj_bytes R b = {}) \<and>
    (\<forall>(x, r) \<in> L. x \<noteq> 0 \<and> obj_align (R ! r) dvd x \<and>
       (\<exists>n < length Ts. \<forall>b \<in> obj_bytes R (x, r). b div 4096 \<in> Ts ! n))"
proof -
  have "slab_ok Ts R (slab_boot R nids sys) {}"
    using assms made_ok(1) by (intro slab_boot_ok) (auto simp: list_all_iff)
  from slabs.serve_ok [OF this, of reqs] obtain s L where
    1: "serve SlabAcquire SlabReturn reqs (slab_boot R nids sys) {} = Inr (s, L)" "slab_ok Ts R s L" by blast
  have "obj_bytes R a \<inter> obj_bytes R b = {}" if "a \<in> L" "b \<in> L" "a \<noteq> b" for a b
    using slabs.live_apart [OF 1(2) that] by (simp add: obj_clash_def)
  moreover have "x \<noteq> 0 \<and> obj_align (R ! r) dvd x \<and> (\<exists>n < length Ts. \<forall>b \<in> obj_bytes R (x, r). b div 4096 \<in> Ts ! n)"
    if "(x, r) \<in> L" for x r
    using hold_object [OF 1(2) that] assms(2) by (simp add: list_all_length)
  ultimately show ?thesis using 1 by blast
qed

theorem slab_histories_witness:
  "\<exists>s L. serve SlabAcquire SlabReturn [Acquire (Obtain 0), Acquire (OnCpu 1), Return (4194304, 0)]
      (slab_boot [root_512k] [0, 1] slab_nodes) {} = Inr (s, L) \<and> slab_ok slab_Ts [root_512k] s L"
  using slab_histories [OF slab_nodes_inv, of "[root_512k]" "[0, 1]"
      "[Acquire (Obtain 0), Acquire (OnCpu 1), Return (4194304, 0)]"] demo_made
  by (auto simp: slab_Ts_def)

text \<open>C24: Objects of more than 256 kilobytes that are freed on another node are lost.  The free batch of their root is
  0, so giving them back never sets \<open>remote_check\<close> and their cache never claims them: in every later
  state they are still on the list of remotely freed objects, and no client gets them again.\<close>

theorem large_remote_lost:
  assumes "slab_ok Ts R s L" "SlabAllocatorRoot_new sz (2 ^ a) = Inr (R ! r)" "3 \<le> a" "a < 63" "2 ^ 18 < sz" "sz < 2 ^ 63"
    and "x \<in> set (remote_objs (caches s (CpuCache r m)))"
    and "serve SlabAcquire SlabReturn reqs s L = Inr (s', L')"
  shows "x \<in> set (remote_objs (caches s' (CpuCache r m))) \<and> (x, q) \<notin> L'"
proof -
  note N = SlabAllocatorRoot_new_ok [OF assms(2,3,4,6)]
  have "free_batch (R ! r) = 0" using N(3,7) batch_zero [of "obj_size (R ! r)"] assms(5) by simp
  then have g: "x \<in> set (remote_objs (caches s' (CpuCache r m)))"
    using serve_grows [OF assms(1,8), of "CpuCache r m"] assms(7) by (auto simp: grows_def)
  from slabs.serve_ok [OF assms(1), of reqs] assms(8) obtain w G A where
    i: "slab_inv Ts s' w G A" "holdings w = L'" by (auto simp: slab_ok_def)
  have "w x = Some (InRem (CpuCache r m))"
    using places_okD(2) [OF slab_invD(6) [OF i(1)], of "InRem (CpuCache r m)" x] g by simp
  then show ?thesis using g i(2) by (auto simp: holdings_def)
qed

theorem large_remote_lost_witness:
  "\<exists>s L. serve SlabAcquire SlabReturn [Acquire (OnCpu 0), Acquire (Obtain 0)] (fst lost_run) {} = Inr (s, L) \<and>
     4194304 \<in> set (remote_objs (caches s (CpuCache 0 0))) \<and> (4194304, 0) \<notin> L"
proof -
  from slabs.serve_ok [OF lost_run_eq(2)] obtain s L where
    1: "serve SlabAcquire SlabReturn [Acquire (OnCpu 0), Acquire (Obtain 0)] (fst lost_run) {} = Inr (s, L)" by blast
  have r: "SlabAllocatorRoot_new 524288 (2 ^ 3) = Inr ([root_512k] ! 0)" using demo_new by simp
  show ?thesis using large_remote_lost [OF lost_run_eq(2) r _ _ _ _ _ 1, of 4194304 0 0] 1 lost_run_remote by simp
qed

text \<open>The destructor of a root can leak a slab although every object was given back.  Two processors of one
  node: the first allocates two objects, the second frees one of them into its own cache, the first
  frees the other.  The destructor, on the first processor, flushes the remote list of this processor
  before it flushes the cache of the second, which puts the object on that list: it stays there, and
  the frame of its slab is in no free list.\<close>

theorem root_delete_leaks:
  "\<exists>s s'. serve SlabAcquire SlabReturn
      [Acquire (Obtain 0), Acquire (Obtain 0), Acquire (OnCpu 1), Return (4196352, 0), Acquire (OnCpu 0), Return (4194304, 0)]
      (slab_boot [root_2k] [0, 0] slab_nodes) {} = Inr (s, {}) \<and>
    Root_delete 0 s = Inr s' \<and> remote_list s' 0 0 = [4196352] \<and>
    allocators (pa s') ! 0 = [[1025], [1026], [1028], [1032], [1040], [1056], [1088], [1152], [1280], [1536], [], []]"
proof -
  let ?r = "serve SlabAcquire SlabReturn
      [Acquire (Obtain 0), Acquire (Obtain 0), Acquire (OnCpu 1), Return (4196352, 0), Acquire (OnCpu 0), Return (4194304, 0)]
      (slab_boot [root_2k] [0, 0] slab_nodes) {}"
  have 1: "isl ?r = False" "snd (projr ?r) = {}" by code_simp+
  have 2: "isl (Root_delete 0 (fst (projr ?r))) = False"
    "remote_list (projr (Root_delete 0 (fst (projr ?r)))) 0 0 = [4196352]"
    "allocators (pa (projr (Root_delete 0 (fst (projr ?r))))) ! 0 =
      [[1025], [1026], [1028], [1032], [1040], [1056], [1088], [1152], [1280], [1536], [], []]" by code_simp+
  have "?r = Inr (fst (projr ?r), {})" using 1 by (metis prod.collapse sum.collapse(2))
  moreover have "Root_delete 0 (fst (projr ?r)) = Inr (projr (Root_delete 0 (fst (projr ?r))))"
    using 2(1) by (metis sum.collapse(2))
  ultimately show ?thesis using 2(2,3) by blast
qed

end
