(* ===== verification/GpAllocator.thy ===== *)
theory GpAllocator
  imports SlabHistories
begin

text \<open>
  The general purpose allocator (\<open>src/src/native/GeneralPurposeAllocator.h\<close>): size classes over the slab
  allocator.  The roots of the classes are the roots of the slab system, in the order of the
  classes.  Requests above the largest class take regions of virtual memory; that branch
  is the argument \<open>large\<close>.
\<close>

definition gp_sizes :: "nat list" where
  "gp_sizes = [8, 16, 32, 64, 96, 128, 192, 256, 512, 1024, 2 * 1024, 4 * 1024, 8 * 1024,
     16 * 1024, 32 * 1024, 64 * 1024, 128 * 1024, 256 * 1024, 512 * 1024,
     1024 * 1024, 2 * 1024 * 1024, 4 * 1024 * 1024, 8 * 1024 * 1024]"

text \<open>The default alignment of a root is 0.\<close>

primrec gp_Construct :: "nat list \<Rightarrow> slab_root list result" where
  "gp_Construct [] = Inr []"
| "gp_Construct (head # rest) =
    bindr (SlabAllocatorRoot_new head 0) (\<lambda>r. bindr (gp_Construct rest) (\<lambda>rs. Inr (r # rs)))"

fun Indexer :: "nat \<Rightarrow> nat list \<Rightarrow> nat \<Rightarrow> int" where
  "Indexer index [] sz = -1"
| "Indexer index (head # rest) sz = (if sz \<le> head then int index else Indexer (index + 1) rest sz)"

type_synonym large_alloc = "nat \<Rightarrow> nat \<Rightarrow> slab_sys \<Rightarrow> (nat \<times> slab_sys) result"

definition gp_Alloc :: "large_alloc \<Rightarrow> nat \<Rightarrow> slab_sys \<Rightarrow> (nat \<times> slab_sys) result" where
  "gp_Alloc large sz s =
    (let index = Indexer 0 gp_sizes sz in
     if index \<noteq> -1
     then bindr (SlabAllocator_Alloc (nat index) s) (\<lambda>(ret, s').
       if ret = 0 then Inl (KAbort ''Failed to allocate from this NUMA node, should try others'') else Inr (ret, s'))
     else large sz 0 s)"

definition gp_Alloc_aligned :: "large_alloc \<Rightarrow> nat \<Rightarrow> nat \<Rightarrow> slab_sys \<Rightarrow> (nat \<times> slab_sys) result" where
  "gp_Alloc_aligned large sz alignment s =
    (let index = Indexer 0 gp_sizes sz in
     if index \<noteq> -1
     then bindr (SlabAllocator_Alloc (nat index) s) (\<lambda>(ret, s').
       if ret = 0 then Inl (KAbort ''Failed to allocate from this NUMA node, should try others'') else Inr (ret, s'))
     else large sz alignment s)"

definition gp_AllocNid :: "nat \<Rightarrow> nat \<Rightarrow> slab_sys \<Rightarrow> (nat \<times> slab_sys) result" where
  "gp_AllocNid sz n s =
    (let index = Indexer 0 gp_sizes sz in
     if index = -1 then Inl (KAbort ''Attempt to allocate bytes not supported'')
     else bindr (SlabAllocator_AllocNid (nat index) n s) (\<lambda>(ret, s').
       if ret = 0 then Inl (KAbort ''Failed to allocate from this NUMA node, should try others'') else Inr (ret, s')))"

text \<open>A large region is not given back: the code prints a message.\<close>

definition gp_Free :: "nat \<Rightarrow> slab_sys \<Rightarrow> slab_sys result" where
  "gp_Free x s =
    (if x = 0 then Inr s
     else if 0xFFFF800000000000 < x then Inr s
     else case all_pages (pa s) (Pfn_Down x) of
       None \<Rightarrow> Inl (KAssert ''page != nullptr'')
     | Some _ \<Rightarrow> (case sd_cache (sdata s (Pfn_Down x)) of
         None \<Rightarrow> Inl (Undefined ''cache->root_'')
       | Some c \<Rightarrow> SlabAllocator_Free (cache_root c) x s))"

section \<open>Size classes\<close>

definition gp_roots :: "slab_root list" where
  "gp_roots = projr (gp_Construct gp_sizes)"

lemma root_align_0: "SlabAllocatorRoot_new sz 0 = SlabAllocatorRoot_new sz (2 ^ 3)"
  by (simp add: SlabAllocatorRoot_new_def)

lemma root_new_8:
  assumes "8 dvd sz" "8 \<le> sz" "sz < 2 ^ 63" "CalculateOrder sz = Inr ord"
  shows "\<exists>rt. SlabAllocatorRoot_new sz 0 = Inr rt \<and> obj_size rt = sz"
proof -
  have a: "align_Up (8 :: 64 word) 8 = 8" by code_simp
  have u: "unat (of_nat sz :: 64 word) = sz" using assms(3) by (simp add: unsigned_of_nat take_bit_nat_eq_self)
  then have "unat (align_Up (of_nat sz :: 64 word) (2 ^ 3)) = (sz + 2 ^ 3 - 1) div 2 ^ 3 * 2 ^ 3"
    using assms(3) by (subst unat_align_Up) auto
  also have "\<dots> = sz" using assms(1) by (auto elim!: dvdE)
  finally have "unat (align_Up (of_nat sz :: 64 word) 8) = sz" by simp
  then show ?thesis using assms(2,4) a by (simp add: SlabAllocatorRoot_new_def Let_def max_absorb1)
qed

lemma CalculateOrder_ok:
  assumes "1 < sz" "sz \<le> 2 ^ 23"
  shows "\<exists>ord. CalculateOrder sz = Inr ord"
proof -
  have "bit_width (sz - 1) \<le> 23" using assms by (intro bit_width_le) auto
  then have o: "(if Fls (sz - 1) < kPageShift then 0 else Fls (sz - 1) - kPageShift + 1) \<le> kMaxOrder"
    by (auto simp: Fls_def kPageShift_def kMaxOrder_def)
  have "SlabOrder_loop sz kMaxOrder 0 ord = ord" for ord by (simp add: SlabOrder_loop.simps Let_def)
  then have "SlabOrder sz kMaxOrder 0 \<le> kMaxOrder" using o by (simp only: SlabOrder_def)
  then show ?thesis by (simp add: CalculateOrder_def Let_def)
qed

lemma gp_Construct_sizes:
  assumes "list_all (\<lambda>sz. 8 dvd sz \<and> 8 \<le> sz \<and> sz \<le> 2 ^ 23) szs"
  shows "\<exists>rs. gp_Construct szs = Inr rs \<and> map obj_size rs = szs"
  using assms
proof (induction szs)
  case (Cons sz szs)
  then obtain rs where 1: "gp_Construct szs = Inr rs" "map obj_size rs = szs" by auto
  from Cons.prems obtain ord where "CalculateOrder sz = Inr ord" using CalculateOrder_ok [of sz] by auto
  then obtain rt where "SlabAllocatorRoot_new sz 0 = Inr rt" "obj_size rt = sz"
    using Cons.prems root_new_8 [of sz ord] by auto
  then show ?case using 1 by simp
qed simp

lemma gp_roots_made:
  "gp_Construct gp_sizes = Inr gp_roots" "map obj_size gp_roots = gp_sizes" "length gp_roots = length gp_sizes"
proof -
  have "list_all (\<lambda>sz. 8 dvd sz \<and> 8 \<le> sz \<and> sz \<le> 2 ^ 23) gp_sizes" by (simp add: gp_sizes_def)
  from gp_Construct_sizes [OF this]
  show "gp_Construct gp_sizes = Inr gp_roots" "map obj_size gp_roots = gp_sizes" by (auto simp: gp_roots_def)
  then show "length gp_roots = length gp_sizes" by (metis length_map)
qed

lemma gp_root_size: "i < length gp_sizes \<Longrightarrow> obj_size (gp_roots ! i) = gp_sizes ! i"
  using gp_roots_made(2,3) by (metis nth_map)

lemma gp_Construct_made: "gp_Construct szs = Inr rs \<Longrightarrow> \<forall>sz \<in> set szs. sz < 2 ^ 63 \<Longrightarrow> list_all made rs"
proof (induction szs arbitrary: rs)
  case (Cons sz szs)
  from Cons.prems(1) obtain r rs' where
    1: "SlabAllocatorRoot_new sz (2 ^ 3) = Inr r" "gp_Construct szs = Inr rs'" "rs = r # rs'"
    by (auto simp: bindr_eq_Inr_iff root_align_0)
  have "made r" using 1(1) Cons.prems(2) unfolding made_def by (intro exI [of _ sz] exI [of _ 3]) auto
  then show ?case using Cons.IH [OF 1(2)] Cons.prems(2) 1(3) by simp
qed simp

lemma gp_roots_all: "list_all made gp_roots"
  using gp_Construct_made [OF gp_roots_made(1)] by (simp add: gp_sizes_def)

lemma Indexer_cases:
  "Indexer i szs sz = -1 \<and> (\<forall>h \<in> set szs. h < sz) \<or>
   (\<exists>j < length szs. Indexer i szs sz = int (i + j) \<and> sz \<le> szs ! j \<and> (\<forall>k < j. szs ! k < sz))"
proof (induction szs arbitrary: i)
  case (Cons h szs)
  show ?case
  proof (cases "sz \<le> h")
    case False
    from Cons.IH [of "i + 1"] show ?thesis
    proof (elim disjE exE conjE)
      fix j assume j: "j < length szs" "Indexer (i + 1) szs sz = int (i + 1 + j)" "sz \<le> szs ! j" "\<forall>k < j. szs ! k < sz"
      then have "\<forall>k < Suc j. (h # szs) ! k < sz" using False by (auto simp: less_Suc_eq_0_disj)
      then show ?thesis using j False by (intro disjI2 exI [of _ "Suc j"]) simp
    qed (use False in simp)
  qed auto
qed simp

text \<open>The cache in the descriptor of a held object belongs to the root of the object.\<close>

lemma gp_Free_root:
  assumes "slab_ok Ts R s L" "(x, r) \<in> L" "\<forall>T \<in> set Ts. T \<subseteq> {..<2 ^ 34}"
  shows "gp_Free x s = SlabAllocator_Free r x s"
proof -
  from assms(1) obtain w G A where inv: "slab_inv Ts s w G A" "holdings w = L" "sroots s = R" by (auto simp: slab_ok_def)
  note I = slab_invD [OF inv(1)]
  have "w x = Some (Held r)" using assms(2) inv(2) by (auto simp: holdings_def)
  from hold_slab [OF inv(1) this] obtain p c where i: "in_slab (sroots s) G x p r c" by blast
  have g: "G p = Some (r, c)" "x \<in> objs (sroots s ! r) p" using i by (simp_all add: in_slab_def)
  have cache: "sd_cache (sdata s (Pfn_Down x)) = Some (CpuCache r c)" using I(3) g by (auto simp: data_ok_def)
  from object_facts(4) [OF I(1,2) i] obtain pg where pg: "all_pages (pa s) (Pfn_Down x) = Some pg" by blast
  have "0 < obj_size (R ! r)" using slab_facts(3) [OF I(1,2) g(1)] by (simp add: root_ok_def inv(3))
  then have "x \<in> obj_bytes R (x, r)" by (simp add: obj_bytes_def)
  with hold_object(2) [OF assms(1,2)] obtain n where n: "n < length Ts" "x div 4096 \<in> Ts ! n" by blast
  have "x div 4096 < 2 ^ 34" using n assms(3) nth_mem by blast
  then have "\<not> 0xFFFF800000000000 < x" by simp
  moreover have "x \<noteq> 0" by (rule hold_object(1) [OF assms(1,2)])
  ultimately show ?thesis using pg cache by (simp add: gp_Free_def)
qed

section \<open>Properties\<close>

text \<open>C13: The general purpose allocator serves every request up to 8 megabytes from the smallest class that fits, or
  stops the machine because the node has no memory.  The object overlaps nothing that is held and is
  aligned to 8 bytes, and freeing it by its address alone gives it back to the class it is from, from which
  state everything else is held as before.\<close>

theorem gp_alloc_free:
  assumes ok: "slab_ok Ts gp_roots s L" and T: "\<forall>T \<in> set Ts. T \<subseteq> {..<2 ^ 34}" and sz: "sz \<le> 2 ^ 23"
  shows "gp_Alloc large sz s = Inl (KAbort ''Failed to allocate from this NUMA node, should try others'') \<or>
    (\<exists>x s' r s''. gp_Alloc large sz s = Inr (x, s') \<and> x \<noteq> 0 \<and> 8 dvd x \<and>
       r < length gp_sizes \<and> sz \<le> gp_sizes ! r \<and> (\<forall>k < r. gp_sizes ! k < sz) \<and>
       slab_ok Ts gp_roots s' (insert (x, r) L) \<and> (\<forall>y \<in> L. obj_bytes gp_roots (x, r) \<inter> obj_bytes gp_roots y = {}) \<and>
       gp_Free x s' = Inr s'' \<and> slab_ok Ts gp_roots s'' L)"
proof -
  have "2 ^ 23 \<in> set gp_sizes" by (simp add: gp_sizes_def)
  then have "\<not> (\<forall>h \<in> set gp_sizes. h < sz)" using sz by (meson linorder_not_less)
  with Indexer_cases [of 0 gp_sizes sz] obtain r where
    r: "r < length gp_sizes" "Indexer 0 gp_sizes sz = int r" "sz \<le> gp_sizes ! r" "\<forall>k < r. gp_sizes ! k < sz" by auto
  have rl: "r < length (sroots s)" using ok r(1) gp_roots_made(3) by (simp add: slab_ok_def)
  from slabs.acq_ok [OF ok, of "Obtain r"] obtain y s' where
    a: "SlabAcquire (Obtain r) s = Inr (y, s')"
      "case y of None \<Rightarrow> slab_ok Ts gp_roots s' L | Some z \<Rightarrow> z \<notin> L \<and> slab_ok Ts gp_roots s' (insert z L)" by blast
  then obtain x where x: "SlabAllocator_Alloc r s = Inr (x, s')" "y = (if x = 0 then None else Some (x, r))"
    using rl by (auto simp: bindr_eq_Inr_iff)
  have E: "gp_Alloc large sz s =
      (if x = 0 then Inl (KAbort ''Failed to allocate from this NUMA node, should try others'') else Inr (x, s'))"
    unfolding gp_Alloc_def r(2) Let_def using x(1) by simp
  show ?thesis
  proof (cases "x = 0")
    case False
    then have n: "(x, r) \<notin> L" "slab_ok Ts gp_roots s' (insert (x, r) L)" using a(2) x(2) by simp_all
    have m: "made (gp_roots ! r)" using gp_roots_all r(1) gp_roots_made(3) by (simp add: list_all_length)
    have "obj_align (gp_roots ! r) dvd x" using hold_object(4) [OF n(2) insertI1 m] .
    moreover have "8 dvd obj_align (gp_roots ! r)" by (rule made_align [OF m])
    ultimately have al: "8 dvd x" by (meson dvd_trans)
    have "obj_bytes gp_roots (x, r) \<inter> obj_bytes gp_roots z = {}" if "z \<in> L" for z
      using slabs.live_apart [OF n(2) insertI1, of z] that n(1) by (auto simp: obj_clash_def)
    moreover from slabs.ret_ok [OF n(2) insertI1] obtain s'' where
      f: "SlabAllocator_Free r x s' = Inr s''" "slab_ok Ts gp_roots s'' L" using n(1) by auto
    moreover have "gp_Free x s' = Inr s''" using gp_Free_root [OF n(2) insertI1 T] f(1) by simp
    ultimately show ?thesis using E False r(1,3,4) al n(2)
      by (intro disjI2 exI [of _ x] exI [of _ s'] exI [of _ r] exI [of _ s'']) simp
  qed (simp add: E)
qed

lemma gp_boot_ok: "slab_ok slab_Ts gp_roots (slab_boot gp_roots [0, 1] slab_nodes) {}"
  using gp_roots_all made_ok(1)
  by (intro slab_boot_ok [OF slab_nodes_inv]) (auto simp: slab_Ts_def list_all_iff)

theorem gp_alloc_free_witness:
  "gp_Alloc (\<lambda>_ _ _. Inl (KAbort [])) 100 (slab_boot gp_roots [0, 1] slab_nodes) =
      Inl (KAbort ''Failed to allocate from this NUMA node, should try others'') \<or>
    (\<exists>x s' s''. gp_Alloc (\<lambda>_ _ _. Inl (KAbort [])) 100 (slab_boot gp_roots [0, 1] slab_nodes) = Inr (x, s') \<and>
       8 dvd x \<and> gp_Free x s' = Inr s'' \<and> slab_ok slab_Ts gp_roots s'' {})"
proof -
  have "\<forall>T \<in> set slab_Ts. T \<subseteq> {..<2 ^ 34}" by (auto simp: slab_Ts_def)
  from gp_alloc_free [OF gp_boot_ok this, of 100 "\<lambda>_ _ _. Inl (KAbort [])"] show ?thesis by auto
qed

text \<open>The alignment is not looked at for a request that a class serves.\<close>

lemma gp_alignment_ignored: "sz \<le> 2 ^ 23 \<Longrightarrow> gp_Alloc_aligned large sz alignment s = gp_Alloc large sz s"
proof -
  assume "sz \<le> 2 ^ 23"
  then have "\<not> (\<forall>h \<in> set gp_sizes. h < sz)" by (auto simp: gp_sizes_def)
  then have "Indexer 0 gp_sizes sz \<noteq> -1" using Indexer_cases [of 0 gp_sizes sz] by auto
  then show ?thesis by (simp add: gp_Alloc_aligned_def gp_Alloc_def Let_def)
qed

end
