(* ===== verification/Spec2Isabelle.thy ===== *)
theory Spec2Isabelle
  imports PageAllocator IdPool IOBuf NetTcpState RcuTable NetConn NetArp EventStacks MemSections PageTables GpAllocator
begin

text \<open>
  A verification library for EbbRT, a library operating system in C++.  The sources are under \<open>src/src\<close>:
  the code common to both platforms there, the bare-metal platform in \<open>native\<close>, the part that runs as a
  process of another system in \<open>hosted\<close>.

  \<^bold>\<open>The program and the theories.\<close>  A machine boots with the memory map of the firmware.  The early
  page allocator holds the free memory as ranges, the memory map gets one descriptor for each frame, and
  the buddy page allocator of each node takes the ranges over.  Page tables and the regions of virtual
  memory stand on the page allocator; the event manager runs everything else, one event at a time on each
  processor, with stacks from the virtual memory and grace periods for the lock-free lists and tables.
  The network stack receives and sends chains of buffers through Ethernet, ARP, IP, ICMP, UDP and TCP, and
  looks its connections up in the lock-free tables.

  \<^item> \<open>EbbPrelude\<close>: faults, sequencing (\<open>bindr\<close>), machine integers.  A failed \<open>kassert\<close>, \<open>kbugon\<close> and
    \<open>kabort\<close>, a C++ exception and a violated precondition of the language or of a container are values
    (\<open>Inl\<close>) of every operation that can end in them.
  \<^item> \<open>PhysMem\<close> (\<open>Pfn.h\<close>, \<open>PMem.h\<close>, \<open>Align.h\<close>), \<open>BuddyArith\<close>: frame numbers and aligned blocks.
  \<^item> \<open>ResourceSpec\<close>: the contract of an allocator as a locale, with the safety of every history of requests
    proved once; \<open>PageAllocator\<close> interprets it and \<open>IdPool\<close> proves it for its pools.
  \<^item> \<open>EarlyPages\<close> (\<open>EarlyPageAllocator.cc\<close>, \<open>E820.h\<close>, the two passes of \<open>Main.cc\<close>): a list of
    ranges, \<open>FreeMemoryRange\<close>, \<open>AllocatePage\<close>, \<open>SetNidRange\<close>, \<open>ReleaseFreePages\<close>.
  \<^item> \<open>MemMap\<close>, \<open>MemSections\<close> (\<open>MemMap.h\<close>, \<open>MemMap.cc\<close>, \<open>Numa.cc\<close>): nodes, sections and descriptors.  The
    allocators see the memory map as a partial function; \<open>MemSections\<close> models the encoding of the sections
    and shows that every frame has a descriptor of its own.
  \<^item> \<open>PageAllocator\<close> (\<open>PageAllocator.cc\<close>): free lists by order, \<open>AllocLocal\<close>, \<open>Free\<close>, start-up, self checks.
  \<^item> \<open>NodePages\<close>: the page allocators of all nodes over the shared descriptors.
  \<^item> \<open>SlabAllocator\<close> (\<open>SlabAllocator.cc\<close>): the caches of all roots, processors and nodes, the slab data of the
    descriptors, remote frees and the destructor of a root.  \<open>SlabInv\<close> states the invariant (every object of every slab
    is in one place), \<open>SlabSafety\<close> proves it for every operation and interprets the contract of
    \<open>ResourceSpec\<close>, \<open>SlabHistories\<close> has the properties.  \<open>GpAllocator\<close> (\<open>GeneralPurposeAllocator.h\<close>): size classes.
  \<^item> \<open>PageTables\<close> (\<open>VMem.h\<close>, \<open>VMem.cc\<close>, \<open>Trans.cc\<close>, the stack faults of \<open>EventManager.cc\<close>): entries as
    64-bit words in physical memory, \<open>TraversePageTable\<close>, mapping and faults, against the walk that the processor
    does (\<open>hw_walk\<close>).  The source of frames is a locale, interpreted on the early and on the page allocator.
  \<^item> \<open>VMemRegions\<close> (\<open>VMemAllocator.cc\<close>): the ordered map of regions with the three \<open>Alloc\<close> functions and faults.
  \<^item> \<open>IdPool\<close> (\<open>SharedPoolAllocator.h\<close>, \<open>EbbAllocator.cc\<close>): ports and Ebb identifiers.
  \<^item> \<open>IOBuf\<close> (\<open>IOBuf.h\<close>, \<open>IOBuf.cc\<close>, \<open>IOBufRef.cc\<close>, \<open>UniqueIOBuf.cc\<close>): circular chains in an explicit store
    of nodes, with shared and unique views of byte arrays.
  \<^item> \<open>NetChecksum\<close> (\<open>NetChecksum.cc\<close>): the unrolled sum with its carry chains.
  \<^item> \<open>NetTcp\<close> (\<open>NetTcp.cc\<close>, \<open>NetTcp.h\<close>): a connection as a record with the transmitted segments and the upcalls as
    logs; \<open>NetTcpSend\<close>, \<open>NetTcpRecv\<close> and \<open>NetTcpState\<close> prove the properties of the two halves and of the states.
  \<^item> \<open>NetIp\<close>, \<open>NetStack\<close>, \<open>NetUdp\<close>, \<open>NetConn\<close>, \<open>NetArp\<close> (\<open>NetIp.cc\<close>, \<open>NetEth.cc\<close>, \<open>NetEth.h\<close>, \<open>NetIcmp.cc\<close>, \<open>NetUdp.cc\<close>, \<open>Net.cc\<close>, and the
    demultiplexing of \<open>NetTcp.cc\<close>): packets as bytes, two machines joined by a wire, and
    the interleavings of senders with ARP replies as steps made of the parts of \<open>EthArpSend\<close> and \<open>SetAddr\<close>.
  \<^item> \<open>RcuList\<close>, \<open>RcuTable\<close> (\<open>RcuList.h\<close>, \<open>RcuTable.h\<close>): each change is the sequence of its stores; readers take their
    steps between any two of them.  The table implements the locale \<open>keyed_table\<close>.
  \<^item> \<open>GracePeriod\<close>: the abstract machine of read-copy-update.  \<open>EventManager\<close> (\<open>EventManager.cc\<close>): the
    representatives of all processors with contexts, stacks of calls, queues and generations, as a step
    relation.  \<open>EventRcu\<close> proves that it implements \<open>GracePeriod\<close>; \<open>EventStacks\<close> that contexts own their stacks.

  \<^bold>\<open>What is proved.\<close>  The properties are the theorems whose text starts with C1 to C40.
  \<^item> Allocators: histories of requests are free of faults and what is held is disjoint (C1,
    C2, C11, C28), the functions have their exact effect on the free
    sets (C25, C7, C15, C16, C17), requests of any
    size class come and go (C13), and descriptors and stacks do not overlap (C18, C21).
  \<^item> Address translation: what \<open>MapMemory\<close> and a stack fault do to the translation of every address
    (C12, C19).
  \<^item> Events: grace periods (C3), homes of contexts (C22), and the loss of grace periods after
    an activation (C23).
  \<^item> Lists read during changes (C9), table histories against a map (C10), growing
    (C33, C34).
  \<^item> Buffers: reading and joining chains (C8, C27); the checksum against the
    reference sum (C6).
  \<^item> TCP: delivery of the stream (C4), retention of unacknowledged data (C5), flow
    control (C14), progress (C20), the diagram of RFC 793 (C26), sequence
    comparisons (C29), and two deviations (C31, C32).
  \<^item> Packets between machines: UDP (C35), ICMP (C36), ARP (C37), segments and SYNs (C39, C40).
  \<^item> C23, C30, C24, C38, C31, C32,
    C34 and parts of C36 and C40 state what the code does where it does
    not do what it means to; so does the lemma \<open>root_delete_leaks\<close> about the destructor of a slab root.

  \<^bold>\<open>Bounds and fuel.\<close>  Loops are recursive functions with a termination proof, by the orders (C16), by the distance to
  the end, or by the number of reserved ranges (\<open>FreeMemoryRange\<close>).  The walks of \<open>IOBuf\<close> and of the
  buckets follow pointers and may run for ever on a malformed structure: they are partial functions with
  the value \<open>None\<close> for a walk that does not end, and the theorems prove that they return.  \<open>SlabCache::Alloc\<close>
  retries at most once, since a retry clears the flag it tests, and its trimming loop shortens a list: the fuel of both is
  shown to be enough.  Machine integers wrap where the code lets
  them; theorems with a bound state it (a stream or a window below \<open>2 ^ 31\<close> or \<open>2 ^ 32\<close>, frames below \<open>2 ^ 52\<close>,
  data to sum below \<open>2 ^ 38\<close> bytes).

  \<^bold>\<open>Parameters.\<close>  \<open>boost::icl\<close> interval sets are not part of the sources; \<open>IdPool\<close> and \<open>EarlyPages\<close> take their operations with
  the documented laws as a hypothesis, and the witnesses use lists and intervals that satisfy them.  Hash functions, keys and the
  application's handlers are parameters too.

  \<^bold>\<open>Not modelled.\<close>
  \<^item> Regions above 8 MB of the general purpose allocator (an argument of the model) and the construction of the allocators' own
    representatives at their first use.
  \<^item> Registers, instructions and devices: assembly (\<open>Boot.S\<close>, \<open>Isr.S\<close>, \<open>Stack.S\<close>, \<open>Memcpy.S\<close>), interrupt controllers, PCI, ACPI,
    clocks, the serial line, performance counters and the virtio devices, whose behaviour is the other half of the code.
  \<^item> Start-up of the runtime, thread-local storage and the C library glue (\<open>Newlib.cc\<close>, \<open>Gthread.cc\<close>), which call code outside
    the sources.
  \<^item> \<open>Future.h\<close>, \<open>MoveLambda.h\<close>, \<open>MulticoreEbb.h\<close> and the other templates over types and closures of the client.
  \<^item> Messages between machines and the maps of identifiers, which stand on Cap'n Proto and on concurrent maps of a library.
  \<^item> The hosted platform, which is calls to Boost.Asio and to tools of the host; the applications, \<open>libs\<close> (with lwIP and ZooKeeper), tools and
    build files.
  \<^item> Memory orderings weaker than the order of the program, the translation cache of the processor, and interrupts inside
    operations that run with a lock held.
\<close>

end
